(* ===== verification/Prelude.thy ===== *)
theory Prelude
  imports Main "HOL-Library.Word" "HOL-Library.AList" "HOL-Library.Char_ord"
    "HOL-Library.List_Lexorder" "HOL-Library.Product_Lexorder" "HOL-Library.Sublist"
    "HOL-Library.Multiset"
begin

text \<open>
  What every component shares: the Go scalars (signed 64-bit wrap-around, points in time,
  durations), decimal formatting and parsing as \<^verbatim>\<open>fmt\<close> and \<^verbatim>\<open>strconv\<close> do it, the string
  functions of package \<^verbatim>\<open>strings\<close> the code calls, and generic lemmas on association lists and
  sorted lists.
\<close>

section \<open>Automation shared by the components\<close>

named_theorems store_simps \<open>how an operation of a store acts on one row, on suspension and on counters\<close>
named_theorems frame_simps \<open>fields an operation leaves alone\<close>

section \<open>Go scalars\<close>

text \<open>
  Go's \<^verbatim>\<open>int\<close>, \<^verbatim>\<open>int64\<close> and \<^verbatim>\<open>time.Duration\<close> are signed 64-bit. They are integers here, and
  arithmetic whose overflow matters is wrapped by \<open>wrap64\<close>. A \<^verbatim>\<open>uint64\<close> is a \<open>64 word\<close>.
\<close>

type_synonym uint64 = "64 word"
type_synonym duration = int
type_synonym bytes = string

definition min_int64 :: int where "min_int64 = - 9223372036854775808"
definition max_int64 :: int where "max_int64 = 9223372036854775807"

definition wrap64 :: "int \<Rightarrow> int" where
  "wrap64 x = (x + 9223372036854775808) mod 18446744073709551616 - 9223372036854775808"

definition int64 :: "int \<Rightarrow> bool" where
  "int64 x \<longleftrightarrow> min_int64 \<le> x \<and> x \<le> max_int64"

lemma wrap64_id: "int64 x \<Longrightarrow> wrap64 x = x"
  by (simp add: wrap64_def int64_def min_int64_def max_int64_def)

lemma wrap64_range: "int64 (wrap64 x)"
  by (simp add: wrap64_def int64_def min_int64_def max_int64_def)

lemma wrap64_cong: "wrap64 x = wrap64 y \<longleftrightarrow> x mod 18446744073709551616 = y mod 18446744073709551616"
  by (simp add: wrap64_def mod_eq_dvd_iff)

text \<open>
  A \<^verbatim>\<open>time.Time\<close> is the number of nanoseconds since Go's zero time (1 January of year 1, UTC),
  so \<^verbatim>\<open>time.Time{}\<close> is 0 and \<^verbatim>\<open>t.IsZero()\<close> is \<open>t = 0\<close>. A \<^verbatim>\<open>time.Time\<close> holds whole seconds in 64
  bits, so adding a duration does not overflow for any time the code can meet.
\<close>

type_synonym gotime = int

definition zero_time :: gotime where "zero_time = 0"

definition IsZero :: "gotime \<Rightarrow> bool" where "IsZero t \<longleftrightarrow> t = zero_time"

definition time_Add :: "gotime \<Rightarrow> duration \<Rightarrow> gotime" where "time_Add t d = t + d"

definition neg_duration :: "duration \<Rightarrow> duration" where "neg_duration d = wrap64 (- d)"

definition nanosecond :: duration where "nanosecond = 1"
definition millisecond :: duration where "millisecond = 1000000"
definition second :: duration where "second = 1000000000"
definition minute :: duration where "minute = 60 * second"
definition hour :: duration where "hour = 60 * minute"

lemmas duration_defs = millisecond_def second_def minute_def hour_def

text \<open>\<^verbatim>\<open>t.Unix()\<close>: whole seconds since 1970, that is 62135596800 seconds after the zero time.\<close>

definition time_Unix :: "gotime \<Rightarrow> int" where
  "time_Unix t = t div 1000000000 - 62135596800"

definition time_of_Unix :: "int \<Rightarrow> gotime" where
  "time_of_Unix ts = (ts + 62135596800) * 1000000000"

lemma time_Unix_of_Unix [simp]: "time_Unix (time_of_Unix ts) = ts"
  by (simp add: time_Unix_def time_of_Unix_def)

section \<open>Decimal numbers, as fmt and strconv write and read them\<close>

definition digit_char :: "nat \<Rightarrow> char" where "digit_char n = char_of (48 + n)"

definition is_digit :: "char \<Rightarrow> bool" where
  "is_digit c \<longleftrightarrow> 48 \<le> (of_char c :: nat) \<and> (of_char c :: nat) \<le> 57"

definition digit_val :: "char \<Rightarrow> nat" where "digit_val c = of_char c - 48"

fun show_nat :: "nat \<Rightarrow> string" where
  "show_nat n = (if n < 10 then [digit_char n] else show_nat (n div 10) @ [digit_char (n mod 10)])"

declare show_nat.simps [simp del]

definition show_int :: "int \<Rightarrow> string" where
  "show_int i = (if i < 0 then CHR ''-'' # show_nat (nat (- i)) else show_nat (nat i))"

definition read_digits :: "string \<Rightarrow> nat" where
  "read_digits s = foldl (\<lambda>n c. 10 * n + digit_val c) 0 s"

lemma is_digit_digit_char [simp]: "n < 10 \<Longrightarrow> is_digit (digit_char n)"
  by (simp add: is_digit_def digit_char_def)

lemma digit_val_digit_char [simp]: "n < 10 \<Longrightarrow> digit_val (digit_char n) = n"
  by (simp add: digit_val_def digit_char_def)

lemma show_nat_nonempty [simp]: "show_nat n \<noteq> []"
  by (subst show_nat.simps) simp

lemma show_nat_digits: "c \<in> set (show_nat n) \<Longrightarrow> is_digit c"
proof (induction n rule: show_nat.induct)
  case (1 n)
  then show ?case
    by (cases "n < 10") (auto simp: show_nat.simps [of n])
qed

lemma read_digits_append1: "read_digits (s @ [c]) = 10 * read_digits s + digit_val c"
  by (simp add: read_digits_def)

lemma read_show_nat [simp]: "read_digits (show_nat n) = n"
proof (induction n rule: show_nat.induct)
  case (1 n)
  then show ?case
    by (cases "n < 10") (simp_all add: show_nat.simps [of n] read_digits_append1, simp add: read_digits_def)
qed

lemma show_nat_inject [simp]: "show_nat m = show_nat n \<longleftrightarrow> m = n"
  by (metis read_show_nat)

lemma hd_show_nat_digit: "is_digit (hd (show_nat n))"
  by (rule show_nat_digits [of _ n]) simp

lemma show_int_inject [simp]: "show_int i = show_int j \<longleftrightarrow> i = j"
proof -
  have sep: "CHR ''-'' # s \<noteq> show_nat n" for s n
    using hd_show_nat_digit [of n] by (auto simp: is_digit_def dest: sym)
  show ?thesis
    by (auto simp: show_int_def sep sep [symmetric])
qed

lemma show_int_chars: "c \<in> set (show_int i) \<Longrightarrow> is_digit c \<or> c = CHR ''-''"
  by (auto simp: show_int_def dest: show_nat_digits split: if_splits)

lemma show_int_nonempty [simp]: "show_int i \<noteq> []"
  by (simp add: show_int_def)

text \<open>\<^verbatim>\<open>strconv.ParseInt(s, 10, 64)\<close>: an optional sign, at least one digit, nothing else, in range.\<close>

definition parse_unsigned :: "string \<Rightarrow> nat option" where
  "parse_unsigned s = (if s \<noteq> [] \<and> list_all is_digit s then Some (read_digits s) else None)"

definition ParseInt :: "string \<Rightarrow> int option" where
  "ParseInt s =
     (let neg = (s \<noteq> [] \<and> hd s = CHR ''-'');
          body = (if s \<noteq> [] \<and> (hd s = CHR ''-'' \<or> hd s = CHR ''+'') then tl s else s)
      in case parse_unsigned body of
           None \<Rightarrow> None
         | Some n \<Rightarrow> (let i = (if neg then - int n else int n) in if int64 i then Some i else None))"

lemma parse_unsigned_show_nat [simp]: "parse_unsigned (show_nat n) = Some n"
  by (auto simp: parse_unsigned_def list_all_iff dest: show_nat_digits)

lemma ParseInt_show_int: "int64 i \<Longrightarrow> ParseInt (show_int i) = Some i"
proof -
  assume i: "int64 i"
  have "\<not> (hd (show_nat n) = CHR ''-'' \<or> hd (show_nat n) = CHR ''+'')" for n
    using hd_show_nat_digit [of n] by (auto simp: is_digit_def)
  with i show ?thesis
    by (auto simp: ParseInt_def show_int_def Let_def)
qed

text \<open>
  \<^verbatim>\<open>%d\<close> of \<^verbatim>\<open>fmt.Sscanf\<close>: blanks are skipped, then an optional sign and the longest run of
  digits are read; what follows is left unread.
\<close>

definition is_blank :: "char \<Rightarrow> bool" where
  "is_blank c \<longleftrightarrow> of_char c \<in> {9, 11, 12, 13, 32 :: nat}"

definition scan_int :: "string \<Rightarrow> int option" where
  "scan_int s =
     (let t = dropWhile is_blank s;
          sign = (if t \<noteq> [] \<and> (hd t = CHR ''-'' \<or> hd t = CHR ''+'') then [hd t] else []);
          digits = takeWhile is_digit (drop (length sign) t)
      in ParseInt (sign @ digits))"

lemma scan_int_show_int: "int64 i \<Longrightarrow> scan_int (show_int i) = Some i"
proof -
  assume i: "int64 i"
  have tw: "takeWhile is_digit (show_nat n) = show_nat n" for n
    by (auto simp: takeWhile_eq_all_conv dest: show_nat_digits)
  have hd: "hd (show_nat n) \<noteq> CHR ''-''" "hd (show_nat n) \<noteq> CHR ''+''" "\<not> is_blank (hd (show_nat n))" for n
    using hd_show_nat_digit [of n] by (auto simp: is_digit_def is_blank_def)
  have dw: "dropWhile is_blank (show_nat n) = show_nat n" for n
    using hd(3) [of n] by (cases "show_nat n") auto
  have "scan_int (show_int i) = ParseInt (show_int i)"
    by (simp add: scan_int_def show_int_def Let_def dw tw hd) (simp add: is_blank_def)
  with i show ?thesis by (simp add: ParseInt_show_int)
qed

section \<open>Package strings\<close>

definition HasPrefix :: "string \<Rightarrow> string \<Rightarrow> bool" where
  "HasPrefix s p \<longleftrightarrow> take (length p) s = p"

definition TrimPrefix :: "string \<Rightarrow> string \<Rightarrow> string" where
  "TrimPrefix s p = (if HasPrefix s p then drop (length p) s else s)"

fun LastIndex :: "string \<Rightarrow> string \<Rightarrow> nat option" where
  "LastIndex [] p = (if p = [] then Some 0 else None)"
| "LastIndex (c # cs) p =
     (case LastIndex cs p of
        Some i \<Rightarrow> Some (Suc i)
      | None \<Rightarrow> (if HasPrefix (c # cs) p then Some 0 else None))"

text \<open>\<^verbatim>\<open>strings.Split\<close> with a one-character separator; the result is never empty.\<close>

fun Split :: "string \<Rightarrow> char \<Rightarrow> string list" where
  "Split [] sep = [[]]"
| "Split (c # cs) sep =
     (if c = sep then [] # Split cs sep
      else (case Split cs sep of [] \<Rightarrow> [[c]] | w # ws \<Rightarrow> (c # w) # ws))"

text \<open>\<^verbatim>\<open>strings.TrimSpace\<close> on ASCII text.\<close>

definition is_space :: "char \<Rightarrow> bool" where
  "is_space c \<longleftrightarrow> of_char c \<in> {9, 10, 11, 12, 13, 32 :: nat}"

definition TrimSpace :: "string \<Rightarrow> string" where
  "TrimSpace s = rev (dropWhile is_space (rev (dropWhile is_space s)))"

lemma HasPrefix_append [simp]: "HasPrefix (p @ s) p"
  by (simp add: HasPrefix_def)

lemma TrimPrefix_append [simp]: "TrimPrefix (p @ s) p = s"
  by (simp add: TrimPrefix_def)

lemma Split_nonempty [simp]: "Split s sep \<noteq> []"
  by (cases s) (simp_all split: list.split)

lemma Split_no_sep: "sep \<notin> set s \<Longrightarrow> Split s sep = [s]"
  by (induction s) auto

lemma Split_append: "sep \<notin> set s \<Longrightarrow> Split (s @ sep # t) sep = s # Split t sep"
  by (induction s) auto

lemma dropWhile_none: "\<forall>x \<in> set xs. \<not> P x \<Longrightarrow> dropWhile P xs = xs"
  by (cases xs) auto

lemma TrimSpace_id: "\<forall>c \<in> set s. \<not> is_space c \<Longrightarrow> TrimSpace s = s"
  by (simp add: TrimSpace_def dropWhile_none)

lemma LastIndex_None:
  "LastIndex s p = None \<Longrightarrow> i \<le> length s \<Longrightarrow> \<not> HasPrefix (drop i s) p"
proof (induction s arbitrary: i)
  case Nil
  then show ?case by (auto simp: HasPrefix_def split: if_splits)
next
  case (Cons c cs)
  then show ?case
    by (cases i) (auto split: option.splits if_splits)
qed

lemma LastIndex_append:
  assumes "LastIndex (drop 1 s) p = None" and "HasPrefix s p" and "s \<noteq> []"
  shows "LastIndex (t @ s) p = Some (length t)"
proof -
  obtain c cs where s: "s = c # cs" using assms(3) by (cases s) auto
  have "LastIndex s p = Some 0" using assms by (simp add: s)
  then show ?thesis by (induction t) auto
qed

lemma LastIndex_no_head:
  assumes "\<And>c. c \<in> set s \<Longrightarrow> c \<noteq> hd p" and "p \<noteq> []"
  shows "LastIndex s p = None"
  using assms
proof (induction s)
  case Nil
  then show ?case by simp
next
  case (Cons c cs)
  then show ?case by (cases p) (auto simp: HasPrefix_def)
qed

section \<open>Association lists, the model of Go maps\<close>

lemma map_of_SomeD_key: "map_of al k = Some v \<Longrightarrow> k \<in> set (map fst al)"
  by (metis dom_map_of_conv_image_fst domI list.set_map)

lemma map_of_key_Some: "k \<in> set (map fst al) \<Longrightarrow> \<exists>v. map_of al k = Some v"
  by (metis domD dom_map_of_conv_image_fst list.set_map)

lemma map_of_map_entry [store_simps]:
  "map_of (AList.map_entry k f al) = (map_of al)(k := map_option f (map_of al k))"
  by (induction al) (auto simp: fun_eq_iff)

lemma keys_map_entry [simp, frame_simps]: "map fst (AList.map_entry k f al) = map fst al"
  by (induction al) auto

lemma sorted_wrt_filter_take_head:
  "sorted (x # xs) \<Longrightarrow> y \<in> set xs \<Longrightarrow> x \<le> y"
  by simp

end
