(* ===== verification/Hash.thy ===== *)
theory Hash
  imports Prelude
begin

text \<open>
  Package \<^verbatim>\<open>internal/hash\<close>: the 64-bit FNV-1a hash of the subscriber ID, reduced to a partition.
\<close>

unbundle bit_operations_syntax

definition DefaultPartitions :: int where
  "DefaultPartitions = 256"

text \<open>\<^verbatim>\<open>hash/fnv\<close>: \<^verbatim>\<open>fnv.New64a\<close> starts at the offset basis; \<^verbatim>\<open>Write\<close> xors each byte and multiplies.\<close>

definition fnv_offset64 :: uint64 where "fnv_offset64 = 14695981039346656037"
definition fnv_prime64 :: uint64 where "fnv_prime64 = 1099511628211"

fun fnv64a_write :: "uint64 \<Rightarrow> bytes \<Rightarrow> uint64" where
  "fnv64a_write h [] = h"
| "fnv64a_write h (c # cs) = fnv64a_write ((h XOR of_nat (of_char c)) * fnv_prime64) cs"

definition fnv64a :: "bytes \<Rightarrow> uint64" where
  "fnv64a s = fnv64a_write fnv_offset64 s"

text \<open>\<^verbatim>\<open>int(h.Sum64() % uint64(partitions))\<close>: the final conversion reads the word as signed.\<close>

definition hash_Partition :: "string \<Rightarrow> int \<Rightarrow> int" where
  "hash_Partition subscriberID partitions =
     (let partitions = (if partitions \<le> 0 then DefaultPartitions else partitions)
      in sint (fnv64a subscriberID mod word_of_int partitions))"

lemma sint_mod_word:
  assumes "0 < p" and "p \<le> max_int64"
  shows "sint (h mod word_of_int p :: uint64) = uint h mod p"
proof -
  have p: "uint (word_of_int p :: uint64) = p"
    using assms by (simp add: uint_word_of_int max_int64_def)
  have u: "uint (h mod word_of_int p :: uint64) = uint h mod p"
    by (simp add: uint_mod p)
  have "uint h mod p < p"
    using assms by simp
  also have "p < 2 ^ 63"
    using assms by (simp add: max_int64_def)
  finally have "uint h mod p < 2 ^ 63" .
  moreover have "0 \<le> uint h mod p" using assms by simp
  ultimately have "signed_take_bit 63 (uint h mod p) = uint h mod p"
    by (intro signed_take_bit_int_eq_self) simp_all
  then show ?thesis by (simp add: sint_uint u)
qed

lemma hash_Partition_range:
  assumes "partitions \<le> max_int64"
  shows "0 \<le> hash_Partition s partitions"
    and "hash_Partition s partitions < (if partitions \<le> 0 then DefaultPartitions else partitions)"
  using assms by (simp_all add: hash_Partition_def Let_def sint_mod_word DefaultPartitions_def max_int64_def)

lemma hash_Partition_default: "partitions \<le> 0 \<Longrightarrow> hash_Partition s partitions = hash_Partition s 256"
  by (simp add: hash_Partition_def DefaultPartitions_def)

text \<open>
  Claim C32. Whatever the subscriber ID, the partition lies in the configured range (the default
  range when the argument is not positive), so it is always an index of the ownership table.
\<close>

theorem partition_in_range:
  assumes "partitions \<le> max_int64"
  shows "0 \<le> hash_Partition s partitions \<and>
         hash_Partition s partitions < (if partitions \<le> 0 then 256 else partitions)"
  using hash_Partition_range [OF assms, of s] by (simp add: DefaultPartitions_def split: if_splits)

theorem partition_in_range_witness:
  "hash_Partition ''a'' 256 = 140 \<and> 0 \<le> hash_Partition ''a'' 256 \<and> hash_Partition ''a'' 256 < 256"
proof -
  have "hash_Partition ''a'' 256 = 140" by code_simp
  then show ?thesis using partition_in_range [of 256 "''a''"] by (simp add: max_int64_def)
qed

end
