(* ===== verification/Backoff.thy ===== *)
theory Backoff
  imports Prelude
begin

text \<open>
  Package \<^verbatim>\<open>internal/backoff\<close>. \<open>Delay\<close> is the whole function; the random number
  \<^verbatim>\<open>rand.Int63n(n)\<close> is the argument \<open>rnd\<close>, of which the library promises \<open>0 \<le> rnd n < n\<close>.
\<close>

text \<open>
  The doubling loop \<^verbatim>\<open>for i := 1; i < attempt; i++\<close> with its two exits; \<open>n\<close> is the number of
  rounds left, \<open>attempt - i\<close>. The doubling wraps at 64 bits, and the code detects that.
\<close>

fun backoff_loop :: "nat \<Rightarrow> duration \<Rightarrow> duration \<Rightarrow> duration" where
  "backoff_loop 0 cap delay = delay"
| "backoff_loop (Suc n) cap delay =
     (if delay \<ge> cap then cap
      else let next = wrap64 (delay * 2)
           in if next > cap \<or> next < delay then cap
              else backoff_loop n cap next)"

definition backoff_delay :: "int \<Rightarrow> duration \<Rightarrow> duration \<Rightarrow> duration" where
  "backoff_delay attempt base cap =
     (let attempt = (if attempt < 1 then 1 else attempt);
          base = (if base \<le> 0 then second else base);
          cap = (if cap \<le> 0 then 15 * minute else cap);
          delay = backoff_loop (nat (attempt - 1)) cap base
      in if delay > cap then cap else delay)"

definition Delay :: "(int \<Rightarrow> int) \<Rightarrow> int \<Rightarrow> duration \<Rightarrow> duration \<Rightarrow> duration" where
  "Delay rnd attempt base cap =
     (let delay = backoff_delay attempt base cap;
          jitter = rnd (delay div 10 + 1)
      in wrap64 (delay + jitter))"

text \<open>The schedule the comment promises, over unbounded integers.\<close>

definition backoff_schedule :: "int \<Rightarrow> duration \<Rightarrow> duration \<Rightarrow> int" where
  "backoff_schedule attempt base cap =
     min (if cap \<le> 0 then 15 * minute else cap)
         ((if base \<le> 0 then second else base) * 2 ^ nat (attempt - 1))"

lemma wrap64_double_exceeds:
  assumes "0 < delay" "delay < cap" "int64 cap"
  shows "(wrap64 (delay * 2) > cap \<or> wrap64 (delay * 2) < delay) \<longleftrightarrow> delay * 2 > cap"
proof (cases "delay * 2 \<le> max_int64")
  case True
  then have "wrap64 (delay * 2) = delay * 2"
    using assms by (intro wrap64_id) (simp add: int64_def min_int64_def)
  then show ?thesis using assms by auto
next
  case False
  have "wrap64 (delay * 2) = delay * 2 - 18446744073709551616"
  proof -
    have "(delay * 2 + 9223372036854775808) mod 18446744073709551616
        = (delay * 2 - 9223372036854775808) mod 18446744073709551616"
      by (simp add: mod_eq_dvd_iff)
    also have "\<dots> = delay * 2 - 9223372036854775808"
      using False assms by (intro mod_pos_pos_trivial) (auto simp: int64_def max_int64_def)
    finally show ?thesis by (simp add: wrap64_def)
  qed
  then show ?thesis
    using False assms by (auto simp: int64_def max_int64_def)
qed

lemma backoff_loop_schedule:
  assumes "0 < delay" "int64 cap" "delay \<le> cap"
  shows "backoff_loop n cap delay = min cap (delay * 2 ^ n)"
  using assms
proof (induction n arbitrary: delay)
  case 0
  then show ?case by simp
next
  case (Suc n)
  have pow: "(1::int) \<le> 2 ^ n" by simp
  show ?case
  proof (cases "delay < cap \<and> delay * 2 \<le> cap")
    case True
    have "wrap64 (delay * 2) = delay * 2"
      using True Suc.prems by (intro wrap64_id) (auto simp: int64_def min_int64_def)
    with True Suc show ?thesis by (simp add: mult.assoc)
  next
    case False
    then have "cap \<le> delay * 2" using Suc.prems by auto
    also have "delay * 2 \<le> delay * 2 * 2 ^ n"
      using Suc.prems pow by (simp add: mult_le_cancel_left1)
    finally have "cap \<le> delay * 2 ^ Suc n" by (simp add: mult.assoc)
    moreover have "backoff_loop (Suc n) cap delay = cap"
      using False Suc.prems wrap64_double_exceeds [of delay cap] by (auto simp: Let_def)
    ultimately show ?thesis by simp
  qed
qed

lemma backoff_loop_capped: "cap < delay \<Longrightarrow> 0 < n \<Longrightarrow> backoff_loop n cap delay = cap"
  by (cases n) auto

lemma backoff_core:
  assumes b: "0 < b" and m: "int64 m"
  shows "(if backoff_loop n m b > m then m else backoff_loop n m b) = min m (b * 2 ^ n)"
proof (cases "b \<le> m")
  case True
  then show ?thesis using backoff_loop_schedule [OF b m True, of n] by auto
next
  case False
  have "(1::int) \<le> 2 ^ n" by simp
  then have "b \<le> b * 2 ^ n" using b by (simp add: mult_le_cancel_left1)
  then show ?thesis using False backoff_loop_capped [of m b n] by (cases "n = 0") auto
qed

lemma backoff_delay_schedule:
  assumes "int64 cap"
  shows "backoff_delay attempt base cap = backoff_schedule attempt base cap"
proof -
  have "nat ((if attempt < 1 then 1 else attempt) - 1) = nat (attempt - 1)" by simp
  moreover have "0 < (if base \<le> 0 then second else base)" by (simp add: second_def)
  moreover have "int64 (if cap \<le> 0 then 15 * minute else cap)"
    using assms by (simp add: int64_def min_int64_def max_int64_def duration_defs)
  ultimately show ?thesis
    by (simp only: backoff_delay_def backoff_schedule_def Let_def backoff_core)
qed

lemma backoff_schedule_bounds:
  "0 < backoff_schedule attempt base cap"
  "backoff_schedule attempt base cap \<le> (if cap \<le> 0 then 15 * minute else cap)"
  by (auto simp: backoff_schedule_def duration_defs)

text \<open>
  Claim C33. The 64-bit loop computes exactly the documented schedule
  \<^verbatim>\<open>min(max, base * 2^(attempt-1))\<close> for every attempt number and every base and cap, with no
  wrap-around, although the product is out of range for most attempt numbers.
\<close>

theorem backoff_computes_schedule:
  assumes "int64 cap"
  shows "backoff_delay attempt base cap =
    min (if cap \<le> 0 then 15 * minute else cap)
        ((if base \<le> 0 then second else base) * 2 ^ nat (attempt - 1))"
  using backoff_delay_schedule [OF assms] by (simp add: backoff_schedule_def)

theorem backoff_computes_schedule_witness:
  "int64 (8 * second) \<and> backoff_delay 3 second (8 * second) = 4 * second"
proof -
  have m: "int64 (8 * second)" by (simp add: int64_def min_int64_def max_int64_def second_def)
  show ?thesis
    using m backoff_computes_schedule [OF m, of 3 second] by (simp add: second_def)
qed

text \<open>
  With a cap of at most ten elevenths of the 64-bit range (265 years), the wait never
  wraps: it is at least the scheduled delay and exceeds it by at most 10 percent of jitter.
\<close>

theorem delay_within_jitter:
  assumes "int64 cap" and "cap \<le> 8384883669867978007"
    and "\<And>n. 0 < n \<Longrightarrow> 0 \<le> rnd n \<and> rnd n < n"
  shows "backoff_schedule attempt base cap \<le> Delay rnd attempt base cap \<and>
         Delay rnd attempt base cap
         \<le> backoff_schedule attempt base cap + backoff_schedule attempt base cap div 10"
proof -
  let ?d = "backoff_schedule attempt base cap"
  have d: "0 < ?d" "?d \<le> 8384883669867978007"
    using backoff_schedule_bounds [of attempt base cap] assms(2)
    by (auto simp: duration_defs split: if_splits)
  have r: "0 \<le> rnd (?d div 10 + 1)" "rnd (?d div 10 + 1) < ?d div 10 + 1"
    using assms(3) [of "?d div 10 + 1"] d by auto
  have "wrap64 (?d + rnd (?d div 10 + 1)) = ?d + rnd (?d div 10 + 1)"
    using d r by (intro wrap64_id) (simp add: int64_def min_int64_def max_int64_def)
  then have "Delay rnd attempt base cap = ?d + rnd (?d div 10 + 1)"
    by (simp add: Delay_def Let_def backoff_delay_schedule [OF assms(1)])
  with r show ?thesis by auto
qed

theorem delay_within_jitter_witness:
  "backoff_schedule 2 second (8 * second) \<le> Delay (\<lambda>n. n - 1) 2 second (8 * second) \<and>
   Delay (\<lambda>n. n - 1) 2 second (8 * second) = 2200000000"
proof -
  have "backoff_schedule 2 second (8 * second) \<le> Delay (\<lambda>n. n - 1) 2 second (8 * second)"
    by (rule delay_within_jitter [THEN conjunct1]) (auto simp: int64_def min_int64_def max_int64_def second_def)
  moreover have "Delay (\<lambda>n. n - 1) 2 second (8 * second) = 2200000000"
    by code_simp
  ultimately show ?thesis by simp
qed

end
