(* ===== verification/Ownership.thy ===== *)
theory Ownership
  imports Hash
begin

text \<open>
  \<^verbatim>\<open>partition.go\<close>: the map from partitions to worker owner tokens, and the owner tokens
  themselves. \<^verbatim>\<open>byOwner\<close> is a Go map (an association list with distinct keys), \<^verbatim>\<open>byPart\<close> a slice
  of length \<^verbatim>\<open>partitions\<close> written by index.
\<close>

record ownership =
  partitions :: int
  byOwner :: "(string \<times> int list) list"
  byPart :: "string list"
  overlap :: bool
  narrowed :: bool

datatype own_error =
    EWorkers
  | EClaimRange int int
  | EClaimDuplicate int

section \<open>Owner tokens\<close>

definition worker_prefix :: string where "worker_prefix = ''worker-''"

definition ownerID :: "int \<Rightarrow> string" where
  "ownerID i = worker_prefix @ show_int i"

definition claimOwnerID :: "string \<Rightarrow> string \<Rightarrow> int \<Rightarrow> string" where
  "claimOwnerID nodeID incarnation w =
     (if nodeID = [] then ownerID w
      else nodeID @ ''/'' @ incarnation @ ''/'' @ worker_prefix @ show_int w)"

text \<open>
  \<^verbatim>\<open>fmt.Sscanf(rest, "worker-%d", &n)\<close> reads the literal, which is there because \<open>rest\<close> starts at
  its last occurrence, and then a number; comparing with the number printed again rejects every
  non-canonical spelling.
\<close>

definition parseOwnerIndex :: "string \<Rightarrow> int option" where
  "parseOwnerIndex owner =
     (case LastIndex owner worker_prefix of
        None \<Rightarrow> None
      | Some i \<Rightarrow>
          if i > 0 \<and> owner ! (i - 1) \<noteq> CHR ''/'' then None
          else let rest = drop i owner in
            (case scan_int (TrimPrefix rest worker_prefix) of
               None \<Rightarrow> None
             | Some n \<Rightarrow> if rest \<noteq> worker_prefix @ show_int n then None else Some n))"

lemma worker_prefix_nonempty [simp]: "worker_prefix \<noteq> []"
  by (simp add: worker_prefix_def)

lemma LastIndex_worker: "LastIndex (t @ worker_prefix @ show_int w) worker_prefix = Some (length t)"
proof (rule LastIndex_append)
  have "c \<noteq> CHR ''w''" if "c \<in> set (tl worker_prefix @ show_int w)" for c
    using that show_int_chars [of c w] by (auto simp: is_digit_def worker_prefix_def)
  then have "LastIndex (tl worker_prefix @ show_int w) worker_prefix = None"
    by (intro LastIndex_no_head) (auto simp: worker_prefix_def)
  then show "LastIndex (drop 1 (worker_prefix @ show_int w)) worker_prefix = None"
    by (simp add: worker_prefix_def)
qed simp_all

lemma parseOwnerIndex_token:
  assumes "int64 w" and "t = [] \<or> last t = CHR ''/''"
  shows "parseOwnerIndex (t @ worker_prefix @ show_int w) = Some w"
proof -
  have "t \<noteq> [] \<Longrightarrow> (t @ s) ! (length t - 1) = last t" for s
    by (simp add: last_conv_nth nth_append)
  from this [of "worker_prefix @ show_int w"]
  have "\<not> (length t > 0 \<and> (t @ worker_prefix @ show_int w) ! (length t - 1) \<noteq> CHR ''/'')"
    using assms(2) by (cases "t = []") simp_all
  then show ?thesis
    using assms(1)
    by (simp add: parseOwnerIndex_def LastIndex_worker scan_int_show_int Let_def del: One_nat_def)
qed

lemma parse_claimOwnerID: "int64 w \<Longrightarrow> parseOwnerIndex (claimOwnerID nodeID inc w) = Some w"
  using parseOwnerIndex_token [of w "[]"] parseOwnerIndex_token [of w "nodeID @ ''/'' @ inc @ ''/''"]
  by (simp add: claimOwnerID_def ownerID_def)

lemma claimOwnerID_nonempty [simp]: "claimOwnerID nodeID inc w \<noteq> []"
  by (simp add: claimOwnerID_def ownerID_def)

lemma claimOwnerID_inject [simp]:
  "claimOwnerID nodeID inc v = claimOwnerID nodeID inc w \<longleftrightarrow> v = w"
  by (auto simp: claimOwnerID_def ownerID_def)

lemma parseOwnerIndex_shape:
  assumes "parseOwnerIndex owner = Some n"
  shows "\<exists>t. owner = t @ ownerID n \<and> (t = [] \<or> last t = CHR ''/'')"
proof -
  obtain i where i: "LastIndex owner worker_prefix = Some i"
    and g: "\<not> (i > 0 \<and> owner ! (i - 1) \<noteq> CHR ''/'')"
    and r: "drop i owner = ownerID n"
    using assms by (auto simp: parseOwnerIndex_def Let_def ownerID_def split: option.splits if_splits)
  have "i < length owner"
  proof (rule ccontr)
    assume "\<not> i < length owner"
    then have "drop i owner = []" by simp
    with r show False by (simp add: ownerID_def)
  qed
  then have "last (take i owner) = owner ! (i - 1)" if "i > 0"
    using that by (subst last_conv_nth) auto
  moreover have "owner = take i owner @ ownerID n" using r by (metis append_take_drop_id)
  ultimately show ?thesis using g by (intro exI [of _ "take i owner"]) auto
qed

section \<open>Building the map\<close>

fun check_claim :: "int \<Rightarrow> int list \<Rightarrow> int set \<Rightarrow> own_error option" where
  "check_claim n [] seen = None"
| "check_claim n (p # ps) seen =
     (if p < 0 \<or> p \<ge> n then Some (EClaimRange p n)
      else if p \<in> seen then Some (EClaimDuplicate p)
      else check_claim n ps (insert p seen))"

text \<open>The inner loop of one worker over the universe: position \<open>i\<close>, partition \<open>p\<close>.\<close>

fun claim_slice :: "int \<Rightarrow> int \<Rightarrow> string \<Rightarrow> nat \<Rightarrow> int list \<Rightarrow> int list \<Rightarrow> string list \<Rightarrow> int list \<times> string list" where
  "claim_slice workers w tok i [] parts bp = (parts, bp)"
| "claim_slice workers w tok i (p # ps) parts bp =
     (if int i mod workers = w
      then claim_slice workers w tok (Suc i) ps (parts @ [p]) (bp[nat p := tok])
      else claim_slice workers w tok (Suc i) ps parts bp)"

text \<open>One round of the outer loop, and the loop over the workers \<open>ws\<close> still to be served.\<close>

definition add_worker :: "int \<Rightarrow> int list \<Rightarrow> string \<Rightarrow> string \<Rightarrow> int \<Rightarrow> ownership \<Rightarrow> ownership" where
  "add_worker workers us nodeID inc w o1 =
     (let tok = claimOwnerID nodeID inc w;
          r = (if overlap o1 then (us, byPart o1)
               else claim_slice workers w tok 0 us [] (byPart o1))
      in o1\<lparr>byPart := snd r, byOwner := AList.update tok (fst r) (byOwner o1)\<rparr>)"

fun build_workers :: "int \<Rightarrow> int list \<Rightarrow> int list \<Rightarrow> string \<Rightarrow> string \<Rightarrow> ownership \<Rightarrow> ownership" where
  "build_workers workers [] us nodeID inc o1 = o1"
| "build_workers workers (w # ws) us nodeID inc o1 =
     build_workers workers ws us nodeID inc (add_worker workers us nodeID inc w o1)"

text \<open>A partition count that is not positive selects the default.\<close>

definition effective_partitions :: "int \<Rightarrow> int" where
  "effective_partitions nparts = (if nparts \<le> 0 then DefaultPartitions else nparts)"

definition buildOwnership ::
  "int \<Rightarrow> int \<Rightarrow> bool \<Rightarrow> int list option \<Rightarrow> string \<Rightarrow> string \<Rightarrow> own_error + ownership" where
  "buildOwnership workers nparts ovl claim nodeID incarnation =
     (if workers \<le> 0 then Inl EWorkers
      else let n = effective_partitions nparts;
               us = (case claim of None \<Rightarrow> [0..n - 1] | Some c \<Rightarrow> c)
           in case (case claim of None \<Rightarrow> None | Some c \<Rightarrow> check_claim n c {}) of
                Some err \<Rightarrow> Inl err
              | None \<Rightarrow> Inr (build_workers workers [0..workers - 1] us nodeID incarnation
                  \<lparr>partitions = n, byOwner = [], byPart = replicate (nat n) [],
                   overlap = ovl, narrowed = (claim \<noteq> None)\<rparr>))"

definition partitionsFor :: "ownership \<Rightarrow> string \<Rightarrow> int list" where
  "partitionsFor o1 owner = (case map_of (byOwner o1) owner of None \<Rightarrow> [] | Some ps \<Rightarrow> ps)"

definition ownerOf :: "ownership \<Rightarrow> int \<Rightarrow> string option" where
  "ownerOf o1 p =
     (if overlap o1 \<or> p < 0 \<or> p \<ge> int (length (byPart o1)) then None
      else let tok = byPart o1 ! nat p in if tok \<noteq> [] then Some tok else None)"

text \<open>\<^verbatim>\<open>owners()\<close> ranges over the map, in an order \<open>\<pi>\<close> the runtime chooses.\<close>

definition owners :: "(string list \<Rightarrow> string list) \<Rightarrow> ownership \<Rightarrow> string list" where
  "owners \<pi> o1 = \<pi> (map fst (byOwner o1))"

section \<open>What the loops compute\<close>

definition slice_of :: "int \<Rightarrow> int \<Rightarrow> nat \<Rightarrow> int list \<Rightarrow> int list" where
  "slice_of workers w i ps = map snd (filter (\<lambda>(j, p). int j mod workers = w) (enumerate i ps))"

lemma slice_of_simps [simp]:
  "slice_of workers w i [] = []"
  "slice_of workers w i (p # ps) =
     (if int i mod workers = w then p # slice_of workers w (Suc i) ps else slice_of workers w (Suc i) ps)"
  by (simp_all add: slice_of_def)

lemma claim_slice_parts: "fst (claim_slice workers w tok i ps parts bp) = parts @ slice_of workers w i ps"
  by (induction ps arbitrary: i parts bp) auto

lemma claim_slice_length: "length (snd (claim_slice workers w tok i ps parts bp)) = length bp"
  by (induction ps arbitrary: i parts bp) auto

definition touches :: "int \<Rightarrow> int \<Rightarrow> nat \<Rightarrow> int list \<Rightarrow> nat \<Rightarrow> bool" where
  "touches workers w i ps q \<longleftrightarrow> (\<exists>j < length ps. int (i + j) mod workers = w \<and> nat (ps ! j) = q)"

lemma touches_simps [simp]:
  "touches workers w i [] q = False"
  "touches workers w i (p # ps) q = ((int i mod workers = w \<and> nat p = q) \<or> touches workers w (Suc i) ps q)"
  by (simp_all add: touches_def Ex_less_Suc2 ac_simps)

lemma claim_slice_byPart:
  "q < length bp \<Longrightarrow> snd (claim_slice workers w tok i ps parts bp) ! q =
     (if touches workers w i ps q then tok else bp ! q)"
  by (induction ps arbitrary: i parts bp) (auto simp: nth_list_update)

lemma in_slice_of:
  "p \<in> set (slice_of workers w i ps) \<longleftrightarrow> (\<exists>j < length ps. int (i + j) mod workers = w \<and> ps ! j = p)"
proof (induction ps arbitrary: i)
  case Nil
  then show ?case by simp
next
  case (Cons q ps)
  have "int (i + Suc j) = int (Suc i + j)" for j by simp
  then show ?case
    by (simp only: list.size add_0 add_Suc_right Ex_less_Suc2 nth_Cons_0 nth_Cons_Suc slice_of_simps) (auto simp: Cons.IH)
qed

lemma add_worker_frame [frame_simps]:
  "partitions (add_worker workers us nodeID inc w o1) = partitions o1"
  "overlap (add_worker workers us nodeID inc w o1) = overlap o1"
  "narrowed (add_worker workers us nodeID inc w o1) = narrowed o1"
  "length (byPart (add_worker workers us nodeID inc w o1)) = length (byPart o1)"
  by (simp_all add: add_worker_def Let_def claim_slice_length)

lemma add_worker_byOwner:
  "map_of (byOwner (add_worker workers us nodeID inc w o1)) =
     (map_of (byOwner o1))(claimOwnerID nodeID inc w \<mapsto>
        (if overlap o1 then us else slice_of workers w 0 us))"
  by (simp add: add_worker_def Let_def update_conv' claim_slice_parts)

lemma add_worker_byPart:
  "\<not> overlap o1 \<Longrightarrow> q < length (byPart o1) \<Longrightarrow> byPart (add_worker workers us nodeID inc w o1) ! q =
     (if touches workers w 0 us q then claimOwnerID nodeID inc w else byPart o1 ! q)"
  by (simp add: add_worker_def Let_def claim_slice_byPart)

lemma build_workers_frame [frame_simps]:
  "partitions (build_workers workers ws us nodeID inc o1) = partitions o1"
  "overlap (build_workers workers ws us nodeID inc o1) = overlap o1"
  "narrowed (build_workers workers ws us nodeID inc o1) = narrowed o1"
  "length (byPart (build_workers workers ws us nodeID inc o1)) = length (byPart o1)"
  by (induction ws arbitrary: o1) (simp_all add: frame_simps)

lemma build_workers_byOwner_None:
  "(\<And>w. w \<in> set ws \<Longrightarrow> tok \<noteq> claimOwnerID nodeID inc w) \<Longrightarrow>
   map_of (byOwner (build_workers workers ws us nodeID inc o1)) tok = map_of (byOwner o1) tok"
  by (induction ws arbitrary: o1) (simp_all add: add_worker_byOwner)

lemma build_workers_byOwner:
  "w \<in> set ws \<Longrightarrow>
   map_of (byOwner (build_workers workers ws us nodeID inc o1)) (claimOwnerID nodeID inc w) =
     Some (if overlap o1 then us else slice_of workers w 0 us)"
proof (induction ws arbitrary: o1)
  case Nil
  then show ?case by simp
next
  case (Cons v ws)
  show ?case
  proof (cases "w \<in> set ws")
    case True
    then show ?thesis by (simp add: Cons.IH frame_simps)
  next
    case False
    then have "map_of (byOwner (build_workers workers (v # ws) us nodeID inc o1)) (claimOwnerID nodeID inc w)
        = map_of (byOwner (add_worker workers us nodeID inc v o1)) (claimOwnerID nodeID inc w)"
      by (simp, intro build_workers_byOwner_None) auto
    with False Cons.prems show ?thesis by (simp add: add_worker_byOwner)
  qed
qed

lemma build_workers_byPart:
  assumes "\<not> overlap o1" and "q < length (byPart o1)"
    and j: "j < length us" "nat (us ! j) = q"
    and inj: "\<And>k. k < length us \<Longrightarrow> nat (us ! k) = q \<Longrightarrow> k = j"
  shows "byPart (build_workers workers ws us nodeID inc o1) ! q =
     (if int j mod workers \<in> set ws then claimOwnerID nodeID inc (int j mod workers) else byPart o1 ! q)"
  using assms(1,2)
proof (induction ws arbitrary: o1)
  case Nil
  then show ?case by simp
next
  case (Cons w ws)
  have "touches workers w 0 us q \<longleftrightarrow> int j mod workers = w"
    unfolding touches_def add_0 using j inj by blast
  then have one: "byPart (add_worker workers us nodeID inc w o1) ! q =
      (if int j mod workers = w then claimOwnerID nodeID inc w else byPart o1 ! q)"
    by (simp only: add_worker_byPart [OF Cons.prems])
  have "\<not> overlap (add_worker workers us nodeID inc w o1)"
    and "q < length (byPart (add_worker workers us nodeID inc w o1))"
    using Cons.prems by (simp_all add: frame_simps)
  from Cons.IH [OF this] one show ?case by auto
qed

lemma check_claim_None:
  "check_claim n ps seen = None \<longleftrightarrow>
     distinct ps \<and> set ps \<inter> seen = {} \<and> (\<forall>p \<in> set ps. 0 \<le> p \<and> p < n)"
  by (induction ps arbitrary: seen) auto

text \<open>The universe of partitions this process claims.\<close>

definition universe :: "int \<Rightarrow> int list option \<Rightarrow> int list" where
  "universe nparts claim =
     (case claim of None \<Rightarrow> [0..effective_partitions nparts - 1] | Some c \<Rightarrow> c)"

definition claim_ok :: "int \<Rightarrow> int list option \<Rightarrow> bool" where
  "claim_ok nparts claim =
     (case claim of None \<Rightarrow> True
      | Some c \<Rightarrow> distinct c \<and> (\<forall>p \<in> set c. 0 \<le> p \<and> p < effective_partitions nparts))"

definition empty_ownership :: "int \<Rightarrow> bool \<Rightarrow> int list option \<Rightarrow> ownership" where
  "empty_ownership nparts ovl claim =
     (let n = effective_partitions nparts
      in \<lparr>partitions = n, byOwner = [], byPart = replicate (nat n) [],
          overlap = ovl, narrowed = (claim \<noteq> None)\<rparr>)"

lemma buildOwnership_Inr:
  "buildOwnership workers nparts ovl claim nodeID inc = Inr o1 \<longleftrightarrow>
     workers > 0 \<and> claim_ok nparts claim \<and>
     o1 = build_workers workers [0..workers - 1] (universe nparts claim) nodeID inc
            (empty_ownership nparts ovl claim)"
proof (cases claim)
  case None
  then show ?thesis
    by (auto simp: buildOwnership_def claim_ok_def universe_def empty_ownership_def Let_def)
next
  case (Some c)
  let ?e = "check_claim (effective_partitions nparts) c {}"
  have ok: "claim_ok nparts claim \<longleftrightarrow> ?e = None"
    by (simp add: claim_ok_def Some check_claim_None)
  show ?thesis
    unfolding ok
    by (cases ?e) (auto simp: buildOwnership_def universe_def empty_ownership_def Let_def Some)
qed

lemma buildOwnership_succeeds:
  "(\<exists>o1. buildOwnership workers nparts ovl claim nodeID inc = Inr o1) \<longleftrightarrow>
     workers > 0 \<and> claim_ok nparts claim"
  by (simp add: buildOwnership_Inr)

lemma universe_props:
  "claim_ok nparts claim \<Longrightarrow> distinct (universe nparts claim)"
  "claim_ok nparts claim \<Longrightarrow> p \<in> set (universe nparts claim) \<Longrightarrow>
     0 \<le> p \<and> p < effective_partitions nparts"
  by (cases claim; force simp: universe_def claim_ok_def)+

lemma buildOwnershipD:
  assumes "buildOwnership workers nparts ovl claim nodeID inc = Inr o1"
  shows "workers > 0" "distinct (universe nparts claim)"
    "p \<in> set (universe nparts claim) \<Longrightarrow> 0 \<le> p \<and> p < partitions o1"
    "partitions o1 = effective_partitions nparts"
    "length (byPart o1) = nat (partitions o1)" "overlap o1 = ovl" "narrowed o1 = (claim \<noteq> None)"
    "o1 = build_workers workers [0..workers - 1] (universe nparts claim) nodeID inc
            (empty_ownership nparts ovl claim)"
  using assms universe_props [of nparts claim]
  by (simp_all add: buildOwnership_Inr frame_simps empty_ownership_def Let_def split del: if_split)

lemma buildOwnership_partitionsFor:
  assumes "buildOwnership workers nparts False claim nodeID inc = Inr o1"
    and "0 \<le> w" "w < workers"
  shows "partitionsFor o1 (claimOwnerID nodeID inc w) = slice_of workers w 0 (universe nparts claim)"
proof -
  have "w \<in> set [0..workers - 1]" using assms(2,3) by simp
  then show ?thesis
    by (subst buildOwnershipD(8) [OF assms(1)]) (simp add: partitionsFor_def build_workers_byOwner empty_ownership_def Let_def)
qed

lemma buildOwnership_partitionsFor_other:
  assumes "buildOwnership workers nparts ovl claim nodeID inc = Inr o1"
    and "\<And>w. 0 \<le> w \<Longrightarrow> w < workers \<Longrightarrow> tok \<noteq> claimOwnerID nodeID inc w"
  shows "partitionsFor o1 tok = []"
  using assms(2)
  by (subst buildOwnershipD(8) [OF assms(1)], unfold partitionsFor_def, subst build_workers_byOwner_None)
     (auto simp: empty_ownership_def Let_def)

lemma buildOwnership_ownerOf:
  assumes b: "buildOwnership workers nparts False claim nodeID inc = Inr o1"
    and j: "j < length (universe nparts claim)"
  shows "ownerOf o1 (universe nparts claim ! j) = Some (claimOwnerID nodeID inc (int j mod workers))"
proof -
  let ?u = "universe nparts claim"
  note bd = buildOwnershipD [OF b]
  have p: "0 \<le> ?u ! j" "?u ! j < partitions o1" using bd(3) [of "?u ! j"] j by auto
  have inj: "k = j" if "k < length ?u" "nat (?u ! k) = nat (?u ! j)" for k
  proof -
    have "0 \<le> ?u ! k" using bd(3) [of "?u ! k"] that(1) by auto
    then have "?u ! k = ?u ! j" using that(2) p(1) by simp
    then show ?thesis using bd(2) j that(1) by (simp add: nth_eq_iff_index_eq)
  qed
  have "byPart o1 ! nat (?u ! j) = claimOwnerID nodeID inc (int j mod workers)"
    by (subst bd(8), subst build_workers_byPart [OF _ _ j refl])
       (use inj p bd(1,4) in \<open>auto simp: empty_ownership_def Let_def split del: if_split\<close>)
  then show ?thesis using p bd(5,6) by (simp add: ownerOf_def Let_def)
qed

section \<open>Properties\<close>

lemma int_mod_in_workers:
  "workers > 0 \<Longrightarrow> 0 \<le> int j mod workers \<and> int j mod workers < workers"
  by simp

lemma slice_of_append:
  "slice_of workers w i (ps @ [p]) =
     slice_of workers w i ps @ (if int (i + length ps) mod workers = w then [p] else [])"
  by (induction ps arbitrary: i) (auto simp: ac_simps)

lemma div_count_step:
  fixes n k w :: int
  assumes "0 \<le> w" "w < k"
  shows "(n + 1 + k - 1 - w) div k = (n + k - 1 - w) div k + (if n mod k = w then 1 else 0)"
proof -
  obtain q r where n: "n = q * k + r" "0 \<le> r" "r < k"
    using assms by (metis div_mult_mod_eq le_less_trans pos_mod_bound pos_mod_sign)
  have r: "n mod k = r" using n by simp
  have "n + 1 + k - 1 - w = (r + k - w) + q * k" using n by simp
  then have "(n + 1 + k - 1 - w) div k = q + (r + k - w) div k"
    using assms by (simp only: div_mult_self1)
  moreover have "n + k - 1 - w = (r + k - 1 - w) + q * k" using n by simp
  then have "(n + k - 1 - w) div k = q + (r + k - 1 - w) div k"
    using assms by (simp only: div_mult_self1)
  moreover have "(r + k - w) div k = (if w \<le> r then 1 else 0)"
    using n assms int_div_pos_eq [of "r + k - w" k 1 "r - w"] by (auto intro!: div_pos_pos_trivial)
  moreover have "(r + k - 1 - w) div k = (if w < r then 1 else 0)"
    using n assms int_div_pos_eq [of "r + k - 1 - w" k 1 "r - 1 - w"] by (auto intro!: div_pos_pos_trivial)
  ultimately show ?thesis by (auto simp: r)
qed

lemma length_slice_of:
  assumes "0 \<le> w" "w < workers"
  shows "int (length (slice_of workers w 0 ps)) = (int (length ps) + workers - 1 - w) div workers"
proof (induction ps rule: rev_induct)
  case Nil
  have "(workers - 1 - w) div workers = 0" using assms by (intro div_pos_pos_trivial) auto
  then show ?case by (simp add: algebra_simps)
next
  case (snoc p ps)
  show ?case
    using snoc.IH div_count_step [OF assms, of "int (length ps)"]
    by (simp add: slice_of_append algebra_simps)
qed

lemma partition_worker:
  assumes b: "buildOwnership workers nparts False claim nodeID inc = Inr o1"
    and p: "p \<in> set (universe nparts claim)"
  shows "\<exists>w. 0 \<le> w \<and> w < workers \<and> ownerOf o1 p = Some (claimOwnerID nodeID inc w) \<and>
    (\<forall>w'. 0 \<le> w' \<and> w' < workers \<longrightarrow>
       (p \<in> set (partitionsFor o1 (claimOwnerID nodeID inc w')) \<longleftrightarrow> w' = w))"
proof -
  let ?u = "universe nparts claim"
  note bd = buildOwnershipD [OF b]
  obtain j where j: "j < length ?u" "?u ! j = p" using p by (auto simp: in_set_conv_nth)
  let ?w = "int j mod workers"
  have w: "0 \<le> ?w" "?w < workers" using int_mod_in_workers [OF bd(1)] by auto
  have owner: "ownerOf o1 p = Some (claimOwnerID nodeID inc ?w)"
    using buildOwnership_ownerOf [OF b j(1)] j(2) by simp
  have only: "i = j" if "i < length ?u" "?u ! i = p" for i
    using that j bd(2) nth_eq_iff_index_eq by metis
  have "p \<in> set (partitionsFor o1 (claimOwnerID nodeID inc w')) \<longleftrightarrow> w' = ?w" if "0 \<le> w'" "w' < workers" for w'
  proof -
    have "p \<in> set (partitionsFor o1 (claimOwnerID nodeID inc w')) \<longleftrightarrow>
        (\<exists>i < length ?u. int i mod workers = w' \<and> ?u ! i = p)"
      by (simp add: buildOwnership_partitionsFor [OF b that] in_slice_of)
    also have "\<dots> \<longleftrightarrow> int j mod workers = w'" using j only by blast
    finally show ?thesis by auto
  qed
  with w owner show ?thesis by blast
qed

text \<open>
  Claim C16. Exclusive ownership. Without overlap (which is a switch of the tests), whatever the number of workers and the partitions this process
  claims, every claimed partition belongs to exactly one worker of the pool, the one \<open>ownerOf\<close>
  names, and no other worker's slice contains it.
\<close>

theorem exclusive_ownership:
  assumes "buildOwnership workers nparts False claim nodeID inc = Inr o1"
    and "p \<in> set (universe nparts claim)"
  shows "\<exists>w. 0 \<le> w \<and> w < workers \<and> ownerOf o1 p = Some (claimOwnerID nodeID inc w) \<and>
    (\<forall>w'. 0 \<le> w' \<and> w' < workers \<longrightarrow>
       (p \<in> set (partitionsFor o1 (claimOwnerID nodeID inc w')) \<longleftrightarrow> w' = w))"
  using partition_worker [OF assms] .

theorem exclusive_ownership_witness:
  "\<exists>o1. buildOwnership 2 4 False (Some [3, 1, 0]) ''go0'' ''i'' = Inr o1 \<and>
     ownerOf o1 0 = Some ''go0/i/worker-0'' \<and>
     (\<exists>w. 0 \<le> w \<and> w < 2 \<and> ownerOf o1 0 = Some (claimOwnerID ''go0'' ''i'' w) \<and>
       (\<forall>w'. 0 \<le> w' \<and> w' < 2 \<longrightarrow> (0 \<in> set (partitionsFor o1 (claimOwnerID ''go0'' ''i'' w')) \<longleftrightarrow> w' = w)))"
proof -
  let ?b = "buildOwnership 2 4 False (Some [3, 1, 0]) ''go0'' ''i''"
  have "claim_ok 4 (Some [3, 1, 0])" by (simp add: claim_ok_def effective_partitions_def)
  then obtain o1 where o1: "?b = Inr o1" using buildOwnership_succeeds by (metis zero_less_numeral)
  have p: "(0::int) \<in> set (universe 4 (Some [3, 1, 0]))" by (simp add: universe_def)
  have "map_sum id (\<lambda>o1. ownerOf o1 0) ?b = Inr (Some ''go0/i/worker-0'')" by code_simp
  then have "ownerOf o1 0 = Some ''go0/i/worker-0''" by (simp add: o1)
  then show ?thesis using o1 exclusive_ownership [OF o1 p] by blast
qed

text \<open>
  The partitions are shared out evenly: the slices of any two workers of the pool differ
  by at most one partition.
\<close>

theorem balanced_ownership:
  assumes b: "buildOwnership workers nparts False claim nodeID inc = Inr o1"
    and v: "0 \<le> v" "v < workers" and w: "0 \<le> w" "w < workers"
  shows "length (partitionsFor o1 (claimOwnerID nodeID inc v))
         \<le> length (partitionsFor o1 (claimOwnerID nodeID inc w)) + 1"
proof -
  let ?n = "int (length (universe nparts claim))"
  have "(?n + workers - 1 - v) div workers \<le> (?n + workers - 1 - w + workers) div workers"
    using v w by (intro zdiv_mono1) auto
  also have "\<dots> = (?n + workers - 1 - w) div workers + 1"
    using w by (intro div_add_self2) simp
  finally show ?thesis
    using length_slice_of [OF v, of "universe nparts claim"] length_slice_of [OF w, of "universe nparts claim"]
    by (simp add: buildOwnership_partitionsFor [OF b v] buildOwnership_partitionsFor [OF b w])
qed

theorem balanced_ownership_witness:
  "\<exists>o1. buildOwnership 3 8 False None [] [] = Inr o1 \<and>
     length (partitionsFor o1 (claimOwnerID [] [] 0)) \<le> length (partitionsFor o1 (claimOwnerID [] [] 2)) + 1"
proof -
  have "claim_ok 8 None" by (simp add: claim_ok_def)
  then obtain o1 where o1: "buildOwnership 3 8 False None [] [] = Inr o1"
    using buildOwnership_succeeds by (metis zero_less_numeral)
  then show ?thesis using balanced_ownership [OF o1, of 0 2] by auto
qed

text \<open>
  The configuration is accepted exactly when there is at least one worker and
  \<^verbatim>\<open>PartitionsClaim\<close>, where given, lists partitions of the range without repetition.
\<close>

theorem ownership_config_accepted:
  "(\<exists>o1. buildOwnership workers nparts ovl claim nodeID inc = Inr o1) \<longleftrightarrow>
     workers > 0 \<and>
     (case claim of None \<Rightarrow> True
      | Some c \<Rightarrow> distinct c \<and> (\<forall>p \<in> set c. 0 \<le> p \<and> p < effective_partitions nparts))"
  by (simp add: buildOwnership_succeeds claim_ok_def)

theorem ownership_config_accepted_witness:
  "\<not> (\<exists>o1. buildOwnership 2 4 False (Some [1, 1]) [] [] = Inr o1)"
  using ownership_config_accepted [of 2 4 False "Some [1, 1]" "[]" "[]"] by simp

text \<open>
  A worker recovers its own index from its owner token, for plain tokens and for
  \<^verbatim>\<open>node/incarnation/worker-N\<close> tokens, whatever the node and incarnation are called.
\<close>

theorem owner_token_roundtrip:
  assumes "int64 w"
  shows "parseOwnerIndex (claimOwnerID nodeID inc w) = Some w"
  using assms by (rule parse_claimOwnerID)

theorem owner_token_roundtrip_witness:
  "parseOwnerIndex (claimOwnerID ''worker-7'' ''worker-8'' 12) = Some 12"
  by (rule owner_token_roundtrip) (simp add: int64_def min_int64_def max_int64_def)

end
