(* ===== verification/Assign.thy ===== *)
theory Assign
  imports Ownership
begin

text \<open>
  \<^verbatim>\<open>assign.go\<close>: the initial assignment of partitions to the nodes of a fleet.
\<close>

definition LogicalNodeID :: "int \<Rightarrow> string" where
  "LogicalNodeID nodeIndex = ''go'' @ show_int nodeIndex"

definition NodeIndex :: "string \<Rightarrow> int \<Rightarrow> int \<Rightarrow> int" where
  "NodeIndex subscriberID nparts nodeCount =
     (if nodeCount \<le> 0 then 0 else hash_Partition subscriberID nparts mod nodeCount)"

definition PartitionsForNode :: "int \<Rightarrow> int \<Rightarrow> int \<Rightarrow> int list" where
  "PartitionsForNode nparts nodeCount nodeIndex =
     (let nparts = effective_partitions nparts
      in if nodeCount \<le> 0 \<or> nodeIndex < 0 \<or> nodeIndex \<ge> nodeCount then []
         else filter (\<lambda>p. p mod nodeCount = nodeIndex) [0..nparts - 1])"

definition OwnerAssignmentsForNodes :: "int \<Rightarrow> int \<Rightarrow> string list" where
  "OwnerAssignmentsForNodes nparts nodeCount =
     (let nparts = effective_partitions nparts
      in if nodeCount \<le> 0 then []
         else map (\<lambda>p. LogicalNodeID (p mod nodeCount)) [0..nparts - 1])"

lemma LogicalNodeID_inject [simp]: "LogicalNodeID i = LogicalNodeID j \<longleftrightarrow> i = j"
  by (simp add: LogicalNodeID_def)

lemma LogicalNodeID_nonempty [simp]: "LogicalNodeID i \<noteq> []"
  by (simp add: LogicalNodeID_def)

lemma LogicalNodeID_no_slash: "CHR ''/'' \<notin> set (LogicalNodeID i)"
  using show_int_chars [of "CHR ''/''" i] by (auto simp: LogicalNodeID_def is_digit_def)

lemma in_PartitionsForNode:
  "0 < nodeCount \<Longrightarrow> p \<in> set (PartitionsForNode nparts nodeCount i) \<longleftrightarrow>
     0 \<le> p \<and> p < effective_partitions nparts \<and> p mod nodeCount = i"
  using pos_mod_sign [of nodeCount p] pos_mod_bound [of nodeCount p]
  by (auto simp: PartitionsForNode_def Let_def simp del: pos_mod_sign pos_mod_bound)

lemma OwnerAssignmentsForNodes_nth:
  "0 < nodeCount \<Longrightarrow> 0 \<le> p \<Longrightarrow> p < effective_partitions nparts \<Longrightarrow>
   OwnerAssignmentsForNodes nparts nodeCount ! nat p = LogicalNodeID (p mod nodeCount)"
  by (simp add: OwnerAssignmentsForNodes_def Let_def nth_upto)

lemma length_OwnerAssignmentsForNodes:
  "0 < nodeCount \<Longrightarrow> length (OwnerAssignmentsForNodes nparts nodeCount) = nat (effective_partitions nparts)"
  by (simp add: OwnerAssignmentsForNodes_def Let_def)

text \<open>
  The three functions of the initial assignment agree: node \<open>i\<close> of the fleet claims
  partition \<open>p\<close> exactly when the seeded ownership table names node \<open>i\<close> for \<open>p\<close>, every partition
  of the range has exactly one such node, and a subscriber is routed to node \<open>i\<close> exactly when
  node \<open>i\<close> claims the subscriber's partition.
\<close>

theorem fleet_assignment_agrees:
  assumes n: "0 < nodeCount" and max: "nparts \<le> max_int64"
  shows "(\<forall>p. 0 \<le> p \<and> p < effective_partitions nparts \<longrightarrow>
            (\<exists>!i. p \<in> set (PartitionsForNode nparts nodeCount i)) \<and>
            (\<forall>i. p \<in> set (PartitionsForNode nparts nodeCount i) \<longleftrightarrow>
                 OwnerAssignmentsForNodes nparts nodeCount ! nat p = LogicalNodeID i)) \<and>
         (\<forall>i. NodeIndex s nparts nodeCount = i \<longleftrightarrow>
              hash_Partition s nparts \<in> set (PartitionsForNode nparts nodeCount i))"
  using n hash_Partition_range [OF max, of s]
  by (auto simp: in_PartitionsForNode OwnerAssignmentsForNodes_nth NodeIndex_def effective_partitions_def)

theorem fleet_assignment_agrees_witness:
  "(0::int) < 2 \<and> (256::int) \<le> max_int64 \<and> (NodeIndex ''a'' 256 2 = 0 \<longleftrightarrow>
     hash_Partition ''a'' 256 \<in> set (PartitionsForNode 256 2 0))"
proof -
  have m: "(256::int) \<le> max_int64" by (simp add: max_int64_def)
  have "NodeIndex ''a'' 256 2 = 0 \<longleftrightarrow> hash_Partition ''a'' 256 \<in> set (PartitionsForNode 256 2 0)"
    using fleet_assignment_agrees [of 2 256 "''a''", OF _ m] by simp
  with m show ?thesis by simp
qed

end
