(* ===== verification/StoreTypes.thy ===== *)
theory StoreTypes
  imports Prelude
begin

text \<open>
  Package \<^verbatim>\<open>store\<close>: delivery rows, the errors a store reports, the interface \<^verbatim>\<open>store.Store\<close> as a
  record of functions (as a Go interface value is a table of methods), and calls of that interface
  as data, so that a history of a store is a list of calls.
\<close>

section \<open>Rows\<close>

datatype status =
    StatusPending
  | StatusInFlight
  | StatusDelivered
  | StatusDeadLettered
  | StatusRetained

fun status_text :: "status \<Rightarrow> string" where
  "status_text StatusPending = ''pending''"
| "status_text StatusInFlight = ''in_flight''"
| "status_text StatusDelivered = ''delivered''"
| "status_text StatusDeadLettered = ''dead_lettered''"
| "status_text StatusRetained = ''retained''"

text \<open>A byte slice that may be \<^verbatim>\<open>nil\<close> is a \<open>bytes option\<close>.\<close>

record delivery =
  ID :: string
  EventID :: string
  SubscriberID :: string
  URL :: string
  PartitionNo :: int
  Sequence :: int
  Payload :: "bytes option"
  EventType :: string
  Secret :: "bytes option"
  Status :: status
  Attempt :: int
  NextAttempt :: gotime
  LastError :: string
  Owner :: string
  Generation :: uint64
  ClaimedAt :: gotime
  CreatedAt :: gotime

record GapInfo =
  Occurred :: bool
  Dropped :: int
  Marker :: string

definition no_gap :: GapInfo where
  "no_gap = \<lparr>Occurred = False, Dropped = 0, Marker = []\<rparr>"

text \<open>
  \<^verbatim>\<open>append([]byte(nil), b...)\<close> under \<^verbatim>\<open>if b != nil\<close>: a fresh copy, which is \<^verbatim>\<open>nil\<close> again when
  there is nothing to append.
\<close>

definition copy_bytes :: "bytes option \<Rightarrow> bytes option" where
  "copy_bytes b = (case b of None \<Rightarrow> None | Some bs \<Rightarrow> if bs = [] then None else Some bs)"

definition cloneDelivery :: "delivery \<Rightarrow> delivery" where
  "cloneDelivery d = d\<lparr>Payload := copy_bytes (Payload d), Secret := copy_bytes (Secret d)\<rparr>"

section \<open>Errors\<close>

datatype store_error =
    ECtx string
  | EMissingID
  | EMissingSubscriberID string
  | EDuplicateID string
  | EClaimOwner
  | EClaimGeneration
  | EMarkGeneration
  | EUnknownDelivery string
  | ENotInFlight string
  | EStaleClaim string
  | EResumeSubscriber
  | EDatabase string
  | EDistributedOwner string
  | EOwnershipEmpty
  | EOwnershipMissing int

section \<open>The environment of one call\<close>

text \<open>
  What a call reads beside its arguments: the error of its context, if it is cancelled, the clock,
  and the order in which each \<^verbatim>\<open>range\<close> loop over a map visits the keys, which the Go runtime picks
  afresh for every loop. A loop is named so that two loops of one call can differ.
\<close>

datatype loop =
    LHead
  | LCandidates
  | LTouched
  | LRetention string
  | LResume

record env =
  ctx_err :: "string option"
  clock :: gotime
  visit :: "loop \<Rightarrow> string list \<Rightarrow> string list"

definition fair_env :: "env \<Rightarrow> bool" where
  "fair_env e \<longleftrightarrow> (\<forall>l ks. mset (visit e l ks) = mset ks)"

definition live_env :: "gotime \<Rightarrow> env" where
  "live_env t = \<lparr>ctx_err = None, clock = t, visit = (\<lambda>_ ks. ks)\<rparr>"

lemma live_env_simps [simp]:
  "ctx_err (live_env t) = None" "clock (live_env t) = t" "visit (live_env t) l ks = ks"
  "fair_env (live_env t)"
  by (simp_all add: live_env_def fair_env_def)

lemma fair_env_visit:
  "fair_env e \<Longrightarrow> set (visit e l ks) = set ks"
  "fair_env e \<Longrightarrow> distinct (visit e l ks) = distinct ks"
  by (metis fair_env_def set_mset_mset, metis fair_env_def mset_eq_imp_distinct_iff)

section \<open>The interface\<close>

record ('e, 's) store_ops =
  op_Enqueue :: "'e \<Rightarrow> delivery list \<Rightarrow> 's \<Rightarrow> store_error option \<times> 's"
  op_Claim :: "'e \<Rightarrow> string \<Rightarrow> uint64 \<Rightarrow> int list \<Rightarrow> int \<Rightarrow> 's \<Rightarrow> (store_error + delivery list) \<times> 's"
  op_MarkDelivered :: "'e \<Rightarrow> string \<Rightarrow> string \<Rightarrow> uint64 \<Rightarrow> 's \<Rightarrow> store_error option \<times> 's"
  op_MarkFailed :: "'e \<Rightarrow> string \<Rightarrow> string \<Rightarrow> uint64 \<Rightarrow> int \<Rightarrow> gotime \<Rightarrow> string \<Rightarrow> 's \<Rightarrow> store_error option \<times> 's"
  op_MarkDeadLetter :: "'e \<Rightarrow> string \<Rightarrow> string \<Rightarrow> uint64 \<Rightarrow> string \<Rightarrow> 's \<Rightarrow> store_error option \<times> 's"
  op_ExhaustAndSuspend :: "'e \<Rightarrow> string \<Rightarrow> string \<Rightarrow> uint64 \<Rightarrow> string \<Rightarrow> 's \<Rightarrow> store_error option \<times> 's"
  op_Resume :: "'e \<Rightarrow> string \<Rightarrow> 's \<Rightarrow> (store_error + GapInfo) \<times> 's"
  op_IsSuspended :: "'e \<Rightarrow> string \<Rightarrow> 's \<Rightarrow> (store_error + bool) \<times> 's"
  op_RecoverStale :: "'e \<Rightarrow> duration \<Rightarrow> 's \<Rightarrow> (store_error + int) \<times> 's"
  op_PendingOrInFlight :: "'e \<Rightarrow> 's \<Rightarrow> (store_error + int) \<times> 's"

text \<open>Calls of the interface as data, with what a call does to the store and what it hands out.\<close>

datatype 'e call =
    Enqueue_call 'e "delivery list"
  | Claim_call 'e string uint64 "int list" int
  | MarkDelivered_call 'e string string uint64
  | MarkFailed_call 'e string string uint64 int gotime string
  | MarkDeadLetter_call 'e string string uint64 string
  | ExhaustAndSuspend_call 'e string string uint64 string
  | Resume_call 'e string
  | IsSuspended_call 'e string
  | RecoverStale_call 'e duration
  | PendingOrInFlight_call 'e

fun exec_call :: "('e, 's) store_ops \<Rightarrow> 'e call \<Rightarrow> 's \<Rightarrow> 's" where
  "exec_call ops (Enqueue_call e ds) s = snd (op_Enqueue ops e ds s)"
| "exec_call ops (Claim_call e ow g ps n) s = snd (op_Claim ops e ow g ps n s)"
| "exec_call ops (MarkDelivered_call e k ow g) s = snd (op_MarkDelivered ops e k ow g s)"
| "exec_call ops (MarkFailed_call e k ow g a t m) s = snd (op_MarkFailed ops e k ow g a t m s)"
| "exec_call ops (MarkDeadLetter_call e k ow g m) s = snd (op_MarkDeadLetter ops e k ow g m s)"
| "exec_call ops (ExhaustAndSuspend_call e k ow g m) s = snd (op_ExhaustAndSuspend ops e k ow g m s)"
| "exec_call ops (Resume_call e x) s = snd (op_Resume ops e x s)"
| "exec_call ops (IsSuspended_call e x) s = snd (op_IsSuspended ops e x s)"
| "exec_call ops (RecoverStale_call e a) s = snd (op_RecoverStale ops e a s)"
| "exec_call ops (PendingOrInFlight_call e) s = snd (op_PendingOrInFlight ops e s)"

fun call_env :: "'e call \<Rightarrow> 'e" where
  "call_env (Enqueue_call e ds) = e"
| "call_env (Claim_call e ow g ps n) = e"
| "call_env (MarkDelivered_call e k ow g) = e"
| "call_env (MarkFailed_call e k ow g a t m) = e"
| "call_env (MarkDeadLetter_call e k ow g m) = e"
| "call_env (ExhaustAndSuspend_call e k ow g m) = e"
| "call_env (Resume_call e x) = e"
| "call_env (IsSuspended_call e x) = e"
| "call_env (RecoverStale_call e a) = e"
| "call_env (PendingOrInFlight_call e) = e"

text \<open>The rows a call hands out for delivery, as subscriber and sequence, in the order returned.\<close>

definition handed_out :: "('e, 's) store_ops \<Rightarrow> 'e call \<Rightarrow> 's \<Rightarrow> (string \<times> int) list" where
  "handed_out ops c s =
     (case c of
        Claim_call e ow g ps n \<Rightarrow>
          (case fst (op_Claim ops e ow g ps n s) of
             Inl err \<Rightarrow> []
           | Inr ds \<Rightarrow> map (\<lambda>d. (SubscriberID d, Sequence d)) ds)
      | _ \<Rightarrow> [])"

fun exec_calls :: "('e, 's) store_ops \<Rightarrow> 'e call list \<Rightarrow> 's \<Rightarrow> 's" where
  "exec_calls ops [] s = s"
| "exec_calls ops (c # cs) s = exec_calls ops cs (exec_call ops c s)"

text \<open>The whole history of a store: everything a sequence of calls hands out, in order.\<close>

fun history :: "('e, 's) store_ops \<Rightarrow> 'e call list \<Rightarrow> 's \<Rightarrow> (string \<times> int) list" where
  "history ops [] s = []"
| "history ops (c # cs) s = handed_out ops c s @ history ops cs (exec_call ops c s)"

lemma exec_calls_append: "exec_calls ops (cs @ ds) s = exec_calls ops ds (exec_calls ops cs s)"
  by (induction cs arbitrary: s) auto

end
