(* ===== verification/AbstractStore.thy ===== *)
theory AbstractStore
  imports StoreTypes
begin

text \<open>
  What every ordering store promises, without its data structures: a row is a subscriber, a
  sequence number and a status; a store step is one row changing status, one row appearing or
  disappearing, or one subscriber being suspended or resumed. The locale \<open>ordering_store\<close> at the end
  states when a store of the interface implements these steps, and proves the ordering guarantee
  once for all of them.
\<close>

section \<open>States and steps\<close>

record arow =
  a_sub :: string
  a_seq :: int
  a_st :: status

record astate =
  rows :: "string \<rightharpoonup> arow"
  held :: "string \<Rightarrow> bool"
  last_seq :: "string \<Rightarrow> int"

datatype alabel =
    AEnqueue string int
  | AClaim string int
  | AAttempt string int
  | ADeliver string int
  | ADead string int
  | ARetry string int
  | ASuspend string int
  | ADrop string int
  | AResume string

definition unfinished :: "status \<Rightarrow> bool" where
  "unfinished st \<longleftrightarrow> st = StatusPending \<or> st = StatusInFlight"

definition finished :: "status \<Rightarrow> bool" where
  "finished st \<longleftrightarrow> st = StatusDelivered \<or> st = StatusDeadLettered"

definition set_st :: "string \<Rightarrow> status \<Rightarrow> astate \<Rightarrow> astate" where
  "set_st k st a = a\<lparr>rows := (rows a)(k := map_option (a_st_update (\<lambda>_. st)) (rows a k))\<rparr>"

text \<open>Every row of subscriber \<open>x\<close> in status \<open>old\<close> moves to status \<open>new\<close>.\<close>

definition move_all :: "string \<Rightarrow> status \<Rightarrow> status \<Rightarrow> (string \<rightharpoonup> arow) \<Rightarrow> (string \<rightharpoonup> arow)" where
  "move_all x old new m =
     (\<lambda>k. map_option (\<lambda>r. if a_sub r = x \<and> a_st r = old then r\<lparr>a_st := new\<rparr> else r) (m k))"

inductive astep :: "astate \<Rightarrow> alabel \<Rightarrow> astate \<Rightarrow> bool" where
  enqueue: "rows a k = None \<Longrightarrow> n = last_seq a x + 1 \<Longrightarrow>
     st = (if held a x then StatusRetained else StatusPending) \<Longrightarrow>
     astep a (AEnqueue x n)
       (a\<lparr>rows := (rows a)(k \<mapsto> \<lparr>a_sub = x, a_seq = n, a_st = st\<rparr>),
          last_seq := (last_seq a)(x := n)\<rparr>)"
| claim: "rows a k = Some r \<Longrightarrow> a_st r = StatusPending \<Longrightarrow> \<not> held a (a_sub r) \<Longrightarrow>
     (\<And>k' r'. rows a k' = Some r' \<Longrightarrow> a_sub r' = a_sub r \<Longrightarrow> unfinished (a_st r') \<Longrightarrow> a_seq r \<le> a_seq r') \<Longrightarrow>
     astep a (AClaim (a_sub r) (a_seq r)) (set_st k StatusInFlight a)"
| attempt: "rows a k = Some r \<Longrightarrow> a_st r = StatusInFlight \<Longrightarrow> astep a (AAttempt (a_sub r) (a_seq r)) a"
| deliver: "rows a k = Some r \<Longrightarrow> a_st r = StatusInFlight \<Longrightarrow>
     astep a (ADeliver (a_sub r) (a_seq r)) (set_st k StatusDelivered a)"
| dead: "rows a k = Some r \<Longrightarrow> a_st r = StatusInFlight \<Longrightarrow>
     astep a (ADead (a_sub r) (a_seq r)) (set_st k StatusDeadLettered a)"
| retry: "rows a k = Some r \<Longrightarrow> a_st r = StatusInFlight \<Longrightarrow>
     astep a (ARetry (a_sub r) (a_seq r)) (set_st k StatusPending a)"
| suspend: "rows a k = Some r \<Longrightarrow> a_st r = StatusInFlight \<Longrightarrow>
     a' = (set_st k StatusDeadLettered a) \<Longrightarrow>
     astep a (ASuspend (a_sub r) (a_seq r))
       (a'\<lparr>rows := move_all (a_sub r) StatusPending StatusRetained (rows a'),
           held := (held a)(a_sub r := True)\<rparr>)"
| drop: "rows a k = Some r \<Longrightarrow> a_st r = StatusRetained \<Longrightarrow>
     astep a (ADrop (a_sub r) (a_seq r)) (a\<lparr>rows := (rows a)(k := None)\<rparr>)"
| resume: "astep a (AResume x)
     (a\<lparr>rows := move_all x StatusRetained StatusPending (rows a), held := (held a)(x := False)\<rparr>)"

inductive asteps :: "astate \<Rightarrow> alabel list \<Rightarrow> astate \<Rightarrow> bool" where
  stop [simp, intro]: "asteps a [] a"
| step: "astep a l b \<Longrightarrow> asteps b ls c \<Longrightarrow> asteps a (l # ls) c"

inductive_simps asteps_Nil [simp]: "asteps a [] b"
inductive_simps asteps_Cons: "asteps a (l # ls) b"

lemma asteps_append: "asteps a ls b \<Longrightarrow> asteps b ms c \<Longrightarrow> asteps a (ls @ ms) c"
  by (induction rule: asteps.induct) (auto intro: asteps.step)

lemma asteps_one: "astep a l b \<Longrightarrow> asteps a [l] b"
  by (blast intro: asteps.intros)

lemma asteps_appendD:
  assumes "asteps a (ls @ ms) c"
  shows "\<exists>b. asteps a ls b \<and> asteps b ms c"
  using assms by (induction ls arbitrary: a) (simp_all add: asteps_Cons, blast)

lemma set_st_simps [simp]:
  "rows (set_st k st a) = (rows a)(k := map_option (a_st_update (\<lambda>_. st)) (rows a k))"
  "held (set_st k st a) = held a" "last_seq (set_st k st a) = last_seq a"
  by (simp_all add: set_st_def)

section \<open>The invariant\<close>

text \<open>
  Sequence numbers are positive, bounded by the subscriber's counter and never shared by two rows
  of one subscriber.
\<close>

definition seq_inv :: "astate \<Rightarrow> bool" where
  "seq_inv a \<longleftrightarrow>
     (\<forall>k r. rows a k = Some r \<longrightarrow> 1 \<le> a_seq r \<and> a_seq r \<le> last_seq a (a_sub r)) \<and>
     (\<forall>k k' r r'. rows a k = Some r \<and> rows a k' = Some r' \<and> a_sub r = a_sub r' \<and> a_seq r = a_seq r' \<longrightarrow> k = k') \<and>
     (\<forall>x. 0 \<le> last_seq a x)"

text \<open>A suspended subscriber has nothing to deliver; retained rows exist only under suspension.\<close>

definition hold_inv :: "astate \<Rightarrow> bool" where
  "hold_inv a \<longleftrightarrow>
     (\<forall>k r. rows a k = Some r \<longrightarrow>
        (if held a (a_sub r) then \<not> unfinished (a_st r) else a_st r \<noteq> StatusRetained))"

text \<open>Head of line: once a row has been handed out, every earlier row of its subscriber is finished.\<close>

definition order_rows :: "(string \<rightharpoonup> arow) \<Rightarrow> bool" where
  "order_rows m \<longleftrightarrow>
     (\<forall>k k' r r'. m k = Some r \<and> m k' = Some r' \<and> a_sub r = a_sub r' \<and> a_seq r < a_seq r' \<and>
        (a_st r' = StatusInFlight \<or> finished (a_st r')) \<longrightarrow> finished (a_st r))"

definition order_inv :: "astate \<Rightarrow> bool" where
  "order_inv a \<longleftrightarrow> order_rows (rows a)"

definition ainv :: "astate \<Rightarrow> bool" where
  "ainv a \<longleftrightarrow> seq_inv a \<and> hold_inv a \<and> order_inv a"

lemma ainv_empty: "ainv \<lparr>rows = Map.empty, held = (\<lambda>_. False), last_seq = (\<lambda>_. 0)\<rparr>"
  by (simp add: ainv_def seq_inv_def hold_inv_def order_inv_def order_rows_def)

lemma seq_invD:
  assumes "seq_inv a"
  shows "rows a k = Some r \<Longrightarrow> 1 \<le> a_seq r" "rows a k = Some r \<Longrightarrow> a_seq r \<le> last_seq a (a_sub r)"
    "rows a k = Some r \<Longrightarrow> rows a k' = Some r' \<Longrightarrow> a_sub r = a_sub r' \<Longrightarrow> a_seq r = a_seq r' \<Longrightarrow> k = k'"
    "0 \<le> last_seq a x"
  using assms unfolding seq_inv_def by blast+

lemma hold_invD:
  assumes "hold_inv a" "rows a k = Some r"
  shows "held a (a_sub r) \<Longrightarrow> \<not> unfinished (a_st r)" "\<not> held a (a_sub r) \<Longrightarrow> a_st r \<noteq> StatusRetained"
  using assms unfolding hold_inv_def by force+

lemma order_invD:
  assumes "order_inv a" "rows a k = Some r" "rows a k' = Some r'" "a_sub r = a_sub r'" "a_seq r < a_seq r'"
    "a_st r' = StatusInFlight \<or> finished (a_st r')"
  shows "finished (a_st r)"
  using assms unfolding order_inv_def order_rows_def by blast

lemmas ainvD = ainv_def [THEN iffD1]

lemma status_disjoint [simp]:
  "unfinished StatusPending" "unfinished StatusInFlight" "\<not> unfinished StatusRetained"
  "\<not> unfinished StatusDelivered" "\<not> unfinished StatusDeadLettered"
  "finished StatusDelivered" "finished StatusDeadLettered"
  "\<not> finished StatusPending" "\<not> finished StatusInFlight" "\<not> finished StatusRetained"
  by (simp_all add: unfinished_def finished_def)

text \<open>At most one row of a subscriber is in flight.\<close>

lemma one_in_flight:
  assumes "ainv a" "rows a k = Some r" "rows a k' = Some r'" "a_sub r = a_sub r'"
    "a_st r = StatusInFlight" "a_st r' = StatusInFlight"
  shows "k = k'"
proof (rule ccontr)
  assume "k \<noteq> k'"
  then have "a_seq r \<noteq> a_seq r'"
    using assms seq_invD(3) [of a k r k' r'] by (auto simp: ainv_def)
  then have "a_seq r < a_seq r' \<or> a_seq r' < a_seq r" by auto
  then show False
    using assms order_invD [of a k r k' r'] order_invD [of a k' r' k r] by (auto simp: ainv_def)
qed

section \<open>Every step keeps the invariant\<close>

lemma move_allD:
  "move_all x old new m k = Some r \<Longrightarrow>
     \<exists>r0. m k = Some r0 \<and> a_sub r = a_sub r0 \<and> a_seq r = a_seq r0 \<and>
          a_st r = (if a_sub r0 = x \<and> a_st r0 = old then new else a_st r0)"
  by (cases "m k") (auto simp: move_all_def split: if_splits)

text \<open>
  A step either adds one row, the next of its subscriber, or keeps every row's subscriber and
  sequence number.
\<close>

definition new_row :: "astate \<Rightarrow> astate \<Rightarrow> string \<Rightarrow> string \<Rightarrow> status \<Rightarrow> bool" where
  "new_row a b k x st \<longleftrightarrow> rows a k = None \<and> \<not> finished st \<and> st \<noteq> StatusInFlight \<and>
     last_seq b = (last_seq a)(x := last_seq a x + 1) \<and>
     rows b = (rows a)(k \<mapsto> \<lparr>a_sub = x, a_seq = last_seq a x + 1, a_st = st\<rparr>)"

definition old_rows :: "astate \<Rightarrow> astate \<Rightarrow> bool" where
  "old_rows a b \<longleftrightarrow> last_seq b = last_seq a \<and>
     (\<forall>k r. rows b k = Some r \<longrightarrow>
        (\<exists>r0. rows a k = Some r0 \<and> a_sub r0 = a_sub r \<and> a_seq r0 = a_seq r \<and>
              (finished (a_st r0) \<longrightarrow> finished (a_st r))))"

lemma old_rows_refl: "old_rows a a"
  by (auto simp: old_rows_def)

lemma old_rows_set_st: "rows a k = Some r \<Longrightarrow> \<not> finished (a_st r) \<Longrightarrow> old_rows a (set_st k st a)"
  by (auto simp: old_rows_def)

lemma old_rows_move_all:
  "old_rows a b \<Longrightarrow> \<not> finished old \<Longrightarrow> old_rows a (b\<lparr>rows := move_all x old new (rows b), held := h\<rparr>)"
  unfolding old_rows_def by (fastforce dest: move_allD)

lemma old_rows_delete: "old_rows a (a\<lparr>rows := (rows a)(k := None)\<rparr>)"
  by (auto simp: old_rows_def)

lemma astep_rows:
  assumes "astep a l b"
  shows "(\<exists>k x st. new_row a b k x st) \<or> old_rows a b"
  using assms
proof (induction rule: astep.induct)
  case (enqueue a k n x st)
  then have "new_row a (a\<lparr>rows := (rows a)(k \<mapsto> \<lparr>a_sub = x, a_seq = n, a_st = st\<rparr>),
          last_seq := (last_seq a)(x := n)\<rparr>) k x st"
    by (simp add: new_row_def)
  then show ?case by blast
next
  case (suspend a k r a')
  then have "old_rows a a'" using old_rows_set_st [of a k r] by simp
  then show ?case using old_rows_move_all [of a a' StatusPending] suspend.hyps(3) by auto
qed (use old_rows_refl old_rows_set_st old_rows_delete old_rows_move_all [OF old_rows_refl] in auto)

lemma seq_inv_enqueue:
  assumes s: "seq_inv a" and n: "n = last_seq a x + 1" and b: "last_seq b = (last_seq a)(x := n)"
    "rows b = (rows a)(k \<mapsto> \<lparr>a_sub = x, a_seq = n, a_st = st\<rparr>)"
  shows "seq_inv b"
proof -
  have new: "a_seq r < n" if "rows a k' = Some r" "a_sub r = x" for k' r
    using seq_invD(2) [OF s that(1)] that(2) n by simp
  have pos: "1 \<le> n" using seq_invD(4) [OF s, of x] n by simp
  show ?thesis
    unfolding seq_inv_def b
  proof (intro conjI allI impI)
    fix k1 k2 r1 r2
    assume *: "((rows a)(k \<mapsto> \<lparr>a_sub = x, a_seq = n, a_st = st\<rparr>)) k1 = Some r1 \<and>
      ((rows a)(k \<mapsto> \<lparr>a_sub = x, a_seq = n, a_st = st\<rparr>)) k2 = Some r2 \<and> a_sub r1 = a_sub r2 \<and> a_seq r1 = a_seq r2"
    show "k1 = k2"
      using * new [of k1 r1] new [of k2 r2] seq_invD(3) [OF s, of k1 r1 k2 r2]
      by (cases "k1 = k"; cases "k2 = k") auto
  qed (use pos new seq_invD(1,2,4) [OF s] in \<open>force split: if_splits\<close>)+
qed

lemma seq_inv_old_rows: "seq_inv a \<Longrightarrow> old_rows a b \<Longrightarrow> seq_inv b"
  unfolding seq_inv_def old_rows_def by metis

lemma astep_seq_inv: "astep a l b \<Longrightarrow> seq_inv a \<Longrightarrow> seq_inv b"
  using astep_rows [of a l b] seq_inv_old_rows seq_inv_enqueue [of a "last_seq a x + 1" x b for x]
  by (auto simp: new_row_def)

lemma astep_hold_inv:
  assumes "astep a l b" "ainv a"
  shows "hold_inv b"
  using assms
proof (induction rule: astep.induct)
  case (suspend a k r a')
  have h: "hold_inv a" using suspend.prems by (simp add: ainv_def)
  have other: "a_st r' \<noteq> StatusInFlight" if "rows a k' = Some r'" "a_sub r' = a_sub r" "k' \<noteq> k" for k' r'
    using one_in_flight [OF suspend.prems suspend.hyps(1) that(1)] that suspend.hyps(2) by auto
  show ?case
    unfolding hold_inv_def
  proof (intro allI impI)
    fix k' r2
    assume "rows (a'\<lparr>rows := move_all (a_sub r) StatusPending StatusRetained (rows a'),
                     held := (held a)(a_sub r := True)\<rparr>) k' = Some r2"
    then obtain r1 where r1: "rows a' k' = Some r1" "a_sub r2 = a_sub r1"
      "a_st r2 = (if a_sub r1 = a_sub r \<and> a_st r1 = StatusPending then StatusRetained else a_st r1)"
      by (auto dest!: move_allD)
    show "if held (a'\<lparr>rows := move_all (a_sub r) StatusPending StatusRetained (rows a'),
                     held := (held a)(a_sub r := True)\<rparr>) (a_sub r2)
          then \<not> unfinished (a_st r2) else a_st r2 \<noteq> StatusRetained"
    proof (cases "k' = k")
      case True
      then show ?thesis using r1 suspend.hyps by auto
    next
      case False
      then have "rows a k' = Some r1" using r1(1) suspend.hyps(3) by simp
      then show ?thesis
        using False r1(2,3) other [of k' r1] hold_invD [OF h, of k' r1] by (auto simp: unfinished_def)
    qed
  qed
next
  case (resume a x)
  then have h: "hold_inv a" by (simp add: ainv_def)
  show ?case
    unfolding hold_inv_def
  proof (intro allI impI)
    fix k r
    let ?b = "a\<lparr>rows := move_all x StatusRetained StatusPending (rows a), held := (held a)(x := False)\<rparr>"
    assume "rows ?b k = Some r"
    then obtain r0 where "rows a k = Some r0" "a_sub r = a_sub r0"
      "a_st r = (if a_sub r0 = x \<and> a_st r0 = StatusRetained then StatusPending else a_st r0)"
      by (auto dest!: move_allD)
    then show "if held ?b (a_sub r) then \<not> unfinished (a_st r) else a_st r \<noteq> StatusRetained"
      using hold_invD [OF h, of k r0] by (auto simp: unfinished_def)
  qed
qed (auto simp: hold_inv_def ainv_def unfinished_def split: if_splits)

lemma order_rowsD:
  "order_rows m \<Longrightarrow> m k = Some r \<Longrightarrow> m k' = Some r' \<Longrightarrow> a_sub r = a_sub r' \<Longrightarrow> a_seq r < a_seq r' \<Longrightarrow>
   a_st r' = StatusInFlight \<or> finished (a_st r') \<Longrightarrow> finished (a_st r)"
  unfolding order_rows_def by blast

lemma order_rows_set_st:
  assumes o: "order_rows m" and k: "m k = Some r"
    and earlier: "\<And>k' r'. st = StatusInFlight \<or> finished st \<Longrightarrow> m k' = Some r' \<Longrightarrow> a_sub r' = a_sub r \<Longrightarrow>
        a_seq r' < a_seq r \<Longrightarrow> finished (a_st r')"
    and later: "\<And>k' r'. \<not> finished st \<Longrightarrow> m k' = Some r' \<Longrightarrow> a_sub r' = a_sub r \<Longrightarrow> a_seq r < a_seq r' \<Longrightarrow>
        \<not> (a_st r' = StatusInFlight \<or> finished (a_st r'))"
  shows "order_rows (m(k \<mapsto> r\<lparr>a_st := st\<rparr>))"
  unfolding order_rows_def
proof (intro allI impI, elim conjE)
  fix k1 k2 r1 r2
  assume r1: "(m(k \<mapsto> r\<lparr>a_st := st\<rparr>)) k1 = Some r1" and r2: "(m(k \<mapsto> r\<lparr>a_st := st\<rparr>)) k2 = Some r2"
    and sub: "a_sub r1 = a_sub r2" "a_seq r1 < a_seq r2" and st2: "a_st r2 = StatusInFlight \<or> finished (a_st r2)"
  show "finished (a_st r1)"
  proof (cases "k1 = k")
    case True
    then have "r1 = r\<lparr>a_st := st\<rparr>" "m k2 = Some r2" using r1 r2 sub by (auto split: if_splits)
    then show ?thesis using later [of k2 r2] sub st2 by auto
  next
    case False
    then have m1: "m k1 = Some r1" using r1 by simp
    show ?thesis
    proof (cases "k2 = k")
      case True
      then have "r2 = r\<lparr>a_st := st\<rparr>" using r2 by simp
      then show ?thesis using earlier [OF _ m1] sub st2 by auto
    next
      case False
      then show ?thesis using order_rowsD [OF o m1 _ sub st2] r2 by simp
    qed
  qed
qed

lemma order_rows_move_all:
  assumes "order_rows m" and "\<not> finished old" "old \<noteq> StatusInFlight" "\<not> finished new" "new \<noteq> StatusInFlight"
  shows "order_rows (move_all x old new m)"
  unfolding order_rows_def
proof (intro allI impI, elim conjE)
  fix k1 k2 r1 r2
  assume r: "move_all x old new m k1 = Some r1" "move_all x old new m k2 = Some r2"
    and sub: "a_sub r1 = a_sub r2" "a_seq r1 < a_seq r2" and st2: "a_st r2 = StatusInFlight \<or> finished (a_st r2)"
  obtain s1 where s1: "m k1 = Some s1" "a_sub r1 = a_sub s1" "a_seq r1 = a_seq s1"
      "a_st r1 = (if a_sub s1 = x \<and> a_st s1 = old then new else a_st s1)"
    using move_allD [OF r(1)] by blast
  obtain s2 where s2: "m k2 = Some s2" "a_sub r2 = a_sub s2" "a_seq r2 = a_seq s2"
      "a_st r2 = (if a_sub s2 = x \<and> a_st s2 = old then new else a_st s2)"
    using move_allD [OF r(2)] by blast
  have "a_st s2 = StatusInFlight \<or> finished (a_st s2)"
    using st2 s2(4) assms(4,5) by (auto split: if_splits)
  then have "finished (a_st s1)"
    using order_rowsD [OF assms(1) s1(1) s2(1)] sub s1(2,3) s2(2,3) by simp
  then show "finished (a_st r1)" using s1(4) assms(2) by auto
qed

lemma order_rows_new:
  assumes o: "order_rows m" and "m k = None" and "\<not> finished st" "st \<noteq> StatusInFlight"
    and new: "\<And>k' r. m k' = Some r \<Longrightarrow> a_sub r = x \<Longrightarrow> a_seq r < n"
  shows "order_rows (m(k \<mapsto> \<lparr>a_sub = x, a_seq = n, a_st = st\<rparr>))"
  unfolding order_rows_def
proof (intro allI impI, elim conjE)
  fix k1 k2 r1 r2
  let ?m = "m(k \<mapsto> \<lparr>a_sub = x, a_seq = n, a_st = st\<rparr>)"
  assume r: "?m k1 = Some r1" "?m k2 = Some r2"
    and sub: "a_sub r1 = a_sub r2" "a_seq r1 < a_seq r2" and st2: "a_st r2 = StatusInFlight \<or> finished (a_st r2)"
  have k2: "m k2 = Some r2" using r(2) st2 assms(3,4) by (auto split: if_splits)
  then have "k1 \<noteq> k" using r(1) new [of k2 r2] sub by (auto split: if_splits)
  then show "finished (a_st r1)" using order_rowsD [OF o _ k2 sub st2] r(1) by simp
qed

lemma astep_order_inv:
  assumes "astep a l b" "ainv a"
  shows "order_inv b"
  using assms
proof (induction rule: astep.induct)
  case (enqueue a k n x st)
  have "a_seq r < n" if "rows a k' = Some r" "a_sub r = x" for k' r
    using seq_invD(2) [of a k' r] that enqueue by (simp add: ainv_def)
  with enqueue show ?case
    by (auto simp: order_inv_def ainv_def intro!: order_rows_new)
next
  case (claim a k r)
  have o: "order_rows (rows a)" using claim by (simp add: ainv_def order_inv_def)
  have earlier: "finished (a_st r')" if "rows a k' = Some r'" "a_sub r' = a_sub r" "a_seq r' < a_seq r" for k' r'
  proof -
    have "\<not> unfinished (a_st r')" using claim.hyps(4) [OF that(1,2)] that(3) by auto
    moreover have "a_st r' \<noteq> StatusRetained"
      using hold_invD(2) [of a k' r'] claim that by (simp add: ainv_def)
    ultimately show ?thesis by (cases "a_st r'") simp_all
  qed
  have later: "\<not> (a_st r' = StatusInFlight \<or> finished (a_st r'))"
    if "rows a k' = Some r'" "a_sub r' = a_sub r" "a_seq r < a_seq r'" for k' r'
    using order_rowsD [OF o claim.hyps(1) that(1)] that claim.hyps(2) by auto
  show ?case
    using order_rows_set_st [OF o claim.hyps(1)] earlier later claim.hyps(1)
    by (simp add: order_inv_def)
next
  case (retry a k r)
  have o: "order_rows (rows a)" using retry by (simp add: ainv_def order_inv_def)
  show ?case
    using order_rows_set_st [OF o retry.hyps(1), of StatusPending] order_rowsD [OF o retry.hyps(1)] retry.hyps
    by (fastforce simp: order_inv_def)
next
  case (deliver a k r)
  have o: "order_rows (rows a)" using deliver by (simp add: ainv_def order_inv_def)
  show ?case
    using order_rows_set_st [OF o deliver.hyps(1), of StatusDelivered] order_rowsD [OF o _ deliver.hyps(1)] deliver.hyps
    by (fastforce simp: order_inv_def)
next
  case (dead a k r)
  have o: "order_rows (rows a)" using dead by (simp add: ainv_def order_inv_def)
  show ?case
    using order_rows_set_st [OF o dead.hyps(1), of StatusDeadLettered] order_rowsD [OF o _ dead.hyps(1)] dead.hyps
    by (fastforce simp: order_inv_def)
next
  case (suspend a k r a')
  have o: "order_rows (rows a)" using suspend by (simp add: ainv_def order_inv_def)
  have "order_rows (rows a')"
    using order_rows_set_st [OF o suspend.hyps(1), of StatusDeadLettered] order_rowsD [OF o _ suspend.hyps(1)] suspend.hyps
    by fastforce
  then show ?case by (simp add: order_inv_def order_rows_move_all)
next
  case (resume a x)
  then show ?case by (simp add: order_inv_def ainv_def order_rows_move_all)
next
  case (drop a k r)
  then show ?case by (simp add: order_inv_def ainv_def order_rows_def)
qed (simp add: ainv_def)

lemma astep_ainv: "astep a l b \<Longrightarrow> ainv a \<Longrightarrow> ainv b"
  using astep_seq_inv astep_hold_inv astep_order_inv by (metis ainv_def)

lemma asteps_ainv: "asteps a ls b \<Longrightarrow> ainv a \<Longrightarrow> ainv b"
  by (induction rule: asteps.induct) (auto dest: astep_ainv)

section \<open>Ordering\<close>

text \<open>The row an in-flight step is about: claiming, attempting, or ending an attempt.\<close>

fun progress :: "alabel \<Rightarrow> (string \<times> int) option" where
  "progress (AClaim x n) = Some (x, n)"
| "progress (AAttempt x n) = Some (x, n)"
| "progress (ADeliver x n) = Some (x, n)"
| "progress (ADead x n) = Some (x, n)"
| "progress (ARetry x n) = Some (x, n)"
| "progress (ASuspend x n) = Some (x, n)"
| "progress _ = None"

text \<open>Sequence numbers of \<open>x\<close> that can still be handed out, now or after a resume.\<close>

definition live :: "astate \<Rightarrow> string \<Rightarrow> int set" where
  "live a x = {a_seq r | k r. rows a k = Some r \<and> a_sub r = x \<and> \<not> finished (a_st r)}"

definition passed :: "astate \<Rightarrow> string \<Rightarrow> int \<Rightarrow> bool" where
  "passed a x n \<longleftrightarrow> n \<le> last_seq a x + 1 \<and> (\<forall>m \<in> live a x. n \<le> m)"

lemma passed_mono: "passed a x n \<Longrightarrow> m \<le> n \<Longrightarrow> passed a x m"
  by (fastforce simp: passed_def)

lemma astep_passed: "astep a l b \<Longrightarrow> passed a x n \<Longrightarrow> passed b x n"
proof -
  assume step: "astep a l b" and p: "passed a x n"
  have old: "n \<le> a_seq r" if "rows a k = Some r" "a_sub r = x" "\<not> finished (a_st r)" for k r
    using p that by (auto simp: passed_def live_def)
  from astep_rows [OF step] show "passed b x n"
  proof
    assume "\<exists>k y st. new_row a b k y st"
    then show ?thesis
      using p old by (fastforce simp: new_row_def passed_def live_def split: if_splits)
  next
    assume o: "old_rows a b"
    have "n \<le> a_seq r" if r: "rows b k = Some r" "a_sub r = x" "\<not> finished (a_st r)" for k r
    proof -
      obtain r0 where "rows a k = Some r0" "a_sub r0 = a_sub r" "a_seq r0 = a_seq r"
          "finished (a_st r0) \<longrightarrow> finished (a_st r)"
        using o r(1) by (auto simp: old_rows_def)
      with old r(2,3) show ?thesis by metis
    qed
    then show ?thesis using p o by (auto simp: passed_def live_def old_rows_def)
  qed
qed

text \<open>A row in flight, or the head pending row of a subscriber that is not suspended, is the least live one.\<close>

lemma in_flight_least:
  assumes "ainv a" "rows a k = Some r" "a_st r = StatusInFlight"
  shows "passed a (a_sub r) (a_seq r)"
proof -
  have "a_seq r \<le> a_seq r'" if "rows a k' = Some r'" "a_sub r' = a_sub r" "\<not> finished (a_st r')" for k' r'
    using assms that order_invD [of a k' r' k r] by (auto simp: ainv_def not_less [symmetric])
  then show ?thesis
    using assms seq_invD(2) [of a k r] by (fastforce simp: passed_def live_def ainv_def)
qed

lemma astep_progress:
  assumes "astep a l b" "ainv a" "progress l = Some (x, n)"
  shows "n \<in> live a x \<and> passed a x n"
  using assms
proof (induction rule: astep.induct)
  case (claim a k r)
  have "a_seq r \<le> a_seq r'" if "rows a k' = Some r'" "a_sub r' = a_sub r" "\<not> finished (a_st r')" for k' r'
  proof -
    have "a_st r' \<noteq> StatusRetained"
      using hold_invD(2) [of a k' r'] claim that by (simp add: ainv_def)
    then have "unfinished (a_st r')" using that(3) by (cases "a_st r'") simp_all
    then show ?thesis using claim.hyps(4) that by blast
  qed
  then show ?case
    using claim seq_invD(2) [of a k r] by (fastforce simp: passed_def live_def ainv_def)
qed (use in_flight_least in \<open>fastforce simp: live_def\<close>)+

lemma asteps_progress_le:
  assumes "asteps a ls b" "ainv a" "passed a x n" "l \<in> set ls" "progress l = Some (x, m)"
  shows "n \<le> m"
  using assms
proof (induction rule: asteps.induct)
  case (step a l' b ls c)
  show ?case
  proof (cases "l = l'")
    case True
    then show ?thesis
      using astep_progress [OF step.hyps(1) step.prems(1)] step.prems(2,4) by (auto simp: passed_def)
  next
    case False
    then show ?thesis
      using step astep_ainv astep_passed by auto
  qed
qed simp

text \<open>
  No inversions: along any run, the steps about one subscriber never go back to a smaller
  sequence number.
\<close>

lemma asteps_no_inversion:
  assumes "asteps a ls b" "ainv a"
  shows "sorted_wrt (\<lambda>l l'. \<forall>x n m. progress l = Some (x, n) \<longrightarrow> progress l' = Some (x, m) \<longrightarrow> n \<le> m) ls"
  using assms
proof (induction rule: asteps.induct)
  case (step a l b ls c)
  have "n \<le> m" if "progress l = Some (x, n)" "l' \<in> set ls" "progress l' = Some (x, m)" for l' x n m
  proof -
    have "passed b x n"
      using astep_progress [OF step.hyps(1) step.prems that(1)] astep_passed [OF step.hyps(1)] by blast
    then show ?thesis
      using asteps_progress_le [OF step.hyps(2) _ _ that(2,3)] astep_ainv [OF step.hyps(1) step.prems] by blast
  qed
  then show ?case using step astep_ainv by auto
qed simp

text \<open>The claims of a run, in order.\<close>

fun claim_of :: "alabel \<Rightarrow> (string \<times> int) list" where
  "claim_of (AClaim x n) = [(x, n)]"
| "claim_of _ = []"

definition claims :: "alabel list \<Rightarrow> (string \<times> int) list" where
  "claims ls = concat (map claim_of ls)"

lemma claims_simps [simp]: "claims [] = []" "claims (l # ls) = claim_of l @ claims ls"
  "claims (ls @ ms) = claims ls @ claims ms"
  by (simp_all add: claims_def)

definition per_subscriber_order :: "(string \<times> int) list \<Rightarrow> bool" where
  "per_subscriber_order ps \<longleftrightarrow> sorted_wrt (\<lambda>p q. fst p = fst q \<longrightarrow> snd p \<le> snd q) ps"

lemma per_subscriber_order_nth:
  "per_subscriber_order ps \<Longrightarrow> i < j \<Longrightarrow> j < length ps \<Longrightarrow> fst (ps ! i) = fst (ps ! j) \<Longrightarrow>
   snd (ps ! i) \<le> snd (ps ! j)"
  by (auto simp: per_subscriber_order_def sorted_wrt_iff_nth_less)

lemma claims_progress: "(x, n) \<in> set (claims ls) \<Longrightarrow> \<exists>l \<in> set ls. progress l = Some (x, n)"
proof (induction ls)
  case (Cons l ls)
  then show ?case by (cases l) auto
qed simp

lemma asteps_claims_ordered:
  assumes "asteps a ls b" "ainv a"
  shows "per_subscriber_order (claims ls)"
  using asteps_no_inversion [OF assms]
proof (induction ls)
  case (Cons l ls)
  then have "per_subscriber_order (claims ls)" by simp
  moreover have "fst p = fst q \<longrightarrow> snd p \<le> snd q" if "p \<in> set (claim_of l)" "q \<in> set (claims ls)" for p q
    using that claims_progress [of "fst q" "snd q" ls] Cons.prems by (cases l) fastforce+
  ultimately show ?case
    by (cases l) (auto simp: per_subscriber_order_def)
qed (simp add: per_subscriber_order_def)

text \<open>The attempts of a run, in order. An attempt leaves the state alone, so it can be left out.\<close>

fun attempt_of :: "alabel \<Rightarrow> (string \<times> int) list" where
  "attempt_of (AAttempt x n) = [(x, n)]"
| "attempt_of _ = []"

definition attempts :: "alabel list \<Rightarrow> (string \<times> int) list" where
  "attempts ls = concat (map attempt_of ls)"

lemma attempts_simps [simp]: "attempts [] = []" "attempts (l # ls) = attempt_of l @ attempts ls"
  "attempts (ls @ ms) = attempts ls @ attempts ms"
  by (simp_all add: attempts_def)

lemma attempts_progress: "(x, n) \<in> set (attempts ls) \<Longrightarrow> \<exists>l \<in> set ls. progress l = Some (x, n)"
proof (induction ls)
  case (Cons l ls)
  then show ?case by (cases l) auto
qed simp

lemma asteps_attempts_ordered:
  assumes "asteps a ls b" "ainv a"
  shows "per_subscriber_order (attempts ls)"
  using asteps_no_inversion [OF assms]
proof (induction ls)
  case (Cons l ls)
  then have "per_subscriber_order (attempts ls)" by simp
  moreover have "fst p = fst q \<longrightarrow> snd p \<le> snd q" if "p \<in> set (attempt_of l)" "q \<in> set (attempts ls)" for p q
    using that attempts_progress [of "fst q" "snd q" ls] Cons.prems by (cases l) fastforce+
  ultimately show ?case
    by (cases l) (auto simp: per_subscriber_order_def)
qed (simp add: per_subscriber_order_def)

lemma asteps_without_attempts:
  assumes "asteps a ls b"
  shows "\<exists>ms. asteps a ms b \<and> claims ms = claims ls \<and> attempts ms = []"
  using assms
proof (induction rule: asteps.induct)
  case (stop a)
  then show ?case by (auto intro: exI [of _ "[]"])
next
  case (step a l b ls c)
  then obtain ms where ms: "asteps b ms c" "claims ms = claims ls" "attempts ms = []" by blast
  show ?case
  proof (cases "\<exists>x n. l = AAttempt x n")
    case True
    then have "a = b" using step.hyps(1) by (auto elim: astep.cases)
    then show ?thesis using ms True by auto
  next
    case False
    then have "attempt_of l = []" by (cases l) auto
    then show ?thesis using ms step.hyps(1) by (auto intro!: exI [of _ "l # ms"] asteps.step)
  qed
qed

section \<open>The contract of an ordering store\<close>

text \<open>
  A store of the interface is an ordering store when it has an abstraction to \<open>astate\<close> under which
  every call, from a state of its invariant, is a sequence of abstract steps that claims exactly
  what the call hands out. \<open>ok\<close> says which environments a call may run in.
\<close>

locale ordering_store =
  fixes ops :: "('e, 's) store_ops"
    and ok :: "'e \<Rightarrow> bool"
    and inv :: "'s \<Rightarrow> bool"
    and view :: "'s \<Rightarrow> astate"
  assumes inv_view: "inv s \<Longrightarrow> ainv (view s)"
    and call_refines: "inv s \<Longrightarrow> ok (call_env c) \<Longrightarrow>
      inv (exec_call ops c s) \<and>
      (\<exists>ls. asteps (view s) ls (view (exec_call ops c s)) \<and> claims ls = handed_out ops c s)"
begin

lemma calls_refine:
  assumes "inv s" "\<forall>c \<in> set cs. ok (call_env c)"
  shows "inv (exec_calls ops cs s) \<and>
    (\<exists>ls. asteps (view s) ls (view (exec_calls ops cs s)) \<and> claims ls = history ops cs s)"
  using assms
proof (induction cs arbitrary: s)
  case Nil
  then show ?case by (auto intro: exI [of _ "[]"])
next
  case (Cons c cs)
  have ok: "ok (call_env c)" "\<forall>c \<in> set cs. ok (call_env c)" using Cons.prems(2) by auto
  obtain ls where ls: "asteps (view s) ls (view (exec_call ops c s))" "claims ls = handed_out ops c s"
    and inv: "inv (exec_call ops c s)"
    using call_refines [OF Cons.prems(1) ok(1)] by blast
  obtain ms where "asteps (view (exec_call ops c s)) ms (view (exec_calls ops cs (exec_call ops c s)))"
      "claims ms = history ops cs (exec_call ops c s)" "inv (exec_calls ops cs (exec_call ops c s))"
    using Cons.IH [OF inv ok(2)] by blast
  with ls show ?case by (auto intro!: exI [of _ "ls @ ms"] intro: asteps_append)
qed

lemma history_ordered:
  assumes "inv s" "\<forall>c \<in> set cs. ok (call_env c)"
  shows "per_subscriber_order (history ops cs s)"
proof -
  obtain ls where "asteps (view s) ls (view (exec_calls ops cs s))" "claims ls = history ops cs s"
    using calls_refine [OF assms] by blast
  then show ?thesis using asteps_claims_ordered [OF _ inv_view [OF assms(1)]] by metis
qed

lemma calls_inv: "inv s \<Longrightarrow> \<forall>c \<in> set cs. ok (call_env c) \<Longrightarrow> inv (exec_calls ops cs s)"
  using calls_refine by blast

end

text \<open>
  A fenced store also says who holds a claim: \<open>holds s k owner gen p\<close> when the row under \<open>k\<close>, of
  subscriber and sequence \<open>p\<close>, is in flight for that owner and generation. A claim starts when the row is
  handed out, to one holder only, and ends only by a mark of the holder, or by recovery.
\<close>

definition ends_claim :: "string \<Rightarrow> string \<Rightarrow> uint64 \<Rightarrow> 'e call \<Rightarrow> bool" where
  "ends_claim k owner gen c =
     (case c of
        MarkDelivered_call e k' ow g \<Rightarrow> (k', ow, g) = (k, owner, gen)
      | MarkFailed_call e k' ow g a t m \<Rightarrow> (k', ow, g) = (k, owner, gen)
      | MarkDeadLetter_call e k' ow g m \<Rightarrow> (k', ow, g) = (k, owner, gen)
      | ExhaustAndSuspend_call e k' ow g m \<Rightarrow> (k', ow, g) = (k, owner, gen)
      | RecoverStale_call e a \<Rightarrow> True
      | _ \<Rightarrow> False)"

locale fenced_store = ordering_store ops ok inv view
  for ops :: "('e, 's) store_ops" and ok :: "'e \<Rightarrow> bool" and inv :: "'s \<Rightarrow> bool" and view :: "'s \<Rightarrow> astate" +
  fixes holds :: "'s \<Rightarrow> string \<Rightarrow> string \<Rightarrow> uint64 \<Rightarrow> string \<times> int \<Rightarrow> bool"
  assumes holds_in_flight: "inv s \<Longrightarrow> holds s k owner gen (x, n) \<Longrightarrow>
      \<exists>r. rows (view s) k = Some r \<and> a_sub r = x \<and> a_seq r = n \<and> a_st r = StatusInFlight"
    and claim_holds: "inv s \<Longrightarrow> ok e \<Longrightarrow> op_Claim ops e owner gen ps lim s = (Inr ds, s') \<Longrightarrow>
      distinct (map ID ds) \<and>
      (\<forall>d \<in> set ds. holds s' (ID d) owner (Generation d) (SubscriberID d, Sequence d) \<and>
         (\<forall>ow g p. \<not> holds s (ID d) ow g p))"
    and holds_persist: "inv s \<Longrightarrow> ok (call_env c) \<Longrightarrow> holds s k owner gen p \<Longrightarrow> \<not> ends_claim k owner gen c \<Longrightarrow>
      holds (exec_call ops c s) k owner gen p"
begin

lemma call_steps:
  assumes "inv s" "ok (call_env c)"
  shows "inv (exec_call ops c s)"
    "\<exists>ls. asteps (view s) ls (view (exec_call ops c s)) \<and> attempts ls = []"
  using call_refines [OF assms] asteps_without_attempts by blast+

lemma one_holder:
  assumes "inv s" "holds s k o1 g1 (x, n)" "holds s k' o2 g2 (x, m)"
  shows "k = k'"
  using holds_in_flight [OF assms(1,2)] holds_in_flight [OF assms(1,3)] one_in_flight [OF inv_view [OF assms(1)]]
  by metis

lemma attempt_step:
  assumes "inv s" "holds s k ow g (x, n)"
  shows "astep (view s) (AAttempt x n) (view s)"
  using holds_in_flight [OF assms] astep.attempt [of "view s" k] by auto

end

end
