(* ===== verification/Memory.thy ===== *)
theory Memory
  imports StoreTypes
begin

text \<open>
  \<^verbatim>\<open>store/memory/memory.go\<close>: the in-memory store. Every exported method takes the mutex for its
  whole body, so a method is a function from state to state. \<^verbatim>\<open>byID\<close> is a Go map, here an
  association list with distinct keys; a \<^verbatim>\<open>range\<close> over it visits the keys in the order
  \<open>visit e l\<close> of the call's environment. A row is mutated through its pointer, that is, under its
  key. A method that fails half way keeps what it has done: errors are returned beside the state.
\<close>

section \<open>State\<close>

definition DefaultRetentionMaxCount :: int where "DefaultRetentionMaxCount = 1000"
definition DefaultRetentionMaxAge :: duration where "DefaultRetentionMaxAge = 24 * hour"

record subMeta =
  suspended :: bool
  gap :: bool
  dropped :: int
  marker :: string

record mem =
  byID :: "(string \<times> delivery) list"
  seq :: "string \<rightharpoonup> int"
  subs :: "string \<rightharpoonup> subMeta"
  notify :: bool
  RetentionMaxCount :: int
  RetentionMaxAge :: duration
  DisableHOL :: bool
  SkipSuspendGate :: bool
  ClaimCalls :: int
  ClaimRows :: int
  ClaimNonEmpty :: int

definition mem_New :: mem where
  "mem_New = \<lparr>byID = [], seq = Map.empty, subs = Map.empty, notify = False,
     RetentionMaxCount = 0, RetentionMaxAge = 0, DisableHOL = False, SkipSuspendGate = False,
     ClaimCalls = 0, ClaimRows = 0, ClaimNonEmpty = 0\<rparr>"

text \<open>\<^verbatim>\<open>notify\<close> is a channel of capacity one: is there a token in it?\<close>

definition signal :: "mem \<Rightarrow> mem" where
  "signal s = s\<lparr>notify := True\<rparr>"

definition new_meta :: subMeta where
  "new_meta = \<lparr>suspended = False, gap = False, dropped = 0, marker = []\<rparr>"

text \<open>\<^verbatim>\<open>meta\<close> creates the entry it does not find.\<close>

definition get_meta :: "string \<Rightarrow> mem \<Rightarrow> subMeta \<times> mem" where
  "get_meta x s =
     (case subs s x of
        Some m \<Rightarrow> (m, s)
      | None \<Rightarrow> (new_meta, s\<lparr>subs := (subs s)(x \<mapsto> new_meta)\<rparr>))"

definition put_meta :: "string \<Rightarrow> subMeta \<Rightarrow> mem \<Rightarrow> mem" where
  "put_meta x m s = s\<lparr>subs := (subs s)(x \<mapsto> m)\<rparr>"

definition retentionCount :: "mem \<Rightarrow> int" where
  "retentionCount s = (if RetentionMaxCount s > 0 then RetentionMaxCount s else DefaultRetentionMaxCount)"

definition retentionAge :: "mem \<Rightarrow> duration" where
  "retentionAge s = (if RetentionMaxAge s > 0 then RetentionMaxAge s else DefaultRetentionMaxAge)"

definition row :: "mem \<Rightarrow> string \<Rightarrow> delivery option" where
  "row s k = map_of (byID s) k"

definition put_row :: "string \<Rightarrow> delivery \<Rightarrow> mem \<Rightarrow> mem" where
  "put_row k d s = s\<lparr>byID := AList.update k d (byID s)\<rparr>"

definition set_row :: "string \<Rightarrow> (delivery \<Rightarrow> delivery) \<Rightarrow> mem \<Rightarrow> mem" where
  "set_row k f s = s\<lparr>byID := AList.map_entry k f (byID s)\<rparr>"

definition del_row :: "string \<Rightarrow> mem \<Rightarrow> mem" where
  "del_row k s = s\<lparr>byID := AList.delete k (byID s)\<rparr>"

definition all_rows :: "(delivery \<Rightarrow> delivery) \<Rightarrow> mem \<Rightarrow> mem" where
  "all_rows f s = s\<lparr>byID := map (\<lambda>(k, d). (k, f d)) (byID s)\<rparr>"

definition row_keys :: "env \<Rightarrow> loop \<Rightarrow> mem \<Rightarrow> string list" where
  "row_keys e l s = visit e l (map fst (byID s))"

text \<open>The fields every release of a row clears.\<close>

definition release :: "delivery \<Rightarrow> delivery" where
  "release d = d\<lparr>Owner := [], Generation := 0, ClaimedAt := zero_time\<rparr>"

section \<open>Retention\<close>

definition gap_marker :: "string \<Rightarrow> int \<Rightarrow> int \<Rightarrow> string \<Rightarrow> string" where
  "gap_marker x n through reason =
     x @ '':dropped='' @ show_int n @ '':through_seq='' @ show_int through @ '':'' @ reason"

definition dropRetainedLocked :: "delivery \<Rightarrow> string \<Rightarrow> mem \<Rightarrow> mem" where
  "dropRetainedLocked d reason s =
     (let x = SubscriberID d;
          (m, s1) = get_meta x s;
          n = dropped m + 1
      in del_row (ID d)
           (put_meta x (m\<lparr>gap := True, dropped := n, marker := gap_marker x n (Sequence d) reason\<rparr>) s1))"

fun retention_scan ::
  "string \<Rightarrow> gotime \<Rightarrow> string list \<Rightarrow> mem \<Rightarrow> delivery list \<Rightarrow> mem \<times> delivery list" where
  "retention_scan x cutoff [] s retained = (s, retained)"
| "retention_scan x cutoff (k # ks) s retained =
     (case row s k of
        None \<Rightarrow> retention_scan x cutoff ks s retained
      | Some d \<Rightarrow>
          if SubscriberID d \<noteq> x \<or> Status d \<noteq> StatusRetained then retention_scan x cutoff ks s retained
          else if \<not> IsZero (CreatedAt d) \<and> CreatedAt d < cutoff
          then retention_scan x cutoff ks (dropRetainedLocked d ''age'' s) retained
          else retention_scan x cutoff ks s (retained @ [d]))"

fun drop_excess :: "int \<Rightarrow> delivery list \<Rightarrow> mem \<Rightarrow> mem" where
  "drop_excess maxCount [] s = s"
| "drop_excess maxCount (d # ds) s =
     (if int (length (d # ds)) > maxCount
      then drop_excess maxCount ds (dropRetainedLocked d ''count'' s)
      else s)"

definition applyRetentionLocked :: "env \<Rightarrow> string \<Rightarrow> gotime \<Rightarrow> mem \<Rightarrow> mem" where
  "applyRetentionLocked e x t s =
     (let maxCount = retentionCount s;
          cutoff = time_Add t (neg_duration (retentionAge s));
          (s1, retained) = retention_scan x cutoff (row_keys e (LRetention x) s) s []
      in drop_excess maxCount (sort_key Sequence retained) s1)"

section \<open>Enqueue\<close>

definition stored_row :: "gotime \<Rightarrow> int \<Rightarrow> bool \<Rightarrow> delivery \<Rightarrow> delivery" where
  "stored_row t n retained d =
     d\<lparr>Payload := copy_bytes (Payload d), Secret := copy_bytes (Secret d), Sequence := n,
       Attempt := 0, NextAttempt := t, CreatedAt := t, Owner := [], Generation := 0,
       ClaimedAt := zero_time, LastError := [],
       Status := (if retained then StatusRetained else StatusPending)\<rparr>"

text \<open>\<^verbatim>\<open>!s.SkipSuspendGate && s.meta(x).suspended\<close>, with the entry \<^verbatim>\<open>meta\<close> may create.\<close>

definition suspend_gate :: "string \<Rightarrow> mem \<Rightarrow> bool \<times> mem" where
  "suspend_gate x s =
     (if SkipSuspendGate s then (False, s) else let (m, s1) = get_meta x s in (suspended m, s1))"

definition next_seq :: "mem \<Rightarrow> string \<Rightarrow> int" where
  "next_seq s x = (case seq s x of None \<Rightarrow> 0 | Some n \<Rightarrow> n) + 1"

fun enqueue_loop ::
  "gotime \<Rightarrow> delivery list \<Rightarrow> mem \<Rightarrow> string list \<Rightarrow> store_error option \<times> mem \<times> string list" where
  "enqueue_loop t [] s touched = (None, s, touched)"
| "enqueue_loop t (d # ds) s touched =
     (if ID d = [] then (Some EMissingID, s, touched)
      else if SubscriberID d = [] then (Some (EMissingSubscriberID (ID d)), s, touched)
      else if row s (ID d) \<noteq> None then (Some (EDuplicateID (ID d)), s, touched)
      else let x = SubscriberID d;
               n = next_seq s x;
               (retained, s1) = suspend_gate x (s\<lparr>seq := (seq s)(x \<mapsto> n)\<rparr>)
           in enqueue_loop t ds (put_row (ID d) (stored_row t n retained d) s1)
                (if retained then List.insert x touched else touched))"

definition Enqueue :: "env \<Rightarrow> delivery list \<Rightarrow> mem \<Rightarrow> store_error option \<times> mem" where
  "Enqueue e ds s =
     (case ctx_err e of
        Some err \<Rightarrow> (Some (ECtx err), s)
      | None \<Rightarrow>
          let t = clock e; (err, s1, touched) = enqueue_loop t ds s [] in
          if err \<noteq> None then (err, s1)
          else (None, signal (fold (\<lambda>x. applyRetentionLocked e x t) (visit e LTouched touched) s1)))"

section \<open>Claim\<close>

record candidate =
  c_id :: string
  c_seq :: int
  c_sub :: string

text \<open>The earliest unfinished sequence of every subscriber.\<close>

fun head_scan :: "mem \<Rightarrow> string list \<Rightarrow> (string \<rightharpoonup> int) \<Rightarrow> (string \<rightharpoonup> int)" where
  "head_scan s [] head = head"
| "head_scan s (k # ks) head =
     (case row s k of
        None \<Rightarrow> head_scan s ks head
      | Some d \<Rightarrow>
          if Status d \<noteq> StatusPending \<and> Status d \<noteq> StatusInFlight then head_scan s ks head
          else (case head (SubscriberID d) of
                  None \<Rightarrow> head_scan s ks (head(SubscriberID d \<mapsto> Sequence d))
                | Some cur \<Rightarrow>
                    head_scan s ks (if Sequence d < cur then head(SubscriberID d \<mapsto> Sequence d) else head)))"

definition claim_heads :: "env \<Rightarrow> mem \<Rightarrow> (string \<rightharpoonup> int)" where
  "claim_heads e s = (if DisableHOL s then Map.empty else head_scan s (row_keys e LHead s) Map.empty)"

text \<open>\<^verbatim>\<open>head[x]\<close> of a missing key is 0.\<close>

definition head_of :: "(string \<rightharpoonup> int) \<Rightarrow> string \<Rightarrow> int" where
  "head_of head x = (case head x of None \<Rightarrow> 0 | Some n \<Rightarrow> n)"

fun claim_candidates ::
  "gotime \<Rightarrow> int list \<Rightarrow> (string \<rightharpoonup> int) \<Rightarrow> string list \<Rightarrow> mem \<Rightarrow> candidate list \<Rightarrow> mem \<times> candidate list" where
  "claim_candidates t parts head [] s cands = (s, cands)"
| "claim_candidates t parts head (k # ks) s cands =
     (case row s k of
        None \<Rightarrow> claim_candidates t parts head ks s cands
      | Some d \<Rightarrow>
          if Status d \<noteq> StatusPending then claim_candidates t parts head ks s cands
          else let (held, s1) = suspend_gate (SubscriberID d) s in
            if held then claim_candidates t parts head ks s1 cands
            else if \<not> IsZero (NextAttempt d) \<and> NextAttempt d > t then claim_candidates t parts head ks s1 cands
            else if PartitionNo d \<notin> set parts then claim_candidates t parts head ks s1 cands
            else if \<not> DisableHOL s \<and> head_of head (SubscriberID d) \<noteq> Sequence d
            then claim_candidates t parts head ks s1 cands
            else claim_candidates t parts head ks s1
                   (cands @ [\<lparr>c_id = k, c_seq = Sequence d, c_sub = SubscriberID d\<rparr>]))"

definition claim_row :: "string \<Rightarrow> uint64 \<Rightarrow> gotime \<Rightarrow> delivery \<Rightarrow> delivery" where
  "claim_row owner gen t d =
     d\<lparr>Status := StatusInFlight, Owner := owner, Generation := gen, ClaimedAt := t,
       Attempt := Attempt d + 1\<rparr>"

fun claim_take ::
  "string \<Rightarrow> uint64 \<Rightarrow> gotime \<Rightarrow> int \<Rightarrow> (string \<rightharpoonup> int) \<Rightarrow> candidate list \<Rightarrow> mem \<Rightarrow> string list \<Rightarrow>
   delivery list \<Rightarrow> mem \<times> delivery list" where
  "claim_take owner gen t limit head [] s taken out = (s, out)"
| "claim_take owner gen t limit head (c # cs) s taken out =
     (if int (length out) \<ge> limit then (s, out)
      else if \<not> DisableHOL s \<and> c_sub c \<in> set taken then claim_take owner gen t limit head cs s taken out
      else case row s (c_id c) of
             None \<Rightarrow> claim_take owner gen t limit head cs s taken out
           | Some d \<Rightarrow>
               if \<not> DisableHOL s \<and> head_of head (SubscriberID d) \<noteq> Sequence d
               then claim_take owner gen t limit head cs s taken out
               else claim_take owner gen t limit head cs (set_row (c_id c) (claim_row owner gen t) s)
                      (if DisableHOL s then taken else SubscriberID d # taken)
                      (out @ [cloneDelivery (claim_row owner gen t d)]))"

definition Claim ::
  "env \<Rightarrow> string \<Rightarrow> uint64 \<Rightarrow> int list \<Rightarrow> int \<Rightarrow> mem \<Rightarrow> (store_error + delivery list) \<times> mem" where
  "Claim e owner gen parts limit s =
     (case ctx_err e of
        Some err \<Rightarrow> (Inl (ECtx err), s)
      | None \<Rightarrow>
          if owner = [] then (Inl EClaimOwner, s)
          else if gen = 0 then (Inl EClaimGeneration, s)
          else if limit \<le> 0 then (Inr [], s)
          else let s1 = s\<lparr>ClaimCalls := ClaimCalls s + 1\<rparr> in
            if parts = [] then (Inr [], s1)
            else let head = claim_heads e s1;
                     (s2, cands) = claim_candidates (clock e) parts head (row_keys e LCandidates s1) s1 [];
                     (s3, out) = claim_take owner gen (clock e) limit head
                                   (sort_key (\<lambda>c. (c_sub c, c_seq c)) cands) s2 [] [];
                     s4 = s3\<lparr>ClaimRows := ClaimRows s3 + int (length out)\<rparr>
                 in (Inr out, if out \<noteq> [] then s4\<lparr>ClaimNonEmpty := ClaimNonEmpty s4 + 1\<rparr> else s4))"

definition ClaimStats :: "mem \<Rightarrow> int \<times> int \<times> int" where
  "ClaimStats s = (ClaimCalls s, ClaimRows s, ClaimNonEmpty s)"

section \<open>Marks\<close>

definition requireOwner :: "mem \<Rightarrow> string \<Rightarrow> string \<Rightarrow> uint64 \<Rightarrow> store_error + delivery" where
  "requireOwner s k owner gen =
     (if gen = 0 then Inl EMarkGeneration
      else case row s k of
             None \<Rightarrow> Inl (EUnknownDelivery k)
           | Some d \<Rightarrow>
               if Status d \<noteq> StatusInFlight then Inl (ENotInFlight k)
               else if Owner d \<noteq> owner \<or> Generation d \<noteq> gen then Inl (EStaleClaim k)
               else Inr d)"

definition markTerminal ::
  "env \<Rightarrow> string \<Rightarrow> string \<Rightarrow> uint64 \<Rightarrow> status \<Rightarrow> string \<Rightarrow> mem \<Rightarrow> store_error option \<times> mem" where
  "markTerminal e k owner gen st msg s =
     (case ctx_err e of
        Some err \<Rightarrow> (Some (ECtx err), s)
      | None \<Rightarrow>
          (case requireOwner s k owner gen of
             Inl err \<Rightarrow> (Some err, s)
           | Inr _ \<Rightarrow>
               (None, signal (set_row k (\<lambda>d. release (d\<lparr>Status := st, LastError := msg\<rparr>)) s))))"

definition MarkDelivered :: "env \<Rightarrow> string \<Rightarrow> string \<Rightarrow> uint64 \<Rightarrow> mem \<Rightarrow> store_error option \<times> mem" where
  "MarkDelivered e k owner gen s = markTerminal e k owner gen StatusDelivered [] s"

definition MarkDeadLetter ::
  "env \<Rightarrow> string \<Rightarrow> string \<Rightarrow> uint64 \<Rightarrow> string \<Rightarrow> mem \<Rightarrow> store_error option \<times> mem" where
  "MarkDeadLetter e k owner gen msg s = markTerminal e k owner gen StatusDeadLettered msg s"

definition MarkFailed ::
  "env \<Rightarrow> string \<Rightarrow> string \<Rightarrow> uint64 \<Rightarrow> int \<Rightarrow> gotime \<Rightarrow> string \<Rightarrow> mem \<Rightarrow> store_error option \<times> mem" where
  "MarkFailed e k owner gen attempt nxt msg s =
     (case ctx_err e of
        Some err \<Rightarrow> (Some (ECtx err), s)
      | None \<Rightarrow>
          (case requireOwner s k owner gen of
             Inl err \<Rightarrow> (Some err, s)
           | Inr _ \<Rightarrow>
               (None, signal (set_row k
                  (\<lambda>d. release (d\<lparr>Status := StatusPending, Attempt := attempt, NextAttempt := nxt,
                                   LastError := msg\<rparr>)) s))))"

section \<open>Suspension and recovery\<close>

text \<open>The body of the loop over the subscriber's rows when it is suspended.\<close>

definition retain_row :: "string \<Rightarrow> delivery \<Rightarrow> delivery" where
  "retain_row x d =
     (if SubscriberID d = x \<and> Status d = StatusPending then release (d\<lparr>Status := StatusRetained\<rparr>) else d)"

definition ExhaustAndSuspend ::
  "env \<Rightarrow> string \<Rightarrow> string \<Rightarrow> uint64 \<Rightarrow> string \<Rightarrow> mem \<Rightarrow> store_error option \<times> mem" where
  "ExhaustAndSuspend e k owner gen msg s =
     (case ctx_err e of
        Some err \<Rightarrow> (Some (ECtx err), s)
      | None \<Rightarrow>
          (case requireOwner s k owner gen of
             Inl err \<Rightarrow> (Some err, s)
           | Inr d \<Rightarrow>
               let x = SubscriberID d;
                   s1 = set_row k (\<lambda>d. release (d\<lparr>Status := StatusDeadLettered, LastError := msg\<rparr>)) s;
                   (m, s2) = get_meta x s1;
                   s3 = put_meta x (m\<lparr>suspended := True\<rparr>) s2;
                   s4 = all_rows (retain_row x) s3
               in (None, signal (applyRetentionLocked e x (clock e) s4))))"

definition requeue_row :: "gotime \<Rightarrow> delivery \<Rightarrow> delivery" where
  "requeue_row t d = release (d\<lparr>Status := StatusPending, NextAttempt := t\<rparr>)"

fun retained_keys :: "string \<Rightarrow> mem \<Rightarrow> string list \<Rightarrow> (string \<times> delivery) list" where
  "retained_keys x s [] = []"
| "retained_keys x s (k # ks) =
     (case row s k of
        None \<Rightarrow> retained_keys x s ks
      | Some d \<Rightarrow>
          if SubscriberID d = x \<and> Status d = StatusRetained then (k, d) # retained_keys x s ks
          else retained_keys x s ks)"

definition Resume :: "env \<Rightarrow> string \<Rightarrow> mem \<Rightarrow> (store_error + GapInfo) \<times> mem" where
  "Resume e x s =
     (case ctx_err e of
        Some err \<Rightarrow> (Inl (ECtx err), s)
      | None \<Rightarrow>
          if x = [] then (Inl EResumeSubscriber, s)
          else let t = clock e;
                   s1 = applyRetentionLocked e x t s;
                   (m, s2) = get_meta x s1;
                   retained = sort_key (\<lambda>(k, d). Sequence d) (retained_keys x s2 (row_keys e LResume s2));
                   s3 = fold (\<lambda>(k, d). set_row k (requeue_row t)) retained s2;
                   s4 = put_meta x (m\<lparr>suspended := False, gap := False, dropped := 0, marker := []\<rparr>) s3
               in (Inr \<lparr>Occurred = gap m, Dropped = dropped m, Marker = marker m\<rparr>, signal s4))"

definition IsSuspended :: "env \<Rightarrow> string \<Rightarrow> mem \<Rightarrow> (store_error + bool) \<times> mem" where
  "IsSuspended e x s =
     (case ctx_err e of
        Some err \<Rightarrow> (Inl (ECtx err), s)
      | None \<Rightarrow> (Inr (case subs s x of None \<Rightarrow> False | Some m \<Rightarrow> suspended m), s))"

definition stale :: "gotime \<Rightarrow> delivery \<Rightarrow> bool" where
  "stale cutoff d \<longleftrightarrow>
     Status d = StatusInFlight \<and> \<not> (IsZero (ClaimedAt d) \<or> ClaimedAt d > cutoff)"

definition recover_row :: "gotime \<Rightarrow> delivery \<Rightarrow> delivery" where
  "recover_row cutoff d = (if stale cutoff d then release (d\<lparr>Status := StatusPending\<rparr>) else d)"

definition count_rows :: "(delivery \<Rightarrow> bool) \<Rightarrow> mem \<Rightarrow> int" where
  "count_rows p s = int (length (filter (\<lambda>(k, d). p d) (byID s)))"

definition RecoverStale :: "env \<Rightarrow> duration \<Rightarrow> mem \<Rightarrow> (store_error + int) \<times> mem" where
  "RecoverStale e olderThan s =
     (case ctx_err e of
        Some err \<Rightarrow> (Inl (ECtx err), s)
      | None \<Rightarrow>
          let cutoff = time_Add (clock e) (neg_duration olderThan);
              n = count_rows (stale cutoff) s;
              s1 = all_rows (recover_row cutoff) s
          in (Inr n, if n > 0 then signal s1 else s1))"

definition PendingOrInFlight :: "env \<Rightarrow> mem \<Rightarrow> (store_error + int) \<times> mem" where
  "PendingOrInFlight e s =
     (case ctx_err e of
        Some err \<Rightarrow> (Inl (ECtx err), s)
      | None \<Rightarrow> (Inr (count_rows (\<lambda>d. Status d = StatusPending \<or> Status d = StatusInFlight) s), s))"

definition RetainedCount :: "string \<Rightarrow> mem \<Rightarrow> int" where
  "RetainedCount x s = count_rows (\<lambda>d. SubscriberID d = x \<and> Status d = StatusRetained) s"

definition BackdateClaimForTest :: "string \<Rightarrow> gotime \<Rightarrow> mem \<Rightarrow> store_error option \<times> mem" where
  "BackdateClaimForTest k t s =
     (case row s k of
        None \<Rightarrow> (Some (EUnknownDelivery k), s)
      | Some d \<Rightarrow>
          if Status d \<noteq> StatusInFlight then (Some (ENotInFlight k), s)
          else (None, set_row k (\<lambda>d. d\<lparr>ClaimedAt := t\<rparr>) s))"

section \<open>The store as a value of the interface\<close>

definition memory_store :: "(env, mem) store_ops" where
  "memory_store = \<lparr>op_Enqueue = Enqueue, op_Claim = Claim, op_MarkDelivered = MarkDelivered,
     op_MarkFailed = MarkFailed, op_MarkDeadLetter = MarkDeadLetter,
     op_ExhaustAndSuspend = ExhaustAndSuspend, op_Resume = Resume, op_IsSuspended = IsSuspended,
     op_RecoverStale = RecoverStale, op_PendingOrInFlight = PendingOrInFlight\<rparr>"

lemma memory_store_simps [simp]:
  "op_Enqueue memory_store = Enqueue" "op_Claim memory_store = Claim"
  "op_MarkDelivered memory_store = MarkDelivered" "op_MarkFailed memory_store = MarkFailed"
  "op_MarkDeadLetter memory_store = MarkDeadLetter" "op_ExhaustAndSuspend memory_store = ExhaustAndSuspend"
  "op_Resume memory_store = Resume" "op_IsSuspended memory_store = IsSuspended"
  "op_RecoverStale memory_store = RecoverStale" "op_PendingOrInFlight memory_store = PendingOrInFlight"
  by (simp_all add: memory_store_def)

end
