(* ===== verification/MemoryInv.thy ===== *)
theory MemoryInv
  imports Memory AbstractStore
begin

text \<open>
  The memory store implements the abstract store: its abstraction, the closed forms of its loops,
  the refinement of every method, and the interpretation of \<open>ordering_store\<close>.
\<close>

section \<open>Abstraction and invariant\<close>

definition arow_of :: "delivery \<Rightarrow> arow" where
  "arow_of d = \<lparr>a_sub = SubscriberID d, a_seq = Sequence d, a_st = Status d\<rparr>"

definition held_in :: "mem \<Rightarrow> string \<Rightarrow> bool" where
  "held_in s x = (case subs s x of None \<Rightarrow> False | Some m \<Rightarrow> suspended m)"

definition mem_view :: "mem \<Rightarrow> astate" where
  "mem_view s = \<lparr>rows = (\<lambda>k. map_option arow_of (row s k)), held = held_in s,
     last_seq = (\<lambda>x. case seq s x of None \<Rightarrow> 0 | Some n \<Rightarrow> n)\<rparr>"

definition well_keyed :: "mem \<Rightarrow> bool" where
  "well_keyed s \<longleftrightarrow> distinct (map fst (byID s)) \<and> (\<forall>k d. row s k = Some d \<longrightarrow> ID d = k)"

definition gates_on :: "mem \<Rightarrow> bool" where
  "gates_on s \<longleftrightarrow> \<not> DisableHOL s \<and> \<not> SkipSuspendGate s"

definition mem_inv :: "mem \<Rightarrow> bool" where
  "mem_inv s \<longleftrightarrow> well_keyed s \<and> gates_on s \<and> ainv (mem_view s)"

lemma arow_of_simps [simp]:
  "a_sub (arow_of d) = SubscriberID d" "a_seq (arow_of d) = Sequence d" "a_st (arow_of d) = Status d"
  by (simp_all add: arow_of_def)

lemma release_simps [simp]:
  "arow_of (release d) = arow_of d" "ID (release d) = ID d" "Status (release d) = Status d"
  "SubscriberID (release d) = SubscriberID d" "Sequence (release d) = Sequence d"
  "Owner (release d) = []" "Generation (release d) = 0" "ClaimedAt (release d) = 0"
  "CreatedAt (release d) = CreatedAt d"
  by (simp_all add: release_def arow_of_def zero_time_def)

section \<open>How the state updates act\<close>

lemma row_updates [store_simps]:
  "row (set_row k f s) k' = (if k' = k then map_option f (row s k) else row s k')"
  "row (put_row k d s) k' = (if k' = k then Some d else row s k')"
  "row (del_row k s) k' = (if k' = k then None else row s k')"
  "row (all_rows f s) k' = map_option f (row s k')"
  "row (put_meta x m s) k' = row s k'"
  "row (signal s) k' = row s k'"
  "row (s\<lparr>seq := q\<rparr>) k' = row s k'"
  by (auto simp: row_def set_row_def put_row_def del_row_def all_rows_def put_meta_def signal_def
      map_of_map_entry update_conv' delete_conv' map_of_map)

lemma keys_updates [store_simps]:
  "map fst (byID (set_row k f s)) = map fst (byID s)"
  "map fst (byID (all_rows f s)) = map fst (byID s)"
  "byID (put_meta x m s) = byID s" "byID (signal s) = byID s"
  by (auto simp: set_row_def all_rows_def put_meta_def signal_def keys_map_entry)

lemma flags_updates [frame_simps]:
  "gates_on (set_row k f s) = gates_on s" "gates_on (put_row k d s) = gates_on s"
  "gates_on (del_row k s) = gates_on s" "gates_on (all_rows f s) = gates_on s"
  "gates_on (put_meta x m s) = gates_on s" "gates_on (signal s) = gates_on s"
  "gates_on (s\<lparr>seq := q\<rparr>) = gates_on s"
  by (simp_all add: gates_on_def set_row_def put_row_def del_row_def all_rows_def put_meta_def signal_def)

lemma meta_updates [frame_simps]:
  "subs (set_row k f s) = subs s" "subs (put_row k d s) = subs s" "subs (del_row k s) = subs s"
  "subs (all_rows f s) = subs s" "subs (signal s) = subs s"
  "seq (set_row k f s) = seq s" "seq (put_row k d s) = seq s" "seq (del_row k s) = seq s"
  "seq (all_rows f s) = seq s" "seq (put_meta x m s) = seq s" "seq (signal s) = seq s"
  "subs (put_meta x m s) = (subs s)(x \<mapsto> m)"
  by (simp_all add: set_row_def put_row_def del_row_def all_rows_def put_meta_def signal_def)

lemma held_in_updates [frame_simps]:
  "held_in (set_row k f s) = held_in s" "held_in (put_row k d s) = held_in s"
  "held_in (del_row k s) = held_in s" "held_in (all_rows f s) = held_in s"
  "held_in (signal s) = held_in s" "held_in (s\<lparr>seq := q\<rparr>) = held_in s"
  "held_in (put_meta x m s) = (held_in s)(x := suspended m)"
  by (auto simp: held_in_def fun_eq_iff frame_simps)

lemma view_simps [simp]:
  "rows (mem_view s) k = map_option arow_of (row s k)"
  "held (mem_view s) = held_in s"
  "last_seq (mem_view s) x = (case seq s x of None \<Rightarrow> 0 | Some n \<Rightarrow> n)"
  by (simp_all add: mem_view_def)

lemma view_eqI:
  "(\<And>k. map_option arow_of (row s k) = rows a k) \<Longrightarrow> held_in s = held a \<Longrightarrow>
   (\<And>x. (case seq s x of None \<Rightarrow> 0 | Some n \<Rightarrow> n) = last_seq a x) \<Longrightarrow> mem_view s = a"
  by (cases a) (auto simp: mem_view_def fun_eq_iff)

lemma view_signal [simp]: "mem_view (signal s) = mem_view s"
  by (rule view_eqI) (simp_all add: store_simps frame_simps)

lemma view_set_row:
  assumes "row s k = Some d" and "arow_of (f d) = (arow_of d)\<lparr>a_st := st\<rparr>"
  shows "mem_view (set_row k f s) = set_st k st (mem_view s)"
  using assms by (intro view_eqI) (simp_all add: store_simps frame_simps)

lemma get_meta_simps [simp]:
  "byID (snd (get_meta x s)) = byID s" "row (snd (get_meta x s)) k = row s k"
  "held_in (snd (get_meta x s)) = held_in s" "seq (snd (get_meta x s)) = seq s"
  "gates_on (snd (get_meta x s)) = gates_on s" "mem_view (snd (get_meta x s)) = mem_view s"
  "suspended (fst (get_meta x s)) = held_in s x"
  by (auto simp: get_meta_def held_in_def fun_eq_iff gates_on_def mem_view_def row_def new_meta_def
      split: option.splits)

lemma suspend_gate_simps [simp]:
  "byID (snd (suspend_gate x s)) = byID s" "row (snd (suspend_gate x s)) k = row s k"
  "held_in (snd (suspend_gate x s)) = held_in s" "seq (snd (suspend_gate x s)) = seq s"
  "gates_on (snd (suspend_gate x s)) = gates_on s" "mem_view (snd (suspend_gate x s)) = mem_view s"
  "DisableHOL (snd (suspend_gate x s)) = DisableHOL s"
  "gates_on s \<Longrightarrow> fst (suspend_gate x s) = held_in s x"
  using get_meta_simps [of x s]
  by (auto simp: suspend_gate_def gates_on_def get_meta_def new_meta_def split: prod.splits option.splits)

lemma well_keyedD: "well_keyed s \<Longrightarrow> row s k = Some d \<Longrightarrow> ID d = k"
  by (simp add: well_keyed_def)

lemma distinct_keys_updates:
  "distinct (map fst (byID s)) \<Longrightarrow> distinct (map fst (byID (put_row k d s)))"
  "distinct (map fst (byID s)) \<Longrightarrow> distinct (map fst (byID (del_row k s)))"
  by (simp_all add: put_row_def del_row_def distinct_update distinct_delete)

lemma well_keyed_updates:
  "well_keyed s \<Longrightarrow> (\<And>d. row s k = Some d \<Longrightarrow> ID (f d) = ID d) \<Longrightarrow> well_keyed (set_row k f s)"
  "well_keyed s \<Longrightarrow> ID d = k \<Longrightarrow> well_keyed (put_row k d s)"
  "well_keyed s \<Longrightarrow> well_keyed (del_row k s)"
  "well_keyed s \<Longrightarrow> (\<And>d. ID (f d) = ID d) \<Longrightarrow> well_keyed (all_rows f s)"
  "well_keyed s \<Longrightarrow> well_keyed (put_meta x m s)"
  "well_keyed s \<Longrightarrow> well_keyed (signal s)"
  by (auto simp: well_keyed_def store_simps distinct_keys_updates simp del: map_map split: if_splits)

lemma well_keyed_cong: "byID s' = byID s \<Longrightarrow> well_keyed s' = well_keyed s"
  by (simp add: well_keyed_def row_def)

lemma in_row_keys: "fair_env e \<Longrightarrow> k \<in> set (row_keys e l s) \<longleftrightarrow> (\<exists>d. row s k = Some d)"
  by (auto simp: row_keys_def fair_env_visit row_def weak_map_of_SomeI dest: map_of_key_Some map_of_SomeD_key)

lemma distinct_row_keys: "fair_env e \<Longrightarrow> well_keyed s \<Longrightarrow> distinct (row_keys e l s)"
  by (simp add: row_keys_def fair_env_visit well_keyed_def)

section \<open>Retention, in closed form\<close>

definition aged :: "gotime \<Rightarrow> delivery \<Rightarrow> bool" where
  "aged cutoff d \<longleftrightarrow> \<not> IsZero (CreatedAt d) \<and> CreatedAt d < cutoff"

definition kept_of :: "string \<Rightarrow> mem \<Rightarrow> string list \<Rightarrow> delivery list" where
  "kept_of x s ks = map snd (retained_keys x s ks)"

lemma drop_updates [store_simps]:
  "row (dropRetainedLocked d reason s) k = (if k = ID d then None else row s k)"
  "held_in (dropRetainedLocked d reason s) = held_in s"
  "seq (dropRetainedLocked d reason s) = seq s"
  "gates_on (dropRetainedLocked d reason s) = gates_on s"
  by (auto simp: dropRetainedLocked_def Let_def store_simps frame_simps fun_eq_iff split: prod.splits)
     (metis get_meta_simps fst_conv snd_conv)+

lemma well_keyed_drop: "well_keyed s \<Longrightarrow> well_keyed (dropRetainedLocked d reason s)"
  by (auto simp: dropRetainedLocked_def Let_def split: prod.splits intro!: well_keyed_updates)
     (metis get_meta_simps(1) snd_conv well_keyed_cong)

lemma retained_keys_cong:
  "(\<And>k. k \<in> set ks \<Longrightarrow> row s' k = row s k) \<Longrightarrow> retained_keys x s' ks = retained_keys x s ks"
  by (induction ks) (auto split: option.split)

lemma retained_keys_iff:
  "(k, d) \<in> set (retained_keys x s ks) \<longleftrightarrow>
     k \<in> set ks \<and> row s k = Some d \<and> SubscriberID d = x \<and> Status d = StatusRetained"
  by (induction ks) (auto split: option.splits)

lemma distinct_retained_keys: "distinct ks \<Longrightarrow> distinct (map fst (retained_keys x s ks))"
  by (induction ks) (auto simp: retained_keys_iff split: option.splits)

lemma retained_keys_ID: "well_keyed s \<Longrightarrow> map ID (kept_of x s ks) = map fst (retained_keys x s ks)"
  by (auto simp: kept_of_def retained_keys_iff dest: well_keyedD)

lemma retention_scan_eq:
  assumes "well_keyed s" "distinct ks"
  shows "retention_scan x cutoff ks s acc =
     (fold (\<lambda>d. dropRetainedLocked d ''age'') (filter (aged cutoff) (kept_of x s ks)) s,
      acc @ filter (Not \<circ> aged cutoff) (kept_of x s ks))"
  using assms
proof (induction ks arbitrary: s acc)
  case Nil
  then show ?case by (simp add: kept_of_def)
next
  case (Cons k ks)
  show ?case
  proof (cases "row s k")
    case None
    then show ?thesis using Cons by (simp add: kept_of_def)
  next
    case (Some d)
    have "ID d = k" using well_keyedD [OF Cons.prems(1) Some] .
    then have "retained_keys x (dropRetainedLocked d ''age'' s) ks = retained_keys x s ks"
      using Cons.prems(2) by (intro retained_keys_cong) (auto simp: store_simps)
    then show ?thesis
      using Some Cons by (auto simp: kept_of_def aged_def well_keyed_drop)
  qed
qed

lemma drop_excess_eq:
  "0 \<le> n \<Longrightarrow> drop_excess n ds s =
     fold (\<lambda>d. dropRetainedLocked d ''count'') (take (length ds - nat n) ds) s"
  by (induction ds arbitrary: s) (auto simp: Suc_diff_le nat_le_iff of_nat_diff)

lemma retentionCount_pos: "0 < retentionCount s"
  by (simp add: retentionCount_def DefaultRetentionMaxCount_def)

text \<open>The rows one retention pass drops, in order, and the pass as a fold over them.\<close>

definition age_cutoff :: "mem \<Rightarrow> gotime \<Rightarrow> gotime" where
  "age_cutoff s t = time_Add t (neg_duration (retentionAge s))"

definition fresh_of :: "env \<Rightarrow> string \<Rightarrow> gotime \<Rightarrow> mem \<Rightarrow> delivery list" where
  "fresh_of e x t s = sort_key Sequence
     (filter (Not \<circ> aged (age_cutoff s t)) (kept_of x s (row_keys e (LRetention x) s)))"

definition dropped_rows :: "env \<Rightarrow> string \<Rightarrow> gotime \<Rightarrow> mem \<Rightarrow> (delivery \<times> string) list" where
  "dropped_rows e x t s =
     map (\<lambda>d. (d, ''age'')) (filter (aged (age_cutoff s t)) (kept_of x s (row_keys e (LRetention x) s))) @
     map (\<lambda>d. (d, ''count'')) (take (length (fresh_of e x t s) - nat (retentionCount s)) (fresh_of e x t s))"

definition drop_all :: "(delivery \<times> string) list \<Rightarrow> mem \<Rightarrow> mem" where
  "drop_all ds s = fold (\<lambda>(d, reason). dropRetainedLocked d reason) ds s"

lemma drop_all_simps [simp]:
  "drop_all [] s = s" "drop_all ((d, r) # ds) s = drop_all ds (dropRetainedLocked d r s)"
  "drop_all (ds @ es) s = drop_all es (drop_all ds s)"
  by (simp_all add: drop_all_def)

lemma fold_drop_all:
  "fold (\<lambda>d. dropRetainedLocked d r) ds s = drop_all (map (\<lambda>d. (d, r)) ds) s"
  by (induction ds arbitrary: s) simp_all

lemma applyRetention_eq:
  assumes "fair_env e" "well_keyed s"
  shows "applyRetentionLocked e x t s = drop_all (dropped_rows e x t s) s"
  using retention_scan_eq [OF assms(2) distinct_row_keys [OF assms], of x "age_cutoff s t" "LRetention x" "[]"]
  by (simp add: applyRetentionLocked_def dropped_rows_def fresh_of_def age_cutoff_def [symmetric] Let_def
      drop_excess_eq retentionCount_pos order.strict_implies_order fold_drop_all)

lemma dropped_rows_retained:
  assumes "fair_env e" "(d, r) \<in> set (dropped_rows e x t s)"
  shows "\<exists>k. row s k = Some d \<and> SubscriberID d = x \<and> Status d = StatusRetained"
  using assms(2) by (auto simp: dropped_rows_def fresh_of_def kept_of_def retained_keys_iff dest!: in_set_takeD; blast)

lemma mset_retained_split:
  "mset (filter P xs) + mset (filter (Not \<circ> P) xs) = mset xs"
  by (induction xs) auto

lemma distinct_append_take: "distinct (xs @ ys) \<Longrightarrow> distinct (xs @ take n ys)"
  by (auto dest: in_set_takeD)

lemma distinct_dropped_rows:
  assumes "fair_env e" "well_keyed s"
  shows "distinct (map (\<lambda>(d, r). ID d) (dropped_rows e x t s))"
proof -
  let ?ks = "kept_of x s (row_keys e (LRetention x) s)" and ?P = "aged (age_cutoff s t)"
  have d: "distinct (map ID ?ks)"
    using distinct_retained_keys [OF distinct_row_keys [OF assms]] by (simp add: retained_keys_ID assms(2))
  have "map (\<lambda>(d, r). ID d) (dropped_rows e x t s) =
      map ID (filter ?P ?ks) @ map ID (take (length (fresh_of e x t s) - nat (retentionCount s)) (fresh_of e x t s))"
    by (simp add: dropped_rows_def)
  moreover have "distinct (map ID (filter ?P ?ks @ fresh_of e x t s))"
  proof -
    have "mset (map ID (filter ?P ?ks @ fresh_of e x t s)) = mset (map ID ?ks)"
      by (simp add: fresh_of_def mset_retained_split flip: image_mset_union)
    then show ?thesis using d mset_eq_imp_distinct_iff by blast
  qed
  then have "distinct (map ID (filter ?P ?ks) @ map ID (take n (fresh_of e x t s)))" for n
    using distinct_append_take [of "map ID (filter ?P ?ks)" "map ID (fresh_of e x t s)" n]
    by (simp add: take_map)
  ultimately show ?thesis by simp
qed

lemma drop_all_frame:
  "held_in (drop_all ds s) = held_in s" "seq (drop_all ds s) = seq s"
  "gates_on (drop_all ds s) = gates_on s"
  "row (drop_all ds s) k = (if k \<in> (\<lambda>(d, r). ID d) ` set ds then None else row s k)"
  "well_keyed s \<Longrightarrow> well_keyed (drop_all ds s)"
  by (induction ds arbitrary: s) (auto simp: store_simps well_keyed_drop)

lemma drop_all_asteps:
  assumes "\<forall>(d, r) \<in> set ds. row s (ID d) = Some d \<and> Status d = StatusRetained"
    "distinct (map (\<lambda>(d, r). ID d) ds)"
  shows "\<exists>ls. asteps (mem_view s) ls (mem_view (drop_all ds s)) \<and> claims ls = []"
  using assms
proof (induction ds arbitrary: s)
  case Nil
  then show ?case by (auto intro: exI [of _ "[]"])
next
  case (Cons p ds)
  obtain d r where p: "p = (d, r)" by (cases p)
  let ?s = "dropRetainedLocked d r s"
  have d: "row s (ID d) = Some d" "Status d = StatusRetained" using Cons.prems(1) p by auto
  have "mem_view ?s = (mem_view s)\<lparr>rows := (rows (mem_view s))(ID d := None)\<rparr>"
    by (rule view_eqI) (simp_all add: store_simps)
  then have "astep (mem_view s) (ADrop (SubscriberID d) (Sequence d)) (mem_view ?s)"
    using astep.drop [of "mem_view s" "ID d" "arow_of d"] d by simp
  moreover have "\<forall>(d', r') \<in> set ds. row ?s (ID d') = Some d' \<and> Status d' = StatusRetained"
  proof (intro ballI)
    fix q assume q: "q \<in> set ds"
    obtain d' r' where q': "q = (d', r')" by (cases q)
    have "ID d' \<noteq> ID d" using Cons.prems(2) p q q' by force
    then show "case q of (d', r') \<Rightarrow> row ?s (ID d') = Some d' \<and> Status d' = StatusRetained"
      using Cons.prems(1) q q' by (auto simp: store_simps)
  qed
  then obtain ls where "asteps (mem_view ?s) ls (mem_view (drop_all ds ?s))" "claims ls = []"
    using Cons.IH [of ?s] Cons.prems(2) by auto
  ultimately show ?case
    using p by (auto intro!: exI [of _ "ADrop (SubscriberID d) (Sequence d) # ls"] asteps.step)
qed

text \<open>One retention pass refines and keeps the keys and the gates.\<close>

lemma applyRetention_refines:
  assumes "fair_env e" "well_keyed s"
  shows "\<exists>ls. asteps (mem_view s) ls (mem_view (applyRetentionLocked e x t s)) \<and> claims ls = []"
    "well_keyed (applyRetentionLocked e x t s)"
    "gates_on (applyRetentionLocked e x t s) = gates_on s"
    "held_in (applyRetentionLocked e x t s) = held_in s"
    "seq (applyRetentionLocked e x t s) = seq s"
proof -
  have "\<forall>(d, r) \<in> set (dropped_rows e x t s). row s (ID d) = Some d \<and> Status d = StatusRetained"
    using dropped_rows_retained [OF assms(1), of _ _ x t s] well_keyedD [OF assms(2)] by fastforce
  then show "\<exists>ls. asteps (mem_view s) ls (mem_view (applyRetentionLocked e x t s)) \<and> claims ls = []"
    using drop_all_asteps distinct_dropped_rows [OF assms] by (simp add: applyRetention_eq [OF assms])
qed (simp_all add: applyRetention_eq [OF assms] drop_all_frame assms(2))

end
