(* ===== verification/MemoryClaim.thy ===== *)
theory MemoryClaim
  imports MemoryInv
begin

text \<open>
  \<^verbatim>\<open>Claim\<close> of the memory store against a declarative specification: the loops over the map, the
  sort and the hand-out loop together return, for every subscriber in order, the one row at the
  head of its line, whatever order the runtime visits the map in.
\<close>

section \<open>The head of every line\<close>

definition least_in :: "int option \<Rightarrow> int set \<Rightarrow> bool" where
  "least_in r S \<longleftrightarrow> (case r of None \<Rightarrow> S = {} | Some n \<Rightarrow> n \<in> S \<and> (\<forall>m \<in> S. n \<le> m))"

definition unfinished_seqs :: "mem \<Rightarrow> string \<Rightarrow> string list \<Rightarrow> int set" where
  "unfinished_seqs s x ks =
     {Sequence d | k d. k \<in> set ks \<and> row s k = Some d \<and> SubscriberID d = x \<and> unfinished (Status d)}"

lemma unfinished_seqs_simps:
  "unfinished_seqs s x [] = {}"
  "unfinished_seqs s x (k # ks) =
     (case row s k of
        None \<Rightarrow> {}
      | Some d \<Rightarrow> if SubscriberID d = x \<and> unfinished (Status d) then {Sequence d} else {})
     \<union> unfinished_seqs s x ks"
  by (auto simp: unfinished_seqs_def split: option.splits)

lemma least_in_insert:
  "least_in r (insert n S) \<Longrightarrow> n \<le> m \<Longrightarrow> least_in r (insert m (insert n S))"
  by (auto simp: least_in_def split: option.splits)

lemma head_scan_least:
  "least_in (head_scan s ks head x) (set_option (head x) \<union> unfinished_seqs s x ks)"
proof (induction ks arbitrary: head)
  case Nil
  then show ?case by (auto simp: least_in_def unfinished_seqs_simps split: option.split)
next
  case (Cons k ks)
  show ?case
  proof (cases "\<exists>d. row s k = Some d \<and> unfinished (Status d)")
    case False
    then have "head_scan s (k # ks) head = head_scan s ks head"
      by (auto simp: unfinished_def split: option.split)
    moreover have "unfinished_seqs s x (k # ks) = unfinished_seqs s x ks"
      using False by (auto simp: unfinished_seqs_simps split: option.split)
    ultimately show ?thesis using Cons.IH [of head] by simp
  next
    case True
    then obtain d where d: "row s k = Some d" "unfinished (Status d)" by blast
    let ?y = "SubscriberID d"
    let ?head' = "if \<forall>cur. head ?y = Some cur \<longrightarrow> Sequence d < cur then head(?y \<mapsto> Sequence d) else head"
    have h: "head_scan s (k # ks) head = head_scan s ks ?head'"
      using d by (auto simp: unfinished_def split: option.split)
    show ?thesis
    proof (cases "?y = x")
      case False
      then have "?head' x = head x" by simp
      then show ?thesis
        using Cons.IH [of ?head'] False d by (simp add: h unfinished_seqs_simps del: head_scan.simps)
    next
      case True
      have IH: "least_in (head_scan s ks ?head' x) (set_option (?head' x) \<union> unfinished_seqs s x ks)"
        by (rule Cons.IH)
      have U: "unfinished_seqs s x (k # ks) = insert (Sequence d) (unfinished_seqs s x ks)"
        using d True by (simp add: unfinished_seqs_simps)
      show ?thesis
      proof (cases "head x")
        case None
        then show ?thesis using IH True by (simp add: h U del: head_scan.simps)
      next
        case (Some cur)
        have eq: "set_option (head x) \<union> unfinished_seqs s x (k # ks) =
            insert cur (insert (Sequence d) (unfinished_seqs s x ks))"
          by (auto simp: U Some)
        show ?thesis
        proof (cases "Sequence d < cur")
          case less: True
          then have "least_in (head_scan s ks ?head' x) (insert (Sequence d) (unfinished_seqs s x ks))"
            using IH True Some by simp
          then have "least_in (head_scan s ks ?head' x) (insert cur (insert (Sequence d) (unfinished_seqs s x ks)))"
            using less by (intro least_in_insert) simp_all
          then show ?thesis unfolding h eq .
        next
          case False
          then have "least_in (head_scan s ks ?head' x) (insert cur (unfinished_seqs s x ks))"
            using IH True Some by simp
          then have "least_in (head_scan s ks ?head' x) (insert (Sequence d) (insert cur (unfinished_seqs s x ks)))"
            using False by (intro least_in_insert) simp_all
          then show ?thesis unfolding h eq by (simp only: insert_commute)
        qed
      qed
    qed
  qed
qed

text \<open>For a pending row, matching the computed head is being first among the unfinished rows.\<close>

definition first_in_line :: "mem \<Rightarrow> delivery \<Rightarrow> bool" where
  "first_in_line s d \<longleftrightarrow>
     (\<forall>k' d'. row s k' = Some d' \<and> SubscriberID d' = SubscriberID d \<and> unfinished (Status d') \<longrightarrow>
        Sequence d \<le> Sequence d')"

lemma head_of_claim_heads:
  assumes "fair_env e" "\<not> DisableHOL s" "row s k = Some d" "Status d = StatusPending"
  shows "head_of (claim_heads e s) (SubscriberID d) = Sequence d \<longleftrightarrow> first_in_line s d"
proof -
  let ?x = "SubscriberID d"
  let ?U = "unfinished_seqs s ?x (row_keys e LHead s)"
  have least: "least_in (claim_heads e s ?x) ?U"
    using head_scan_least [of s "row_keys e LHead s" Map.empty ?x] assms(2) by (simp add: claim_heads_def)
  have U: "n \<in> ?U \<longleftrightarrow>
      (\<exists>k' d'. row s k' = Some d' \<and> SubscriberID d' = ?x \<and> unfinished (Status d') \<and> n = Sequence d')" for n
    by (auto simp: unfinished_seqs_def in_row_keys [OF assms(1)])
  have mem: "Sequence d \<in> ?U"
    unfolding U using assms(3,4) by (intro exI [of _ k] exI [of _ d]) simp
  obtain n where n: "claim_heads e s ?x = Some n" "n \<in> ?U" "\<forall>m \<in> ?U. n \<le> m"
    using least mem by (cases "claim_heads e s ?x") (auto simp: least_in_def)
  have "first_in_line s d \<longleftrightarrow> (\<forall>m \<in> ?U. Sequence d \<le> m)"
    unfolding first_in_line_def Ball_def U by blast
  also have "\<dots> \<longleftrightarrow> n = Sequence d"
    using n(2,3) mem by (auto intro: antisym)
  finally show ?thesis using n(1) by (simp add: head_of_def)
qed

section \<open>Candidates\<close>

definition due :: "gotime \<Rightarrow> delivery \<Rightarrow> bool" where
  "due t d \<longleftrightarrow> IsZero (NextAttempt d) \<or> NextAttempt d \<le> t"

definition eligible :: "gotime \<Rightarrow> int list \<Rightarrow> (string \<rightharpoonup> int) \<Rightarrow> mem \<Rightarrow> delivery \<Rightarrow> bool" where
  "eligible t parts head s d \<longleftrightarrow>
     Status d = StatusPending \<and> \<not> held_in s (SubscriberID d) \<and> due t d \<and> PartitionNo d \<in> set parts \<and>
     head_of head (SubscriberID d) = Sequence d"

definition cands_in :: "gotime \<Rightarrow> int list \<Rightarrow> (string \<rightharpoonup> int) \<Rightarrow> mem \<Rightarrow> string list \<Rightarrow> candidate list" where
  "cands_in t parts head s ks =
     concat (map (\<lambda>k. case row s k of
                        None \<Rightarrow> []
                      | Some d \<Rightarrow> if eligible t parts head s d
                          then [\<lparr>c_id = k, c_seq = Sequence d, c_sub = SubscriberID d\<rparr>] else []) ks)"

text \<open>The loop changes nothing but the subscriber entries \<^verbatim>\<open>meta\<close> creates.\<close>

definition same_rows :: "mem \<Rightarrow> mem \<Rightarrow> bool" where
  "same_rows s s' \<longleftrightarrow> byID s' = byID s \<and> seq s' = seq s \<and> held_in s' = held_in s \<and> gates_on s' = gates_on s"

lemma same_rows_refl: "same_rows s s"
  by (simp add: same_rows_def)

lemma same_rows_row: "same_rows s s' \<Longrightarrow> row s' k = row s k"
  by (simp add: same_rows_def row_def)

lemma same_rows_view: "same_rows s s' \<Longrightarrow> mem_view s' = mem_view s"
  by (simp add: same_rows_def mem_view_def row_def)

lemma cands_in_same:
  assumes "same_rows s s'"
  shows "cands_in t parts head s' ks = cands_in t parts head s ks"
proof -
  have "eligible t parts head s' = eligible t parts head s"
    using assms by (simp add: eligible_def same_rows_def fun_eq_iff)
  then show ?thesis by (simp add: cands_in_def same_rows_row [OF assms] cong: option.case_cong)
qed

lemma claim_candidates_eq:
  "gates_on s \<Longrightarrow> \<exists>s'. claim_candidates t parts head ks s acc = (s', acc @ cands_in t parts head s ks) \<and> same_rows s s'"
proof (induction ks arbitrary: s acc)
  case Nil
  then show ?case by (simp add: cands_in_def same_rows_refl)
next
  case (Cons k ks)
  have cons: "cands_in t parts head s (k # ks) =
      (case row s k of None \<Rightarrow> []
       | Some d \<Rightarrow> if eligible t parts head s d
           then [\<lparr>c_id = k, c_seq = Sequence d, c_sub = SubscriberID d\<rparr>] else []) @ cands_in t parts head s ks"
    by (simp add: cands_in_def)
  show ?case
  proof (cases "\<exists>d. row s k = Some d \<and> Status d = StatusPending")
    case False
    then have "claim_candidates t parts head (k # ks) s acc = claim_candidates t parts head ks s acc"
      "cands_in t parts head s (k # ks) = cands_in t parts head s ks"
      by (auto simp: cons eligible_def split: option.split)
    then show ?thesis using Cons by simp
  next
    case True
    then obtain d where d: "row s k = Some d" "Status d = StatusPending" by blast
    obtain s1 where g: "suspend_gate (SubscriberID d) s = (held_in s (SubscriberID d), s1)"
        using suspend_gate_simps(8) [OF Cons.prems, of "SubscriberID d"]
      by (cases "suspend_gate (SubscriberID d) s") auto
    then have s1: "s1 = snd (suspend_gate (SubscriberID d) s)" by simp
    have same: "same_rows s s1" by (simp add: s1 same_rows_def)
    have "cands_in t parts head s1 ks = cands_in t parts head s ks"
      using cands_in_same [OF same] .
    then have IH: "\<exists>s'. claim_candidates t parts head ks s1 acc' = (s', acc' @ cands_in t parts head s ks) \<and> same_rows s s'" for acc'
      using Cons.IH [of s1 acc'] Cons.prems same by (auto simp: same_rows_def)
    have hol: "\<not> DisableHOL s" using Cons.prems by (simp add: gates_on_def)
    show ?thesis
      using IH [of acc] IH [of "acc @ [\<lparr>c_id = k, c_seq = Sequence d, c_sub = SubscriberID d\<rparr>]"] d g hol
      by (auto simp: cons eligible_def due_def Let_def not_le)
  qed
qed

definition claimable :: "gotime \<Rightarrow> int list \<Rightarrow> mem \<Rightarrow> delivery \<Rightarrow> bool" where
  "claimable t parts s d \<longleftrightarrow>
     Status d = StatusPending \<and> \<not> held_in s (SubscriberID d) \<and> due t d \<and> PartitionNo d \<in> set parts \<and>
     first_in_line s d"

definition claimable_rows :: "gotime \<Rightarrow> int list \<Rightarrow> mem \<Rightarrow> delivery set" where
  "claimable_rows t parts s = {d. \<exists>k. row s k = Some d \<and> claimable t parts s d}"

lemma finite_rows: "finite {d. \<exists>k. row s k = Some d}"
proof -
  have "{d. \<exists>k. row s k = Some d} = ran (map_of (byID s))" by (auto simp: ran_def row_def)
  then show ?thesis by (simp add: finite_ran finite_dom_map_of)
qed

lemma finite_claimable_rows: "finite (claimable_rows t parts s)"
  by (rule finite_subset [OF _ finite_rows [of s]]) (auto simp: claimable_rows_def)

lemma claimable_unique:
  assumes "mem_inv s" "d \<in> claimable_rows t parts s" "d' \<in> claimable_rows t parts s"
    "SubscriberID d = SubscriberID d'"
  shows "d = d'"
proof -
  obtain k k' where k: "row s k = Some d" "row s k' = Some d'" and c: "claimable t parts s d" "claimable t parts s d'"
    using assms(2,3) by (auto simp: claimable_rows_def)
  have "Sequence d = Sequence d'"
    using c k assms(4) by (auto simp: claimable_def first_in_line_def intro!: antisym)
  then have "k = k'"
    using assms(1,4) k seq_invD(3) [of "mem_view s" k "arow_of d" k' "arow_of d'"]
    by (simp add: mem_inv_def ainv_def)
  then show ?thesis using k by simp
qed

text \<open>A candidate stands for the row under its key.\<close>

definition cand_row :: "mem \<Rightarrow> candidate \<Rightarrow> delivery" where
  "cand_row s c = the (row s (c_id c))"

lemma cands_in_iff:
  assumes "fair_env e" "gates_on s"
  shows "c \<in> set (cands_in t parts (claim_heads e s) s (row_keys e l s)) \<longleftrightarrow>
    (\<exists>d. row s (c_id c) = Some d \<and> claimable t parts s d \<and> c_seq c = Sequence d \<and> c_sub c = SubscriberID d)"
proof -
  have c: "c \<in> set (cands_in t parts (claim_heads e s) s ks) \<longleftrightarrow>
      c_id c \<in> set ks \<and> (\<exists>d. row s (c_id c) = Some d \<and> eligible t parts (claim_heads e s) s d \<and>
        c_seq c = Sequence d \<and> c_sub c = SubscriberID d)" for ks
  proof (induction ks)
    case (Cons k ks)
    then show ?case by (cases c, cases "row s k") (auto simp: cands_in_def)
  qed (simp add: cands_in_def)
  have "eligible t parts (claim_heads e s) s d \<longleftrightarrow> claimable t parts s d" if "row s k = Some d" for k d
    using head_of_claim_heads [OF assms(1) _ that] assms(2)
    by (auto simp: eligible_def claimable_def gates_on_def)
  then show ?thesis
    unfolding c in_row_keys [OF assms(1)] by auto
qed

lemma distinct_cands:
  assumes "mem_inv s" "fair_env e"
  shows "distinct (map c_id (cands_in t parts head s (row_keys e l s)))"
proof -
  have "distinct (map c_id (cands_in t parts head s ks))" if "distinct ks" for ks
    using that
  proof (induction ks)
    case (Cons k ks)
    have "k \<notin> c_id ` set (cands_in t parts head s ks)"
      using Cons.prems by (auto simp: cands_in_def split: option.splits if_splits)
    then show ?case
      using Cons by (auto simp: cands_in_def split: option.split)
  qed (simp add: cands_in_def)
  then show ?thesis
    using assms distinct_row_keys by (simp add: mem_inv_def)
qed

lemma sorted_fst_key:
  fixes f :: "'a \<Rightarrow> 'b :: linorder" and g :: "'a \<Rightarrow> 'c :: linorder"
  shows "sorted (map (\<lambda>x. (f x, g x)) xs) \<Longrightarrow> sorted (map f xs)"
  by (induction xs) (auto simp: less_eq_prod_def)

section \<open>Handing out\<close>

lemma claim_take_eq:
  assumes "gates_on s" "distinct (map c_sub cs)" "distinct (map c_id cs)"
    "\<forall>c \<in> set cs. c_sub c \<notin> set taken \<and>
        (\<exists>d. row s (c_id c) = Some d \<and> SubscriberID d = c_sub c \<and> head_of head (c_sub c) = Sequence d)"
  shows "claim_take owner gen t limit head cs s taken out =
     (fold (\<lambda>c. set_row (c_id c) (claim_row owner gen t)) (take (nat (limit - int (length out))) cs) s,
      out @ map (\<lambda>c. cloneDelivery (claim_row owner gen t (cand_row s c)))
              (take (nat (limit - int (length out))) cs))"
  using assms
proof (induction cs arbitrary: s taken out)
  case Nil
  then show ?case by simp
next
  case (Cons c cs)
  obtain d where d: "row s (c_id c) = Some d" "SubscriberID d = c_sub c" "head_of head (c_sub c) = Sequence d"
    and c: "c_sub c \<notin> set taken"
    using Cons.prems(4) by auto
  show ?case
  proof (cases "int (length out) \<ge> limit")
    case True
    then show ?thesis by simp
  next
    case False
    let ?s = "set_row (c_id c) (claim_row owner gen t) s"
    let ?out = "out @ [cloneDelivery (claim_row owner gen t d)]"
    have n: "nat (limit - int (length out)) = Suc (nat (limit - int (length ?out)))"
      using False by simp
    have hol: "\<not> DisableHOL s" using Cons.prems(1) by (simp add: gates_on_def)
    have other: "row ?s (c_id c') = row s (c_id c')" if "c' \<in> set cs" for c'
    proof -
      have "c_id c' \<noteq> c_id c" using Cons.prems(3) imageI [OF that, of c_id] by auto
      then show ?thesis by (simp add: store_simps)
    qed
    have "claim_take owner gen t limit head cs ?s (c_sub c # taken) ?out =
      (fold (\<lambda>c. set_row (c_id c) (claim_row owner gen t)) (take (nat (limit - int (length ?out))) cs) ?s,
       ?out @ map (\<lambda>c. cloneDelivery (claim_row owner gen t (cand_row ?s c)))
              (take (nat (limit - int (length ?out))) cs))"
    proof (rule Cons.IH)
      show "gates_on ?s" using Cons.prems(1) by (simp add: frame_simps)
      show "distinct (map c_sub cs)" "distinct (map c_id cs)" using Cons.prems(2,3) by simp_all
      show "\<forall>c' \<in> set cs. c_sub c' \<notin> set (c_sub c # taken) \<and>
        (\<exists>d. row ?s (c_id c') = Some d \<and> SubscriberID d = c_sub c' \<and> head_of head (c_sub c') = Sequence d)"
      proof
        fix c' assume c': "c' \<in> set cs"
        have "c_sub c' \<noteq> c_sub c" using Cons.prems(2) imageI [OF c', of c_sub] by auto
        then show "c_sub c' \<notin> set (c_sub c # taken) \<and>
          (\<exists>d. row ?s (c_id c') = Some d \<and> SubscriberID d = c_sub c' \<and> head_of head (c_sub c') = Sequence d)"
          using Cons.prems(4) c' unfolding other [OF c'] by simp
      qed
    qed
    moreover have "map (\<lambda>c. cloneDelivery (claim_row owner gen t (cand_row ?s c))) (take m cs) =
        map (\<lambda>c. cloneDelivery (claim_row owner gen t (cand_row s c))) (take m cs)" for m
      using other by (auto simp: cand_row_def dest: in_set_takeD)
    ultimately show ?thesis
      using False d c hol unfolding n by (simp add: cand_row_def)
  qed
qed

lemma fold_set_row:
  "distinct (map c_id cs) \<Longrightarrow>
   row (fold (\<lambda>c. set_row (c_id c) f) cs s) k =
     (if k \<in> c_id ` set cs then map_option f (row s k) else row s k)"
  by (induction cs arbitrary: s) (auto simp: store_simps)

lemma fold_set_row_frame:
  "map fst (byID (fold (\<lambda>c. set_row (c_id c) f) cs s)) = map fst (byID s)"
  "held_in (fold (\<lambda>c. set_row (c_id c) f) cs s) = held_in s"
  "seq (fold (\<lambda>c. set_row (c_id c) f) cs s) = seq s"
  "gates_on (fold (\<lambda>c. set_row (c_id c) f) cs s) = gates_on s"
  by (induction cs arbitrary: s) (simp_all add: frame_simps store_simps del: map_map)

text \<open>The candidates in the order they are served.\<close>

definition line_up :: "env \<Rightarrow> int list \<Rightarrow> mem \<Rightarrow> candidate list" where
  "line_up e parts s =
     sort_key (\<lambda>c. (c_sub c, c_seq c))
       (cands_in (clock e) parts (claim_heads e s) s (row_keys e LCandidates s))"

lemma line_up_props:
  assumes "mem_inv s" "fair_env e"
  shows "distinct (map c_id (line_up e parts s))" "distinct (map c_sub (line_up e parts s))"
    "sorted (map c_sub (line_up e parts s))"
    "c \<in> set (line_up e parts s) \<Longrightarrow> row s (c_id c) = Some (cand_row s c) \<and>
       claimable (clock e) parts s (cand_row s c) \<and> SubscriberID (cand_row s c) = c_sub c \<and>
       Sequence (cand_row s c) = c_seq c \<and> head_of (claim_heads e s) (c_sub c) = c_seq c"
    "cand_row s ` set (line_up e parts s) = claimable_rows (clock e) parts s"
proof -
  let ?cs = "cands_in (clock e) parts (claim_heads e s) s (row_keys e LCandidates s)"
  have g: "gates_on s" using assms(1) by (simp add: mem_inv_def)
  have set: "set (line_up e parts s) = set ?cs" by (simp add: line_up_def)
  show *: "row s (c_id c) = Some (cand_row s c) \<and>
       claimable (clock e) parts s (cand_row s c) \<and> SubscriberID (cand_row s c) = c_sub c \<and>
       Sequence (cand_row s c) = c_seq c \<and> head_of (claim_heads e s) (c_sub c) = c_seq c"
    if c_in: "c \<in> set (line_up e parts s)" for c
  proof -
    obtain d where d: "row s (c_id c) = Some d" "claimable (clock e) parts s d"
      and c: "c_seq c = Sequence d" "c_sub c = SubscriberID d"
      using c_in [unfolded set cands_in_iff [OF assms(2) g]] by blast
    moreover have "head_of (claim_heads e s) (SubscriberID d) = Sequence d"
      using head_of_claim_heads [OF assms(2) _ d(1)] d(2) g by (auto simp: gates_on_def claimable_def)
    ultimately show ?thesis using d by (simp add: cand_row_def)
  qed
  show dist: "distinct (map c_id (line_up e parts s))"
    using distinct_cands [OF assms] by (simp add: line_up_def distinct_map)
  have "c = c'" if "c \<in> set (line_up e parts s)" "c' \<in> set (line_up e parts s)" "c_sub c = c_sub c'" for c c'
  proof -
    have "cand_row s c = cand_row s c'"
      using * [OF that(1)] * [OF that(2)] that(3)
      by (intro claimable_unique [OF assms(1), of _ "clock e" parts]) (auto simp: claimable_rows_def)
    moreover have "ID (cand_row s c) = c_id c" "ID (cand_row s c') = c_id c'"
      using * [OF that(1)] * [OF that(2)] assms(1) by (auto simp: mem_inv_def dest: well_keyedD)
    ultimately show ?thesis using dist that(1,2) by (metis distinct_map inj_onD)
  qed
  then show "distinct (map c_sub (line_up e parts s))"
    using dist by (auto simp: distinct_map inj_on_def)
  show "sorted (map c_sub (line_up e parts s))"
  proof -
    have "sorted (map (\<lambda>c. (c_sub c, c_seq c)) (line_up e parts s))" by (simp add: line_up_def)
    then show ?thesis by (rule sorted_fst_key)
  qed
  show "cand_row s ` set (line_up e parts s) = claimable_rows (clock e) parts s"
  proof (intro equalityI subsetI)
    fix d assume "d \<in> claimable_rows (clock e) parts s"
    then obtain k where k: "row s k = Some d" "claimable (clock e) parts s d"
      by (auto simp: claimable_rows_def)
    then have "\<lparr>c_id = k, c_seq = Sequence d, c_sub = SubscriberID d\<rparr> \<in> set (line_up e parts s)"
      unfolding set cands_in_iff [OF assms(2) g] by auto
    then show "d \<in> cand_row s ` set (line_up e parts s)"
      using k(1) by (force simp: cand_row_def)
  qed (use * in \<open>auto simp: claimable_rows_def\<close>)
qed

text \<open>\<^verbatim>\<open>Claim\<close> in closed form, when it gets past its guards.\<close>

lemma Claim_eq:
  assumes "mem_inv s" "fair_env e" "ctx_err e = None" "owner \<noteq> []" "gen \<noteq> 0" "0 < limit" "parts \<noteq> []"
  shows "fst (Claim e owner gen parts limit s) =
      Inr (map (\<lambda>c. cloneDelivery (claim_row owner gen (clock e) (cand_row s c)))
             (take (nat limit) (line_up e parts s)))"
    "\<exists>s'. same_rows s s' \<and>
      same_rows (fold (\<lambda>c. set_row (c_id c) (claim_row owner gen (clock e))) (take (nat limit) (line_up e parts s)) s')
        (snd (Claim e owner gen parts limit s))"
proof -
  let ?s1 = "s\<lparr>ClaimCalls := ClaimCalls s + 1\<rparr>"
  have same1: "same_rows s ?s1"
    by (simp add: same_rows_def held_in_def gates_on_def fun_eq_iff)
  have g: "gates_on ?s1" using assms(1) same1 by (simp add: mem_inv_def same_rows_def)
  have heads: "claim_heads e ?s1 = claim_heads e s"
  proof -
    have "head_scan ?s1 ks h = head_scan s ks h" for ks h
      by (induction ks arbitrary: h) (auto simp: row_def split: option.split)
    then show ?thesis by (simp add: claim_heads_def row_keys_def)
  qed
  note cands = cands_in_same [OF same1]
  obtain s2 where cc: "claim_candidates (clock e) parts (claim_heads e s) (row_keys e LCandidates s) ?s1 [] =
        (s2, cands_in (clock e) parts (claim_heads e s) s (row_keys e LCandidates s))"
    and same2: "same_rows ?s1 s2"
    using claim_candidates_eq [OF g, of "clock e" parts "claim_heads e s" "row_keys e LCandidates s" "[]"]
    by (auto simp: cands)
  have same: "same_rows s s2" using same1 same2 by (simp add: same_rows_def)
  note lp = line_up_props [OF assms(1,2), where parts = parts]
  have take: "claim_take owner gen (clock e) limit (claim_heads e s) (line_up e parts s) s2 [] [] =
      (fold (\<lambda>c. set_row (c_id c) (claim_row owner gen (clock e))) (take (nat limit) (line_up e parts s)) s2,
       map (\<lambda>c. cloneDelivery (claim_row owner gen (clock e) (cand_row s2 c))) (take (nat limit) (line_up e parts s)))"
  proof -
    have "gates_on s2" using g same2 by (simp add: same_rows_def)
    moreover have "\<forall>c \<in> set (line_up e parts s). c_sub c \<notin> set [] \<and>
        (\<exists>d. row s2 (c_id c) = Some d \<and> SubscriberID d = c_sub c \<and> head_of (claim_heads e s) (c_sub c) = Sequence d)"
      using lp(4) same_rows_row [OF same] by auto
    ultimately show ?thesis
      using claim_take_eq [OF _ lp(2,1), of s2 "[]" "claim_heads e s" owner gen "clock e" limit "[]"] by simp
  qed
  have keys: "row_keys e l ?s1 = row_keys e l s" for l by (simp add: row_keys_def)
  have "cand_row s2 c = cand_row s c" for c using same_rows_row [OF same] by (simp add: cand_row_def)
  then show "fst (Claim e owner gen parts limit s) =
      Inr (map (\<lambda>c. cloneDelivery (claim_row owner gen (clock e) (cand_row s c)))
             (take (nat limit) (line_up e parts s)))"
    using assms(3-7) cc take by (simp add: Claim_def Let_def heads keys line_up_def)
  have "same_rows s2 s2" by (rule same_rows_refl)
  moreover have "same_rows s3 (s3\<lparr>ClaimRows := a\<rparr>)" "same_rows s3 (s3\<lparr>ClaimRows := a, ClaimNonEmpty := b\<rparr>)" for s3 a b
    by (simp_all add: same_rows_def held_in_def gates_on_def fun_eq_iff)
  ultimately have "same_rows (fold (\<lambda>c. set_row (c_id c) (claim_row owner gen (clock e))) (take (nat limit) (line_up e parts s)) s2)
        (snd (Claim e owner gen parts limit s))"
    using assms(3-7) cc take by (simp add: Claim_def Let_def heads keys line_up_def)
  then show "\<exists>s'. same_rows s s' \<and>
      same_rows (fold (\<lambda>c. set_row (c_id c) (claim_row owner gen (clock e))) (take (nat limit) (line_up e parts s)) s')
        (snd (Claim e owner gen parts limit s))"
    using same by blast
qed

lemma Claim_idle:
  assumes "\<not> (ctx_err e = None \<and> owner \<noteq> [] \<and> gen \<noteq> 0 \<and> 0 < limit \<and> parts \<noteq> [])"
  shows "same_rows s (snd (Claim e owner gen parts limit s)) \<and>
    (\<forall>ds. fst (Claim e owner gen parts limit s) = Inr ds \<longrightarrow> ds = [])"
  using assms
  by (auto simp: Claim_def Let_def same_rows_def held_in_def gates_on_def fun_eq_iff split: option.splits if_splits)

end
