(* ===== verification/MemoryRefine.thy ===== *)
theory MemoryRefine
  imports MemoryClaim
begin

text \<open>
  Every method of the memory store is a sequence of steps of the abstract store, from any state of
  the invariant and in any fair environment, so \<open>memory_store\<close> interprets \<open>ordering_store\<close>.
\<close>

section \<open>Refinement of one method\<close>

definition refines :: "mem \<Rightarrow> mem \<Rightarrow> (string \<times> int) list \<Rightarrow> bool" where
  "refines s s' hs \<longleftrightarrow> well_keyed s' \<and> gates_on s' \<and>
     (\<exists>ls. asteps (mem_view s) ls (mem_view s') \<and> claims ls = hs)"

lemma refines_inv: "mem_inv s \<Longrightarrow> refines s s' hs \<Longrightarrow> mem_inv s'"
  by (auto simp: refines_def mem_inv_def dest: asteps_ainv)

lemma refines_append: "refines s s1 hs \<Longrightarrow> refines s1 s2 is \<Longrightarrow> refines s s2 (hs @ is)"
  unfolding refines_def by (metis asteps_append claims_simps(3))

lemma refines_silent: "refines s s1 [] \<Longrightarrow> refines s1 s2 hs \<Longrightarrow> refines s s2 hs"
  using refines_append by fastforce

lemma refines_view:
  "well_keyed s' \<Longrightarrow> gates_on s' \<Longrightarrow> mem_view s' = mem_view s \<Longrightarrow> refines s s' []"
  unfolding refines_def by (auto intro!: exI [of _ "[]"])

lemma refines_same:
  assumes "mem_inv s" "same_rows s s'"
  shows "refines s s' []"
proof (rule refines_view)
  show "well_keyed s'" "gates_on s'" "mem_view s' = mem_view s"
    using assms well_keyed_cong [of s' s] same_rows_view [of s s'] by (auto simp: mem_inv_def same_rows_def)
qed

lemma refines_refl: "mem_inv s \<Longrightarrow> refines s s []"
  by (rule refines_same) (simp_all add: same_rows_refl)

lemma refines_step:
  assumes "well_keyed s'" "gates_on s'" "astep (mem_view s) l (mem_view s')" "claim_of l = []"
  shows "refines s s' []"
  unfolding refines_def using assms asteps_one [OF assms(3)] by (auto intro!: exI [of _ "[l]"])

lemma refines_signal: "refines s s' hs \<Longrightarrow> refines s (signal s') hs"
  by (simp add: refines_def well_keyed_updates frame_simps)

lemma mem_invD:
  assumes "mem_inv s"
  shows "well_keyed s" "gates_on s" "ainv (mem_view s)"
  using assms by (simp_all add: mem_inv_def)

section \<open>Retention\<close>

lemma refines_retention:
  assumes "mem_inv s" "fair_env e"
  shows "refines s (applyRetentionLocked e x t s) []"
  using applyRetention_refines [OF assms(2) mem_invD(1) [OF assms(1)], of x t] mem_invD(2) [OF assms(1)]
  by (simp add: refines_def)

lemma refines_retention_fold:
  "mem_inv s \<Longrightarrow> fair_env e \<Longrightarrow> refines s (fold (\<lambda>x. applyRetentionLocked e x t) xs s) []"
proof (induction xs arbitrary: s)
  case Nil
  then show ?case by (simp add: refines_refl)
next
  case (Cons x xs)
  have one: "refines s (applyRetentionLocked e x t s) []" using refines_retention [OF Cons.prems] .
  show ?case
    using refines_silent [OF one Cons.IH] refines_inv [OF Cons.prems(1) one] Cons.prems(2) by simp
qed

section \<open>Enqueue\<close>

lemma stored_row_simps [simp]:
  "ID (stored_row t n r d) = ID d" "SubscriberID (stored_row t n r d) = SubscriberID d"
  "Sequence (stored_row t n r d) = n"
  "Status (stored_row t n r d) = (if r then StatusRetained else StatusPending)"
  by (simp_all add: stored_row_def)

definition enqueue_row :: "gotime \<Rightarrow> delivery \<Rightarrow> mem \<Rightarrow> mem" where
  "enqueue_row t d s =
     (let n = next_seq s (SubscriberID d);
          (retained, s1) = suspend_gate (SubscriberID d) (s\<lparr>seq := (seq s)(SubscriberID d \<mapsto> n)\<rparr>)
      in put_row (ID d) (stored_row t n retained d) s1)"

lemma enqueue_row_frame:
  assumes "gates_on s"
  shows "row (enqueue_row t d s) k =
      (if k = ID d then Some (stored_row t (next_seq s (SubscriberID d)) (held_in s (SubscriberID d)) d) else row s k)"
    "held_in (enqueue_row t d s) = held_in s" "gates_on (enqueue_row t d s) = gates_on s"
    "seq (enqueue_row t d s) = (seq s)(SubscriberID d \<mapsto> next_seq s (SubscriberID d))"
    "well_keyed s \<Longrightarrow> well_keyed (enqueue_row t d s)"
proof -
  let ?s0 = "s\<lparr>seq := (seq s)(SubscriberID d \<mapsto> next_seq s (SubscriberID d))\<rparr>"
  obtain r s1 where g: "suspend_gate (SubscriberID d) ?s0 = (r, s1)" by fastforce
  have eq: "enqueue_row t d s = put_row (ID d) (stored_row t (next_seq s (SubscriberID d)) r d) s1"
    by (simp add: enqueue_row_def Let_def g)
  note sg = suspend_gate_simps [where x = "SubscriberID d" and s = ?s0, unfolded g snd_conv fst_conv]
  have r: "r = held_in s (SubscriberID d)" using sg(8) assms by (simp add: frame_simps)
  show "row (enqueue_row t d s) k =
      (if k = ID d then Some (stored_row t (next_seq s (SubscriberID d)) (held_in s (SubscriberID d)) d) else row s k)"
    "held_in (enqueue_row t d s) = held_in s" "gates_on (enqueue_row t d s) = gates_on s"
    "seq (enqueue_row t d s) = (seq s)(SubscriberID d \<mapsto> next_seq s (SubscriberID d))"
    using sg by (simp_all add: eq r store_simps frame_simps)
  show "well_keyed (enqueue_row t d s)" if "well_keyed s"
  proof -
    have "well_keyed s1" using that well_keyed_cong [of s1 s] sg(1) by simp
    then show ?thesis unfolding eq by (simp add: well_keyed_updates)
  qed
qed

lemma enqueue_loop_step:
  assumes "gates_on s" "ID d \<noteq> []" "SubscriberID d \<noteq> []" "row s (ID d) = None"
  shows "enqueue_loop t (d # ds) s touched =
    enqueue_loop t ds (enqueue_row t d s)
      (if held_in s (SubscriberID d) then List.insert (SubscriberID d) touched else touched)"
proof -
  let ?s0 = "s\<lparr>seq := (seq s)(SubscriberID d \<mapsto> next_seq s (SubscriberID d))\<rparr>"
  obtain r s1 where g: "suspend_gate (SubscriberID d) ?s0 = (r, s1)" by fastforce
  have "r = held_in s (SubscriberID d)"
    using suspend_gate_simps(8) [of ?s0 "SubscriberID d"] assms(1) g by (simp add: frame_simps)
  then show ?thesis using assms by (simp add: enqueue_row_def Let_def g)
qed

lemma refines_enqueue_row:
  assumes "mem_inv s" "row s (ID d) = None"
  shows "refines s (enqueue_row t d s) []"
proof (rule refines_step)
  let ?x = "SubscriberID d"
  note f = enqueue_row_frame [OF mem_invD(2) [OF assms(1)], of t d]
  let ?a = "mem_view s"
  let ?n = "last_seq ?a ?x + 1"
  have n: "next_seq s ?x = ?n" by (simp add: next_seq_def)
  have "mem_view (enqueue_row t d s) =
      ?a\<lparr>rows := (rows ?a)(ID d \<mapsto> \<lparr>a_sub = ?x, a_seq = ?n,
            a_st = if held ?a ?x then StatusRetained else StatusPending\<rparr>),
         last_seq := (last_seq ?a)(?x := ?n)\<rparr>"
    by (rule view_eqI) (simp_all add: f arow_of_def n del: view_simps(3), simp_all)
  then show "astep ?a (AEnqueue ?x ?n) (mem_view (enqueue_row t d s))"
    using astep.enqueue [of ?a "ID d" ?n ?x] assms(2) by simp
qed (use enqueue_row_frame mem_invD assms in simp_all)

lemma refines_enqueue_loop:
  "mem_inv s \<Longrightarrow> refines s (fst (snd (enqueue_loop t ds s touched))) []"
proof (induction ds arbitrary: s touched)
  case Nil
  then show ?case by (simp add: refines_refl)
next
  case (Cons d ds)
  show ?case
  proof (cases "ID d \<noteq> [] \<and> SubscriberID d \<noteq> [] \<and> row s (ID d) = None")
    case True
    have one: "refines s (enqueue_row t d s) []" using refines_enqueue_row [OF Cons.prems] True by simp
    show ?thesis
      using refines_silent [OF one Cons.IH [OF refines_inv [OF Cons.prems one]]]
        enqueue_loop_step [OF mem_invD(2) [OF Cons.prems], of d] True by simp
  next
    case False
    then show ?thesis using refines_refl [OF Cons.prems] by auto
  qed
qed

lemma refines_Enqueue:
  assumes "mem_inv s" "fair_env e"
  shows "refines s (snd (Enqueue e ds s)) []"
proof (cases "ctx_err e")
  case None
  obtain err s1 touched where l: "enqueue_loop (clock e) ds s [] = (err, s1, touched)" by (metis prod_cases3)
  have one: "refines s s1 []" using refines_enqueue_loop [OF assms(1), of "clock e" ds "[]"] l by simp
  then show ?thesis
    using refines_signal [OF refines_silent [OF one refines_retention_fold [OF refines_inv [OF assms(1) one] assms(2)]]] None
    by (auto simp: Enqueue_def l)
qed (simp add: Enqueue_def refines_refl assms)

section \<open>Claim\<close>

lemma claim_row_simps [simp]:
  "ID (claim_row owner gen t d) = ID d" "SubscriberID (claim_row owner gen t d) = SubscriberID d"
  "Sequence (claim_row owner gen t d) = Sequence d" "Status (claim_row owner gen t d) = StatusInFlight"
  "PartitionNo (claim_row owner gen t d) = PartitionNo d"
  by (simp_all add: claim_row_def)

lemma cloneDelivery_simps [simp]:
  "ID (cloneDelivery d) = ID d" "SubscriberID (cloneDelivery d) = SubscriberID d"
  "Sequence (cloneDelivery d) = Sequence d" "Status (cloneDelivery d) = Status d"
  "PartitionNo (cloneDelivery d) = PartitionNo d" "Owner (cloneDelivery d) = Owner d"
  "Generation (cloneDelivery d) = Generation d"
  by (simp_all add: cloneDelivery_def)

definition ready :: "mem \<Rightarrow> candidate \<Rightarrow> bool" where
  "ready s c \<longleftrightarrow> (\<exists>d. row s (c_id c) = Some d \<and> SubscriberID d = c_sub c \<and> Sequence d = c_seq c \<and>
     Status d = StatusPending \<and> \<not> held_in s (c_sub c) \<and> first_in_line s d)"

lemma claim_one_astep:
  assumes "ready s c"
  shows "astep (mem_view s) (AClaim (c_sub c) (c_seq c)) (mem_view (set_row (c_id c) (claim_row owner gen t) s))"
proof -
  obtain d where d: "row s (c_id c) = Some d" "SubscriberID d = c_sub c" "Sequence d = c_seq c"
      "Status d = StatusPending" "\<not> held_in s (c_sub c)" "first_in_line s d"
    using assms by (auto simp: ready_def)
  have eq: "mem_view (set_row (c_id c) (claim_row owner gen t) s) = set_st (c_id c) StatusInFlight (mem_view s)"
    using d(1) by (rule view_set_row) (simp add: arow_of_def)
  have "astep (mem_view s) (AClaim (a_sub (arow_of d)) (a_seq (arow_of d)))
      (set_st (c_id c) StatusInFlight (mem_view s))"
    using d by (intro astep.claim) (auto simp: first_in_line_def)
  then show ?thesis using d(2,3) unfolding eq by simp
qed

lemma ready_other:
  assumes "ready s c'" "c_sub c' \<noteq> c_sub c" "row s (c_id c) = Some d" "SubscriberID d = c_sub c"
  shows "ready (set_row (c_id c) (claim_row owner gen t) s) c'"
proof -
  obtain d' where d': "row s (c_id c') = Some d'" "SubscriberID d' = c_sub c'" "Sequence d' = c_seq c'"
      "Status d' = StatusPending" "\<not> held_in s (c_sub c')" "first_in_line s d'"
    using assms(1) by (auto simp: ready_def)
  have "c_id c' \<noteq> c_id c" using assms(2-4) d'(1,2) by auto
  moreover have "first_in_line (set_row (c_id c) (claim_row owner gen t) s) d'"
    using d'(2,6) assms(2-4) by (auto simp: first_in_line_def store_simps split: if_splits)
  ultimately show ?thesis
    using d' by (auto simp: ready_def store_simps frame_simps intro!: exI [of _ d'])
qed

lemma claim_fold_asteps:
  assumes "\<forall>c \<in> set cs. ready s c" "distinct (map c_sub cs)"
  shows "\<exists>ls. asteps (mem_view s) ls (mem_view (fold (\<lambda>c. set_row (c_id c) (claim_row owner gen t)) cs s)) \<and>
    claims ls = map (\<lambda>c. (c_sub c, c_seq c)) cs"
  using assms
proof (induction cs arbitrary: s)
  case Nil
  then show ?case by (auto intro: exI [of _ "[]"])
next
  case (Cons c cs)
  let ?s = "set_row (c_id c) (claim_row owner gen t) s"
  obtain d where d: "row s (c_id c) = Some d" "SubscriberID d = c_sub c"
    using Cons.prems(1) by (auto simp: ready_def)
  have "\<forall>c' \<in> set cs. ready ?s c'"
  proof
    fix c' assume c': "c' \<in> set cs"
    have "c_sub c' \<noteq> c_sub c" using Cons.prems(2) imageI [OF c', of c_sub] by auto
    then show "ready ?s c'" using Cons.prems(1) c' by (intro ready_other [OF _ _ d]) simp_all
  qed
  then obtain ls where ls: "asteps (mem_view ?s) ls (mem_view (fold (\<lambda>c. set_row (c_id c) (claim_row owner gen t)) cs ?s))"
      "claims ls = map (\<lambda>c. (c_sub c, c_seq c)) cs"
    using Cons.IH [of ?s] Cons.prems(2) by auto
  have "astep (mem_view s) (AClaim (c_sub c) (c_seq c)) (mem_view ?s)"
    using Cons.prems(1) by (intro claim_one_astep) simp
  then show ?case
    using ls by (auto intro!: exI [of _ "AClaim (c_sub c) (c_seq c) # ls"] asteps.step)
qed

lemma well_keyed_fold:
  "well_keyed s \<Longrightarrow> (\<And>d. ID (f d) = ID d) \<Longrightarrow> well_keyed (fold (\<lambda>c. set_row (g c) f) cs s)"
  by (induction cs arbitrary: s) (simp_all add: well_keyed_updates)

lemma line_up_ready:
  assumes "mem_inv s" "fair_env e" "c \<in> set (line_up e parts s)"
  shows "ready s c"
  using line_up_props(4) [OF assms] by (auto simp: ready_def claimable_def)

lemma ready_same: "same_rows s s' \<Longrightarrow> ready s' c = ready s c"
  by (simp add: ready_def same_rows_row first_in_line_def) (simp add: same_rows_def)

lemma refines_Claim:
  assumes "mem_inv s" "fair_env e"
  shows "refines s (snd (Claim e owner gen parts limit s))
    (case fst (Claim e owner gen parts limit s) of
       Inl err \<Rightarrow> [] | Inr ds \<Rightarrow> map (\<lambda>d. (SubscriberID d, Sequence d)) ds)"
proof (cases "ctx_err e = None \<and> owner \<noteq> [] \<and> gen \<noteq> 0 \<and> 0 < limit \<and> parts \<noteq> []")
  case False
  note idle = Claim_idle [OF False, of s]
  then have "(case fst (Claim e owner gen parts limit s) of
       Inl err \<Rightarrow> [] | Inr ds \<Rightarrow> map (\<lambda>d. (SubscriberID d, Sequence d)) ds) = []"
    by (auto split: sum.split)
  then show ?thesis using refines_same [OF assms(1)] idle by simp
next
  case True
  let ?f = "claim_row owner gen (clock e)" and ?cs = "take (nat limit) (line_up e parts s)"
  have T: "ctx_err e = None" "owner \<noteq> []" "gen \<noteq> 0" "0 < limit" "parts \<noteq> []" using True by simp_all
  note C = Claim_eq [OF assms T] and lp = line_up_props [OF assms, where parts = parts]
  obtain s' where s': "same_rows s s'" "same_rows (fold (\<lambda>c. set_row (c_id c) ?f) ?cs s') (snd (Claim e owner gen parts limit s))"
    using C(2) by (elim exE conjE)
  let ?t = "fold (\<lambda>c. set_row (c_id c) ?f) ?cs s'"
  have inv': "mem_inv s'" using refines_inv [OF assms(1) refines_same [OF assms(1) s'(1)]] .
  have "\<forall>c \<in> set ?cs. ready s' c"
    using line_up_ready [OF assms] by (auto simp: ready_same [OF s'(1)] dest: in_set_takeD)
  then have "\<exists>ls. asteps (mem_view s') ls (mem_view ?t) \<and> claims ls = map (\<lambda>c. (c_sub c, c_seq c)) ?cs"
    by (rule claim_fold_asteps) (simp add: lp(2) distinct_take flip: take_map)
  then have t: "refines s' ?t (map (\<lambda>c. (c_sub c, c_seq c)) ?cs)"
    using mem_invD [OF inv'] by (auto simp: refines_def fold_set_row_frame well_keyed_fold)
  have "refines s (snd (Claim e owner gen parts limit s)) ([] @ map (\<lambda>c. (c_sub c, c_seq c)) ?cs @ [])"
    using refines_append [OF refines_same [OF assms(1) s'(1)] refines_append [OF t refines_same [OF refines_inv [OF inv' t] s'(2)]]] .
  moreover have "map (\<lambda>c. (SubscriberID (cloneDelivery (?f (cand_row s c))), Sequence (cloneDelivery (?f (cand_row s c))))) ?cs =
      map (\<lambda>c. (c_sub c, c_seq c)) ?cs"
    using lp(4) by (intro map_cong) (auto dest: in_set_takeD)
  ultimately show ?thesis unfolding C(1) by (simp only: sum.case map_map comp_def append_Nil append_Nil2)
qed

section \<open>Marks\<close>

lemma requireOwner_Inr:
  "requireOwner s k owner gen = Inr d \<longleftrightarrow>
     gen \<noteq> 0 \<and> row s k = Some d \<and> Status d = StatusInFlight \<and> Owner d = owner \<and> Generation d = gen"
  by (auto simp: requireOwner_def split: option.splits)

lemma set_row_step:
  assumes "mem_inv s" "row s k = Some d" "\<And>d. ID (f d) = ID d" "arow_of (f d) = (arow_of d)\<lparr>a_st := st\<rparr>"
    "astep (mem_view s) l (set_st k st (mem_view s))" "claim_of l = []"
  shows "refines s (set_row k f s) []"
proof (rule refines_step)
  show "well_keyed (set_row k f s)" "gates_on (set_row k f s)"
    using mem_invD [OF assms(1)] assms(3) by (simp_all add: well_keyed_updates frame_simps)
  show "astep (mem_view s) l (mem_view (set_row k f s))"
    using assms(5) view_set_row [where f = f, OF assms(2,4)] by simp
qed (rule assms(6))

lemma in_flight_steps:
  assumes "row s k = Some d" "Status d = StatusInFlight"
  shows "astep (mem_view s) (ADeliver (SubscriberID d) (Sequence d)) (set_st k StatusDelivered (mem_view s))"
    "astep (mem_view s) (ADead (SubscriberID d) (Sequence d)) (set_st k StatusDeadLettered (mem_view s))"
    "astep (mem_view s) (ARetry (SubscriberID d) (Sequence d)) (set_st k StatusPending (mem_view s))"
  using assms astep.deliver [of "mem_view s" k "arow_of d"] astep.dead [of "mem_view s" k "arow_of d"]
    astep.retry [of "mem_view s" k "arow_of d"] by simp_all

lemma refines_markTerminal:
  assumes "mem_inv s" "finished st"
  shows "refines s (snd (markTerminal e k owner gen st msg s)) []"
proof (cases "requireOwner s k owner gen")
  case (Inl err)
  then show ?thesis using assms by (auto simp: markTerminal_def refines_refl split: option.split)
next
  case (Inr d)
  then have d: "row s k = Some d" "Status d = StatusInFlight" by (simp_all add: requireOwner_Inr)
  obtain l where "astep (mem_view s) l (set_st k st (mem_view s))" "claim_of l = []"
    using in_flight_steps(1,2) [OF d] assms(2) by (cases st) (auto intro: claim_of.simps)
  then have "refines s (set_row k (\<lambda>d. release (d\<lparr>Status := st, LastError := msg\<rparr>)) s) []"
    using d by (intro set_row_step [OF assms(1)]) (auto simp: arow_of_def release_def)
  then show ?thesis
    using Inr assms by (auto simp: markTerminal_def refines_refl refines_signal split: option.split)
qed

lemma refines_MarkFailed:
  assumes "mem_inv s"
  shows "refines s (snd (MarkFailed e k owner gen attempt nxt msg s)) []"
proof (cases "requireOwner s k owner gen")
  case (Inl err)
  then show ?thesis using assms by (auto simp: MarkFailed_def refines_refl split: option.split)
next
  case (Inr d)
  then have d: "row s k = Some d" "Status d = StatusInFlight" by (simp_all add: requireOwner_Inr)
  have "refines s (set_row k (\<lambda>d. release (d\<lparr>Status := StatusPending, Attempt := attempt, NextAttempt := nxt,
                                   LastError := msg\<rparr>)) s) []"
    using d in_flight_steps(3) [OF d] by (intro set_row_step [OF assms(1)]) (auto simp: arow_of_def release_def)
  then show ?thesis
    using Inr assms by (auto simp: MarkFailed_def refines_refl refines_signal split: option.split)
qed

section \<open>Suspension and resumption\<close>

lemma retain_row_simps [simp]:
  "ID (retain_row x d) = ID d"
  "arow_of (retain_row x d) =
     (if SubscriberID d = x \<and> Status d = StatusPending then (arow_of d)\<lparr>a_st := StatusRetained\<rparr> else arow_of d)"
  by (simp_all add: retain_row_def release_def arow_of_def)

lemma get_meta_Some: "suspended (fst (get_meta x s)) = held_in s x"
  by simp

definition suspend_rows :: "string \<Rightarrow> string \<Rightarrow> string \<Rightarrow> mem \<Rightarrow> mem" where
  "suspend_rows k x msg s =
     (let s1 = set_row k (\<lambda>d. release (d\<lparr>Status := StatusDeadLettered, LastError := msg\<rparr>)) s;
          (m, s2) = get_meta x s1
      in all_rows (retain_row x) (put_meta x (m\<lparr>suspended := True\<rparr>) s2))"

lemma suspend_rows_frame:
  "row (suspend_rows k x msg s) k' = map_option (retain_row x)
     (if k' = k then map_option (\<lambda>d. release (d\<lparr>Status := StatusDeadLettered, LastError := msg\<rparr>)) (row s k)
      else row s k')"
  "held_in (suspend_rows k x msg s) = (held_in s)(x := True)"
  "seq (suspend_rows k x msg s) = seq s" "gates_on (suspend_rows k x msg s) = gates_on s"
  "well_keyed s \<Longrightarrow> well_keyed (suspend_rows k x msg s)"
proof -
  let ?s1 = "set_row k (\<lambda>d. release (d\<lparr>Status := StatusDeadLettered, LastError := msg\<rparr>)) s"
  obtain m s2 where g: "get_meta x ?s1 = (m, s2)" by fastforce
  note gm = get_meta_simps [where x = x and s = ?s1, unfolded g snd_conv fst_conv]
  have eq: "suspend_rows k x msg s = all_rows (retain_row x) (put_meta x (m\<lparr>suspended := True\<rparr>) s2)"
    by (simp add: suspend_rows_def Let_def g)
  show "row (suspend_rows k x msg s) k' = map_option (retain_row x)
     (if k' = k then map_option (\<lambda>d. release (d\<lparr>Status := StatusDeadLettered, LastError := msg\<rparr>)) (row s k)
      else row s k')"
    "held_in (suspend_rows k x msg s) = (held_in s)(x := True)"
    "seq (suspend_rows k x msg s) = seq s" "gates_on (suspend_rows k x msg s) = gates_on s"
    using gm by (simp_all add: eq store_simps frame_simps del: map_option.compositionality)
  show "well_keyed (suspend_rows k x msg s)" if "well_keyed s"
  proof -
    have "well_keyed s2" using well_keyed_cong [of s2 ?s1] gm(1) that by (simp add: well_keyed_updates)
    then show ?thesis unfolding eq by (simp add: well_keyed_updates)
  qed
qed

lemma refines_suspend_rows:
  assumes "mem_inv s" "row s k = Some d" "Status d = StatusInFlight"
  shows "refines s (suspend_rows k (SubscriberID d) msg s) []"
proof (rule refines_step)
  let ?a = "mem_view s" and ?x = "SubscriberID d"
  let ?a' = "set_st k StatusDeadLettered ?a"
  note f = suspend_rows_frame [where k = k and x = ?x and msg = msg and s = s]
  have "mem_view (suspend_rows k ?x msg s) =
      ?a'\<lparr>rows := move_all ?x StatusPending StatusRetained (rows ?a'), held := (held ?a)(?x := True)\<rparr>"
    by (rule view_eqI)
      (auto simp: f move_all_def arow_of_def release_def retain_row_def assms(2) option.map_comp comp_def
        intro!: option.map_cong)
  then show "astep ?a (ASuspend ?x (Sequence d)) (mem_view (suspend_rows k ?x msg s))"
    using astep.suspend [of ?a k "arow_of d" ?a'] assms(2,3) by simp
qed (use suspend_rows_frame mem_invD [OF assms(1)] in simp_all)

lemma ExhaustAndSuspend_Inr:
  "ctx_err e = None \<Longrightarrow> requireOwner s k owner gen = Inr d \<Longrightarrow>
   ExhaustAndSuspend e k owner gen msg s =
     (None, signal (applyRetentionLocked e (SubscriberID d) (clock e) (suspend_rows k (SubscriberID d) msg s)))"
  by (simp add: ExhaustAndSuspend_def suspend_rows_def Let_def split: prod.split)

lemma refines_ExhaustAndSuspend:
  assumes "mem_inv s" "fair_env e"
  shows "refines s (snd (ExhaustAndSuspend e k owner gen msg s)) []"
proof (cases "\<exists>d. ctx_err e = None \<and> requireOwner s k owner gen = Inr d")
  case True
  then obtain d where d: "ctx_err e = None" "requireOwner s k owner gen = Inr d" by blast
  have one: "refines s (suspend_rows k (SubscriberID d) msg s) []"
    using d(2) by (intro refines_suspend_rows assms(1)) (simp_all add: requireOwner_Inr)
  show ?thesis
    using refines_signal [OF refines_silent [OF one refines_retention [OF refines_inv [OF assms(1) one] assms(2)]]]
    by (simp add: ExhaustAndSuspend_Inr [OF d])
next
  case False
  then show ?thesis
    using refines_refl [OF assms(1)] by (auto simp: ExhaustAndSuspend_def split: option.split sum.split)
qed

lemma fold_set_row_pairs:
  "distinct (map fst ps) \<Longrightarrow>
   row (fold (\<lambda>(k, d). set_row k f) ps s) k =
     (if k \<in> fst ` set ps then map_option f (row s k) else row s k)"
proof (induction ps arbitrary: s)
  case (Cons p ps)
  then show ?case by (cases p, cases "k = fst p") (simp_all add: store_simps)
qed simp

lemma fold_set_row_pairs_frame:
  "held_in (fold (\<lambda>(k, d). set_row k f) ps s) = held_in s"
  "seq (fold (\<lambda>(k, d). set_row k f) ps s) = seq s"
  "gates_on (fold (\<lambda>(k, d). set_row k f) ps s) = gates_on s"
  by (induction ps arbitrary: s) (auto simp: frame_simps)

lemma well_keyed_fold_pairs:
  "well_keyed s \<Longrightarrow> (\<And>d. ID (f d) = ID d) \<Longrightarrow> well_keyed (fold (\<lambda>(k, d). set_row k f) ps s)"
  by (induction ps arbitrary: s) (auto simp: well_keyed_updates)

text \<open>The part of \<^verbatim>\<open>Resume\<close> after its retention pass.\<close>

definition resume_rows :: "env \<Rightarrow> string \<Rightarrow> mem \<Rightarrow> mem" where
  "resume_rows e x s =
     (let (m, s2) = get_meta x s;
          retained = sort_key (\<lambda>(k, d). Sequence d) (retained_keys x s2 (row_keys e LResume s2));
          s3 = fold (\<lambda>(k, d). set_row k (requeue_row (clock e))) retained s2
      in put_meta x (m\<lparr>suspended := False, gap := False, dropped := 0, marker := []\<rparr>) s3)"

lemma requeue_row_simps [simp]:
  "ID (requeue_row t d) = ID d" "arow_of (requeue_row t d) = (arow_of d)\<lparr>a_st := StatusPending\<rparr>"
  by (simp_all add: requeue_row_def release_def arow_of_def)

lemma resume_rows_frame:
  assumes "fair_env e" "well_keyed s"
  shows "row (resume_rows e x s) k = map_option
      (\<lambda>d. if SubscriberID d = x \<and> Status d = StatusRetained then requeue_row (clock e) d else d) (row s k)"
    "held_in (resume_rows e x s) = (held_in s)(x := False)"
    "seq (resume_rows e x s) = seq s" "gates_on (resume_rows e x s) = gates_on s"
    "well_keyed (resume_rows e x s)"
proof -
  obtain m s2 where g: "get_meta x s = (m, s2)" by fastforce
  note gm = get_meta_simps [where x = x and s = s, unfolded g snd_conv fst_conv]
  let ?ps = "sort_key (\<lambda>(k, d). Sequence d) (retained_keys x s2 (row_keys e LResume s2))"
  have eq: "resume_rows e x s = put_meta x (m\<lparr>suspended := False, gap := False, dropped := 0, marker := []\<rparr>)
      (fold (\<lambda>(k, d). set_row k (requeue_row (clock e))) ?ps s2)"
    by (simp add: resume_rows_def Let_def g)
  have wk: "well_keyed s2" using well_keyed_cong gm(1) assms(2) by blast
  have dist: "distinct (map fst ?ps)"
    using distinct_retained_keys [OF distinct_row_keys [OF assms(1) wk]] by (simp add: distinct_map)
  have "k \<in> fst ` set ?ps \<longleftrightarrow> (\<exists>d. row s k = Some d \<and> SubscriberID d = x \<and> Status d = StatusRetained)"
    using gm(2) by (auto simp: image_iff retained_keys_iff in_row_keys [OF assms(1)] Bex_def)
  then show "row (resume_rows e x s) k = map_option
      (\<lambda>d. if SubscriberID d = x \<and> Status d = StatusRetained then requeue_row (clock e) d else d) (row s k)"
    using gm(2) by (cases "row s k") (auto simp: eq store_simps fold_set_row_pairs [OF dist])
  show "held_in (resume_rows e x s) = (held_in s)(x := False)"
    "seq (resume_rows e x s) = seq s" "gates_on (resume_rows e x s) = gates_on s"
    using gm by (simp_all add: eq frame_simps fold_set_row_pairs_frame)
  show "well_keyed (resume_rows e x s)"
    unfolding eq by (intro well_keyed_updates well_keyed_fold_pairs wk) simp
qed

lemma refines_resume_rows:
  assumes "mem_inv s" "fair_env e"
  shows "refines s (resume_rows e x s) []"
proof (rule refines_step)
  note f = resume_rows_frame [OF assms(2) mem_invD(1) [OF assms(1)], of x]
  have "mem_view (resume_rows e x s) = (mem_view s)\<lparr>rows := move_all x StatusRetained StatusPending (rows (mem_view s)),
      held := (held (mem_view s))(x := False)\<rparr>"
    by (rule view_eqI) (auto simp: f move_all_def option.map_comp comp_def intro!: option.map_cong)
  then show "astep (mem_view s) (AResume x) (mem_view (resume_rows e x s))"
    using astep.resume [of "mem_view s" x] by simp
qed (use resume_rows_frame [OF assms(2)] mem_invD [OF assms(1)] in simp_all)

lemma Resume_Inr:
  assumes "ctx_err e = None" "x \<noteq> []"
  shows "snd (Resume e x s) = signal (resume_rows e x (applyRetentionLocked e x (clock e) s))"
  using assms by (simp add: Resume_def resume_rows_def Let_def split: prod.split)

lemma refines_Resume:
  assumes "mem_inv s" "fair_env e"
  shows "refines s (snd (Resume e x s)) []"
proof (cases "ctx_err e = None \<and> x \<noteq> []")
  case True
  have one: "refines s (applyRetentionLocked e x (clock e) s) []" using refines_retention [OF assms] .
  show ?thesis
    using refines_signal [OF refines_silent [OF one refines_resume_rows [OF refines_inv [OF assms(1) one] assms(2)]]]
      Resume_Inr True by simp
next
  case False
  then show ?thesis using refines_refl [OF assms(1)] by (auto simp: Resume_def split: option.split)
qed

section \<open>Recovery\<close>

lemma retry_all_asteps:
  assumes "distinct ks" "\<forall>k \<in> set ks. \<exists>r. rows a k = Some r \<and> a_st r = StatusInFlight"
  shows "\<exists>ls. asteps a ls (fold (\<lambda>k. set_st k StatusPending) ks a) \<and> claims ls = []"
  using assms
proof (induction ks arbitrary: a)
  case Nil
  then show ?case by (auto intro: exI [of _ "[]"])
next
  case (Cons k ks)
  let ?a = "set_st k StatusPending a"
  obtain r where r: "rows a k = Some r" "a_st r = StatusInFlight" using Cons.prems(2) by auto
  have "\<forall>k' \<in> set ks. \<exists>r. rows ?a k' = Some r \<and> a_st r = StatusInFlight"
    using Cons.prems by auto
  then obtain ls where ls: "asteps ?a ls (fold (\<lambda>k. set_st k StatusPending) ks ?a)" "claims ls = []"
    using Cons.IH [of ?a] Cons.prems(1) by auto
  then show ?case
    using astep.retry [OF r] by (auto intro!: exI [of _ "ARetry (a_sub r) (a_seq r) # ls"] asteps.step)
qed

lemma fold_set_st:
  "rows (fold (\<lambda>k. set_st k st) ks a) k =
     (if k \<in> set ks then map_option (a_st_update (\<lambda>_. st)) (rows a k) else rows a k)"
  "held (fold (\<lambda>k. set_st k st) ks a) = held a"
  "last_seq (fold (\<lambda>k. set_st k st) ks a) = last_seq a"
  by (induction ks arbitrary: a) (auto simp: option.map_comp comp_def)

lemma recover_row_simps [simp]:
  "ID (recover_row c d) = ID d"
  "arow_of (recover_row c d) = (if stale c d then (arow_of d)\<lparr>a_st := StatusPending\<rparr> else arow_of d)"
  by (simp_all add: recover_row_def release_def arow_of_def)

definition stale_keys :: "gotime \<Rightarrow> mem \<Rightarrow> string list" where
  "stale_keys c s = map fst (filter (\<lambda>(k, d). stale c d) (byID s))"

lemma in_stale_keys:
  "well_keyed s \<Longrightarrow> k \<in> set (stale_keys c s) \<longleftrightarrow> (\<exists>d. row s k = Some d \<and> stale c d)"
  by (force simp: stale_keys_def well_keyed_def row_def image_iff dest: map_of_SomeD)

lemma refines_recover:
  assumes "mem_inv s"
  shows "refines s (all_rows (recover_row c) s) []"
proof -
  let ?ks = "stale_keys c s" and ?a = "mem_view s"
  note wk = mem_invD(1) [OF assms]
  have "distinct ?ks" using wk by (auto simp: stale_keys_def well_keyed_def intro: distinct_map_filter)
  moreover have "\<forall>k \<in> set ?ks. \<exists>r. rows ?a k = Some r \<and> a_st r = StatusInFlight"
    by (auto simp: in_stale_keys [OF wk] stale_def)
  ultimately obtain ls where ls: "asteps ?a ls (fold (\<lambda>k. set_st k StatusPending) ?ks ?a)" "claims ls = []"
    using retry_all_asteps by blast
  have "mem_view (all_rows (recover_row c) s) = fold (\<lambda>k. set_st k StatusPending) ?ks ?a"
  proof (rule view_eqI)
    fix k
    show "map_option arow_of (row (all_rows (recover_row c) s) k) = rows (fold (\<lambda>k. set_st k StatusPending) ?ks ?a) k"
      by (cases "row s k") (auto simp: store_simps fold_set_st in_stale_keys [OF wk])
  qed (simp_all add: fold_set_st frame_simps)
  then show ?thesis
    using ls mem_invD [OF assms] by (auto simp: refines_def well_keyed_updates frame_simps)
qed

lemma refines_RecoverStale: "mem_inv s \<Longrightarrow> refines s (snd (RecoverStale e olderThan s)) []"
  using refines_recover [of s] refines_signal [OF refines_recover [of s]] refines_refl [of s]
  by (auto simp: RecoverStale_def Let_def split: option.split)

section \<open>The memory store is an ordering store\<close>

lemma memory_call_refines:
  assumes "mem_inv s" "fair_env (call_env c)"
  shows "refines s (exec_call memory_store c s) (handed_out memory_store c s)"
proof (cases c)
  case (Claim_call e ow g ps n)
  then show ?thesis using refines_Claim [OF assms(1)] assms(2) by (simp add: handed_out_def)
next
  case (ExhaustAndSuspend_call e k ow g m)
  then show ?thesis using refines_ExhaustAndSuspend [OF assms(1)] assms(2) by (simp add: handed_out_def)
qed (use assms refines_Enqueue refines_MarkFailed refines_markTerminal refines_Resume refines_RecoverStale
      refines_refl in \<open>simp_all add: handed_out_def MarkDelivered_def MarkDeadLetter_def IsSuspended_def
        PendingOrInFlight_def split: option.split\<close>)

interpretation mem_ordering: ordering_store memory_store fair_env mem_inv mem_view
proof
  show "ainv (mem_view s)" if "mem_inv s" for s using mem_invD(3) [OF that] .
  show "mem_inv (exec_call memory_store c s) \<and>
      (\<exists>ls. asteps (mem_view s) ls (mem_view (exec_call memory_store c s)) \<and> claims ls = handed_out memory_store c s)"
    if "mem_inv s" "fair_env (call_env c)" for s c
    using memory_call_refines [OF that] refines_inv [OF that(1)] by (auto simp: refines_def)
qed

lemma mem_inv_New: "mem_inv mem_New"
proof -
  have "mem_view mem_New = \<lparr>rows = Map.empty, held = (\<lambda>_. False), last_seq = (\<lambda>_. 0)\<rparr>"
    by (rule view_eqI) (simp_all add: mem_New_def row_def held_in_def fun_eq_iff)
  then show ?thesis
    by (simp add: mem_inv_def well_keyed_def gates_on_def mem_New_def row_def ainv_empty)
qed

end
