(* ===== verification/MemoryProps.thy ===== *)
theory MemoryProps
  imports MemoryRefine
begin

text \<open>
  The properties of the memory store: the ordering guarantee over whole histories (from the
  interpretation of \<open>ordering_store\<close>), what \<^verbatim>\<open>Claim\<close> returns, fencing of the marks, retention with its
  gap accounting, resumption, recovery and admission. The examples at the end of each section run
  the methods on concrete stores.
\<close>

section \<open>Concrete stores\<close>

definition mk_row :: "string \<Rightarrow> string \<Rightarrow> delivery" where
  "mk_row k x = \<lparr>ID = k, EventID = k, SubscriberID = x, URL = [], PartitionNo = 0, Sequence = 0,
     Payload = None, EventType = [], Secret = None, Status = StatusPending, Attempt = 0,
     NextAttempt = 0, LastError = [], Owner = [], Generation = 0, ClaimedAt = 0, CreatedAt = 0\<rparr>"

definition configured :: "int \<Rightarrow> duration \<Rightarrow> mem" where
  "configured n a = mem_New\<lparr>RetentionMaxCount := n, RetentionMaxAge := a\<rparr>"

lemma mem_inv_configured: "mem_inv (configured n a)"
proof -
  have "mem_view (configured n a) = mem_view mem_New" "byID (configured n a) = byID mem_New"
    "gates_on (configured n a) = gates_on mem_New"
    by (simp_all add: configured_def mem_view_def row_def held_in_def mem_New_def gates_on_def fun_eq_iff)
  then show ?thesis using mem_inv_New well_keyed_cong [of "configured n a" mem_New] by (simp add: mem_inv_def)
qed

definition sample_calls :: "env call list" where
  "sample_calls =
     [Enqueue_call (live_env 5) [mk_row ''a'' ''s'', mk_row ''b'' ''t'', mk_row ''c'' ''s''],
      Claim_call (live_env 10) ''w'' 1 [0] 64,
      MarkFailed_call (live_env 11) ''a'' ''w'' 1 1 11 ''500'',
      Claim_call (live_env 12) ''w'' 1 [0] 64,
      MarkDelivered_call (live_env 13) ''a'' ''w'' 1,
      Claim_call (live_env 14) ''w'' 1 [0] 64]"

lemma sample_calls_fair: "\<forall>c \<in> set sample_calls. fair_env (call_env c)"
  by (simp add: sample_calls_def)

section \<open>Ordering over whole histories\<close>

text \<open>
  Claim C3. The memory store never inverts: in whatever order a fresh store is called, with whatever
  results, whatever retention bounds and whatever order the runtime visits maps in, the rows handed
  out for one subscriber over the whole history have non-decreasing sequence numbers. A row may come
  again (a retry), but never after a later row of its subscriber.
\<close>

theorem memory_never_inverts:
  assumes "\<forall>c \<in> set cs. fair_env (call_env c)"
    and "i < j" "j < length (history memory_store cs (configured n a))"
    and "fst (history memory_store cs (configured n a) ! i) = fst (history memory_store cs (configured n a) ! j)"
  shows "snd (history memory_store cs (configured n a) ! i) \<le> snd (history memory_store cs (configured n a) ! j)"
  using per_subscriber_order_nth [OF mem_ordering.history_ordered [OF mem_inv_configured assms(1)] assms(2-4)] .

lemma sample_history:
  "history memory_store sample_calls (configured 2 0) = [(''s'', 1), (''t'', 1), (''s'', 1), (''s'', 2)]"
  by code_simp

theorem memory_never_inverts_witness:
  "snd (history memory_store sample_calls (configured 2 0) ! 0) \<le> snd (history memory_store sample_calls (configured 2 0) ! 3)"
  by (rule memory_never_inverts [OF sample_calls_fair]) (simp_all add: sample_history)

lemma mem_inv_reached: "\<forall>c \<in> set cs. fair_env (call_env c) \<Longrightarrow> mem_inv (exec_calls memory_store cs (configured n a))"
  by (rule mem_ordering.calls_inv [OF mem_inv_configured])

text \<open>
  Claim C19. In every state a fresh memory store can reach, two rows in flight belong to different
  subscribers; once a row has been handed out or finished, every earlier row of its subscriber that
  the store still holds is delivered or dead-lettered; and a suspended subscriber has no row pending
  or in flight.
\<close>

theorem memory_states_ordered:
  assumes "\<forall>c \<in> set cs. fair_env (call_env c)"
    and "s = exec_calls memory_store cs (configured n a)"
    and "row s k = Some d" "row s k' = Some d'" "SubscriberID d = SubscriberID d'"
  shows "(Status d = StatusInFlight \<and> Status d' = StatusInFlight \<longrightarrow> k = k') \<and>
    (Sequence d < Sequence d' \<and> Status d' \<in> {StatusInFlight, StatusDelivered, StatusDeadLettered} \<longrightarrow>
       Status d \<in> {StatusDelivered, StatusDeadLettered}) \<and>
    (snd (IsSuspended e (SubscriberID d) s) = s \<and>
     (fst (IsSuspended e (SubscriberID d) s) = Inr True \<longrightarrow> Status d \<notin> {StatusPending, StatusInFlight}))"
proof -
  let ?a = "mem_view s"
  have inv: "ainv ?a" using mem_invD(3) [OF mem_inv_reached [OF assms(1)]] assms(2) by simp
  have r: "rows ?a k = Some (arow_of d)" "rows ?a k' = Some (arow_of d')" using assms(3,4) by simp_all
  have "k = k'" if "Status d = StatusInFlight" "Status d' = StatusInFlight"
    using one_in_flight [OF inv r] assms(5) that by simp
  moreover have "Status d \<in> {StatusDelivered, StatusDeadLettered}"
    if "Sequence d < Sequence d'" "Status d' \<in> {StatusInFlight, StatusDelivered, StatusDeadLettered}"
    using order_invD [OF _ r] inv assms(5) that by (auto simp: ainv_def finished_def)
  moreover have "Status d \<notin> {StatusPending, StatusInFlight}" if "fst (IsSuspended e (SubscriberID d) s) = Inr True"
    using hold_invD(1) [OF _ r(1)] inv that
    by (auto simp: ainv_def unfinished_def IsSuspended_def held_in_def split: option.splits)
  moreover have "snd (IsSuspended e (SubscriberID d) s) = s" by (simp add: IsSuspended_def split: option.split)
  ultimately show ?thesis by blast
qed

lemma sample_rows:
  "map_option Status (row (exec_calls memory_store sample_calls (configured 2 0)) ''a'') = Some StatusDelivered"
  "map_option Status (row (exec_calls memory_store sample_calls (configured 2 0)) ''c'') = Some StatusInFlight"
  "map_option SubscriberID (row (exec_calls memory_store sample_calls (configured 2 0)) ''a'') = Some ''s''"
  "map_option SubscriberID (row (exec_calls memory_store sample_calls (configured 2 0)) ''c'') = Some ''s''"
  by code_simp+

theorem memory_states_ordered_witness:
  "\<exists>d d'. row (exec_calls memory_store sample_calls (configured 2 0)) ''a'' = Some d \<and>
     row (exec_calls memory_store sample_calls (configured 2 0)) ''c'' = Some d' \<and>
     (Sequence d < Sequence d' \<longrightarrow> Status d \<in> {StatusDelivered, StatusDeadLettered})"
proof -
  obtain d d' where d: "row (exec_calls memory_store sample_calls (configured 2 0)) ''a'' = Some d"
      "row (exec_calls memory_store sample_calls (configured 2 0)) ''c'' = Some d'"
    using sample_rows by (auto simp: map_option_eq_Some)
  then have "SubscriberID d = SubscriberID d'" "Status d' = StatusInFlight" using sample_rows by auto
  then show ?thesis
    using memory_states_ordered [OF sample_calls_fair refl d] d by blast
qed

section \<open>What Claim returns\<close>

lemma take_map_strict:
  "sorted (map f xs) \<Longrightarrow> distinct (map f xs) \<Longrightarrow> sorted_wrt (\<lambda>x y. (f x :: 'b :: linorder) < f y) xs"
  by (induction xs) (auto simp: order.strict_iff_order)

text \<open>The rows a claim may take, one per subscriber, in subscriber order.\<close>

definition claim_order :: "gotime \<Rightarrow> int list \<Rightarrow> mem \<Rightarrow> delivery list \<Rightarrow> bool" where
  "claim_order t parts s ds \<longleftrightarrow>
     set ds = claimable_rows t parts s \<and> sorted_wrt (\<lambda>d d'. SubscriberID d < SubscriberID d') ds"

lemma line_up_order:
  assumes "mem_inv s" "fair_env e"
  shows "claim_order (clock e) parts s (map (cand_row s) (line_up e parts s))"
proof -
  note lp = line_up_props [OF assms, where parts = parts]
  have "map SubscriberID (map (cand_row s) (line_up e parts s)) = map c_sub (line_up e parts s)"
    using lp(4) by simp
  then have "sorted_wrt (\<lambda>d d'. SubscriberID d < SubscriberID d') (map (cand_row s) (line_up e parts s))"
    using lp(2,3) by (intro take_map_strict) (simp_all only:)
  then show ?thesis using lp(5) by (simp add: claim_order_def)
qed

lemma claim_order_unique:
  assumes "claim_order t parts s ds" "claim_order t parts s ds'"
  shows "ds = ds'"
proof -
  have "set ds = set ds'" and s: "sorted_wrt (\<lambda>d d'. SubscriberID d < SubscriberID d') ds"
      "sorted_wrt (\<lambda>d d'. SubscriberID d < SubscriberID d') ds'"
    using assms by (simp_all add: claim_order_def)
  then show ?thesis
  proof (induction ds arbitrary: ds')
    case (Cons d ds)
    then obtain d' ds'' where d': "ds' = d' # ds''" by (cases ds') auto
    have "d = d'"
    proof (rule ccontr)
      assume ne: "d \<noteq> d'"
      have "d \<in> set ds''" "d' \<in> set ds" using Cons.prems(1) d' ne by auto
      then have "SubscriberID d' < SubscriberID d" "SubscriberID d < SubscriberID d'"
        using Cons.prems(2,3) d' by auto
      then show False by simp
    qed
    moreover have "d \<notin> set ds" "d \<notin> set ds''" using Cons.prems(2,3) d' \<open>d = d'\<close> by auto
    ultimately have "set ds = set ds''" using Cons.prems(1) d' insert_ident [of d "set ds" "set ds''"] by simp
    then show ?case using Cons.IH [of ds''] Cons.prems(2,3) d' \<open>d = d'\<close> by simp
  qed simp
qed

text \<open>
  Claim C7. \<^verbatim>\<open>Claim\<close>, past its guards, hands out exactly the first \<open>limit\<close> rows, in subscriber
  order, of those that are pending, due, in an owned partition, of a subscriber that is not
  suspended, and first in line among the pending and in-flight rows of their subscriber. Each comes
  back as stored: in flight, stamped with owner, generation and time, its attempt counted. No
  other row changes, and the order in which the runtime visits the map does not matter.
\<close>

theorem memory_claim_takes_heads:
  assumes "mem_inv s" "fair_env e" "ctx_err e = None" "owner \<noteq> []" "gen \<noteq> 0" "0 < limit" "parts \<noteq> []"
  shows "\<exists>ds. claim_order (clock e) parts s ds \<and> (\<forall>es. claim_order (clock e) parts s es \<longrightarrow> es = ds) \<and>
    fst (Claim e owner gen parts limit s) =
      Inr (map (\<lambda>d. cloneDelivery (claim_row owner gen (clock e) d)) (take (nat limit) ds)) \<and>
    (\<forall>k. row (snd (Claim e owner gen parts limit s)) k =
       map_option (\<lambda>d. if d \<in> set (take (nat limit) ds) then claim_row owner gen (clock e) d else d) (row s k))"
proof -
  let ?cs = "take (nat limit) (line_up e parts s)" and ?ds = "map (cand_row s) (line_up e parts s)"
  let ?f = "claim_row owner gen (clock e)"
  note C = Claim_eq [OF assms] and lp = line_up_props [OF assms(1,2), where parts = parts]
  obtain s' where s': "same_rows s s'" "same_rows (fold (\<lambda>c. set_row (c_id c) ?f) ?cs s') (snd (Claim e owner gen parts limit s))"
    using C(2) by (elim exE conjE)
  have dist: "distinct (map c_id ?cs)" using lp(1) by (simp add: distinct_take flip: take_map)
  have "row (snd (Claim e owner gen parts limit s)) k =
       map_option (\<lambda>d. if d \<in> set (take (nat limit) ?ds) then ?f d else d) (row s k)" for k
  proof -
    have "k \<in> c_id ` set ?cs \<longleftrightarrow> d \<in> set (take (nat limit) ?ds)" if d: "row s k = Some d" for d
    proof
      assume "k \<in> c_id ` set ?cs"
      then obtain c where c: "c \<in> set ?cs" "k = c_id c" by blast
      then have "cand_row s c = d" using d by (simp add: cand_row_def)
      then show "d \<in> set (take (nat limit) ?ds)" using c by (auto simp: take_map)
    next
      assume "d \<in> set (take (nat limit) ?ds)"
      then obtain c where c: "c \<in> set ?cs" "d = cand_row s c" by (auto simp: take_map)
      have "row s (c_id c) = Some d" using lp(4) [OF in_set_takeD [OF c(1)]] c(2) by simp
      then have "c_id c = k" using well_keyedD [OF mem_invD(1) [OF assms(1)]] d by metis
      then show "k \<in> c_id ` set ?cs" using c(1) by blast
    qed
    then show ?thesis
      using same_rows_row [OF s'(2), of k] same_rows_row [OF s'(1), of k]
      by (cases "row s k") (simp_all add: fold_set_row [OF dist])
  qed
  moreover have "fst (Claim e owner gen parts limit s) = Inr (map (\<lambda>d. cloneDelivery (?f d)) (take (nat limit) ?ds))"
    unfolding C(1) by (simp only: take_map map_map comp_def)
  moreover note lo = line_up_order [OF assms(1,2), of parts]
  moreover have "\<forall>es. claim_order (clock e) parts s es \<longrightarrow> es = ?ds" using claim_order_unique [OF _ lo] by blast
  ultimately show ?thesis by (intro exI [of _ ?ds] conjI allI) blast+
qed

definition two_subscribers :: mem where
  "two_subscribers = exec_calls memory_store
     [Enqueue_call (live_env 5) [mk_row ''a'' ''t'', mk_row ''b'' ''s'', mk_row ''c'' ''s'']] (configured 2 0)"

lemma mem_inv_two: "mem_inv two_subscribers"
  unfolding two_subscribers_def by (rule mem_inv_reached) simp

lemma two_rows: "row two_subscribers ''b'' = Some (stored_row 5 1 False (mk_row ''b'' ''s''))"
  by code_simp

theorem memory_claim_takes_heads_witness:
  "\<exists>ds. claim_order 9 [0] two_subscribers ds \<and>
     fst (Claim (live_env 9) ''w'' 1 [0] 1 two_subscribers) =
       Inr (map (\<lambda>d. cloneDelivery (claim_row ''w'' 1 9 d)) (take (nat 1) ds))"
proof -
  have "fair_env (live_env 9)" "ctx_err (live_env 9) = None" "''w'' \<noteq> []" "(1 :: uint64) \<noteq> 0" "(0 :: int) < 1" "[0 :: int] \<noteq> []"
    by simp_all
  note heads = memory_claim_takes_heads [OF mem_inv_two this]
  then obtain ds where "claim_order 9 [0] two_subscribers ds"
      "fst (Claim (live_env 9) ''w'' 1 [0] 1 two_subscribers) =
         Inr (map (\<lambda>d. cloneDelivery (claim_row ''w'' 1 9 d)) (take (nat 1) ds))"
    unfolding live_env_simps by (elim exE conjE)
  then show ?thesis by (intro exI [of _ ds] conjI)
qed

text \<open>
  \<^verbatim>\<open>Claim\<close> makes progress: as long as some subscriber that is not suspended has a due head
  row in the claimed partitions, a claim hands out at least one row.
\<close>

theorem memory_claim_progress:
  assumes "mem_inv s" "fair_env e" "ctx_err e = None" "owner \<noteq> []" "gen \<noteq> 0" "0 < limit"
    and "row s k = Some d" "claimable (clock e) parts s d"
  shows "\<exists>ds. ds \<noteq> [] \<and> fst (Claim e owner gen parts limit s) = Inr ds"
proof -
  have parts: "parts \<noteq> []" using assms(8) by (auto simp: claimable_def)
  have "claimable_rows (clock e) parts s \<noteq> {}" using assms(7,8) by (auto simp: claimable_rows_def)
  then have "line_up e parts s \<noteq> []" using line_up_props(5) [OF assms(1,2), of parts] by auto
  then show ?thesis using Claim_eq(1) [OF assms(1-6) parts] assms(6) by simp
qed

lemma two_claimable: "claimable 9 [0] two_subscribers (stored_row 5 1 False (mk_row ''b'' ''s''))"
proof -
  have "Status (stored_row 5 1 False (mk_row ''b'' ''s'')) = StatusPending \<and>
      \<not> held_in two_subscribers ''s'' \<and> due 9 (stored_row 5 1 False (mk_row ''b'' ''s'')) \<and>
      PartitionNo (stored_row 5 1 False (mk_row ''b'' ''s'')) \<in> set [0]" by code_simp
  moreover have "1 \<le> Sequence d" if "row two_subscribers k = Some d" for k d
    using seq_invD(1) [of "mem_view two_subscribers" k "arow_of d"] mem_invD(3) [OF mem_inv_two] that
    by (simp add: ainv_def)
  ultimately show ?thesis by (auto simp: claimable_def first_in_line_def mk_row_def)
qed

theorem memory_claim_progress_witness:
  "\<exists>ds. ds \<noteq> [] \<and> fst (Claim (live_env 9) ''w'' 1 [0] 1 two_subscribers) = Inr ds"
  using memory_claim_progress [OF mem_inv_two _ _ _ _ _ two_rows, of "live_env 9" "''w''" 1 1 "[0]"] two_claimable
  by simp

section \<open>Fencing\<close>

definition holds_claim :: "mem \<Rightarrow> string \<Rightarrow> string \<Rightarrow> uint64 \<Rightarrow> bool" where
  "holds_claim s k owner gen \<longleftrightarrow>
     (\<exists>d. row s k = Some d \<and> Status d = StatusInFlight \<and> Owner d = owner \<and> Generation d = gen)"

text \<open>The four ways to end an attempt, as calls.\<close>

definition marks :: "env \<Rightarrow> string \<Rightarrow> string \<Rightarrow> uint64 \<Rightarrow> (mem \<Rightarrow> store_error option \<times> mem) set" where
  "marks e k owner gen =
     {MarkDelivered e k owner gen} \<union> {MarkFailed e k owner gen a t msg | a t msg. True} \<union>
     {MarkDeadLetter e k owner gen msg | msg. True} \<union> {ExhaustAndSuspend e k owner gen msg | msg. True}"

lemma mark_outcome:
  assumes "m \<in> marks e k owner gen" "ctx_err e = None"
  shows "(\<exists>err. requireOwner s k owner gen = Inl err \<and> m s = (Some err, s)) \<or>
    (\<exists>d. requireOwner s k owner gen = Inr d \<and> fst (m s) = None)"
  using assms
  by (cases "requireOwner s k owner gen")
    (auto simp: marks_def MarkDelivered_def MarkDeadLetter_def MarkFailed_def markTerminal_def
      ExhaustAndSuspend_def Let_def split: prod.split)

text \<open>A call never makes a row in flight under an owner and generation, unless it is their claim.\<close>

definition no_gain :: "mem \<Rightarrow> mem \<Rightarrow> bool" where
  "no_gain s s' \<longleftrightarrow> (\<forall>k owner gen. holds_claim s' k owner gen \<longrightarrow> holds_claim s k owner gen)"

lemma no_gain_refl: "no_gain s s"
  by (simp add: no_gain_def)

lemma no_gain_trans: "no_gain s s1 \<Longrightarrow> no_gain s1 s2 \<Longrightarrow> no_gain s s2"
  by (simp add: no_gain_def)

lemma no_gain_rows:
  "(\<And>k d'. row s' k = Some d' \<Longrightarrow> Status d' = StatusInFlight \<Longrightarrow> row s k = Some d') \<Longrightarrow> no_gain s s'"
  by (fastforce simp: no_gain_def holds_claim_def)

lemma no_gain_signal: "no_gain s s' \<Longrightarrow> no_gain s (signal s')"
  by (simp add: no_gain_def holds_claim_def store_simps)

lemma no_gain_set_row:
  "(\<And>d. Status (f d) \<noteq> StatusInFlight) \<Longrightarrow> no_gain s (set_row k f s)"
  by (rule no_gain_rows) (auto simp: store_simps split: if_splits)

lemma no_gain_retention:
  assumes "mem_inv s" "fair_env e"
  shows "no_gain s (applyRetentionLocked e x t s)"
  by (rule no_gain_rows)
    (auto simp: applyRetention_eq [OF assms(2) mem_invD(1) [OF assms(1)]] drop_all_frame split: if_splits)

lemma no_gain_retention_fold:
  "mem_inv s \<Longrightarrow> fair_env e \<Longrightarrow> no_gain s (fold (\<lambda>x. applyRetentionLocked e x t) xs s)"
proof (induction xs arbitrary: s)
  case (Cons x xs)
  have "mem_inv (applyRetentionLocked e x t s)"
    using refines_inv [OF Cons.prems(1) refines_retention [OF Cons.prems]] .
  then show ?case using no_gain_trans [OF no_gain_retention [OF Cons.prems] Cons.IH] Cons.prems(2) by simp
qed (simp add: no_gain_refl)

lemma no_gain_enqueue_loop:
  "mem_inv s \<Longrightarrow> no_gain s (fst (snd (enqueue_loop t ds s touched)))"
proof (induction ds arbitrary: s touched)
  case (Cons d ds)
  show ?case
  proof (cases "ID d \<noteq> [] \<and> SubscriberID d \<noteq> [] \<and> row s (ID d) = None")
    case True
    have "no_gain s (enqueue_row t d s)"
      by (rule no_gain_rows) (auto simp: enqueue_row_frame [OF mem_invD(2) [OF Cons.prems]] split: if_splits)
    moreover have "mem_inv (enqueue_row t d s)"
      using refines_inv [OF Cons.prems refines_enqueue_row [OF Cons.prems]] True by simp
    ultimately show ?thesis
      using no_gain_trans [OF _ Cons.IH] enqueue_loop_step [OF mem_invD(2) [OF Cons.prems], of d] True by simp
  next
    case False
    then show ?thesis by (auto simp: no_gain_refl)
  qed
qed (simp add: no_gain_refl)

lemma no_gain_Enqueue:
  assumes "mem_inv s" "fair_env e"
  shows "no_gain s (snd (Enqueue e ds s))"
proof (cases "ctx_err e")
  case None
  obtain err s1 touched where l: "enqueue_loop (clock e) ds s [] = (err, s1, touched)" by (metis prod_cases3)
  have "no_gain s s1" using no_gain_enqueue_loop [OF assms(1), of "clock e" ds "[]"] l by simp
  moreover have "mem_inv s1"
    using refines_inv [OF assms(1) refines_enqueue_loop [OF assms(1), of "clock e" ds "[]"]] l by simp
  ultimately show ?thesis
    using no_gain_trans [OF _ no_gain_retention_fold [OF _ assms(2)]] None
    by (auto simp: Enqueue_def l intro!: no_gain_signal)
qed (simp add: Enqueue_def no_gain_refl)

lemma no_gain_ExhaustAndSuspend:
  assumes "mem_inv s" "fair_env e"
  shows "no_gain s (snd (ExhaustAndSuspend e k owner gen msg s))"
proof (cases "\<exists>d. ctx_err e = None \<and> requireOwner s k owner gen = Inr d")
  case True
  then obtain d where d: "ctx_err e = None" "requireOwner s k owner gen = Inr d" by blast
  let ?s = "suspend_rows k (SubscriberID d) msg s"
  have "mem_inv ?s"
    using refines_inv [OF assms(1) refines_suspend_rows [OF assms(1)]] d(2) by (simp add: requireOwner_Inr)
  moreover have "no_gain s ?s"
    by (rule no_gain_rows) (auto simp: suspend_rows_frame retain_row_def split: if_splits)
  ultimately show ?thesis
    using no_gain_trans [OF _ no_gain_retention [OF _ assms(2)]]
    by (simp add: ExhaustAndSuspend_Inr [OF d] no_gain_signal)
next
  case False
  then show ?thesis by (auto simp: ExhaustAndSuspend_def no_gain_refl split: option.split sum.split)
qed

lemma no_gain_Resume:
  assumes "mem_inv s" "fair_env e"
  shows "no_gain s (snd (Resume e x s))"
proof (cases "ctx_err e = None \<and> x \<noteq> []")
  case True
  let ?s = "applyRetentionLocked e x (clock e) s"
  have "well_keyed ?s" using mem_invD(1) refines_inv [OF assms(1) refines_retention [OF assms]] by blast
  then have "no_gain ?s (resume_rows e x ?s)"
    by (intro no_gain_rows)
      (auto simp: resume_rows_frame [OF assms(2)] requeue_row_def split: if_splits)
  then show ?thesis
    using no_gain_trans [OF no_gain_retention [OF assms]] Resume_Inr True by (simp add: no_gain_signal)
next
  case False
  then show ?thesis by (auto simp: Resume_def no_gain_refl split: option.split)
qed

lemma no_gain_RecoverStale: "no_gain s (snd (RecoverStale e olderThan s))"
proof -
  have "no_gain s (all_rows (recover_row c) s)" for c
    by (rule no_gain_rows) (auto simp: store_simps recover_row_def split: if_splits)
  then show ?thesis
    by (auto simp: RecoverStale_def Let_def no_gain_refl no_gain_signal split: option.split)
qed

lemma no_gain_marks:
  "no_gain s (snd (markTerminal e k owner gen st msg s)) \<or> st = StatusInFlight"
  "no_gain s (snd (MarkFailed e k owner gen a t msg s))"
  by (auto simp: markTerminal_def MarkFailed_def no_gain_refl intro!: no_gain_signal no_gain_set_row split: option.split sum.split)

text \<open>Does a call hand the row out to the owner and generation?\<close>

fun hands_over :: "string \<Rightarrow> string \<Rightarrow> uint64 \<Rightarrow> env call \<Rightarrow> mem \<Rightarrow> bool" where
  "hands_over k owner gen (Claim_call e ow g ps n) s \<longleftrightarrow> ow = owner \<and> g = gen \<and>
     (case fst (Claim e ow g ps n s) of Inl _ \<Rightarrow> False | Inr ds \<Rightarrow> k \<in> ID ` set ds)"
| "hands_over k owner gen _ s \<longleftrightarrow> False"

fun claimed_again :: "string \<Rightarrow> string \<Rightarrow> uint64 \<Rightarrow> env call list \<Rightarrow> mem \<Rightarrow> bool" where
  "claimed_again k owner gen [] s \<longleftrightarrow> False"
| "claimed_again k owner gen (c # cs) s \<longleftrightarrow>
     hands_over k owner gen c s \<or> claimed_again k owner gen cs (exec_call memory_store c s)"

lemma no_gain_Claim:
  assumes "mem_inv s" "fair_env e" "holds_claim (snd (Claim e owner gen parts limit s)) k o' g'"
  shows "holds_claim s k o' g' \<or> hands_over k o' g' (Claim_call e owner gen parts limit) s"
proof (cases "ctx_err e = None \<and> owner \<noteq> [] \<and> gen \<noteq> 0 \<and> 0 < limit \<and> parts \<noteq> []")
  case False
  then have "row (snd (Claim e owner gen parts limit s)) k = row s k"
    by (intro same_rows_row) (rule Claim_idle [OF False, THEN conjunct1])
  then show ?thesis using assms(3) by (simp add: holds_claim_def)
next
  case True
  then have T: "ctx_err e = None" "owner \<noteq> []" "gen \<noteq> 0" "0 < limit" "parts \<noteq> []" by simp_all
  let ?f = "claim_row owner gen (clock e)" and ?cs = "take (nat limit) (line_up e parts s)"
  note lp = line_up_props [OF assms(1,2), where parts = parts]
  obtain s' where s': "same_rows s s'" "same_rows (fold (\<lambda>c. set_row (c_id c) ?f) ?cs s') (snd (Claim e owner gen parts limit s))"
    using Claim_eq(2) [OF assms(1,2) T] by (elim exE conjE)
  have "distinct (map c_id ?cs)"
    using lp(1) by (simp add: distinct_take flip: take_map)
  then have r: "row (snd (Claim e owner gen parts limit s)) k =
      (if k \<in> c_id ` set ?cs then map_option ?f (row s k) else row s k)"
    using same_rows_row [OF s'(2), of k] same_rows_row [OF s'(1), of k] by (simp add: fold_set_row)
  show ?thesis
  proof (cases "k \<in> c_id ` set ?cs")
    case True
    then obtain c where c: "c \<in> set ?cs" "k = c_id c" by blast
    have d: "row s k = Some (cand_row s c)" using lp(4) [OF in_set_takeD [OF c(1)]] c(2) by simp
    then have "ID (cand_row s c) = k" using well_keyedD [OF mem_invD(1) [OF assms(1)]] by blast
    then have "k = (ID \<circ> cloneDelivery \<circ> ?f \<circ> cand_row s) c" by (simp add: cloneDelivery_def claim_row_def)
    then have "k \<in> ID ` set (map (\<lambda>c. cloneDelivery (?f (cand_row s c))) ?cs)"
      using c(1) by (simp add: image_image)
    moreover have "owner = o' \<and> gen = g'" using assms(3) d True by (simp add: r holds_claim_def claim_row_def)
    ultimately show ?thesis using Claim_eq(1) [OF assms(1,2) T] by auto
  next
    case False
    then show ?thesis using assms(3) by (simp add: r holds_claim_def)
  qed
qed


lemma call_keeps_lost:
  assumes "mem_inv s" "fair_env (call_env c)" "\<not> holds_claim s k owner gen" "\<not> hands_over k owner gen c s"
  shows "\<not> holds_claim (exec_call memory_store c s) k owner gen"
proof (cases c)
  case (Claim_call e ow g ps n)
  then show ?thesis using no_gain_Claim [OF assms(1), of e ow g ps n k owner gen] assms(2-4) by auto
next
  case (Enqueue_call e ds)
  then show ?thesis using no_gain_Enqueue [OF assms(1), of e ds] assms by (auto simp: no_gain_def)
next
  case (ExhaustAndSuspend_call e k' ow g m)
  then show ?thesis using no_gain_ExhaustAndSuspend [OF assms(1), of e k' ow g m] assms by (auto simp: no_gain_def)
next
  case (Resume_call e x)
  then show ?thesis using no_gain_Resume [OF assms(1), of e x] assms by (auto simp: no_gain_def)
next
  case (RecoverStale_call e a)
  then show ?thesis using no_gain_RecoverStale [of s e a] assms by (auto simp: no_gain_def)
next
  case (MarkFailed_call e k' ow g a t m)
  then show ?thesis using no_gain_marks(2) [of s e k' ow g a t m] assms by (auto simp: no_gain_def)
next
  case (MarkDelivered_call e k' ow g)
  then show ?thesis using no_gain_marks(1) [of s e k' ow g StatusDelivered "[]"] assms
    by (auto simp: no_gain_def MarkDelivered_def)
next
  case (MarkDeadLetter_call e k' ow g m)
  then show ?thesis using no_gain_marks(1) [of s e k' ow g StatusDeadLettered m] assms
    by (auto simp: no_gain_def MarkDeadLetter_def)
qed (use assms in \<open>auto simp: IsSuspended_def PendingOrInFlight_def split: option.splits\<close>)

lemma calls_keep_lost:
  "mem_inv s \<Longrightarrow> \<forall>c \<in> set cs. fair_env (call_env c) \<Longrightarrow> \<not> holds_claim s k owner gen \<Longrightarrow>
   \<not> claimed_again k owner gen cs s \<Longrightarrow> \<not> holds_claim (exec_calls memory_store cs s) k owner gen"
proof (induction cs arbitrary: s)
  case (Cons c cs)
  have "mem_inv (exec_call memory_store c s)"
    using mem_ordering.calls_inv [of s "[c]"] Cons.prems(1,2) by simp
  moreover have "\<not> holds_claim (exec_call memory_store c s) k owner gen"
    using call_keeps_lost [OF Cons.prems(1) _ Cons.prems(3)] Cons.prems(2,4) by simp
  ultimately show ?case using Cons.IH Cons.prems(2,4) by simp
qed simp

text \<open>
  Claim C8. A claim once lost stays lost until the row is claimed anew. When a row is not (or no longer) in
  flight under an owner and generation, because it was recovered as stale, marked or claimed by another
  worker, then whatever calls follow, further claims of the same owner and generation included, as long as
  none of those hands it this very row again, every later mark of the row by it is refused and changes
  nothing: a delayed worker cannot overwrite the outcome of the row's new owner.
\<close>

theorem memory_lost_claim_stays_lost:
  assumes "mem_inv s" "\<not> holds_claim s k owner gen"
    and "\<forall>c \<in> set cs. fair_env (call_env c)" "\<not> claimed_again k owner gen cs s"
    and "m \<in> marks e' k owner gen" "ctx_err e' = None"
  shows "fst (m (exec_calls memory_store cs s)) \<noteq> None \<and>
    snd (m (exec_calls memory_store cs s)) = exec_calls memory_store cs s"
  using mark_outcome [OF assms(5,6), of "exec_calls memory_store cs s"]
    calls_keep_lost [OF assms(1,3,2,4)]
  by (auto simp: holds_claim_def requireOwner_Inr)

text \<open>
  Worker \<open>w1\<close> holds row \<open>b\<close>; the claim is recovered as stale, \<open>w2\<close> claims the row, and \<open>w1\<close> claims
  again and gets nothing. Its late mark is refused, and \<open>w2\<close> still holds the row.
\<close>

definition w1_claimed :: mem where
  "w1_claimed = exec_call memory_store (Claim_call (live_env 9) ''w1'' 1 [0] 64) two_subscribers"

definition w1_recovered :: mem where
  "w1_recovered = exec_call memory_store (RecoverStale_call (live_env 20) 5) w1_claimed"

definition w1_lost :: "env call list" where
  "w1_lost = [Claim_call (live_env 21) ''w2'' 1 [0] 64, Claim_call (live_env 22) ''w1'' 1 [0] 64]"

theorem memory_lost_claim_stays_lost_witness:
  "holds_claim w1_claimed ''b'' ''w1'' 1 \<and>
   holds_claim (exec_calls memory_store w1_lost w1_recovered) ''b'' ''w2'' 1 \<and>
   fst (MarkDelivered (live_env 30) ''b'' ''w1'' 1 (exec_calls memory_store w1_lost w1_recovered)) \<noteq> None \<and>
   snd (MarkDelivered (live_env 30) ''b'' ''w1'' 1 (exec_calls memory_store w1_lost w1_recovered)) =
     exec_calls memory_store w1_lost w1_recovered"
proof -
  let ?h = "\<lambda>s. map_option (\<lambda>d. (Status d, Owner d, Generation d)) (row s ''b'')"
  have r: "?h w1_claimed = Some (StatusInFlight, ''w1'', 1)" "?h w1_recovered = Some (StatusPending, [], 0)"
    "?h (exec_calls memory_store w1_lost w1_recovered) = Some (StatusInFlight, ''w2'', 1)" by code_simp+
  have "mem_inv w1_recovered"
    using mem_ordering.calls_inv [OF mem_inv_two, of "[Claim_call (live_env 9) ''w1'' 1 [0] 64, RecoverStale_call (live_env 20) 5]"]
    by (simp add: w1_recovered_def w1_claimed_def)
  moreover have "\<not> holds_claim w1_recovered ''b'' ''w1'' 1" using r(2) by (auto simp: holds_claim_def)
  moreover have "\<forall>c \<in> set w1_lost. fair_env (call_env c)" by (simp add: w1_lost_def)
  moreover have "\<not> claimed_again ''b'' ''w1'' 1 w1_lost w1_recovered" by code_simp
  moreover have "MarkDelivered (live_env 30) ''b'' ''w1'' 1 \<in> marks (live_env 30) ''b'' ''w1'' 1" by (simp add: marks_def)
  ultimately have "fst (MarkDelivered (live_env 30) ''b'' ''w1'' 1 (exec_calls memory_store w1_lost w1_recovered)) \<noteq> None \<and>
      snd (MarkDelivered (live_env 30) ''b'' ''w1'' 1 (exec_calls memory_store w1_lost w1_recovered)) =
        exec_calls memory_store w1_lost w1_recovered"
    by (rule memory_lost_claim_stays_lost) simp
  then show ?thesis using r by (auto simp: holds_claim_def)
qed

end
