(* ===== verification/MemoryRetention.thy ===== *)
theory MemoryRetention
  imports MemoryProps
begin

text \<open>
  Marks and suspension in the memory store: what a mark does to the rows, which retained rows a retention pass keeps, the accounting of what
  it drops, what \<^verbatim>\<open>Resume\<close> returns and requeues, recovery of stale claims, and admission of
  deliveries.
\<close>

section \<open>What a mark does\<close>

lemma retention_fate:
  assumes "mem_inv s" "fair_env e"
  shows "row (applyRetentionLocked e x t s) k = row s k \<or>
      row (applyRetentionLocked e x t s) k = None \<and> (\<exists>d. row s k = Some d \<and> SubscriberID d = x \<and> Status d = StatusRetained)"
    "held_in (applyRetentionLocked e x t s) = held_in s"
proof -
  note wk = mem_invD(1) [OF assms(1)]
  have "\<exists>d. row s k = Some d \<and> SubscriberID d = x \<and> Status d = StatusRetained"
    if "k \<in> (\<lambda>(d, r). ID d) ` set (dropped_rows e x t s)" for k
    using that dropped_rows_retained [OF assms(2), of _ _ x t s] well_keyedD [OF wk] by fastforce
  then show "row (applyRetentionLocked e x t s) k = row s k \<or>
      row (applyRetentionLocked e x t s) k = None \<and> (\<exists>d. row s k = Some d \<and> SubscriberID d = x \<and> Status d = StatusRetained)"
    by (simp add: applyRetention_eq [OF assms(2) wk] drop_all_frame)
  show "held_in (applyRetentionLocked e x t s) = held_in s"
    by (simp add: applyRetention_eq [OF assms(2) wk] drop_all_frame)
qed

text \<open>The row a mark leaves: the claim is given up.\<close>

definition settled :: "status \<Rightarrow> string \<Rightarrow> delivery \<Rightarrow> delivery" where
  "settled st msg d = d\<lparr>Status := st, LastError := msg, Owner := [], Generation := 0, ClaimedAt := zero_time\<rparr>"

text \<open>The rows a terminal failure with suspension leaves.\<close>

definition exhausted :: "string \<Rightarrow> delivery \<Rightarrow> string \<Rightarrow> mem \<Rightarrow> mem \<Rightarrow> bool" where
  "exhausted k d msg s s' \<longleftrightarrow>
     row s' k = Some (settled StatusDeadLettered msg d) \<and> held_in s' = (held_in s)(SubscriberID d := True) \<and>
     (\<forall>k' d'. k' \<noteq> k \<longrightarrow> row s k' = Some d' \<longrightarrow>
        (if SubscriberID d' = SubscriberID d \<and> Status d' = StatusPending
         then row s' k' \<in> {None, Some (settled StatusRetained (LastError d') d')}
         else if SubscriberID d' = SubscriberID d \<and> Status d' = StatusRetained then row s' k' \<in> {None, Some d'}
         else row s' k' = Some d')) \<and>
     (\<forall>k'. row s k' = None \<longrightarrow> row s' k' = None)"

lemma marks_suspend_nobody:
  "held_in (snd (MarkDelivered e k owner gen s)) = held_in s"
  "held_in (snd (MarkDeadLetter e k owner gen msg s)) = held_in s"
  "held_in (snd (MarkFailed e k owner gen a t msg s)) = held_in s"
  by (simp_all add: MarkDelivered_def MarkDeadLetter_def markTerminal_def MarkFailed_def store_simps frame_simps
      split: option.split sum.split)

lemma mark_effects:
  assumes "requireOwner s k owner gen = Inr d" "ctx_err e = None"
  shows "row (snd (MarkDelivered e k owner gen s)) = (row s)(k \<mapsto> settled StatusDelivered [] d)"
    "row (snd (MarkDeadLetter e k owner gen msg s)) = (row s)(k \<mapsto> settled StatusDeadLettered msg d)"
    "row (snd (MarkFailed e k owner gen a t msg s)) =
       (row s)(k \<mapsto> settled StatusPending msg d\<lparr>Attempt := a, NextAttempt := t\<rparr>)"
proof -
  have "row s k = Some d" using assms(1) by (simp add: requireOwner_Inr)
  then show "row (snd (MarkDelivered e k owner gen s)) = (row s)(k \<mapsto> settled StatusDelivered [] d)"
    "row (snd (MarkDeadLetter e k owner gen msg s)) = (row s)(k \<mapsto> settled StatusDeadLettered msg d)"
    "row (snd (MarkFailed e k owner gen a t msg s)) =
       (row s)(k \<mapsto> settled StatusPending msg d\<lparr>Attempt := a, NextAttempt := t\<rparr>)"
    by (simp_all add: MarkDelivered_def MarkDeadLetter_def markTerminal_def MarkFailed_def assms store_simps settled_def
        release_def fun_eq_iff)
qed

lemma exhausted_other:
  assumes "exhausted k d msg s s'" "k' \<noteq> k" "row s k' = Some d'" "SubscriberID d' = SubscriberID d" "Status d' = StatusPending"
  shows "row s' k' \<in> {None, Some (settled StatusRetained (LastError d') d')}"
  using assms unfolding exhausted_def by presburger

lemma signal_view: "row (signal s) = row s" "held_in (signal s) = held_in s"
  by (simp_all add: store_simps frame_simps fun_eq_iff)

lemma exhaust_effect:
  assumes "requireOwner s k owner gen = Inr d" "ctx_err e = None" "mem_inv s" "fair_env e"
  shows "exhausted k d msg s (snd (ExhaustAndSuspend e k owner gen msg s))"
proof -
  let ?x = "SubscriberID d" and ?s = "suspend_rows k (SubscriberID d) msg s"
  let ?s' = "applyRetentionLocked e ?x (clock e) ?s"
  have d: "row s k = Some d" "Status d = StatusInFlight" using assms(1) by (simp_all add: requireOwner_Inr)
  have i: "mem_inv ?s" using refines_inv [OF assms(3) refines_suspend_rows [OF assms(3)]] d by simp
  note f = retention_fate [OF i assms(4), of ?x "clock e"]
  have rows: "row ?s k' = (if k' = k then Some (settled StatusDeadLettered msg d) else map_option (retain_row ?x) (row s k'))" for k'
    using d by (simp add: suspend_rows_frame retain_row_def settled_def release_def)
  have "row ?s' k = Some (settled StatusDeadLettered msg d)"
    using f(1) [of k] by (simp add: rows settled_def)
  moreover have "held_in ?s' = (held_in s)(?x := True)" using f(2) by (simp add: suspend_rows_frame)
  moreover have "if SubscriberID d' = ?x \<and> Status d' = StatusPending
      then row ?s' k' \<in> {None, Some (settled StatusRetained (LastError d') d')}
      else if SubscriberID d' = ?x \<and> Status d' = StatusRetained then row ?s' k' \<in> {None, Some d'}
      else row ?s' k' = Some d'" if "k' \<noteq> k" "row s k' = Some d'" for k' d'
    using f(1) [of k'] that by (auto simp: rows retain_row_def settled_def release_def)
  moreover have "row ?s' k' = None" if "row s k' = None" for k'
    using f(1) [of k'] that d by (auto simp: rows)
  ultimately show ?thesis
    unfolding ExhaustAndSuspend_Inr [OF assms(2,1)] exhausted_def snd_conv signal_view
    by (intro conjI allI impI)
qed


text \<open>
  Claim C20. Marks are fenced, and do what they say. A mark of a row (delivered, failed, dead-lettered, or
  exhausted) succeeds exactly when the row is in flight under the caller's own owner and non-zero
  generation; in every other case it reports an error and leaves the whole store as it was. For the
  holder, delivered and dead-letter settle that row and no other; failed puts it back to pending with the
  attempt count and due time given; exhausted dead-letters it, suspends its subscriber, and retains
  the subscriber's pending rows, apart from retained ones the retention bounds drop (which ones is the subject of the next section).
\<close>

theorem memory_marks_fenced:
  assumes "mem_inv s" "fair_env e" "ctx_err e = None"
  shows "(\<forall>m \<in> marks e k owner gen. (fst (m s) = None \<longleftrightarrow> gen \<noteq> 0 \<and> holds_claim s k owner gen) \<and>
      (fst (m s) \<noteq> None \<longrightarrow> snd (m s) = s)) \<and>
    (\<forall>d. gen \<noteq> 0 \<and> row s k = Some d \<and> Status d = StatusInFlight \<and> Owner d = owner \<and> Generation d = gen \<longrightarrow>
      (row (snd (MarkDelivered e k owner gen s)) = (row s)(k \<mapsto> settled StatusDelivered [] d) \<and>
       held_in (snd (MarkDelivered e k owner gen s)) = held_in s) \<and>
      (\<forall>msg. row (snd (MarkDeadLetter e k owner gen msg s)) = (row s)(k \<mapsto> settled StatusDeadLettered msg d) \<and>
         held_in (snd (MarkDeadLetter e k owner gen msg s)) = held_in s) \<and>
      (\<forall>a t msg. row (snd (MarkFailed e k owner gen a t msg s)) =
           (row s)(k \<mapsto> settled StatusPending msg d\<lparr>Attempt := a, NextAttempt := t\<rparr>) \<and>
         held_in (snd (MarkFailed e k owner gen a t msg s)) = held_in s) \<and>
      (\<forall>msg. exhausted k d msg s (snd (ExhaustAndSuspend e k owner gen msg s))))"
proof (intro conjI ballI allI impI)
  fix m assume m: "m \<in> marks e k owner gen"
  show "fst (m s) = None \<longleftrightarrow> gen \<noteq> 0 \<and> holds_claim s k owner gen"
    using mark_outcome [OF m assms(3), of s]
    by (auto simp: holds_claim_def requireOwner_Inr) (auto simp: requireOwner_def)
  show "fst (m s) \<noteq> None \<Longrightarrow> snd (m s) = s"
    using mark_outcome [OF m assms(3), of s] by auto
next
  fix d assume "gen \<noteq> 0 \<and> row s k = Some d \<and> Status d = StatusInFlight \<and> Owner d = owner \<and> Generation d = gen"
  then have r: "requireOwner s k owner gen = Inr d" by (simp add: requireOwner_Inr)
  fix msg show "exhausted k d msg s (snd (ExhaustAndSuspend e k owner gen msg s))"
    by (rule exhaust_effect [OF r assms(3,1,2)])
qed (simp_all add: marks_suspend_nobody mark_effects [OF _ assms(3)] requireOwner_Inr)

text \<open>
  Worker \<open>w\<close> holds row \<open>b\<close>, with \<open>c\<close> of the same subscriber behind it: its mark as exhausted
  leaves \<open>b\<close> dead-lettered and \<open>c\<close> retained; the mark of another worker is refused.
\<close>

definition b_claimed :: mem where
  "b_claimed = exec_call memory_store (Claim_call (live_env 9) ''w'' 1 [0] 64) two_subscribers"

theorem memory_marks_fenced_witness:
  "map_option Status (row (snd (MarkDelivered (live_env 10) ''b'' ''w'' 1 b_claimed)) ''b'') = Some StatusDelivered \<and>
   map_option Status (row (snd (ExhaustAndSuspend (live_env 10) ''b'' ''w'' 1 ''410'' b_claimed)) ''b'') = Some StatusDeadLettered \<and>
   held_in (snd (ExhaustAndSuspend (live_env 10) ''b'' ''w'' 1 ''410'' b_claimed)) ''s'' \<and>
   map_option Status (row (snd (ExhaustAndSuspend (live_env 10) ''b'' ''w'' 1 ''410'' b_claimed)) ''c'') \<in> {None, Some StatusRetained} \<and>
   fst (MarkDelivered (live_env 10) ''b'' ''v'' 1 b_claimed) \<noteq> None \<and>
   snd (MarkDelivered (live_env 10) ''b'' ''v'' 1 b_claimed) = b_claimed"
proof -
  have i: "mem_inv b_claimed"
    using mem_ordering.calls_inv [OF mem_inv_two, of "[Claim_call (live_env 9) ''w'' 1 [0] 64]"] by (simp add: b_claimed_def)
  have "map_option (\<lambda>d. (Status d, Owner d, Generation d, SubscriberID d)) (row b_claimed ''b'') = Some (StatusInFlight, ''w'', 1, ''s'')"
    "map_option (\<lambda>d. (Status d, SubscriberID d)) (row b_claimed ''c'') = Some (StatusPending, ''s'')" by code_simp+
  then obtain d d' where d: "row b_claimed ''b'' = Some d" "Status d = StatusInFlight" "Owner d = ''w''" "Generation d = 1" "SubscriberID d = ''s''"
    and d': "row b_claimed ''c'' = Some d'" "Status d' = StatusPending" "SubscriberID d' = ''s''" by auto
  note f = memory_marks_fenced [OF i live_env_simps(4), of 10 "''b''"]
  have v: "MarkDelivered (live_env 10) ''b'' ''v'' 1 \<in> marks (live_env 10) ''b'' ''v'' 1" by (simp add: marks_def)
  have "\<not> holds_claim b_claimed ''b'' ''v'' 1" using d by (simp add: holds_claim_def)
  then have "fst (MarkDelivered (live_env 10) ''b'' ''v'' 1 b_claimed) \<noteq> None \<and>
      snd (MarkDelivered (live_env 10) ''b'' ''v'' 1 b_claimed) = b_claimed"
    using f [of "''v''" 1] v by auto
  moreover have "row (snd (MarkDelivered (live_env 10) ''b'' ''w'' 1 b_claimed)) = (row b_claimed)(''b'' \<mapsto> settled StatusDelivered [] d)"
    and ex: "exhausted ''b'' d ''410'' b_claimed (snd (ExhaustAndSuspend (live_env 10) ''b'' ''w'' 1 ''410'' b_claimed))"
    using f [of "''w''" 1] d by simp_all
  moreover have "row (snd (ExhaustAndSuspend (live_env 10) ''b'' ''w'' 1 ''410'' b_claimed)) ''b'' = Some (settled StatusDeadLettered ''410'' d)"
    "held_in (snd (ExhaustAndSuspend (live_env 10) ''b'' ''w'' 1 ''410'' b_claimed)) ''s''"
    using ex d(5) by (simp_all add: exhausted_def)
  moreover have "row (snd (ExhaustAndSuspend (live_env 10) ''b'' ''w'' 1 ''410'' b_claimed)) ''c'' \<in>
      {None, Some (settled StatusRetained (LastError d') d')}"
    by (rule exhausted_other [OF ex _ d'(1)]) (simp_all add: d d')
  ultimately show ?thesis by (auto simp: settled_def)
qed

section \<open>What a retention pass keeps\<close>

definition retained_of :: "string \<Rightarrow> delivery \<Rightarrow> bool" where
  "retained_of x d \<longleftrightarrow> SubscriberID d = x \<and> Status d = StatusRetained"

text \<open>The rows of \<open>x\<close> that are retained, not too old, and newer than \<open>d\<close>.\<close>

definition newer_retained :: "gotime \<Rightarrow> string \<Rightarrow> delivery \<Rightarrow> mem \<Rightarrow> string set" where
  "newer_retained t x d s =
     {k'. \<exists>d'. row s k' = Some d' \<and> retained_of x d' \<and> \<not> aged (age_cutoff s t) d' \<and> Sequence d < Sequence d'}"

lemma take_prefix_iff:
  fixes f :: "'a \<Rightarrow> 'b :: linorder"
  assumes "sorted_wrt (\<lambda>x y. f x < f y) xs" "x \<in> set xs"
  shows "x \<in> set (take (length xs - n) xs) \<longleftrightarrow> n \<le> card {y \<in> set xs. f x < f y}"
proof -
  obtain i where i: "i < length xs" "xs ! i = x" using assms(2) by (metis in_set_conv_nth)
  have lt: "f (xs ! j) < f (xs ! j')" if "j < j'" "j' < length xs" for j j'
    using sorted_wrt_nth_less [OF assms(1) that] .
  have dist: "distinct xs"
  proof (rule ccontr)
    assume "\<not> distinct xs"
    then obtain j j' where "j < j'" "j' < length xs" "xs ! j = xs ! j'"
      by (metis distinct_conv_nth linorder_neqE_nat)
    then show False using lt [of j j'] by simp
  qed
  have "{y \<in> set xs. f x < f y} = set (drop (Suc i) xs)"
  proof (intro equalityI subsetI)
    fix y assume "y \<in> {y \<in> set xs. f x < f y}"
    then obtain j where j: "j < length xs" "xs ! j = y" "f (xs ! i) < f (xs ! j)" using i by (auto simp: in_set_conv_nth)
    then have "\<not> j \<le> i" using lt [of j i] i(1) by (metis le_neq_implies_less less_asym less_irrefl)
    then show "y \<in> set (drop (Suc i) xs)"
      using j by (auto simp: in_set_conv_nth intro!: exI [of _ "j - Suc i"])
  next
    fix y assume "y \<in> set (drop (Suc i) xs)"
    then obtain j where "j < length xs - Suc i" "y = drop (Suc i) xs ! j" by (auto simp: in_set_conv_nth)
    then have j: "Suc i + j < length xs" "y = xs ! (Suc i + j)" by simp_all
    then show "y \<in> {y \<in> set xs. f x < f y}" using lt [of i "Suc i + j"] i by auto
  qed
  then have "card {y \<in> set xs. f x < f y} = length xs - Suc i"
    using distinct_card [of "drop (Suc i) xs"] dist by simp
  moreover have "x \<in> set (take (length xs - n) xs) \<longleftrightarrow> i < length xs - n"
  proof
    assume "x \<in> set (take (length xs - n) xs)"
    then obtain j where "j < length xs - n" "j < length xs" "xs ! j = x" by (auto simp: in_set_conv_nth)
    then show "i < length xs - n" using dist i nth_eq_iff_index_eq by metis
  next
    assume "i < length xs - n"
    then show "x \<in> set (take (length xs - n) xs)" using i by (auto simp: in_set_conv_nth intro!: exI [of _ i])
  qed
  ultimately show ?thesis using i(1) by auto
qed

lemma kept_iff:
  assumes "fair_env e"
  shows "d \<in> set (kept_of x s (row_keys e l s)) \<longleftrightarrow> (\<exists>k. row s k = Some d) \<and> retained_of x d"
proof -
  have snd: "d \<in> snd ` A \<longleftrightarrow> (\<exists>k. (k, d) \<in> A)" for A :: "(string \<times> delivery) set"
    by force
  have "d \<in> set (kept_of x s ks) \<longleftrightarrow> (\<exists>k. (k, d) \<in> set (retained_keys x s ks))" for ks
    by (simp add: kept_of_def snd)
  from this [of "row_keys e l s"] show ?thesis
    unfolding retained_keys_iff in_row_keys [OF assms] retained_of_def by auto
qed

lemma fresh_of_props:
  assumes "mem_inv s" "fair_env e"
  shows "set (fresh_of e x t s) = {d. (\<exists>k. row s k = Some d) \<and> retained_of x d \<and> \<not> aged (age_cutoff s t) d}"
    "sorted_wrt (\<lambda>d d'. Sequence d < Sequence d') (fresh_of e x t s)"
proof -
  let ?ks = "row_keys e (LRetention x) s"
  note kept = kept_iff [OF assms(2), of _ x s]
  show set: "set (fresh_of e x t s) = {d. (\<exists>k. row s k = Some d) \<and> retained_of x d \<and> \<not> aged (age_cutoff s t) d}"
    by (auto simp: fresh_of_def kept)
  have "sorted (map Sequence (fresh_of e x t s))" by (simp add: fresh_of_def)
  moreover have "distinct (map Sequence (fresh_of e x t s))"
  proof -
    have "distinct (map ID (kept_of x s ?ks))"
      using distinct_retained_keys [OF distinct_row_keys [OF assms(2) mem_invD(1) [OF assms(1)]]]
      by (simp add: retained_keys_ID mem_invD(1) [OF assms(1)])
    then have "distinct (fresh_of e x t s)" by (simp add: fresh_of_def distinct_map)
    moreover have "inj_on Sequence (set (fresh_of e x t s))"
    proof (rule inj_onI)
      fix d d' assume d: "d \<in> set (fresh_of e x t s)" "d' \<in> set (fresh_of e x t s)" "Sequence d = Sequence d'"
      then obtain k k' where k: "row s k = Some d" "row s k' = Some d'" "SubscriberID d = SubscriberID d'"
        unfolding set by (auto simp: retained_of_def)
      then have "k = k'"
        using seq_invD(3) [of "mem_view s" k "arow_of d" k' "arow_of d'"] mem_invD(3) [OF assms(1)] d(3)
        by (simp add: ainv_def)
      then show "d = d'" using k by simp
    qed
    ultimately show ?thesis by (simp add: distinct_map)
  qed
  ultimately show "sorted_wrt (\<lambda>d d'. Sequence d < Sequence d') (fresh_of e x t s)"
    by (rule take_map_strict)
qed

lemma card_newer:
  assumes "mem_inv s" "fair_env e"
  shows "card {d' \<in> set (fresh_of e x t s). Sequence d < Sequence d'} = card (newer_retained t x d s)"
proof -
  let ?D = "{d' \<in> set (fresh_of e x t s). Sequence d < Sequence d'}"
  have key: "row s k = Some d' \<Longrightarrow> ID d' = k" for k d' using well_keyedD [OF mem_invD(1) [OF assms(1)]] .
  have "newer_retained t x d s = ID ` ?D"
  proof (intro equalityI subsetI)
    fix k assume "k \<in> newer_retained t x d s"
    then obtain d' where d': "row s k = Some d'" "d' \<in> ?D"
      by (auto simp: newer_retained_def fresh_of_props(1) [OF assms])
    then show "k \<in> ID ` ?D" using key by (intro image_eqI [of _ _ d']) simp_all
  next
    fix k assume "k \<in> ID ` ?D"
    then show "k \<in> newer_retained t x d s"
      using key by (auto simp: newer_retained_def fresh_of_props(1) [OF assms])
  qed
  moreover have "inj_on ID ?D"
  proof (rule inj_onI)
    fix a b assume "a \<in> ?D" "b \<in> ?D" "ID a = ID b"
    moreover from this obtain k k' where "row s k = Some a" "row s k' = Some b"
      by (auto simp: fresh_of_props(1) [OF assms])
    ultimately show "a = b" using key by (metis option.inject)
  qed
  ultimately show ?thesis by (simp add: card_image)
qed

lemma retention_rows:
  assumes "mem_inv s" "fair_env e"
  shows "row (applyRetentionLocked e x t s) k =
    (case row s k of None \<Rightarrow> None
     | Some d \<Rightarrow>
         if retained_of x d \<and>
            (aged (age_cutoff s t) d \<or> nat (retentionCount s) \<le> card (newer_retained t x d s))
         then None else Some d)"
proof -
  note wk = mem_invD(1) [OF assms(1)]
  let ?n = "length (fresh_of e x t s) - nat (retentionCount s)"
  note kept = kept_iff [OF assms(2), of _ x s "LRetention x"]
  have "d \<in> fst ` set (dropped_rows e x t s) \<longleftrightarrow> retained_of x d \<and>
      (aged (age_cutoff s t) d \<or> nat (retentionCount s) \<le> card (newer_retained t x d s))"
    if d: "row s k = Some d" for d
  proof -
    have "d \<in> fst ` set (dropped_rows e x t s) \<longleftrightarrow>
        retained_of x d \<and> aged (age_cutoff s t) d \<or> d \<in> set (take ?n (fresh_of e x t s))"
      using d kept by (auto simp: dropped_rows_def image_Un image_image)
    moreover have "d \<in> set (take ?n (fresh_of e x t s)) \<longleftrightarrow>
        retained_of x d \<and> \<not> aged (age_cutoff s t) d \<and> nat (retentionCount s) \<le> card (newer_retained t x d s)"
    proof (cases "d \<in> set (fresh_of e x t s)")
      case True
      then show ?thesis
        using take_prefix_iff [OF fresh_of_props(2) [OF assms] True, of "nat (retentionCount s)"]
          True [unfolded fresh_of_props(1) [OF assms]] unfolding card_newer [OF assms] by simp
    next
      case False
      then show ?thesis using d fresh_of_props(1) [OF assms, of x t] by (auto dest: in_set_takeD)
    qed
    ultimately show ?thesis by blast
  qed
  moreover have "k \<in> (\<lambda>(d, r). ID d) ` set (dropped_rows e x t s) \<longleftrightarrow>
      (\<exists>d. row s k = Some d \<and> d \<in> fst ` set (dropped_rows e x t s))"
    using dropped_rows_retained [OF assms(2), of _ _ x t s] well_keyedD [OF wk] by force
  ultimately show ?thesis
    by (auto simp: applyRetention_eq [OF assms(2) wk] drop_all_frame split: option.split)
qed

text \<open>
  Claim C14. A retention pass for a subscriber removes exactly those of its retained rows that are
  older than the age bound, or that have at least \<open>retentionCount\<close> newer retained rows within it.
  Every other row of the store stays as it is.
\<close>

theorem memory_retention_keeps_newest:
  assumes "mem_inv s" "fair_env e"
  shows "row (applyRetentionLocked e x t s) k =
    (case row s k of None \<Rightarrow> None
     | Some d \<Rightarrow>
         if retained_of x d \<and>
            (aged (age_cutoff s t) d \<or> nat (retentionCount s) \<le> card (newer_retained t x d s))
         then None else Some d)"
  using retention_rows [OF assms] .

definition three_retained :: mem where
  "three_retained = exec_calls memory_store
     [Enqueue_call (live_env 5) [mk_row ''a'' ''s'', mk_row ''b'' ''s'', mk_row ''c'' ''s'', mk_row ''d'' ''s''],
      Claim_call (live_env 6) ''w'' 1 [0] 64,
      ExhaustAndSuspend_call (live_env 7) ''a'' ''w'' 1 ''410''] (configured 10 0)"

lemma mem_inv_three: "mem_inv three_retained"
  unfolding three_retained_def by (rule mem_inv_reached) simp

lemma newer_retained_list:
  assumes "distinct (map fst (byID s))"
  shows "newer_retained t x d s = set (map fst (filter (\<lambda>(k, d').
    retained_of x d' \<and> \<not> aged (age_cutoff s t) d' \<and> Sequence d < Sequence d') (byID s)))"
  using assms by (force simp: newer_retained_def row_def)

lemma mem_inv_bounds: "mem_inv (s\<lparr>RetentionMaxCount := n\<rparr>) = mem_inv s"
proof -
  let ?s = "s\<lparr>RetentionMaxCount := n\<rparr>"
  have "mem_view ?s = mem_view s" "gates_on ?s = gates_on s"
    by (simp_all add: mem_view_def row_def held_in_def gates_on_def fun_eq_iff)
  then show ?thesis using well_keyed_cong [of ?s s] by (simp add: mem_inv_def)
qed

text \<open>With a bound of two, the pass drops the oldest of the three retained rows and keeps the others.\<close>

definition three_bounded :: mem where
  "three_bounded = three_retained\<lparr>RetentionMaxCount := 2\<rparr>"

theorem memory_retention_keeps_newest_witness:
  "map_option Status (row three_bounded ''b'') = Some StatusRetained \<and>
   row (applyRetentionLocked (live_env 9) ''s'' 9 three_bounded) ''b'' = None \<and>
   map_option Status (row (applyRetentionLocked (live_env 9) ''s'' 9 three_bounded) ''c'') = Some StatusRetained \<and>
   map_option Status (row (applyRetentionLocked (live_env 9) ''s'' 9 three_bounded) ''d'') = Some StatusRetained"
proof -
  let ?n = "\<lambda>d. length (filter (\<lambda>(k, d'). retained_of ''s'' d' \<and> \<not> aged (age_cutoff three_bounded 9) d' \<and> Sequence d < Sequence d')
    (byID three_bounded))"
  have i: "mem_inv three_bounded"
    using mem_inv_three by (simp add: three_bounded_def mem_inv_bounds)
  have D: "distinct (map fst (byID three_bounded))" by code_simp
  have "card (newer_retained 9 ''s'' d three_bounded) = ?n d" for d
    unfolding newer_retained_list [OF D] by (subst distinct_card) (simp_all add: distinct_map_filter [OF D])
  note r = memory_retention_keeps_newest [OF i live_env_simps(4), of 9 "''s''" 9, unfolded this]
  have "map_option (\<lambda>d. (Status d, retained_of ''s'' d, aged (age_cutoff three_bounded 9) d, ?n d)) (row three_bounded ''b'') =
      Some (StatusRetained, True, False, 2)"
    "map_option (\<lambda>d. (Status d, retained_of ''s'' d, aged (age_cutoff three_bounded 9) d, ?n d)) (row three_bounded ''c'') =
      Some (StatusRetained, True, False, 1)"
    "map_option (\<lambda>d. (Status d, retained_of ''s'' d, aged (age_cutoff three_bounded 9) d, ?n d)) (row three_bounded ''d'') =
      Some (StatusRetained, True, False, 0)"
    "retentionCount three_bounded = 2" by code_simp+
  then show ?thesis by (auto simp: r)
qed

section \<open>Accounting of drops\<close>

text \<open>The suspension record of a subscriber, as \<^verbatim>\<open>meta\<close> returns it.\<close>

abbreviation meta_of :: "string \<Rightarrow> mem \<Rightarrow> subMeta" where
  "meta_of x s \<equiv> fst (get_meta x s)"

lemma meta_of_drop:
  "SubscriberID d = x \<Longrightarrow> dropped (meta_of x (dropRetainedLocked d r s)) = dropped (meta_of x s) + 1"
  "SubscriberID d = x \<Longrightarrow> gap (meta_of x (dropRetainedLocked d r s))"
  "SubscriberID d = x \<Longrightarrow> marker (meta_of x (dropRetainedLocked d r s)) =
     gap_marker x (dropped (meta_of x s) + 1) (Sequence d) r"
  by (auto simp: dropRetainedLocked_def Let_def get_meta_def frame_simps split: prod.split option.splits)

lemma meta_of_drop_all:
  assumes "\<forall>(d, r) \<in> set ds. SubscriberID d = x"
  shows "dropped (meta_of x (drop_all ds s)) = dropped (meta_of x s) + int (length ds)"
    "gap (meta_of x (drop_all ds s)) \<longleftrightarrow> gap (meta_of x s) \<or> ds \<noteq> []"
    "ds \<noteq> [] \<Longrightarrow> marker (meta_of x (drop_all ds s)) =
       gap_marker x (dropped (meta_of x s) + int (length ds)) (Sequence (fst (last ds))) (snd (last ds))"
    "ds = [] \<Longrightarrow> drop_all ds s = s"
  using assms
proof (induction ds rule: rev_induct)
  case (snoc p ds)
  obtain d r where p: "p = (d, r)" by (cases p)
  { case 1 then show ?case using snoc.IH(1) by (simp add: p meta_of_drop)
  next case 2 then show ?case by (simp add: p meta_of_drop)
  next case 3 then show ?case using snoc.IH(1) by (simp add: p meta_of_drop algebra_simps)
  next case 4 then show ?case by simp }
qed simp_all

lemma length_retained_keys:
  "int (length (retained_keys x s ks)) =
     int (length (filter (\<lambda>k. \<exists>d. row s k = Some d \<and> retained_of x d) ks))"
  by (induction ks) (auto simp: retained_of_def split: option.split)

lemma RetainedCount_eq:
  assumes "well_keyed s" "fair_env e"
  shows "RetainedCount x s = int (length (kept_of x s (row_keys e l s)))"
proof -
  have "mset (filter P (row_keys e l s)) = mset (filter P (map fst (byID s)))" for P
    using assms(2) by (simp add: row_keys_def fair_env_def)
  then have "length (filter P (row_keys e l s)) = length (filter P (map fst (byID s)))" for P
    by (metis size_mset)
  moreover have "filter (\<lambda>k. \<exists>d. row s k = Some d \<and> retained_of x d) (map fst (byID s)) =
      map fst (filter (\<lambda>(k, d). retained_of x d) (byID s))"
  proof -
    have "(\<exists>d. row s (fst p) = Some d \<and> retained_of x d) \<longleftrightarrow> retained_of x (snd p)" if "p \<in> set (byID s)" for p
      using assms(1) that by (cases p) (auto simp: row_def well_keyed_def)
    then show ?thesis
      unfolding filter_map comp_def by (simp add: case_prod_unfold cong: filter_cong)
  qed
  ultimately have "length (filter (\<lambda>k. \<exists>d. row s k = Some d \<and> retained_of x d) (row_keys e l s)) =
      length (filter (\<lambda>(k, d). retained_of x d) (byID s))"
    by (simp only: length_map)
  then show ?thesis
    by (simp only: RetainedCount_def count_rows_def kept_of_def length_map length_retained_keys retained_of_def)
qed

lemma drop_count:
  assumes "well_keyed s" "row s (ID d) = Some d" "retained_of x d"
  shows "RetainedCount x (dropRetainedLocked d r s) = RetainedCount x s - 1"
proof -
  let ?P = "\<lambda>(k, d). SubscriberID d = x \<and> Status d = StatusRetained"
  have del: "byID (dropRetainedLocked d r s) = AList.delete (ID d) (byID s)"
  proof -
    obtain m s1 where g: "get_meta (SubscriberID d) s = (m, s1)" by fastforce
    then have "byID s1 = byID s" using get_meta_simps(1) [of "SubscriberID d" s] by simp
    then show ?thesis by (simp add: dropRetainedLocked_def Let_def g del_row_def put_meta_def)
  qed
  have step: "int (length (filter ?P (AList.delete k al))) = int (length (filter ?P al)) - 1"
    if "distinct (map fst al)" "map_of al k = Some d" for k al
    using that
  proof (induction al)
    case (Cons p al)
    show ?case
    proof (cases "fst p = k")
      case True
      then have "k \<notin> fst ` set al" "snd p = d" using Cons.prems by (auto split: if_splits)
      moreover from this(1) have "AList.delete k (p # al) = al" using True by (cases p) (simp add: delete_idem)
      ultimately show ?thesis using assms(3) by (cases p) (simp add: retained_of_def)
    next
      case False
      then have "AList.delete k (p # al) = p # AList.delete k al" by (cases p) simp
      then show ?thesis using Cons False by (simp split: if_splits)
    qed
  qed simp
  have "distinct (map fst (byID s))" "map_of (byID s) (ID d) = Some d"
    using assms(1) [unfolded well_keyed_def, THEN conjunct1] assms(2) [unfolded row_def] .
  note eq = step [OF this]
  show ?thesis unfolding RetainedCount_def count_rows_def del by (rule eq)
qed

lemma drop_all_count:
  assumes "well_keyed s" "\<forall>(d, r) \<in> set ds. row s (ID d) = Some d \<and> retained_of x d"
    "distinct (map (\<lambda>(d, r). ID d) ds)"
  shows "RetainedCount x (drop_all ds s) = RetainedCount x s - int (length ds)"
  using assms
proof (induction ds arbitrary: s)
  case (Cons p ds)
  obtain d r where p: "p = (d, r)" by (cases p)
  let ?s = "dropRetainedLocked d r s"
  have "\<forall>(d', r') \<in> set ds. row ?s (ID d') = Some d' \<and> retained_of x d'"
  proof (intro ballI)
    fix q assume q: "q \<in> set ds"
    obtain d' r' where q': "q = (d', r')" by (cases q)
    have "ID d' \<noteq> ID d" using Cons.prems(3) p q q' by force
    then show "case q of (d', r') \<Rightarrow> row ?s (ID d') = Some d' \<and> retained_of x d'"
      using Cons.prems(2) q q' by (auto simp: store_simps)
  qed
  then have "RetainedCount x (drop_all ds ?s) = RetainedCount x ?s - int (length ds)"
    using Cons.prems by (intro Cons.IH) (auto simp: well_keyed_drop)
  then show ?case using drop_count [OF Cons.prems(1)] Cons.prems(2) p by simp
qed simp

lemma dropped_rows_stored:
  assumes "mem_inv s" "fair_env e"
  shows "\<forall>(d, r) \<in> set (dropped_rows e x t s). row s (ID d) = Some d \<and> retained_of x d"
  using dropped_rows_retained [OF assms(2), of _ _ x t s] well_keyedD [OF mem_invD(1) [OF assms(1)]]
  by (fastforce simp: retained_of_def)

lemma retention_account:
  assumes "mem_inv s" "fair_env e" "s' = applyRetentionLocked e x t s"
  shows "RetainedCount x s' + dropped (meta_of x s') = RetainedCount x s + dropped (meta_of x s) \<and>
    (gap (meta_of x s') \<longleftrightarrow> gap (meta_of x s) \<or> RetainedCount x s' < RetainedCount x s) \<and>
    RetainedCount x s' \<le> retentionCount s \<and> suspended (meta_of x s') = suspended (meta_of x s)"
proof -
  note wk = mem_invD(1) [OF assms(1)]
  let ?ds = "dropped_rows e x t s"
  have s': "s' = drop_all ?ds s" using applyRetention_eq [OF assms(2) wk] assms(3) by simp
  have sub: "\<forall>(d, r) \<in> set ?ds. SubscriberID d = x"
    using dropped_rows_stored [OF assms(1,2), of x t] by (auto simp: retained_of_def)
  have n: "RetainedCount x s' = RetainedCount x s - int (length ?ds)"
    unfolding s' by (rule drop_all_count [OF wk dropped_rows_stored [OF assms(1,2)] distinct_dropped_rows [OF assms(2) wk]])
  let ?ks = "kept_of x s (row_keys e (LRetention x) s)" and ?P = "aged (age_cutoff s t)"
  have "length (fresh_of e x t s) + length (filter ?P ?ks) = length ?ks"
    using sum_length_filter_compl [of ?P ?ks] by (simp add: fresh_of_def comp_def)
  then have "RetainedCount x s - int (length ?ds) \<le> retentionCount s"
    using RetainedCount_eq [OF wk assms(2), of x "LRetention x"] retentionCount_pos [of s]
    by (simp add: dropped_rows_def)
  then show ?thesis
    using n meta_of_drop_all(1,2) [OF sub, of s] by (auto simp: s' drop_all_frame)
qed

text \<open>
  Retention never loses a row silently. What a pass removes of a subscriber's retained rows
  is added to the subscriber's dropped counter, the gap flag is set exactly when something has been
  dropped since the last resume, at most \<open>retentionCount\<close> retained rows remain, and the subscriber's
  suspension is untouched.
\<close>

theorem memory_retention_accounts:
  assumes "mem_inv s" "fair_env e" "s' = applyRetentionLocked e x t s"
  shows "RetainedCount x s' + dropped (meta_of x s') = RetainedCount x s + dropped (meta_of x s) \<and>
    (gap (meta_of x s') \<longleftrightarrow> gap (meta_of x s) \<or> RetainedCount x s' < RetainedCount x s) \<and>
    RetainedCount x s' \<le> retentionCount s \<and> suspended (meta_of x s') = suspended (meta_of x s)"
  using retention_account [OF assms] .

theorem memory_retention_accounts_witness:
  "RetainedCount ''s'' (applyRetentionLocked (live_env 9) ''s'' 9 three_retained) \<le> retentionCount three_retained"
  using memory_retention_accounts [OF mem_inv_three live_env_simps(4) refl, of "''s''" 9] by simp

section \<open>Resume\<close>

lemma meta_of_byID: "subs s' = subs s \<Longrightarrow> meta_of x s' = meta_of x s"
  by (simp add: get_meta_def split: option.split)

lemma fold_pairs_subs: "subs (fold (\<lambda>(k, d). set_row k f) ps s) = subs s"
  by (induction ps arbitrary: s) (auto simp: frame_simps)

lemma Resume_result:
  assumes "ctx_err e = None" "x \<noteq> []"
  shows "fst (Resume e x s) =
    (let m = meta_of x (applyRetentionLocked e x (clock e) s)
     in Inr \<lparr>Occurred = gap m, Dropped = dropped m, Marker = marker m\<rparr>)"
  using assms by (simp add: Resume_def Let_def split: prod.split)

lemma count_rows_all: "(\<And>d. p (f d) \<longleftrightarrow> q d) \<Longrightarrow> count_rows p (all_rows f s) = count_rows q s"
  by (simp add: count_rows_def all_rows_def filter_map comp_def case_prod_unfold)

lemma RetainedCount_zero:
  assumes "well_keyed s" "\<And>k d. row s k = Some d \<Longrightarrow> \<not> retained_of x d"
  shows "RetainedCount x s = 0"
proof -
  have "\<not> retained_of x d" if "(k, d) \<in> set (byID s)" for k d
    using assms that by (auto simp: row_def well_keyed_def)
  then show ?thesis by (auto simp: RetainedCount_def count_rows_def retained_of_def filter_empty_conv)
qed

text \<open>
  Claim C15. \<^verbatim>\<open>Resume\<close> reports the truth about the gap and requeues what is left. It returns the number of
  rows dropped over the whole suspension (what retention still drops now included), so rows retained
  and dropped before equal rows requeued and reported; afterwards the subscriber is not suspended,
  has no retained row and a clean record, every row retention kept is pending and due now with its
  claim cleared, and no row of another subscriber has changed.
\<close>

theorem memory_resume_reports_gap:
  assumes "mem_inv s" "fair_env e" "ctx_err e = None" "x \<noteq> []"
    and "s1 = applyRetentionLocked e x (clock e) s" "s' = snd (Resume e x s)"
  shows "(\<exists>g. fst (Resume e x s) = Inr g \<and>
       RetainedCount x s + dropped (meta_of x s) = RetainedCount x s1 + Dropped g \<and>
       (Occurred g \<longleftrightarrow> gap (meta_of x s) \<or> RetainedCount x s1 < RetainedCount x s)) \<and>
    fst (IsSuspended e x s') = Inr False \<and> meta_of x s' = new_meta \<and> RetainedCount x s' = 0 \<and>
    (\<forall>k. row s' k = map_option (\<lambda>d. if retained_of x d then requeue_row (clock e) d else d) (row s1 k))"
proof -
  have inv1: "mem_inv s1" using refines_inv [OF assms(1) refines_retention [OF assms(1,2)]] assms(5) by simp
  note wk = mem_invD(1) [OF inv1]
  have s': "s' = signal (resume_rows e x s1)" using Resume_Inr [OF assms(3,4), of s] assms(5,6) by simp
  note f = resume_rows_frame [OF assms(2) wk, of x]
  have rows: "row s' k = map_option (\<lambda>d. if retained_of x d then requeue_row (clock e) d else d) (row s1 k)" for k
    by (simp add: s' store_simps f(1) retained_of_def)
  have "subs s' x = Some new_meta"
  proof -
    obtain m s2 where g: "get_meta x s1 = (m, s2)" by fastforce
    then show ?thesis
      by (simp add: s' frame_simps resume_rows_def Let_def new_meta_def)
  qed
  then have m: "meta_of x s' = new_meta" "fst (IsSuspended e x s') = Inr False"
    using assms(3) by (simp_all add: get_meta_def IsSuspended_def new_meta_def)
  have "\<not> retained_of x d" if "row s' k = Some d" for k d
  proof -
    have "\<not> retained_of x (if retained_of x z then requeue_row (clock e) z else z)" for z
      by (cases "retained_of x z") (simp_all add: retained_of_def requeue_row_def)
    then show ?thesis using that by (auto simp only: rows map_option_eq_Some)
  qed
  then have z: "RetainedCount x s' = 0"
    using f(5) by (intro RetainedCount_zero) (simp_all add: s' well_keyed_updates)
  have "\<exists>g. fst (Resume e x s) = Inr g \<and> Dropped g = dropped (meta_of x s1) \<and> Occurred g = gap (meta_of x s1)"
    using Resume_result [OF assms(3,4), of s] assms(5) by (simp add: Let_def)
  moreover note account = retention_account [OF assms(1,2,5)]
  ultimately show ?thesis using m z rows by auto
qed

theorem memory_resume_reports_gap_witness:
  "RetainedCount ''s'' (snd (Resume (live_env 9) ''s'' three_retained)) = 0 \<and>
   RetainedCount ''s'' three_retained = 3"
proof -
  have "RetainedCount ''s'' three_retained = 3" by code_simp
  then show ?thesis
    using memory_resume_reports_gap [OF mem_inv_three live_env_simps(4) live_env_simps(1) _ refl refl, of "''s''" 9]
    by blast
qed

text \<open>
  A resumed subscriber is served again: if a row of a suspended subscriber outlives
  retention, then right after \<^verbatim>\<open>Resume\<close> some row of that subscriber is at the head of its line, pending
  and due, so that a claim over the subscriber's partitions can hand it out at once.
\<close>

theorem memory_resume_unblocks:
  assumes "mem_inv s" "fair_env e" "ctx_err e = None" "x \<noteq> []"
    and "s1 = applyRetentionLocked e x (clock e) s" "row s1 k = Some d" "retained_of x d"
    and "\<forall>k d. row s1 k = Some d \<and> SubscriberID d = x \<longrightarrow> PartitionNo d \<in> set parts"
  shows "\<exists>d' \<in> claimable_rows (clock e) parts (snd (Resume e x s)). SubscriberID d' = x"
proof -
  let ?s' = "snd (Resume e x s)"
  have inv1: "mem_inv s1" using refines_inv [OF assms(1) refines_retention [OF assms(1,2)]] assms(5) by simp
  note f = resume_rows_frame [OF assms(2) mem_invD(1) [OF inv1], of x]
  have s': "?s' = signal (resume_rows e x s1)" using Resume_Inr [OF assms(3,4), of s] assms(5) by simp
  have rows: "row ?s' k = map_option (\<lambda>d. if retained_of x d then requeue_row (clock e) d else d) (row s1 k)" for k
    by (simp add: s' store_simps f(1) retained_of_def)
  have inv': "mem_inv ?s'" using refines_inv [OF assms(1) refines_Resume [OF assms(1,2)]] .
  have held: "\<not> held_in ?s' x" by (simp add: s' frame_simps f(2))
  have "held_in s1 x"
    using hold_invD(2) [of "mem_view s1" k "arow_of d"] mem_invD(3) [OF inv1] assms(6,7)
    by (auto simp: ainv_def retained_of_def)
  then have was: "\<not> unfinished (Status d0)" if "row s1 k0 = Some d0" "SubscriberID d0 = x" for k0 d0
    using hold_invD(1) [of "mem_view s1" k0 "arow_of d0"] mem_invD(3) [OF inv1] that by (auto simp: ainv_def)
  let ?U = "\<lambda>d'. (\<exists>k'. row ?s' k' = Some d') \<and> SubscriberID d' = x \<and> unfinished (Status d')"
  have requeued: "Status d' = StatusPending \<and> due (clock e) d' \<and> PartitionNo d' \<in> set parts" if "?U d'" for d'
  proof -
    note U = that
    obtain k' d0 where d0: "row s1 k' = Some d0" "d' = (if retained_of x d0 then requeue_row (clock e) d0 else d0)"
      using U by (auto simp: rows)
    then have sub: "SubscriberID d0 = x" using U by (auto simp: requeue_row_def split: if_splits)
    then have "retained_of x d0" using was [OF d0(1)] d0(2) U by (auto split: if_splits)
    then have "d' = requeue_row (clock e) d0" using d0(2) by simp
    then show ?thesis using assms(8) d0(1) sub by (auto simp: requeue_row_def release_def due_def)
  qed
  have "?U (requeue_row (clock e) d)"
    using assms(6,7) by (auto simp: rows retained_of_def requeue_row_def intro!: exI [of _ k])
  moreover have pos: "0 \<le> Sequence d'" if "?U d'" for d'
    using that seq_invD(1) [of "mem_view ?s'" _ "arow_of d'"] mem_invD(3) [OF inv'] by (force simp: ainv_def)
  ultimately obtain d' where d': "?U d'" "\<And>d0. ?U d0 \<Longrightarrow> nat (Sequence d') \<le> nat (Sequence d0)"
    using ex_has_least_nat [of ?U "requeue_row (clock e) d" "\<lambda>d. nat (Sequence d)"] by blast
  have "first_in_line ?s' d'"
    unfolding first_in_line_def
  proof (intro allI impI, elim conjE)
    fix k' d0 assume d0: "row ?s' k' = Some d0" "SubscriberID d0 = SubscriberID d'" "unfinished (Status d0)"
    then have "?U d0" using d'(1) by auto
    then show "Sequence d' \<le> Sequence d0" using d'(2) [of d0] pos [of d0] by simp
  qed
  then have "d' \<in> claimable_rows (clock e) parts ?s'"
    using d'(1) requeued [OF d'(1)] held by (auto simp: claimable_rows_def claimable_def)
  then show ?thesis using d'(1) by blast
qed

theorem memory_resume_unblocks_witness:
  "\<exists>d' \<in> claimable_rows 9 [0] (snd (Resume (live_env 9) ''s'' three_retained)). SubscriberID d' = ''s''"
proof -
  let ?s1 = "applyRetentionLocked (live_env 9) ''s'' 9 three_retained"
  have keys: "map fst (byID ?s1) = [''a'', ''b'', ''c'', ''d'']"
    and parts: "list_all (\<lambda>(k, d). PartitionNo d = 0) (byID ?s1)"
    and b: "map_option (\<lambda>d. (SubscriberID d, Status d)) (row ?s1 ''b'') = Some (''s'', StatusRetained)"
    by code_simp+
  obtain d where d: "row ?s1 ''b'' = Some d" "retained_of ''s'' d"
    using b by (auto simp: map_option_eq_Some retained_of_def)
  have "\<forall>k d. row ?s1 k = Some d \<and> SubscriberID d = ''s'' \<longrightarrow> PartitionNo d \<in> set [0]"
    using parts by (auto simp: row_def list_all_iff dest!: map_of_SomeD)
  then show ?thesis
    using memory_resume_unblocks [OF mem_inv_three live_env_simps(4) live_env_simps(1) _ refl, of "''s''" 9 "''b''" d "[0]"] d
    by simp
qed

section \<open>Recovery\<close>

text \<open>
  \<^verbatim>\<open>RecoverStale\<close> takes back exactly the claims older than its bound: it returns how many
  there were; each such row is pending again with no owner, its attempt count and error kept; every
  other row, fresh claims included, is untouched. A row it takes back is in flight no longer, so no
  stale claim is left.
\<close>

theorem memory_recover_stale:
  assumes "ctx_err e = None" "cutoff = time_Add (clock e) (neg_duration olderThan)"
    and "(r, s') = RecoverStale e olderThan s"
  shows "r = Inr (count_rows (stale cutoff) s) \<and> count_rows (stale cutoff) s' = 0 \<and>
    (\<forall>k. row s' k = map_option (\<lambda>d. if stale cutoff d
        then d\<lparr>Status := StatusPending, Owner := [], Generation := 0, ClaimedAt := zero_time\<rparr> else d) (row s k))"
proof -
  have s': "r = Inr (count_rows (stale cutoff) s)"
      "s' = all_rows (recover_row cutoff) s \<or> s' = signal (all_rows (recover_row cutoff) s)"
    using assms by (auto simp: RecoverStale_def Let_def split: if_splits)
  have "\<not> stale cutoff (recover_row cutoff d)" for d
    by (simp add: recover_row_def stale_def release_def)
  then have "count_rows (stale cutoff) (all_rows (recover_row cutoff) s) = count_rows (\<lambda>_. False) s"
    by (intro count_rows_all) simp
  then have "count_rows (stale cutoff) s' = 0"
    using s'(2) by (auto simp: count_rows_def signal_def)
  moreover have "row s' k = map_option (\<lambda>d. if stale cutoff d
        then d\<lparr>Status := StatusPending, Owner := [], Generation := 0, ClaimedAt := zero_time\<rparr> else d) (row s k)" for k
  proof -
    have "recover_row cutoff = (\<lambda>d. if stale cutoff d
        then d\<lparr>Status := StatusPending, Owner := [], Generation := 0, ClaimedAt := zero_time\<rparr> else d)"
      by (simp add: recover_row_def release_def fun_eq_iff)
    then show ?thesis using s'(2) by (auto simp: store_simps)
  qed
  ultimately show ?thesis using s'(1) by blast
qed

theorem memory_recover_stale_witness:
  "fst (RecoverStale (live_env 100) 50 (exec_calls memory_store [Claim_call (live_env 9) ''w'' 1 [0] 64] two_subscribers)) = Inr 2"
proof -
  let ?s = "exec_calls memory_store [Claim_call (live_env 9) ''w'' 1 [0] 64] two_subscribers"
  have "count_rows (stale (time_Add 100 (neg_duration 50))) ?s = 2" by code_simp
  then show ?thesis
    using memory_recover_stale [OF live_env_simps(1) refl surjective_pairing [symmetric], of 100 50 ?s] by simp
qed

end
