(* ===== verification/MemoryAdmit.thy ===== *)
theory MemoryAdmit
  imports MemoryRetention
begin

text \<open>
  Admission of deliveries into the memory store, and three demonstrations on concrete stores: that
  \<^verbatim>\<open>Enqueue\<close> is not atomic when it fails, that the gap marker can depend on map order, and that the
  head-of-line gate is what the ordering guarantee rests on.
\<close>

section \<open>Admission\<close>

definition admissible :: "mem \<Rightarrow> delivery list \<Rightarrow> bool" where
  "admissible s ds \<longleftrightarrow> distinct (map ID ds) \<and>
     (\<forall>d \<in> set ds. ID d \<noteq> [] \<and> SubscriberID d \<noteq> [] \<and> row s (ID d) = None)"

definition earlier_of :: "delivery \<Rightarrow> delivery list \<Rightarrow> int" where
  "earlier_of d ds = int (length (filter (\<lambda>d'. SubscriberID d' = SubscriberID d) ds))"

lemma admissible_Cons:
  assumes "gates_on s"
  shows "admissible s (d # ds) \<longleftrightarrow>
    ID d \<noteq> [] \<and> SubscriberID d \<noteq> [] \<and> row s (ID d) = None \<and> admissible (enqueue_row t d s) ds"
  by (auto simp: admissible_def enqueue_row_frame(1) [OF assms] split: if_splits) (metis image_eqI)+

lemma enqueue_loop_ok:
  assumes "gates_on s"
  shows "fst (enqueue_loop t ds s touched) = None \<longleftrightarrow> admissible s ds"
    "admissible s ds \<Longrightarrow> fst (snd (enqueue_loop t ds s touched)) = fold (enqueue_row t) ds s"
  using assms
proof (induction ds arbitrary: s touched)
  case Nil
  { case 1 then show ?case by (simp add: admissible_def)
  next case 2 then show ?case by simp }
next
  case (Cons d ds)
  have g: "gates_on (enqueue_row t d s)" if "gates_on s" for s using that by (simp add: enqueue_row_frame)
  { case 1
    then show ?case
      using Cons.IH(1) [OF g [OF 1]] admissible_Cons [OF 1, of d ds t] enqueue_loop_step [OF 1, of d t ds touched]
      by (cases "ID d \<noteq> [] \<and> SubscriberID d \<noteq> [] \<and> row s (ID d) = None") auto
  next
    case 2
    then show ?case
      using Cons.IH(2) [OF _ g] admissible_Cons [of s d ds t] enqueue_loop_step [of s d t ds touched] g
      by simp }
qed

lemma fold_enqueue_frame:
  "gates_on s \<Longrightarrow> gates_on (fold (enqueue_row t) ds s) \<and> held_in (fold (enqueue_row t) ds s) = held_in s"
  by (induction ds arbitrary: s) (simp_all add: enqueue_row_frame)

lemma fold_enqueue_other:
  "gates_on s \<Longrightarrow> k \<notin> ID ` set ds \<Longrightarrow> row (fold (enqueue_row t) ds s) k = row s k"
  by (induction ds arbitrary: s) (simp_all add: enqueue_row_frame)

lemma fold_enqueue_rows:
  "gates_on s \<Longrightarrow> distinct (map ID ds) \<Longrightarrow> i < length ds \<Longrightarrow>
   row (fold (enqueue_row t) ds s) (ID (ds ! i)) =
     Some (stored_row t (next_seq s (SubscriberID (ds ! i)) + earlier_of (ds ! i) (take i ds))
             (held_in s (SubscriberID (ds ! i))) (ds ! i))"
proof (induction ds arbitrary: s i)
  case (Cons d ds)
  have g: "gates_on (enqueue_row t d s)" using Cons.prems(1) by (simp add: enqueue_row_frame)
  note f = enqueue_row_frame [OF Cons.prems(1), of t d]
  show ?case
  proof (cases i)
    case 0
    have "ID d \<notin> ID ` set ds" using Cons.prems(2) by simp
    then show ?thesis using 0 fold_enqueue_other [OF g] by (simp add: f(1) earlier_of_def)
  next
    case (Suc j)
    have "next_seq (enqueue_row t d s) x = next_seq s x + (if SubscriberID d = x then 1 else 0)" for x
      by (simp add: next_seq_def f(4))
    then show ?thesis
      using Cons.IH [OF g, of j] Cons.prems(2,3) Suc by (simp add: f(2) earlier_of_def add.assoc)
  qed
qed simp

lemma retention_fold_rows:
  "mem_inv s \<Longrightarrow> fair_env e \<Longrightarrow> row s k = Some d \<Longrightarrow>
   row (fold (\<lambda>x. applyRetentionLocked e x t) xs s) k = Some d \<or>
   (row (fold (\<lambda>x. applyRetentionLocked e x t) xs s) k = None \<and> Status d = StatusRetained)"
  "mem_inv s \<Longrightarrow> fair_env e \<Longrightarrow> row s k = None \<Longrightarrow> row (fold (\<lambda>x. applyRetentionLocked e x t) xs s) k = None"
proof (induction xs arbitrary: s)
  case (Cons x xs)
  { case 1
    let ?s = "applyRetentionLocked e x t s"
    have inv: "mem_inv ?s" using refines_inv [OF 1(1) refines_retention [OF 1(1,2)]] .
    have "row ?s k = Some d \<or> row ?s k = None \<and> Status d = StatusRetained"
      using retention_rows [OF 1(1,2), of x t k] 1(3) by (auto simp: retained_of_def split: if_splits)
    then show ?case using Cons.IH [OF inv 1(2)] by auto
  next
    case 2
    let ?s = "applyRetentionLocked e x t s"
    have inv: "mem_inv ?s" by (rule refines_inv [OF 2(1) refines_retention [OF 2(1,2)]])
    then show ?case using Cons.IH(2) [OF inv 2(2)] retention_rows [OF 2(1,2), of x t k] 2(3) by simp }
qed simp_all

lemma Enqueue_numbers:
  assumes "mem_inv s" "fair_env e" "ctx_err e = None" "(err, s') = Enqueue e ds s"
  shows "(err = None \<longleftrightarrow> admissible s ds) \<and>
    (err = None \<longrightarrow>
       (\<forall>i < length ds. let d = ds ! i; x = SubscriberID d;
            stored = stored_row (clock e) (next_seq s x + earlier_of d (take i ds)) (held_in s x) d in
          row s' (ID d) = Some stored \<or> held_in s x \<and> row s' (ID d) = None) \<and>
       (\<forall>k d. k \<notin> ID ` set ds \<longrightarrow> row s k = Some d \<longrightarrow> \<not> Status d = StatusRetained \<longrightarrow> row s' k = Some d))"
proof -
  obtain er s1 touched where l: "enqueue_loop (clock e) ds s [] = (er, s1, touched)" by (metis prod_cases3)
  note g = mem_invD(2) [OF assms(1)]
  have ok: "er = None \<longleftrightarrow> admissible s ds" "admissible s ds \<Longrightarrow> s1 = fold (enqueue_row (clock e)) ds s"
    using enqueue_loop_ok [OF g, where t = "clock e" and ds = ds and touched = "[]"] l by simp_all
  have err: "err = er" using assms(3,4) by (auto simp: Enqueue_def l split: if_splits)
  have inv1: "mem_inv s1"
    using refines_inv [OF assms(1) refines_enqueue_loop [OF assms(1), of "clock e" ds "[]"]] l by simp
  have s': "row s' k = row (fold (\<lambda>x. applyRetentionLocked e x (clock e)) (visit e LTouched touched) s1) k"
    if "err = None" for k
    using assms(3,4) that by (simp add: Enqueue_def l err store_simps)
  have new: "row s' (ID d) = Some stored \<or> held_in s x \<and> row s' (ID d) = None"
    if "err = None" "i < length ds" "d = ds ! i" "x = SubscriberID d"
      "stored = stored_row (clock e) (next_seq s x + earlier_of d (take i ds)) (held_in s x) d" for i d x stored
  proof -
    have "row s1 (ID d) = Some stored"
      using fold_enqueue_rows [OF g _ that(2)] ok that err by (simp add: admissible_def)
    then show ?thesis
      using retention_fold_rows(1) [OF inv1 assms(2), of "ID d" stored "clock e" "visit e LTouched touched"] s' that
      by (auto split: if_splits)
  qed
  have "row s' k = Some d" if "err = None" "k \<notin> ID ` set ds" "row s k = Some d" "Status d \<noteq> StatusRetained" for k d
    using retention_fold_rows(1) [OF inv1 assms(2), of k d "clock e" "visit e LTouched touched"] s' that ok err
      fold_enqueue_other [OF g that(2)] by auto
  then show ?thesis using new ok(1) err by (simp add: Let_def)
qed

text \<open>
  \<^verbatim>\<open>Enqueue\<close> succeeds exactly on a batch whose deliveries have distinct, new, non-empty
  identifiers and a subscriber. Then every delivery of a subscriber that is not suspended is
  stored pending and due now, numbered by its subscriber's next sequence number plus the number of
  that subscriber's deliveries before it in the batch (no gap, no reuse); one of a suspended
  subscriber is stored retained, if retention keeps it; and every other row that is not retained is
  unchanged.
\<close>

theorem memory_enqueue_numbers:
  assumes "mem_inv s" "fair_env e" "ctx_err e = None" "(err, s') = Enqueue e ds s"
  shows "(err = None \<longleftrightarrow> admissible s ds) \<and>
    (err = None \<longrightarrow>
       (\<forall>i < length ds. let d = ds ! i; x = SubscriberID d;
            stored = stored_row (clock e) (next_seq s x + earlier_of d (take i ds)) (held_in s x) d in
          row s' (ID d) = Some stored \<or> held_in s x \<and> row s' (ID d) = None) \<and>
       (\<forall>k d. k \<notin> ID ` set ds \<longrightarrow> row s k = Some d \<longrightarrow> \<not> Status d = StatusRetained \<longrightarrow> row s' k = Some d))"
  using Enqueue_numbers [OF assms] .

definition suspended_batch :: "delivery list" where
  "suspended_batch = [mk_row ''p'' ''u'', mk_row ''q'' ''s'', mk_row ''r'' ''u'']"

theorem memory_enqueue_numbers_witness:
  "row (snd (Enqueue (live_env 8) suspended_batch three_retained)) ''r'' =
     Some (stored_row 8 2 False (mk_row ''r'' ''u''))"
proof -
  have err: "fst (Enqueue (live_env 8) suspended_batch three_retained) = None" by code_simp
  have pos: "next_seq three_retained ''u'' + earlier_of (mk_row ''r'' ''u'') (take 2 suspended_batch) = 2"
    "\<not> held_in three_retained ''u''" by code_simp+
  have nth: "suspended_batch ! 2 = mk_row ''r'' ''u''" "2 < length suspended_batch"
    by (simp_all add: suspended_batch_def)
  have row: "SubscriberID (mk_row k x) = x" "ID (mk_row k x) = k" for k x by (simp_all add: mk_row_def)
  show ?thesis
    using memory_enqueue_numbers [OF mem_inv_three live_env_simps(4) live_env_simps(1) surjective_pairing [symmetric],
        of 8 suspended_batch, THEN conjunct2, THEN mp [OF _ err], THEN conjunct1, THEN spec [of _ 2], THEN mp [OF _ nth(2)]]
      pos nth row by (simp add: Let_def)
qed

section \<open>Demonstrations\<close>

lemma enqueue_loop_append:
  "gates_on s \<Longrightarrow> admissible s ds \<Longrightarrow>
   \<exists>touched'. enqueue_loop t (ds @ rest) s touched = enqueue_loop t rest (fold (enqueue_row t) ds s) touched'"
proof (induction ds arbitrary: s touched)
  case (Cons d ds)
  have g: "gates_on (enqueue_row t d s)" using Cons.prems(1) by (simp add: enqueue_row_frame)
  have a: "ID d \<noteq> []" "SubscriberID d \<noteq> []" "row s (ID d) = None" "admissible (enqueue_row t d s) ds"
    using Cons.prems admissible_Cons [OF Cons.prems(1), of d ds t] by simp_all
  show ?case
    using Cons.IH [OF g a(4)] enqueue_loop_step [OF Cons.prems(1) a(1-3), of t "ds @ rest" touched] by simp
qed auto

text \<open>
  \<^verbatim>\<open>Enqueue\<close> of the memory store is not atomic: when a delivery in the middle of a batch is
  refused for its missing identifier, the call reports the error, but every delivery before it stays
  stored under its new sequence number, ready to be claimed.
\<close>

theorem memory_enqueue_not_atomic:
  assumes "mem_inv s" "ctx_err e = None" "admissible s ds" "ID d = []" "(err, s') = Enqueue e (ds @ d # rest) s"
  shows "err = Some EMissingID \<and> (\<forall>d \<in> set ds. row s (ID d) = None \<and> row s' (ID d) \<noteq> None) \<and>
    (\<forall>i < length ds. next_seq s (SubscriberID (ds ! i)) < next_seq s' (SubscriberID (ds ! i)))"
proof -
  note g = mem_invD(2) [OF assms(1)]
  let ?s = "fold (enqueue_row (clock e)) ds s"
  have eq: "err = Some EMissingID" "s' = ?s"
    using enqueue_loop_append [OF g assms(3), of "clock e" "d # rest" "[]"] assms(2,4,5)
    by (auto simp: Enqueue_def)
  have dist: "distinct (map ID ds)" using assms(3) by (simp add: admissible_def)
  have "row s' (ID d) \<noteq> None" if "d \<in> set ds" for d
    using fold_enqueue_rows [OF g dist] that by (auto simp: eq in_set_conv_nth)
  moreover have "next_seq s (SubscriberID (ds ! i)) < next_seq ?s (SubscriberID (ds ! i))" if "i < length ds" for i
  proof -
    have "next_seq (fold (enqueue_row t) es s) x = next_seq s x + int (length (filter (\<lambda>d. SubscriberID d = x) es))"
      if "gates_on s" for es s x t
      using that by (induction es arbitrary: s) (simp_all add: next_seq_def enqueue_row_frame)
    moreover have "filter (\<lambda>d. SubscriberID d = SubscriberID (ds ! i)) ds \<noteq> []"
      using nth_mem [OF that] by (auto simp: filter_empty_conv)
    ultimately show ?thesis using g by simp
  qed
  ultimately show ?thesis using eq assms(3) by (auto simp: admissible_def)
qed

theorem memory_enqueue_not_atomic_witness:
  "row (snd (Enqueue (live_env 8) ([mk_row ''z'' ''u''] @ mk_row [] ''u'' # []) two_subscribers)) ''z'' \<noteq> None"
proof -
  have "row two_subscribers ''z'' = None" by code_simp
  then have "admissible two_subscribers [mk_row ''z'' ''u'']" by (simp add: admissible_def mk_row_def)
  moreover have "ID (mk_row [] ''u'') = []" by (simp add: mk_row_def)
  ultimately show ?thesis
    using memory_enqueue_not_atomic [OF mem_inv_two live_env_simps(1) _ _ surjective_pairing [symmetric],
        of "[mk_row ''z'' ''u'']" "mk_row [] ''u''" 8 "[]"]
    by (simp add: mk_row_def)
qed

text \<open>The same clock and no error, but the runtime visits every map backwards.\<close>

definition reverse_env :: "gotime \<Rightarrow> env" where
  "reverse_env t = \<lparr>ctx_err = None, clock = t, visit = (\<lambda>_. rev)\<rparr>"

definition short_retention :: mem where
  "short_retention = three_retained\<lparr>RetentionMaxAge := 1\<rparr>"

text \<open>
  The gap marker is not a function of the store and the clock. When two retained rows are too
  old, the memory store drops them in map order, so the sequence its marker calls \<^verbatim>\<open>through_seq\<close> is
  that of whichever row the runtime visited last: two runs that differ only in the visiting order
  report different markers for the same losses.
\<close>

theorem memory_gap_marker_depends_on_map_order:
  "fair_env (live_env 9) \<and> fair_env (reverse_env 9) \<and> clock (live_env 9) = clock (reverse_env 9) \<and>
   fst (Resume (live_env 9) ''s'' short_retention) =
     Inr \<lparr>Occurred = True, Dropped = 3, Marker = ''s:dropped=3:through_seq=4:age''\<rparr> \<and>
   fst (Resume (reverse_env 9) ''s'' short_retention) =
     Inr \<lparr>Occurred = True, Dropped = 3, Marker = ''s:dropped=3:through_seq=2:age''\<rparr>"
proof -
  have "fst (Resume (live_env 9) ''s'' short_retention) =
     Inr \<lparr>Occurred = True, Dropped = 3, Marker = ''s:dropped=3:through_seq=4:age''\<rparr>" by code_simp
  moreover have "fst (Resume (reverse_env 9) ''s'' short_retention) =
     Inr \<lparr>Occurred = True, Dropped = 3, Marker = ''s:dropped=3:through_seq=2:age''\<rparr>" by code_simp
  ultimately show ?thesis by (simp add: reverse_env_def fair_env_def)
qed

text \<open>
  The head-of-line gate carries the guarantee: with \<^verbatim>\<open>DisableHOL\<close> set, the same calls that are
  ordered on the ordinary store hand out sequence 1 of a subscriber again after its sequence 2.
\<close>

theorem memory_inverts_without_head_of_line:
  "history memory_store sample_calls (configured 2 0) = [(''s'', 1), (''t'', 1), (''s'', 1), (''s'', 2)] \<and>
   history memory_store sample_calls ((configured 2 0)\<lparr>DisableHOL := True\<rparr>) =
     [(''s'', 1), (''s'', 2), (''t'', 1), (''s'', 1)] \<and>
   \<not> per_subscriber_order (history memory_store sample_calls ((configured 2 0)\<lparr>DisableHOL := True\<rparr>))"
proof -
  have "history memory_store sample_calls ((configured 2 0)\<lparr>DisableHOL := True\<rparr>) =
     [(''s'', 1), (''s'', 2), (''t'', 1), (''s'', 1)]" by code_simp
  then show ?thesis using sample_history by (simp add: per_subscriber_order_def)
qed

end
