(* ===== verification/Signature.thy ===== *)
theory Signature
  imports StoreTypes
begin

text \<open>
  \<^verbatim>\<open>deliver.go\<close>, the signatures: \<^verbatim>\<open>SignFold\<close>, \<^verbatim>\<open>VerifyFold\<close> and \<^verbatim>\<open>parseFoldSignature\<close>. The keyed hash
  (HMAC-SHA256 in the code) is a parameter \<open>mac\<close>; all that is ever asked of it is that its output
  is not empty.
\<close>

section \<open>Hexadecimal\<close>

definition hex_digits :: string where "hex_digits = ''0123456789abcdef''"

definition hex_byte :: "char \<Rightarrow> string" where
  "hex_byte c = [hex_digits ! (of_char c div 16), hex_digits ! (of_char c mod 16)]"

definition hex_encode :: "bytes \<Rightarrow> string" where
  "hex_encode bs = concat (map hex_byte bs)"

lemma hex_digits_props:
  "length hex_digits = 16" "distinct hex_digits" "\<forall>c \<in> set hex_digits. \<not> is_space c \<and> c \<noteq> CHR '',''"
  by code_simp+

lemma of_char_bounds: "of_char c div 16 < (16 :: nat)" "of_char c mod 16 < (16 :: nat)"
  using less_mult_imp_div_less [of "of_char c" 16 16] by simp_all

lemma hex_byte_inject [simp]: "hex_byte c = hex_byte c' \<longleftrightarrow> c = c'"
proof
  assume "hex_byte c = hex_byte c'"
  then have "of_char c div 16 = (of_char c' div 16 :: nat)" "of_char c mod 16 = (of_char c' mod 16 :: nat)"
    using nth_eq_iff_index_eq [OF hex_digits_props(2)] of_char_bounds
    by (simp_all add: hex_byte_def hex_digits_props(1))
  then have "of_char c = (of_char c' :: nat)" by (metis div_mult_mod_eq)
  then show "c = c'" by simp
qed simp

lemma hex_encode_inject: "hex_encode bs = hex_encode bs' \<longleftrightarrow> bs = bs'"
proof
  show "bs = bs'" if "hex_encode bs = hex_encode bs'" using that
  proof (induction bs arbitrary: bs')
    case Nil
    then show ?case by (cases bs') (simp_all add: hex_encode_def hex_byte_def)
  next
    case (Cons c bs)
    then obtain c' bs'' where b: "bs' = c' # bs''" by (cases bs') (simp_all add: hex_encode_def hex_byte_def)
    have "length (hex_byte c) = length (hex_byte c')" by (simp add: hex_byte_def)
    then have "hex_byte c = hex_byte c'" "hex_encode bs = hex_encode bs''"
      using Cons.prems b by (simp_all add: hex_encode_def)
    then show ?case using Cons.IH b by simp
  qed
qed simp

lemma hex_encode_chars: "c \<in> set (hex_encode bs) \<Longrightarrow> \<not> is_space c \<and> c \<noteq> CHR '',''"
proof -
  assume "c \<in> set (hex_encode bs)"
  then obtain b where "c = hex_digits ! (of_char b div 16) \<or> c = hex_digits ! (of_char b mod 16)"
    by (auto simp: hex_encode_def hex_byte_def)
  then have "c \<in> set hex_digits" using of_char_bounds [of b] by (auto simp: hex_digits_props(1) intro!: nth_mem)
  then show ?thesis using hex_digits_props(3) by blast
qed

lemma hex_encode_empty [simp]: "hex_encode bs = [] \<longleftrightarrow> bs = []"
  by (cases bs) (simp_all add: hex_encode_def hex_byte_def)

section \<open>Signing, parsing, verifying\<close>

text \<open>What is signed: the decimal timestamp, a dot, the payload bytes as they are.\<close>

definition signed_content :: "int \<Rightarrow> bytes \<Rightarrow> bytes" where
  "signed_content ts payload = show_int ts @ ''.'' @ payload"

definition SignFold :: "(bytes \<Rightarrow> bytes \<Rightarrow> bytes) \<Rightarrow> bytes \<Rightarrow> gotime \<Rightarrow> bytes \<Rightarrow> string" where
  "SignFold mac secret at payload =
     (let ts = time_Unix at
      in ''t='' @ show_int ts @ '',v1='' @ hex_encode (mac secret (signed_content ts payload)))"

text \<open>The loop over the comma-separated parts; \<open>None\<close> is the early return of a bad timestamp.\<close>

fun parse_parts :: "string list \<Rightarrow> int \<Rightarrow> string \<Rightarrow> (int \<times> string) option" where
  "parse_parts [] ts v1 = Some (ts, v1)"
| "parse_parts (w # ws) ts v1 =
     (let part = TrimSpace w;
          v1' = (if HasPrefix part ''v1='' then TrimPrefix part ''v1='' else v1)
      in if HasPrefix part ''t='' then
           (case ParseInt (TrimPrefix part ''t='') of
              None \<Rightarrow> None
            | Some n \<Rightarrow> parse_parts ws n v1')
         else parse_parts ws ts v1')"

definition parseFoldSignature :: "string \<Rightarrow> int \<times> string \<times> bool" where
  "parseFoldSignature header =
     (case parse_parts (Split header (CHR '','')) 0 [] of
        None \<Rightarrow> (0, [], False)
      | Some (ts, v1) \<Rightarrow> (ts, v1, ts > 0 \<and> v1 \<noteq> []))"

text \<open>The age of a signature as the code computes it, in 64 bits.\<close>

definition signature_skew :: "gotime \<Rightarrow> int \<Rightarrow> duration" where
  "signature_skew now ts =
     (let delta = wrap64 (time_Unix now - ts);
          delta' = (if delta < 0 then wrap64 (- delta) else delta)
      in wrap64 (delta' * second))"

definition VerifyFold ::
  "(bytes \<Rightarrow> bytes \<Rightarrow> bytes) \<Rightarrow> bytes \<Rightarrow> string \<Rightarrow> bytes \<Rightarrow> gotime \<Rightarrow> duration \<Rightarrow> bool" where
  "VerifyFold mac secret header payload now tolerance =
     (let (ts, sig, ok) = parseFoldSignature header
      in if \<not> ok \<or> secret = [] \<or> sig = [] then False
         else if tolerance > 0 \<and> signature_skew now ts > tolerance then False
         else let expected = SignFold mac secret (time_of_Unix ts) payload;
                  (_, want, ok) = parseFoldSignature expected
              in if \<not> ok then False else sig = want)"

section \<open>Round trip\<close>

lemma parse_SignFold:
  assumes "int64 (time_Unix at)" "0 < time_Unix at" "mac secret (signed_content (time_Unix at) payload) \<noteq> []"
  shows "parseFoldSignature (SignFold mac secret at payload) =
    (time_Unix at, hex_encode (mac secret (signed_content (time_Unix at) payload)), True)"
proof -
  let ?ts = "time_Unix at" and ?sig = "hex_encode (mac secret (signed_content (time_Unix at) payload))"
  let ?w1 = "''t='' @ show_int ?ts" and ?w2 = "''v1='' @ ?sig"
  have digit: "\<not> is_space c \<and> c \<noteq> CHR '',''" if "c \<in> set (show_int ?ts)" for c
    using show_int_chars [OF that] by (auto simp: is_digit_def is_space_def)
  have "SignFold mac secret at payload = ?w1 @ CHR '','' # ?w2"
    by (simp add: SignFold_def Let_def)
  moreover have "CHR '','' \<notin> set ?w1" "CHR '','' \<notin> set ?w2"
    using digit hex_encode_chars by auto
  ultimately have split: "Split (SignFold mac secret at payload) (CHR '','') = [?w1, ?w2]"
    using Split_append [of "CHR '',''" ?w1 ?w2] Split_no_sep [of "CHR '',''" ?w2] by presburger
  have trim: "TrimSpace ?w1 = ?w1" "TrimSpace ?w2 = ?w2"
    using digit hex_encode_chars by (auto intro!: TrimSpace_id simp: is_space_def)
  have "HasPrefix ?w1 ''t=''" "HasPrefix ?w2 ''v1=''" by (rule HasPrefix_append)+
  moreover have "\<not> HasPrefix ?w2 ''t=''" "\<not> HasPrefix ?w1 ''v1=''" by (simp_all add: HasPrefix_def)
  ultimately have "parse_parts [?w1, ?w2] 0 [] = Some (?ts, ?sig)"
    using ParseInt_show_int [OF assms(1)]
    by (simp only: parse_parts.simps Let_def trim TrimPrefix_append if_True if_False option.case)
  then show ?thesis using assms(2,3) by (simp add: parseFoldSignature_def split)
qed

lemma parse_ok:
  assumes "parseFoldSignature header = (ts, sig, True)"
  shows "0 < ts \<and> int64 ts \<and> sig \<noteq> []"
proof -
  have "int64 ts" if "parse_parts ws n v = Some (ts, sig)" "int64 n" for ws n v
    using that
  proof (induction ws n v rule: parse_parts.induct)
    case (2 w ws n v)
    have "int64 i" if "ParseInt x = Some i" for x i
      using that by (auto simp: ParseInt_def Let_def split: option.splits if_splits)
    then show ?case using 2 by (auto simp: Let_def split: if_splits option.splits)
  qed simp
  moreover have "int64 0" by (simp add: int64_def min_int64_def max_int64_def)
  ultimately show ?thesis
    using assms by (auto simp: parseFoldSignature_def split: option.splits prod.splits)
qed

lemma VerifyFold_iff:
  assumes "\<And>k m. mac k m \<noteq> []"
  shows "VerifyFold mac secret header payload now tolerance \<longleftrightarrow>
    (\<exists>ts. parseFoldSignature header = (ts, hex_encode (mac secret (signed_content ts payload)), True) \<and>
       secret \<noteq> [] \<and> (0 < tolerance \<longrightarrow> signature_skew now ts \<le> tolerance))"
proof -
  obtain ts sig ok where p: "parseFoldSignature header = (ts, sig, ok)" by (metis prod_cases3)
  show ?thesis
  proof (cases ok)
    case True
    then have ts: "0 < ts" "int64 ts" "sig \<noteq> []" using parse_ok p by auto
    have "parseFoldSignature (SignFold mac secret (time_of_Unix ts) payload) =
        (ts, hex_encode (mac secret (signed_content ts payload)), True)"
      using parse_SignFold [of "time_of_Unix ts" mac secret payload] ts assms by simp
    then show ?thesis using p True ts(3) by (auto simp: VerifyFold_def)
  next
    case False
    then show ?thesis using p by (auto simp: VerifyFold_def)
  qed
qed

lemma skew_exact:
  assumes "\<bar>time_Unix now - ts\<bar> \<le> 9223372036"
  shows "signature_skew now ts = \<bar>time_Unix now - ts\<bar> * second"
proof -
  have w: "wrap64 x = x" if "\<bar>x\<bar> \<le> 9223372036854775807" for x
    using that by (intro wrap64_id) (auto simp: int64_def min_int64_def max_int64_def)
  show ?thesis using assms by (auto simp: signature_skew_def Let_def w second_def)
qed

lemma verify_sign:
  assumes "\<And>k m. mac k m \<noteq> []" "secret \<noteq> []" "0 < time_Unix at" "int64 (time_Unix at)"
    and "tolerance \<le> 0 \<or> \<bar>time_Unix now - time_Unix at\<bar> * second \<le> tolerance \<and> tolerance \<le> max_int64"
  shows "VerifyFold mac secret (SignFold mac secret at payload) payload now tolerance"
proof -
  have "signature_skew now (time_Unix at) \<le> tolerance" if "0 < tolerance"
    using assms(5) that skew_exact [of now "time_Unix at"] by (simp add: second_def max_int64_def)
  then show ?thesis
    unfolding VerifyFold_iff [OF assms(1)] using parse_SignFold [OF assms(4,3)] assms(1,2) by simp
qed

text \<open>
  Claim C30. Signatures round-trip: whatever the keyed hash, a header made by \<^verbatim>\<open>SignFold\<close> is accepted by
  \<^verbatim>\<open>VerifyFold\<close> with the same secret and payload as long as the clock has moved by no more than the
  tolerance.
\<close>

theorem signature_roundtrip:
  assumes "\<And>k m. mac k m \<noteq> []" "secret \<noteq> []" "0 < time_Unix at" "int64 (time_Unix at)"
    and "tolerance \<le> 0 \<or> \<bar>time_Unix now - time_Unix at\<bar> * second \<le> tolerance \<and> tolerance \<le> max_int64"
  shows "VerifyFold mac secret (SignFold mac secret at payload) payload now tolerance"
  using assms by (rule verify_sign)

definition toy_mac :: "bytes \<Rightarrow> bytes \<Rightarrow> bytes" where
  "toy_mac k m = CHR ''m'' # k @ m"

theorem signature_roundtrip_witness:
  "VerifyFold toy_mac ''s3cret'' (SignFold toy_mac ''s3cret'' (time_of_Unix 1700000000) ''{}'') ''{}''
     (time_of_Unix 1700000200) (5 * minute)"
  by (rule signature_roundtrip)
    (simp_all add: toy_mac_def int64_def min_int64_def max_int64_def duration_defs)

text \<open>
  Claim C29. \<^verbatim>\<open>VerifyFold\<close> accepts nothing else: an accepted header carries a positive timestamp and the
  keyed hash of exactly that timestamp and this payload, and no other timestamp and payload have the
  same signed bytes; if the tolerance is positive and the timestamp is within 292 years of the
  clock, it is within the tolerance.
\<close>

theorem signature_sound:
  assumes "\<And>k m. mac k m \<noteq> []" "VerifyFold mac secret header payload now tolerance"
  shows "\<exists>ts. fst (parseFoldSignature header) = ts \<and> 0 < ts \<and> secret \<noteq> [] \<and>
    fst (snd (parseFoldSignature header)) = hex_encode (mac secret (signed_content ts payload)) \<and>
    (\<forall>ts' payload'. signed_content ts' payload' = signed_content ts payload \<longrightarrow> ts' = ts \<and> payload' = payload) \<and>
    (0 < tolerance \<and> \<bar>time_Unix now - ts\<bar> \<le> 9223372036 \<longrightarrow> \<bar>time_Unix now - ts\<bar> * second \<le> tolerance)"
proof -
  obtain ts where ts: "parseFoldSignature header = (ts, hex_encode (mac secret (signed_content ts payload)), True)"
      "secret \<noteq> []" "0 < tolerance \<longrightarrow> signature_skew now ts \<le> tolerance"
    using assms(2) unfolding VerifyFold_iff [OF assms(1)] by blast
  have dot: "takeWhile (\<lambda>c. c \<noteq> CHR ''.'') (signed_content i p) = show_int i" for i p
  proof -
    have "\<forall>c \<in> set (show_int i). c \<noteq> CHR ''.''" using show_int_chars by (fastforce simp: is_digit_def)
    then show ?thesis by (simp add: signed_content_def takeWhile_append2)
  qed
  have "i = ts \<and> p = payload" if eq: "signed_content i p = signed_content ts payload" for i p
  proof -
    have "show_int i = show_int ts" using dot [of i p] dot [of ts payload] eq by metis
    then have "i = ts" by simp
    then show ?thesis using eq by (simp add: signed_content_def)
  qed
  moreover have "0 < ts" using parse_ok [OF ts(1)] by simp
  ultimately show ?thesis using ts skew_exact [of now ts] by auto
qed

theorem signature_sound_witness:
  "\<exists>ts. fst (parseFoldSignature (SignFold toy_mac ''k'' (time_of_Unix 1700000000) ''{}'')) = ts \<and> 0 < ts"
proof -
  have "VerifyFold toy_mac ''k'' (SignFold toy_mac ''k'' (time_of_Unix 1700000000) ''{}'') ''{}'' (time_of_Unix 1700000000) 1"
    by (rule verify_sign) (simp_all add: toy_mac_def int64_def min_int64_def max_int64_def)
  moreover have "\<And>k m. toy_mac k m \<noteq> []" by (simp add: toy_mac_def)
  ultimately show ?thesis using signature_sound by blast
qed

text \<open>
  The tolerance check is computed in 64-bit nanoseconds and wraps: a signature from
  \<^verbatim>\<open>2^55\<close> seconds in the future (a billion years) passes any positive tolerance, because the skew wraps
  to zero.
\<close>

theorem signature_tolerance_wraps:
  assumes "\<And>k m. mac k m \<noteq> []" "secret \<noteq> []" "0 \<le> time_Unix now" "time_Unix now \<le> 9000000000000000000"
  shows "VerifyFold mac secret
    (SignFold mac secret (time_of_Unix (time_Unix now + 36028797018963968)) payload) payload now tolerance"
proof -
  let ?ts = "time_Unix now + 36028797018963968"
  have "wrap64 (- 36028797018963968) = - 36028797018963968" "wrap64 36028797018963968 = 36028797018963968"
    "wrap64 (36028797018963968 * 1000000000) = 0" by (simp_all add: wrap64_def)
  then have "signature_skew now ?ts = 0" by (simp add: signature_skew_def Let_def second_def)
  moreover have "int64 ?ts" "0 < ?ts" using assms(3,4) by (simp_all add: int64_def min_int64_def max_int64_def)
  ultimately show ?thesis
    unfolding VerifyFold_iff [OF assms(1)]
    using parse_SignFold [of "time_of_Unix ?ts" mac secret payload] assms(1,2) by simp
qed

theorem signature_tolerance_wraps_witness:
  "VerifyFold toy_mac ''k'' (SignFold toy_mac ''k'' (time_of_Unix 36028798718963968) ''{}'') ''{}''
     (time_of_Unix 1700000000) (5 * minute)"
  using signature_tolerance_wraps [of toy_mac "''k''" "time_of_Unix 1700000000" "''{}''" "5 * minute"]
  by (simp add: toy_mac_def)

end
