(* ===== verification/Transport.thy ===== *)
theory Transport
  imports Signature
begin

text \<open>
  \<^verbatim>\<open>transport.go\<close> and the HTTP transport of \<^verbatim>\<open>deliver.go\<close>: outcomes and results of an attempt, the request
  one attempt sends, the classification of status codes, and the two recording fakes. The HTTP
  client is a parameter: what it refuses to build, and what it answers.
\<close>

section \<open>Results\<close>

datatype Outcome = OutcomeSuccess | OutcomeRetryable | OutcomePermanent

record Result =
  outcome :: Outcome
  StatusCode :: int
  Err :: "string option"

definition Result_Error :: "Result \<Rightarrow> string" where
  "Result_Error r =
     (if outcome r = OutcomeSuccess then []
      else case Err r of
             Some err \<Rightarrow> if StatusCode r > 0 then ''status '' @ show_int (StatusCode r) @ '': '' @ err else err
           | None \<Rightarrow> if StatusCode r > 0 then ''status '' @ show_int (StatusCode r) else ''delivery failed'')"

definition classifyStatus :: "int \<Rightarrow> Outcome" where
  "classifyStatus code =
     (if code \<ge> 200 \<and> code < 300 then OutcomeSuccess
      else if code = 408 \<or> code = 429 then OutcomeRetryable
      else if code \<ge> 500 then OutcomeRetryable
      else OutcomePermanent)"

section \<open>The HTTP transport\<close>

definition DefaultDeliveryTimeout :: duration where
  "DefaultDeliveryTimeout = 30 * second"

record http_request =
  r_url :: string
  r_body :: bytes
  r_headers :: "(string \<times> string) list"

text \<open>
  The client: \<open>new_request\<close> gives the error of building a request for a URL, if any;
  \<open>do_request\<close> the answer to a request within the timeout, an error or a status code with its
  status line.
\<close>

record http_client =
  new_request :: "string \<Rightarrow> string option"
  do_request :: "duration \<Rightarrow> http_request \<Rightarrow> string + int \<times> string"

record http_transport =
  timeout :: duration
  client :: http_client

definition NewHTTPTransport :: "duration \<Rightarrow> http_client \<Rightarrow> http_transport" where
  "NewHTTPTransport t c =
     \<lparr>timeout = (if t \<le> 0 then DefaultDeliveryTimeout else t), client = c\<rparr>"

definition payload_bytes :: "bytes option \<Rightarrow> bytes" where
  "payload_bytes b = (case b of None \<Rightarrow> [] | Some bs \<Rightarrow> bs)"

definition set_if :: "bool \<Rightarrow> string \<Rightarrow> string \<Rightarrow> (string \<times> string) list \<Rightarrow> (string \<times> string) list" where
  "set_if c k v hs = (if c then AList.update k v hs else hs)"

definition HeaderFoldSignature :: string where "HeaderFoldSignature = ''Fold-Signature''"

definition build_request :: "(bytes \<Rightarrow> bytes \<Rightarrow> bytes) \<Rightarrow> gotime \<Rightarrow> delivery \<Rightarrow> http_request" where
  "build_request mac now d =
     \<lparr>r_url = URL d, r_body = payload_bytes (Payload d),
      r_headers =
        set_if (payload_bytes (Secret d) \<noteq> []) HeaderFoldSignature
          (SignFold mac (payload_bytes (Secret d)) now (payload_bytes (Payload d)))
          (set_if (ID d \<noteq> []) ''X-Fold-Delivery-Id'' (ID d)
            (set_if (EventID d \<noteq> []) ''X-Fold-Event-Id'' (EventID d)
              (set_if (EventType d \<noteq> []) ''X-Fold-Event'' (EventType d)
                [(''Content-Type'', ''application/json'')])))\<rparr>"

text \<open>\<^verbatim>\<open>Deliver\<close>: the result, and the request it sent, if it sent one.\<close>

definition HTTP_Deliver ::
  "(bytes \<Rightarrow> bytes \<Rightarrow> bytes) \<Rightarrow> http_transport \<Rightarrow> string option \<Rightarrow> gotime \<Rightarrow> delivery \<Rightarrow> Result \<times> http_request option" where
  "HTTP_Deliver mac t ctxerr now d =
     (case ctxerr of
        Some err \<Rightarrow> (\<lparr>outcome = OutcomeRetryable, StatusCode = 0, Err = Some err\<rparr>, None)
      | None \<Rightarrow>
          if URL d = [] then (\<lparr>outcome = OutcomePermanent, StatusCode = 0, Err = Some ''empty subscriber URL''\<rparr>, None)
          else case new_request (client t) (URL d) of
                 Some err \<Rightarrow> (\<lparr>outcome = OutcomePermanent, StatusCode = 0, Err = Some err\<rparr>, None)
               | None \<Rightarrow>
                   let req = build_request mac now d in
                   (case do_request (client t) (timeout t) req of
                      Inl err \<Rightarrow> (\<lparr>outcome = OutcomeRetryable, StatusCode = 0, Err = Some err\<rparr>, Some req)
                    | Inr (code, status_line) \<Rightarrow>
                        let oc = classifyStatus code in
                        (\<lparr>outcome = oc, StatusCode = code,
                          Err = (if oc \<noteq> OutcomeSuccess then Some (''HTTP '' @ status_line) else None)\<rparr>, Some req)))"

section \<open>Recording fakes\<close>

text \<open>\<^verbatim>\<open>RecordingTransport\<close>: the state is the list of deliveries recorded.\<close>

definition record_call :: "delivery \<Rightarrow> delivery list \<Rightarrow> delivery list" where
  "record_call d calls = calls @ [d\<lparr>Payload := copy_bytes (Payload d)\<rparr>]"

definition Calls :: "delivery list \<Rightarrow> delivery list" where
  "Calls calls = calls"

definition Recording_Deliver :: "string option \<Rightarrow> delivery \<Rightarrow> delivery list \<Rightarrow> Result \<times> delivery list" where
  "Recording_Deliver ctxerr d calls =
     (case ctxerr of
        Some err \<Rightarrow> (\<lparr>outcome = OutcomeRetryable, StatusCode = 0, Err = Some err\<rparr>, calls)
      | None \<Rightarrow> (\<lparr>outcome = OutcomeSuccess, StatusCode = 0, Err = None\<rparr>, record_call d calls))"

text \<open>
  \<^verbatim>\<open>HoldingTransport\<close>: \<open>begin\<close> runs up to the \<^verbatim>\<open>select\<close> that may block and says whether it blocks; \<open>finish\<close> is
  what follows, where \<open>cancelled\<close> is the error of a context that ended the wait before the release.
\<close>

record holding =
  hold_sub :: string
  hold_started :: bool
  hold_released :: bool
  hold_calls :: "delivery list"

definition NewHoldingTransport :: "string \<Rightarrow> holding" where
  "NewHoldingTransport x = \<lparr>hold_sub = x, hold_started = False, hold_released = False, hold_calls = []\<rparr>"

text \<open>\<^verbatim>\<open>Held\<close>: the channel is closed when the hold begins. \<^verbatim>\<open>Release\<close> closes the other one, once.\<close>

definition Held :: "holding \<Rightarrow> bool" where
  "Held h = hold_started h"

definition Release :: "holding \<Rightarrow> holding" where
  "Release h = h\<lparr>hold_released := True\<rparr>"

definition Holding_begin :: "delivery \<Rightarrow> holding \<Rightarrow> bool \<times> holding" where
  "Holding_begin d h =
     (if SubscriberID d = hold_sub h \<and> \<not> hold_started h then (True, h\<lparr>hold_started := True\<rparr>) else (False, h))"

definition Holding_finish :: "string option \<Rightarrow> delivery \<Rightarrow> holding \<Rightarrow> Result \<times> holding" where
  "Holding_finish cancelled d h =
     (case cancelled of
        Some err \<Rightarrow> (\<lparr>outcome = OutcomeRetryable, StatusCode = 0, Err = Some err\<rparr>, h)
      | None \<Rightarrow> (\<lparr>outcome = OutcomeSuccess, StatusCode = 0, Err = None\<rparr>,
                 h\<lparr>hold_calls := record_call d (hold_calls h)\<rparr>))"

text \<open>What the fake is for: a peer that delivers during the hold is recorded first.\<close>

lemma hold_shows_inversion:
  assumes "SubscriberID d = x" "Holding_begin d (NewHoldingTransport x) = (blocks, h)"
    "Holding_begin d' h = (blocks', h')" "Holding_finish None d' h' = (res, h'')"
  shows "blocks \<and> Held h \<and> \<not> blocks' \<and>
    map ID (Calls (hold_calls (snd (Holding_finish None d (Release h''))))) = [ID d', ID d]"
  using assms by (auto simp: Holding_begin_def NewHoldingTransport_def Holding_finish_def Held_def Release_def Calls_def
      record_call_def)

section \<open>Properties\<close>

text \<open>
  Claim C38. The HTTP transport posts the stored bytes, labelled and signed: a request it sends goes to the
  row's URL with the row's payload as its body, unchanged. Its content type is JSON; the event type,
  event ID and delivery ID headers carry the row's values, each exactly when the row has one; it is
  signed exactly when the row has a secret, and the signature verifies over the body that is sent; and it
  carries no other header.
\<close>

theorem deliver_posts_signed_payload:
  assumes "(res, Some req) = HTTP_Deliver mac t ctxerr now d"
    and "\<And>k m. mac k m \<noteq> []" "0 < time_Unix now" "int64 (time_Unix now)"
  shows "r_url req = URL d \<and> r_body req = payload_bytes (Payload d) \<and>
    map_of (r_headers req) ''Content-Type'' = Some ''application/json'' \<and>
    map_of (r_headers req) ''X-Fold-Event'' = (if EventType d = [] then None else Some (EventType d)) \<and>
    map_of (r_headers req) ''X-Fold-Event-Id'' = (if EventID d = [] then None else Some (EventID d)) \<and>
    map_of (r_headers req) ''X-Fold-Delivery-Id'' = (if ID d = [] then None else Some (ID d)) \<and>
    (case map_of (r_headers req) ''Fold-Signature'' of
       None \<Rightarrow> payload_bytes (Secret d) = []
     | Some header \<Rightarrow> payload_bytes (Secret d) \<noteq> [] \<and>
         VerifyFold mac (payload_bytes (Secret d)) header (r_body req) now (5 * minute)) \<and>
    dom (map_of (r_headers req)) \<subseteq> {''Content-Type'', ''X-Fold-Event'', ''X-Fold-Event-Id'', ''X-Fold-Delivery-Id'', ''Fold-Signature''}"
proof -
  have req: "req = build_request mac now d"
    using assms(1) by (auto simp: HTTP_Deliver_def Let_def split: option.splits if_splits sum.splits)
  have "VerifyFold mac s (SignFold mac s now p) p now (5 * minute)" if "s \<noteq> []" for s p
    by (rule verify_sign) (use assms(2-4) that in \<open>simp_all add: duration_defs max_int64_def\<close>)
  moreover have "dom (map_of (r_headers (build_request mac now d))) \<subseteq>
      {''Content-Type'', ''X-Fold-Event'', ''X-Fold-Event-Id'', ''X-Fold-Delivery-Id'', ''Fold-Signature''}"
    by (auto simp: build_request_def set_if_def HeaderFoldSignature_def update_conv' split: if_splits)
  ultimately show ?thesis
    by (simp add: req build_request_def set_if_def HeaderFoldSignature_def update_conv')
qed

definition sample_client :: http_client where
  "sample_client = \<lparr>new_request = (\<lambda>_. None), do_request = (\<lambda>_ _. Inr (200, ''200 OK''))\<rparr>"

definition sample_delivery :: delivery where
  "sample_delivery = \<lparr>ID = ''d1'', EventID = ''e1'', SubscriberID = ''s'', URL = ''http://x'', PartitionNo = 0, Sequence = 1,
     Payload = Some ''{}'', EventType = [], Secret = Some ''k'', Status = StatusInFlight, Attempt = 1,
     NextAttempt = 0, LastError = [], Owner = ''w'', Generation = 1, ClaimedAt = 0, CreatedAt = 0\<rparr>"

theorem deliver_posts_signed_payload_witness:
  "(let req = build_request toy_mac (time_of_Unix 7) sample_delivery; hdr = map_of (r_headers req) in
     r_url req = ''http://x'' \<and> r_body req = ''{}'' \<and> hdr ''Content-Type'' = Some ''application/json'' \<and>
     hdr ''X-Fold-Event'' = None \<and> hdr ''X-Fold-Event-Id'' = Some ''e1'' \<and> hdr ''X-Fold-Delivery-Id'' = Some ''d1'' \<and>
     hdr ''Fold-Signature'' \<noteq> None)"
proof -
  let ?t = "NewHTTPTransport 0 sample_client"
  have "(\<lparr>outcome = OutcomeSuccess, StatusCode = 200, Err = None\<rparr>, Some (build_request toy_mac (time_of_Unix 7) sample_delivery)) =
      HTTP_Deliver toy_mac ?t None (time_of_Unix 7) sample_delivery"
    by (simp add: HTTP_Deliver_def NewHTTPTransport_def sample_client_def Let_def classifyStatus_def sample_delivery_def)
  from deliver_posts_signed_payload [OF this] show ?thesis
    by (simp add: Let_def toy_mac_def int64_def min_int64_def max_int64_def sample_delivery_def payload_bytes_def split: option.splits)
qed

text \<open>
  What an attempt reports: success exactly when an answer came back with a 2xx status;
  permanent failure exactly when no request could be made, or the answer has a status below 500
  that is neither 2xx, 408 nor 429; otherwise (no answer, 408, 429, 500 and above, or a cancelled
  context) the attempt is retryable. A failure always carries a message for the row.
\<close>

theorem deliver_outcomes:
  shows "case HTTP_Deliver mac t ctxerr now d of
    (res, sent) \<Rightarrow>
      (outcome res = OutcomeSuccess \<longleftrightarrow>
         (\<exists>req line. sent = Some req \<and> do_request (client t) (timeout t) req = Inr (StatusCode res, line) \<and>
            200 \<le> StatusCode res \<and> StatusCode res < 300)) \<and>
      (outcome res = OutcomePermanent \<longleftrightarrow>
         ctxerr = None \<and> (sent = None \<or>
           (\<exists>req line. sent = Some req \<and> do_request (client t) (timeout t) req = Inr (StatusCode res, line) \<and>
              StatusCode res < 500 \<and> \<not> (200 \<le> StatusCode res \<and> StatusCode res < 300) \<and>
              StatusCode res \<noteq> 408 \<and> StatusCode res \<noteq> 429))) \<and>
      (outcome res \<noteq> OutcomeSuccess \<longleftrightarrow> Err res \<noteq> None)"
  by (auto simp: HTTP_Deliver_def Let_def classifyStatus_def split: option.split sum.split)

end
