(* ===== verification/Dispatcher.thy ===== *)
theory Dispatcher
  imports Hash Backoff Ownership Transport
begin

text \<open>
  \<^verbatim>\<open>fold.go\<close>, \<^verbatim>\<open>types.go\<close> and \<^verbatim>\<open>worker.go\<close>, one function at a time: building a dispatcher, starting
  and resizing its pool, dispatching events, resuming subscribers, closing, and the three things a
  worker does (claim a batch, deliver one row, mark the outcome). They are written against any store
  of the interface; \<open>Workers\<close> runs them concurrently.
\<close>

section \<open>Types and configuration\<close>

record Event =
  ev_ID :: string
  ev_Type :: string
  ev_Payload :: "bytes option"

record Subscriber =
  sub_ID :: string
  sub_URL :: string
  sub_Secret :: "bytes option"

record DeliveryMutationError =
  Op :: string
  DeliveryID :: string
  me_SubscriberID :: string
  me_EventID :: string
  me_Err :: store_error

text \<open>\<open>text_of\<close>: the message of the error of the store.\<close>

definition DeliveryMutationError_Error :: "(store_error \<Rightarrow> string) \<Rightarrow> DeliveryMutationError \<Rightarrow> string" where
  "DeliveryMutationError_Error text_of e = ''fold: '' @ Op e @ '' '' @ DeliveryID e @ '': '' @ text_of (me_Err e)"

definition DeliveryMutationError_Unwrap :: "DeliveryMutationError \<Rightarrow> store_error" where
  "DeliveryMutationError_Unwrap e = me_Err e"

datatype fold_error =
    FCtx string
  | FClosed
  | FAlreadyStarted
  | FNotStarted
  | FRecoverStale store_error
  | FWorkers
  | FResizeOverlap
  | FResizeNarrowed
  | FOwnership own_error
  | FEventID
  | FNoSubscribers
  | FSubscriberID
  | FSubscriberURL
  | FEncode string
  | FStore store_error
  | FNodeIDSlash
  | FNodeIDRequired
  | FNodeIDForbidden
  | FNoDrainCount

definition DefaultMaxAttempts :: int where "DefaultMaxAttempts = 8"
definition DefaultBaseBackoff :: duration where "DefaultBaseBackoff = second"
definition DefaultMaxBackoff :: duration where "DefaultMaxBackoff = 15 * minute"
definition DefaultStaleClaimAge :: duration where "DefaultStaleClaimAge = 2 * DefaultDeliveryTimeout"

text \<open>
  What \<^verbatim>\<open>New\<close> asks of a store beside its methods: the fresh store it makes when none is given, the
  retention bounds it sets on a memory store (nothing on another), whether ownership is
  distributed, and whether the store counts its open rows.
\<close>

record 's store_kind =
  k_fresh :: 's
  k_retention :: "int \<Rightarrow> duration \<Rightarrow> 's \<Rightarrow> 's"
  k_distributed :: "'s \<Rightarrow> bool"
  k_counts :: bool

record 's Config =
  cfg_Store :: "'s option"
  cfg_Workers :: int
  cfg_Partitions :: int
  cfg_MaxAttempts :: int
  cfg_BaseBackoff :: duration
  cfg_MaxBackoff :: duration
  cfg_RetentionMaxCount :: int
  cfg_RetentionMaxAge :: duration
  cfg_OnSuspend :: bool
  cfg_OnDeliveryError :: bool
  cfg_IDPrefix :: string
  cfg_OverlapPartitions :: bool
  cfg_PartitionsClaim :: "int list option"
  cfg_StaleClaimAge :: duration
  cfg_NodeID :: string

text \<open>
  The dispatcher. Beside the fields of the struct: the owner tokens of the goroutines started so far,
  whether their context is cancelled, and the calls made to the two hooks of the host.
\<close>

record 's dispatcher =
  d_store :: 's
  d_maxAttempts :: int
  d_baseBackoff :: duration
  d_maxBackoff :: duration
  d_onSuspend :: bool
  d_onDeliveryError :: bool
  d_staleClaimAge :: duration
  d_own :: ownership
  d_generation :: uint64
  d_workers :: int
  d_started :: bool
  d_closed :: bool
  d_idPrefix :: string
  d_idFallback :: uint64
  d_nodeID :: string
  d_incarnationID :: string
  d_stats :: "(string \<times> int \<times> int) list"
  d_spawned :: "string list"
  d_cancelled :: bool
  d_suspends :: "string list"
  d_errors :: "DeliveryMutationError list"

text \<open>\<^verbatim>\<open>t.UnixNano()\<close>, in 64 bits.\<close>

definition time_UnixNano :: "gotime \<Rightarrow> int" where
  "time_UnixNano t = wrap64 (t - 62135596800000000000)"

text \<open>\<open>rnd\<close>: the 16 bytes \<^verbatim>\<open>crypto/rand\<close> yields, or none if it fails.\<close>

definition newIncarnationID :: "bytes option \<Rightarrow> gotime \<Rightarrow> string" where
  "newIncarnationID rnd now =
     (case rnd of None \<Rightarrow> ''inc-'' @ show_int (time_UnixNano now) | Some b \<Rightarrow> hex_encode b)"

definition New :: "'s store_kind \<Rightarrow> 's Config \<Rightarrow> bytes option \<Rightarrow> gotime \<Rightarrow> fold_error + 's dispatcher" where
  "New kind cfg rnd now =
     (let ws = (if cfg_Workers cfg \<le> 0 then 1 else cfg_Workers cfg);
          nparts = (if cfg_Partitions cfg \<le> 0 then DefaultPartitions else cfg_Partitions cfg);
          st0 = (case cfg_Store cfg of None \<Rightarrow> k_fresh kind | Some s \<Rightarrow> s);
          st = k_retention kind (cfg_RetentionMaxCount cfg) (cfg_RetentionMaxAge cfg) st0;
          distributed = k_distributed kind st;
          node = cfg_NodeID cfg
      in if CHR ''/'' \<in> set node then Inl FNodeIDSlash
         else if distributed \<and> node = [] then Inl FNodeIDRequired
         else if \<not> distributed \<and> node \<noteq> [] then Inl FNodeIDForbidden
         else let inc = (if node \<noteq> [] then newIncarnationID rnd now else []) in
           (case buildOwnership ws nparts (cfg_OverlapPartitions cfg) (cfg_PartitionsClaim cfg) node inc of
              Inl err \<Rightarrow> Inl (FOwnership err)
            | Inr o1 \<Rightarrow> Inr \<lparr>d_store = st,
                d_maxAttempts = (if cfg_MaxAttempts cfg \<le> 0 then DefaultMaxAttempts else cfg_MaxAttempts cfg),
                d_baseBackoff = (if cfg_BaseBackoff cfg \<le> 0 then DefaultBaseBackoff else cfg_BaseBackoff cfg),
                d_maxBackoff = (if cfg_MaxBackoff cfg \<le> 0 then DefaultMaxBackoff else cfg_MaxBackoff cfg),
                d_onSuspend = cfg_OnSuspend cfg, d_onDeliveryError = cfg_OnDeliveryError cfg,
                d_staleClaimAge = cfg_StaleClaimAge cfg, d_own = o1, d_generation = 1, d_workers = ws,
                d_started = False, d_closed = False, d_idPrefix = cfg_IDPrefix cfg, d_idFallback = 0,
                d_nodeID = node, d_incarnationID = inc, d_stats = [], d_spawned = [],
                d_cancelled = False, d_suspends = [], d_errors = []\<rparr>))"

section \<open>Starting and resizing\<close>

definition effectiveStaleAge :: "'s dispatcher \<Rightarrow> duration" where
  "effectiveStaleAge d =
     (if d_staleClaimAge d < 0 then 0
      else if d_staleClaimAge d = 0 then DefaultStaleClaimAge
      else d_staleClaimAge d)"

definition spawnWorkerLocked :: "string \<Rightarrow> 's dispatcher \<Rightarrow> 's dispatcher" where
  "spawnWorkerLocked owner d = d\<lparr>d_spawned := d_spawned d @ [owner]\<rparr>"

definition spawn_range :: "int \<Rightarrow> int \<Rightarrow> 's dispatcher \<Rightarrow> 's dispatcher" where
  "spawn_range lo hi d =
     fold (\<lambda>w. spawnWorkerLocked (claimOwnerID (d_nodeID d) (d_incarnationID d) w)) [lo..hi - 1] d"

definition Start :: "('e, 's) store_ops \<Rightarrow> 'e \<Rightarrow> 's dispatcher \<Rightarrow> fold_error option \<times> 's dispatcher" where
  "Start ops e d =
     (if d_closed d then (Some FClosed, d)
      else if d_started d then (Some FAlreadyStarted, d)
      else let age = effectiveStaleAge d;
               (r, st) = (if age > 0 then op_RecoverStale ops e age (d_store d) else (Inr 0, d_store d));
               d1 = d\<lparr>d_store := st\<rparr>
           in case r of
                Inl err \<Rightarrow> (Some (FRecoverStale err), d1)
              | Inr _ \<Rightarrow> (None, spawn_range 0 (d_workers d) (d1\<lparr>d_started := True\<rparr>)))"

definition Resize :: "string option \<Rightarrow> int \<Rightarrow> 's dispatcher \<Rightarrow> fold_error option \<times> 's dispatcher" where
  "Resize ctxerr ws d =
     (case ctxerr of
        Some err \<Rightarrow> (Some (FCtx err), d)
      | None \<Rightarrow>
          if ws \<le> 0 then (Some FWorkers, d)
          else if d_closed d then (Some FClosed, d)
          else if \<not> d_started d then (Some FNotStarted, d)
          else if overlap (d_own d) then (Some FResizeOverlap, d)
          else if narrowed (d_own d) then (Some FResizeNarrowed, d)
          else if ws = d_workers d then (None, d)
          else case buildOwnership ws (partitions (d_own d)) False None (d_nodeID d) (d_incarnationID d) of
                 Inl err \<Rightarrow> (Some (FOwnership err), d)
               | Inr o1 \<Rightarrow>
                   (None, spawn_range (d_workers d) ws
                            (d\<lparr>d_own := o1, d_workers := ws, d_generation := d_generation d + 1\<rparr>)))"

section \<open>Dispatching\<close>

text \<open>
  \<^verbatim>\<open>json.Marshal\<close> of the wire struct is the parameter \<open>marshal\<close> (identity, type, raw data): an error or
  the bytes.
\<close>

definition encodeOnce :: "(string \<Rightarrow> string \<Rightarrow> bytes \<Rightarrow> string + bytes) \<Rightarrow> Event \<Rightarrow> string + bytes" where
  "encodeOnce marshal ev =
     marshal (ev_ID ev) (ev_Type ev) (case ev_Payload ev of None \<Rightarrow> ''null'' | Some p \<Rightarrow> p)"

definition nextID :: "bytes option \<Rightarrow> gotime \<Rightarrow> 's dispatcher \<Rightarrow> string \<times> 's dispatcher" where
  "nextID rnd now d =
     (case rnd of
        Some b \<Rightarrow> (d_idPrefix d @ hex_encode b, d)
      | None \<Rightarrow>
          let n = d_idFallback d + 1
          in (d_idPrefix d @ ''dlg-'' @ show_int (time_UnixNano now) @ ''-'' @ show_nat (unat n),
              d\<lparr>d_idFallback := n\<rparr>))"

fun check_subs :: "Subscriber list \<Rightarrow> fold_error option" where
  "check_subs [] = None"
| "check_subs (s # ss) =
     (if sub_ID s = [] then Some FSubscriberID
      else if sub_URL s = [] then Some FSubscriberURL
      else check_subs ss)"

text \<open>\<open>rnds\<close> and \<open>nows\<close>: what the random source and the clock yield for each row in turn.\<close>

fun build_rows ::
  "(nat \<Rightarrow> bytes option) \<Rightarrow> (nat \<Rightarrow> gotime) \<Rightarrow> Event \<Rightarrow> bytes \<Rightarrow> nat \<Rightarrow> Subscriber list \<Rightarrow> 's dispatcher \<Rightarrow>
   delivery list \<times> 's dispatcher" where
  "build_rows rnds nows ev payload i [] d = ([], d)"
| "build_rows rnds nows ev payload i (s # ss) d =
     (let (tok, d1) = nextID (rnds i) (nows i) d;
          r = \<lparr>ID = tok, EventID = ev_ID ev, SubscriberID = sub_ID s, URL = sub_URL s,
               PartitionNo = hash_Partition (sub_ID s) (partitions (d_own d)), Sequence = 0,
               Payload = Some payload, EventType = ev_Type ev, Secret = copy_bytes (sub_Secret s),
               Status = StatusPending, Attempt = 0, NextAttempt = zero_time, LastError = [],
               Owner = [], Generation = 0, ClaimedAt = zero_time, CreatedAt = zero_time\<rparr>;
          (rs, d2) = build_rows rnds nows ev payload (Suc i) ss d1
      in (r # rs, d2))"

definition Dispatch ::
  "('e, 's) store_ops \<Rightarrow> (string \<Rightarrow> string \<Rightarrow> bytes \<Rightarrow> string + bytes) \<Rightarrow> 'e \<Rightarrow> string option \<Rightarrow>
   (nat \<Rightarrow> bytes option) \<Rightarrow> (nat \<Rightarrow> gotime) \<Rightarrow> Event \<Rightarrow> Subscriber list \<Rightarrow> 's dispatcher \<Rightarrow>
   fold_error option \<times> 's dispatcher" where
  "Dispatch ops marshal e ctxerr rnds nows ev ss d =
     (case ctxerr of
        Some err \<Rightarrow> (Some (FCtx err), d)
      | None \<Rightarrow>
          if d_closed d then (Some FClosed, d)
          else if \<not> d_started d then (Some FNotStarted, d)
          else if ev_ID ev = [] then (Some FEventID, d)
          else if ss = [] then (Some FNoSubscribers, d)
          else case check_subs ss of
                 Some err \<Rightarrow> (Some err, d)
               | None \<Rightarrow>
                   (case encodeOnce marshal ev of
                      Inl err \<Rightarrow> (Some (FEncode err), d)
                    | Inr payload \<Rightarrow>
                        let (rs, d1) = build_rows rnds nows ev payload 0 ss d;
                            (err, st) = op_Enqueue ops e rs (d_store d1)
                        in (map_option FStore err, d1\<lparr>d_store := st\<rparr>)))"

section \<open>Suspended, Resume, Close\<close>

record ResumeResult =
  Gap :: bool
  rr_Dropped :: int
  rr_Marker :: string

definition Suspended :: "('e, 's) store_ops \<Rightarrow> 'e \<Rightarrow> string \<Rightarrow> 's dispatcher \<Rightarrow> (store_error + bool) \<times> 's dispatcher" where
  "Suspended ops e x d = (let (r, st) = op_IsSuspended ops e x (d_store d) in (r, d\<lparr>d_store := st\<rparr>))"

definition Dispatcher_Resume ::
  "('e, 's) store_ops \<Rightarrow> 'e \<Rightarrow> string \<Rightarrow> 's dispatcher \<Rightarrow> (fold_error + ResumeResult) \<times> 's dispatcher" where
  "Dispatcher_Resume ops e x d =
     (if x = [] then (Inl FSubscriberID, d)
      else let (r, st) = op_Resume ops e x (d_store d); d1 = d\<lparr>d_store := st\<rparr>
           in case r of
                Inl err \<Rightarrow> (Inl (FStore err), d1)
              | Inr g \<Rightarrow> (Inr \<lparr>Gap = Occurred g, rr_Dropped = Dropped g, rr_Marker = Marker g\<rparr>, d1))"

text \<open>
  \<^verbatim>\<open>Close\<close> up to its wait: \<open>Some r\<close> when it returns already, \<open>None\<close> when it goes on to drain.
\<close>

definition Close_begin :: "'s dispatcher \<Rightarrow> fold_error option option \<times> 's dispatcher" where
  "Close_begin d =
     (if d_closed d then (Some None, d)
      else let d1 = d\<lparr>d_closed := True\<rparr> in
        if \<not> d_started d then (Some None, d1) else (None, d1))"

text \<open>
  One turn of \<^verbatim>\<open>waitDrained\<close>: \<open>Some r\<close> when the wait is over, where \<open>done\<close> is the error of the caller's
  context if the \<^verbatim>\<open>select\<close> sees it cancelled. The workers are cancelled when the wait is over, drained
  or not.
\<close>

definition pendingCount :: "('e, 's) store_ops \<Rightarrow> bool \<Rightarrow> 'e \<Rightarrow> 's dispatcher \<Rightarrow> (fold_error + int) \<times> 's dispatcher" where
  "pendingCount ops counts e d =
     (if \<not> counts then (Inl FNoDrainCount, d)
      else let (r, st) = op_PendingOrInFlight ops e (d_store d)
           in (case r of Inl err \<Rightarrow> Inl (FStore err) | Inr n \<Rightarrow> Inr n, d\<lparr>d_store := st\<rparr>))"

definition Close_poll ::
  "('e, 's) store_ops \<Rightarrow> bool \<Rightarrow> 'e \<Rightarrow> string option \<Rightarrow> 's dispatcher \<Rightarrow> fold_error option option \<times> 's dispatcher" where
  "Close_poll ops counts e stop d =
     (let (r, d1) = pendingCount ops counts e d in
      case r of
        Inl err \<Rightarrow> (Some (Some err), d1\<lparr>d_cancelled := True\<rparr>)
      | Inr n \<Rightarrow>
          if n = 0 then (Some None, d1\<lparr>d_cancelled := True\<rparr>)
          else case stop of
                 Some err \<Rightarrow> (Some (Some (FCtx err)), d1\<lparr>d_cancelled := True\<rparr>)
               | None \<Rightarrow> (None, d1))"

text \<open>
  The end of \<^verbatim>\<open>Close\<close>, when the wait is over with \<open>r\<close>: \<open>exited\<close> when every goroutine has left. After an
  error it waits for them without a bound; after a drain the \<^verbatim>\<open>select\<close> may take the caller's context
  instead, \<open>stop\<close> being its error if it does.
\<close>

definition Close_finish :: "fold_error option \<Rightarrow> bool \<Rightarrow> string option \<Rightarrow> fold_error option option" where
  "Close_finish r exited stop =
     (case r of
        Some err \<Rightarrow> if exited then Some (Some err) else None
      | None \<Rightarrow> (case stop of
          Some err \<Rightarrow> Some (Some (FCtx err))
        | None \<Rightarrow> if exited then Some None else None))"

section \<open>What a worker does\<close>

definition claimBatch_size :: int where "claimBatch_size = 64"

text \<open>\<open>None\<close>: this goroutine's index is not in the pool any more, and it leaves.\<close>

definition claimBatch ::
  "('e, 's) store_ops \<Rightarrow> 'e \<Rightarrow> string \<Rightarrow> 's dispatcher \<Rightarrow> (store_error + delivery list) option \<times> 's dispatcher" where
  "claimBatch ops e owner d =
     (case parseOwnerIndex owner of
        None \<Rightarrow> (None, d)
      | Some idx \<Rightarrow>
          if idx < 0 \<or> idx \<ge> d_workers d then (None, d)
          else let (r, st) = op_Claim ops e owner (d_generation d) (partitionsFor (d_own d) owner) claimBatch_size (d_store d)
               in (Some r, d\<lparr>d_store := st\<rparr>))"

definition reportDeliveryError :: "string \<Rightarrow> delivery \<Rightarrow> store_error option \<Rightarrow> 's dispatcher \<Rightarrow> 's dispatcher" where
  "reportDeliveryError what del err d =
     (case err of
        None \<Rightarrow> d
      | Some er \<Rightarrow>
          if \<not> d_onDeliveryError d then d
          else d\<lparr>d_errors := d_errors d @
                 [\<lparr>Op = what, DeliveryID = ID del, me_SubscriberID = SubscriberID del, me_EventID = EventID del, me_Err = er\<rparr>]\<rparr>)"

definition exhaust ::
  "('e, 's) store_ops \<Rightarrow> 'e \<Rightarrow> string \<Rightarrow> delivery \<Rightarrow> string \<Rightarrow> 's dispatcher \<Rightarrow> 's dispatcher" where
  "exhaust ops e owner del msg d =
     (let (err, st) = op_ExhaustAndSuspend ops e (ID del) owner (Generation del) msg (d_store d);
          d1 = d\<lparr>d_store := st\<rparr>
      in if err \<noteq> None then reportDeliveryError ''ExhaustAndSuspend'' del err d1
         else if d_onSuspend d then d1\<lparr>d_suspends := d_suspends d1 @ [SubscriberID del]\<rparr> else d1)"

text \<open>\<^verbatim>\<open>deliverOne\<close> after the transport has returned \<open>res\<close>; \<open>rnd\<close> is the source of the backoff's jitter.\<close>

definition deliverOne ::
  "('e, 's) store_ops \<Rightarrow> 'e \<Rightarrow> gotime \<Rightarrow> (int \<Rightarrow> int) \<Rightarrow> string \<Rightarrow> delivery \<Rightarrow> Result \<Rightarrow> 's dispatcher \<Rightarrow> 's dispatcher" where
  "deliverOne ops e now rnd owner del res d =
     (case outcome res of
        OutcomeSuccess \<Rightarrow>
          let (err, st) = op_MarkDelivered ops e (ID del) owner (Generation del) (d_store d)
          in reportDeliveryError ''MarkDelivered'' del err (d\<lparr>d_store := st\<rparr>)
      | OutcomePermanent \<Rightarrow> exhaust ops e owner del (Result_Error res) d
      | OutcomeRetryable \<Rightarrow>
          if Attempt del \<ge> d_maxAttempts d then exhaust ops e owner del (Result_Error res) d
          else let nxt = time_Add now (Delay rnd (Attempt del) (d_baseBackoff d) (d_maxBackoff d));
                   (err, st) = op_MarkFailed ops e (ID del) owner (Generation del) (Attempt del) nxt (Result_Error res) (d_store d)
               in reportDeliveryError ''MarkFailed'' del err (d\<lparr>d_store := st\<rparr>))"

section \<open>Worker statistics\<close>

definition workerCounter :: "string \<Rightarrow> 's dispatcher \<Rightarrow> int \<times> int" where
  "workerCounter owner d = (case map_of (d_stats d) owner of None \<Rightarrow> (0, 0) | Some c \<Rightarrow> c)"

definition count_delivery :: "string \<Rightarrow> 's dispatcher \<Rightarrow> 's dispatcher" where
  "count_delivery owner d =
     (let (n, idle) = workerCounter owner d in d\<lparr>d_stats := AList.update owner (n + 1, idle) (d_stats d)\<rparr>)"

definition count_idle :: "string \<Rightarrow> duration \<Rightarrow> 's dispatcher \<Rightarrow> 's dispatcher" where
  "count_idle owner dt d =
     (let (n, idle) = workerCounter owner d in d\<lparr>d_stats := AList.update owner (n, idle + dt) (d_stats d)\<rparr>)"

text \<open>
  A wait ends on what its \<^verbatim>\<open>select\<close> receives first: the end of the context, the store's notification,
  or the timer (10 ms, or the length of a \<^verbatim>\<open>sleep\<close>). \<open>dt\<close>: the time spent, which counts in any case.
  Receiving the notification empties the store's channel, a flag no operation of the interface reads.
\<close>

datatype wake = Woke_cancelled | Woke_notified | Woke_timer

definition waitForWork :: "wake \<Rightarrow> duration \<Rightarrow> string \<Rightarrow> 's dispatcher \<Rightarrow> bool \<times> 's dispatcher" where
  "waitForWork w dt owner d = (w \<noteq> Woke_cancelled, count_idle owner dt d)"

definition sleep :: "wake \<Rightarrow> bool" where
  "sleep w \<longleftrightarrow> w \<noteq> Woke_cancelled"

lemma waitForWorkD: "waitForWork w dt owner d = (True, d') \<Longrightarrow> d' = count_idle owner dt d"
  by (simp add: waitForWork_def)

definition WorkerStats :: "(string list \<Rightarrow> string list) \<Rightarrow> 's dispatcher \<Rightarrow> (string \<times> int \<times> int) list" where
  "WorkerStats \<pi> d = sort_key fst (map (\<lambda>owner. (owner, workerCounter owner d)) (\<pi> (map fst (d_stats d))))"

end
