(* ===== verification/Workers.thy ===== *)
theory Workers
  imports Dispatcher AbstractStore
begin

text \<open>
  The dispatcher running: every goroutine of the pool is in one phase of \<^verbatim>\<open>runWorker\<close>, the host calls the
  dispatcher's methods, and other users of the store call it too. Each step takes a lock of the code
  once or makes one call to the store, so the steps interleave as the code's do. A claim reads the
  ownership map and calls the store under \<^verbatim>\<open>claimGate\<close>, which \<^verbatim>\<open>Resize\<close> excludes: it is one step.
  \<^verbatim>\<open>Dispatch\<close> checks the flags under its lock and enqueues after releasing it; here that is one step, and
  the runs in which something comes between the two are those where the rows arrive by a \<open>foreign\<close>
  \<^verbatim>\<open>Enqueue\<close>, which may come at any time, also after \<^verbatim>\<open>Close\<close>.
\<close>

section \<open>The running system\<close>

datatype phase =
    WIdle
  | WBatch "delivery list"
  | WPosting delivery "delivery list"
  | WExited

record 's system =
  sy_d :: "'s dispatcher"
  sy_pool :: "(string \<times> phase) list"
  sy_posts :: "delivery list"

fun after_claim :: "(store_error + delivery list) option \<Rightarrow> phase" where
  "after_claim None = WExited"
| "after_claim (Some (Inl err)) = WIdle"
| "after_claim (Some (Inr ds)) = (if ds = [] then WIdle else WBatch ds)"

definition next_phase :: "delivery list \<Rightarrow> phase" where
  "next_phase ds = (if ds = [] then WIdle else WBatch ds)"

text \<open>The goroutines spawned since the pool was last looked at.\<close>

definition grow_pool :: "'s dispatcher \<Rightarrow> (string \<times> phase) list \<Rightarrow> (string \<times> phase) list" where
  "grow_pool d pool = pool @ map (\<lambda>tok. (tok, WIdle)) (drop (length pool) (d_spawned d))"

text \<open>
  Another user of the store may call anything except marks in the name of this dispatcher's workers
  and a recovery of stale claims, which takes rows from live attempts by design.
\<close>

definition foreign_ok :: "string list \<Rightarrow> 'e call \<Rightarrow> bool" where
  "foreign_ok toks c =
     (case c of
        MarkDelivered_call e k ow g \<Rightarrow> ow \<notin> set toks
      | MarkFailed_call e k ow g a t m \<Rightarrow> ow \<notin> set toks
      | MarkDeadLetter_call e k ow g m \<Rightarrow> ow \<notin> set toks
      | ExhaustAndSuspend_call e k ow g m \<Rightarrow> ow \<notin> set toks
      | RecoverStale_call e a \<Rightarrow> False
      | _ \<Rightarrow> True)"

inductive sys_step ::
  "('e, 's) store_ops \<Rightarrow> ('e \<Rightarrow> bool) \<Rightarrow> (string \<Rightarrow> string \<Rightarrow> bytes \<Rightarrow> string + bytes) \<Rightarrow> bool \<Rightarrow>
   's system \<Rightarrow> 's system \<Rightarrow> bool" for ops ok marshal counts where
  worker_claim: "i < length (sy_pool s) \<Longrightarrow> sy_pool s ! i = (tok, WIdle) \<Longrightarrow> ok e \<Longrightarrow>
     claimBatch ops e tok (sy_d s) = (r, d') \<Longrightarrow>
     sys_step ops ok marshal counts s (s\<lparr>sy_d := d', sy_pool := (sy_pool s)[i := (tok, after_claim r)]\<rparr>)"
| worker_wait: "i < length (sy_pool s) \<Longrightarrow> sy_pool s ! i = (tok, WIdle) \<Longrightarrow> 0 \<le> dt \<Longrightarrow>
     waitForWork w dt tok (sy_d s) = (True, d') \<Longrightarrow>
     sys_step ops ok marshal counts s (s\<lparr>sy_d := d'\<rparr>)"
| worker_post: "i < length (sy_pool s) \<Longrightarrow> sy_pool s ! i = (tok, WBatch (del # ds)) \<Longrightarrow>
     sys_step ops ok marshal counts s
       (s\<lparr>sy_pool := (sy_pool s)[i := (tok, WPosting del ds)], sy_posts := sy_posts s @ [del]\<rparr>)"
| worker_mark: "i < length (sy_pool s) \<Longrightarrow> sy_pool s ! i = (tok, WPosting del ds) \<Longrightarrow> ok e \<Longrightarrow>
     sys_step ops ok marshal counts s
       (s\<lparr>sy_d := count_delivery tok (deliverOne ops e now rnd tok del res (sy_d s)),
          sy_pool := (sy_pool s)[i := (tok, next_phase ds)]\<rparr>)"
| worker_exit: "i < length (sy_pool s) \<Longrightarrow> sy_pool s ! i = (tok, p) \<Longrightarrow> p = WIdle \<or> (\<exists>ds. p = WBatch ds) \<Longrightarrow>
     d_cancelled (sy_d s) \<Longrightarrow>
     sys_step ops ok marshal counts s (s\<lparr>sy_pool := (sy_pool s)[i := (tok, WExited)]\<rparr>)"
| host_start: "ok e \<Longrightarrow> Start ops e (sy_d s) = (r, d') \<Longrightarrow>
     sys_step ops ok marshal counts s (s\<lparr>sy_d := d', sy_pool := grow_pool d' (sy_pool s)\<rparr>)"
| host_resize: "Resize ctxerr ws (sy_d s) = (r, d') \<Longrightarrow>
     sys_step ops ok marshal counts s (s\<lparr>sy_d := d', sy_pool := grow_pool d' (sy_pool s)\<rparr>)"
| host_dispatch: "ok e \<Longrightarrow> Dispatch ops marshal e ctxerr rnds nows ev ss (sy_d s) = (r, d') \<Longrightarrow>
     sys_step ops ok marshal counts s (s\<lparr>sy_d := d'\<rparr>)"
| host_suspended: "ok e \<Longrightarrow> Suspended ops e x (sy_d s) = (r', d') \<Longrightarrow>
     sys_step ops ok marshal counts s (s\<lparr>sy_d := d'\<rparr>)"
| host_resume: "ok e \<Longrightarrow> Dispatcher_Resume ops e x (sy_d s) = (r'', d') \<Longrightarrow>
     sys_step ops ok marshal counts s (s\<lparr>sy_d := d'\<rparr>)"
| host_close: "Close_begin (sy_d s) = (r3, d') \<Longrightarrow>
     sys_step ops ok marshal counts s (s\<lparr>sy_d := d'\<rparr>)"
| host_drain: "d_closed (sy_d s) \<Longrightarrow> ok e \<Longrightarrow> Close_poll ops counts e stop (sy_d s) = (r4, d') \<Longrightarrow>
     sys_step ops ok marshal counts s (s\<lparr>sy_d := d'\<rparr>)"
| foreign: "ok (call_env c) \<Longrightarrow> foreign_ok (d_spawned (sy_d s)) c \<Longrightarrow>
     sys_step ops ok marshal counts s (s\<lparr>sy_d := (sy_d s)\<lparr>d_store := exec_call ops c (d_store (sy_d s))\<rparr>\<rparr>)"

definition sys_init :: "'s dispatcher \<Rightarrow> 's system" where
  "sys_init d = \<lparr>sy_d = d, sy_pool = [], sy_posts = []\<rparr>"

section \<open>What the operations leave alone\<close>

lemma spawn_range_simps [simp]:
  "d_store (spawn_range lo hi d) = d_store d" "d_started (spawn_range lo hi d) = d_started d"
  "d_spawned (spawn_range lo hi d) = d_spawned d @ map (claimOwnerID (d_nodeID d) (d_incarnationID d)) [lo..hi - 1]"
  "d_own (spawn_range lo hi d) = d_own d" "d_generation (spawn_range lo hi d) = d_generation d"
  "d_workers (spawn_range lo hi d) = d_workers d" "d_closed (spawn_range lo hi d) = d_closed d"
  "d_nodeID (spawn_range lo hi d) = d_nodeID d" "d_incarnationID (spawn_range lo hi d) = d_incarnationID d"
proof -
  have "d_store (fold (\<lambda>w. spawnWorkerLocked (f w)) is d) = d_store d \<and>
      d_started (fold (\<lambda>w. spawnWorkerLocked (f w)) is d) = d_started d \<and>
      d_spawned (fold (\<lambda>w. spawnWorkerLocked (f w)) is d) = d_spawned d @ map f is \<and>
      d_own (fold (\<lambda>w. spawnWorkerLocked (f w)) is d) = d_own d \<and>
      d_generation (fold (\<lambda>w. spawnWorkerLocked (f w)) is d) = d_generation d \<and>
      d_workers (fold (\<lambda>w. spawnWorkerLocked (f w)) is d) = d_workers d \<and>
      d_closed (fold (\<lambda>w. spawnWorkerLocked (f w)) is d) = d_closed d \<and>
      d_nodeID (fold (\<lambda>w. spawnWorkerLocked (f w)) is d) = d_nodeID d \<and>
      d_incarnationID (fold (\<lambda>w. spawnWorkerLocked (f w)) is d) = d_incarnationID d"
    for f :: "int \<Rightarrow> string" and "is" and d :: "'a dispatcher"
    by (induction "is" arbitrary: d) (simp_all add: spawnWorkerLocked_def)
  then show "d_store (spawn_range lo hi d) = d_store d" "d_started (spawn_range lo hi d) = d_started d"
    "d_spawned (spawn_range lo hi d) = d_spawned d @ map (claimOwnerID (d_nodeID d) (d_incarnationID d)) [lo..hi - 1]"
    "d_own (spawn_range lo hi d) = d_own d" "d_generation (spawn_range lo hi d) = d_generation d"
    "d_workers (spawn_range lo hi d) = d_workers d" "d_closed (spawn_range lo hi d) = d_closed d"
    "d_nodeID (spawn_range lo hi d) = d_nodeID d" "d_incarnationID (spawn_range lo hi d) = d_incarnationID d"
    by (simp_all add: spawn_range_def)
qed

lemma build_rows_frame:
  "build_rows rnds nows ev payload i ss d = (rs, d') \<Longrightarrow>
   \<exists>n. d' = d\<lparr>d_idFallback := n\<rparr>"
proof (induction ss arbitrary: i d rs d')
  case Nil
  then show ?case by (auto intro: exI [of _ "d_idFallback d"])
next
  case (Cons s ss)
  obtain tok d1 where n: "nextID (rnds i) (nows i) d = (tok, d1)" by fastforce
  obtain n1 where d1: "d1 = d\<lparr>d_idFallback := n1\<rparr>"
    using n by (cases "rnds i") (auto simp: nextID_def Let_def intro: that [of "d_idFallback d"])
  obtain rs' d2 where b: "build_rows rnds nows ev payload (Suc i) ss d1 = (rs', d2)" by fastforce
  obtain n2 where "d2 = d1\<lparr>d_idFallback := n2\<rparr>" using Cons.IH [OF b] by blast
  moreover have "d' = d2" using Cons.prems by (simp add: n b)
  ultimately show ?case using d1 by (intro exI [of _ n2]) simp
qed

text \<open>
  One call to the store, or none: the step changes neither the ownership of partitions, nor the
  pool's tokens, nor whether the dispatcher has started.
\<close>

definition d_conf :: "'s dispatcher \<Rightarrow> ownership \<times> int \<times> string \<times> string \<times> bool \<times> string list" where
  "d_conf d = (d_own d, d_workers d, d_nodeID d, d_incarnationID d, d_started d, d_spawned d)"

definition one_call :: "('e, 's) store_ops \<Rightarrow> ('e \<Rightarrow> bool) \<Rightarrow> ('e call \<Rightarrow> bool) \<Rightarrow> 's dispatcher \<Rightarrow> 's dispatcher \<Rightarrow> bool" where
  "one_call ops ok P d d' \<longleftrightarrow> d_conf d' = d_conf d \<and>
     (d_store d' = d_store d \<or>
      (\<exists>c. ok (call_env c) \<and> P c \<and> d_store d' = exec_call ops c (d_store d)))"

definition ends_nothing :: "'e call \<Rightarrow> bool" where
  "ends_nothing c \<longleftrightarrow> (\<forall>k ow g. \<not> ends_claim k ow g c)"

lemma ends_nothing_simps [simp]:
  "ends_nothing (Enqueue_call e ds)" "ends_nothing (Claim_call e ow g ps n)" "ends_nothing (Resume_call e x)"
  "ends_nothing (IsSuspended_call e x)" "ends_nothing (PendingOrInFlight_call e)"
  by (simp_all add: ends_nothing_def ends_claim_def)

lemma d_conf_simps [simp]:
  "d_conf (d\<lparr>d_store := st\<rparr>) = d_conf d" "d_conf (d\<lparr>d_cancelled := b\<rparr>) = d_conf d"
  "d_conf (d\<lparr>d_closed := b\<rparr>) = d_conf d" "d_conf (d\<lparr>d_errors := es\<rparr>) = d_conf d"
  "d_conf (d\<lparr>d_suspends := xs\<rparr>) = d_conf d" "d_conf (d\<lparr>d_idFallback := n\<rparr>) = d_conf d"
  "d_conf (d\<lparr>d_stats := ss\<rparr>) = d_conf d"
  by (simp_all add: d_conf_def)

lemma d_confD:
  "d_conf d' = d_conf d \<Longrightarrow> d_started d' = d_started d \<and> d_spawned d' = d_spawned d"
  by (simp add: d_conf_def)

lemma one_callI:
  "d_conf d' = d_conf d \<Longrightarrow> ok (call_env c) \<Longrightarrow> P c \<Longrightarrow>
   d_store d' = exec_call ops c (d_store d) \<Longrightarrow> one_call ops ok P d d'"
  by (auto simp: one_call_def)

lemma one_call_none:
  "d_conf d' = d_conf d \<Longrightarrow> d_store d' = d_store d \<Longrightarrow> one_call ops ok P d d'"
  by (simp add: one_call_def)

lemma one_call_or:
  "ok (call_env c) \<Longrightarrow> P c \<Longrightarrow> d' = d \<or> d' = d\<lparr>d_store := exec_call ops c (d_store d)\<rparr> \<or>
     d' = d\<lparr>d_store := exec_call ops c (d_store d), d_cancelled := x\<rparr> \<or> d' = d\<lparr>d_cancelled := x\<rparr> \<Longrightarrow>
   one_call ops ok P d d'"
  by (auto simp: one_call_def)

lemma claimBatch_call:
  "claimBatch ops e tok d = (r, d') \<Longrightarrow> ok e \<Longrightarrow> one_call ops ok ends_nothing d d'"
  by (auto simp: claimBatch_def split: option.splits if_splits prod.splits
      intro!: one_call_or [where c = "Claim_call e tok (d_generation d) (partitionsFor (d_own d) tok) claimBatch_size"])

lemma Dispatch_call:
  assumes "Dispatch ops marshal e ctxerr rnds nows ev ss d = (r, d')" "ok e"
  shows "one_call ops ok ends_nothing d d'"
proof (cases "d' = d")
  case True
  then show ?thesis by (simp add: one_call_none)
next
  case False
  then obtain payload rs d1 err st where b: "build_rows rnds nows ev payload 0 ss d = (rs, d1)"
      "op_Enqueue ops e rs (d_store d1) = (err, st)" "d' = d1\<lparr>d_store := st\<rparr>"
    using assms(1) by (auto simp: Dispatch_def split: option.splits if_splits sum.splits prod.splits)
  then show ?thesis
    using build_rows_frame [OF b(1)] assms(2)
    by (intro one_callI [where c = "Enqueue_call e rs"]) auto
qed

lemma Suspended_call: "Suspended ops e x d = (r, d') \<Longrightarrow> ok e \<Longrightarrow> one_call ops ok ends_nothing d d'"
  by (auto simp: Suspended_def split: prod.splits intro!: one_callI [where c = "IsSuspended_call e x"])

lemma Dispatcher_Resume_call: "Dispatcher_Resume ops e x d = (r, d') \<Longrightarrow> ok e \<Longrightarrow> one_call ops ok ends_nothing d d'"
  by (auto simp: Dispatcher_Resume_def Let_def split: prod.splits if_splits sum.splits
      intro!: one_call_or [where c = "Resume_call e x"])

lemma Close_poll_call: "Close_poll ops counts e stop d = (r, d') \<Longrightarrow> ok e \<Longrightarrow> one_call ops ok ends_nothing d d'"
  by (auto simp: Close_poll_def pendingCount_def split: prod.splits if_splits sum.splits option.splits
      intro!: one_call_or [where x = True and c = "PendingOrInFlight_call e"])

lemma report_simps [simp]:
  "d_store (reportDeliveryError w del err d) = d_store d" "d_conf (reportDeliveryError w del err d) = d_conf d"
  by (simp_all add: reportDeliveryError_def split: option.split)

text \<open>A mark ends at most the claim of the row it is about.\<close>

definition ends_only :: "string \<Rightarrow> 'e call \<Rightarrow> bool" where
  "ends_only k0 c \<longleftrightarrow> (\<forall>k ow g. ends_claim k ow g c \<longrightarrow> k = k0)"

lemma exhaust_call: "ok e \<Longrightarrow> one_call ops ok (ends_only (ID del)) d (exhaust ops e tok del msg d)"
  by (auto simp: exhaust_def Let_def ends_only_def ends_claim_def split: prod.splits
      intro!: one_callI [where c = "ExhaustAndSuspend_call e (ID del) tok (Generation del) msg"])

lemma deliverOne_call:
  assumes "ok e"
  shows "one_call ops ok (ends_only (ID del)) d (deliverOne ops e now rnd tok del res d)"
proof (cases "outcome res")
  case OutcomeSuccess
  then show ?thesis using assms
    by (auto simp: deliverOne_def ends_only_def ends_claim_def split: prod.splits
        intro!: one_callI [where c = "MarkDelivered_call e (ID del) tok (Generation del)"])
next
  case OutcomePermanent
  then show ?thesis using exhaust_call [of ok e ops del d tok, OF assms] by (simp add: deliverOne_def)
next
  case OutcomeRetryable
  show ?thesis
  proof (cases "Attempt del \<ge> d_maxAttempts d")
    case True
    then show ?thesis using exhaust_call [of ok e ops del d tok, OF assms] OutcomeRetryable by (simp add: deliverOne_def)
  next
    case False
    let ?nxt = "time_Add now (Delay rnd (Attempt del) (d_baseBackoff d) (d_maxBackoff d))"
    show ?thesis using assms OutcomeRetryable False
      by (auto simp: deliverOne_def Let_def ends_only_def ends_claim_def split: prod.splits
          intro!: one_callI [where c = "MarkFailed_call e (ID del) tok (Generation del) (Attempt del) ?nxt (Result_Error res)"])
  qed
qed

lemma count_simps [simp]:
  "d_store (count_delivery tok d) = d_store d" "d_conf (count_delivery tok d) = d_conf d"
  "d_started (count_delivery tok d) = d_started d" "d_spawned (count_delivery tok d) = d_spawned d"
  "d_store (count_idle tok dt d) = d_store d" "d_conf (count_idle tok dt d) = d_conf d"
  by (simp_all add: count_delivery_def count_idle_def split: prod.split)

section \<open>The rows the pool holds\<close>

fun phase_rows :: "phase \<Rightarrow> delivery list" where
  "phase_rows WIdle = []"
| "phase_rows (WBatch ds) = ds"
| "phase_rows (WPosting del ds) = del # ds"
| "phase_rows WExited = []"

definition pool_rows :: "(string \<times> phase) list \<Rightarrow> (string \<times> delivery) list" where
  "pool_rows pool = concat (map (\<lambda>(tok, p). map (Pair tok) (phase_rows p)) pool)"

lemma pool_rows_simps [simp]:
  "pool_rows [] = []" "pool_rows ((tok, p) # pool) = map (Pair tok) (phase_rows p) @ pool_rows pool"
  "pool_rows (pool @ pool') = pool_rows pool @ pool_rows pool'"
  by (simp_all add: pool_rows_def)

lemma phase_rows_next [simp]:
  "phase_rows (next_phase ds) = ds"
  "phase_rows (after_claim r) = (case r of Some (Inr ds) \<Rightarrow> ds | _ \<Rightarrow> [])"
  by (auto simp: next_phase_def split: option.split sum.split)

lemma pool_rows_grow [simp]: "pool_rows (grow_pool d pool) = pool_rows pool"
proof -
  have "pool_rows (map (\<lambda>tok. (tok, WIdle)) toks) = []" for toks
    by (induction toks) simp_all
  then show ?thesis by (simp add: grow_pool_def)
qed

text \<open>The rows of one goroutine, in the middle of the rows of the others.\<close>

lemma pool_rows_split:
  assumes "i < length pool" "pool ! i = (tok, p)"
  shows "pool_rows pool = pool_rows (take i pool) @ map (Pair tok) (phase_rows p) @ pool_rows (drop (Suc i) pool)"
    "pool_rows (pool[i := (tok, p')]) =
      pool_rows (take i pool) @ map (Pair tok) (phase_rows p') @ pool_rows (drop (Suc i) pool)"
proof -
  have "pool = take i pool @ (tok, p) # drop (Suc i) pool" using id_take_nth_drop [OF assms(1)] assms(2) by simp
  then show "pool_rows pool = pool_rows (take i pool) @ map (Pair tok) (phase_rows p) @ pool_rows (drop (Suc i) pool)"
    by (metis pool_rows_simps(2,3))
  show "pool_rows (pool[i := (tok, p')]) =
      pool_rows (take i pool) @ map (Pair tok) (phase_rows p') @ pool_rows (drop (Suc i) pool)"
    using assms(1) by (simp add: upd_conv_take_nth_drop)
qed

definition post_of :: "delivery \<Rightarrow> string \<times> int" where
  "post_of d = (SubscriberID d, Sequence d)"

lemma pool_tokens_update [simp]:
  "pool ! i = (tok, p) \<Longrightarrow> map fst (pool[i := (tok, p')]) = map fst pool"
  by (metis fst_conv list_update_id map_update)

lemma pool_tokens_grow:
  "map fst pool = d_spawned d \<Longrightarrow> d_spawned d' = d_spawned d @ toks \<Longrightarrow> map fst (grow_pool d' pool) = d_spawned d'"
proof -
  assume a: "map fst pool = d_spawned d" "d_spawned d' = d_spawned d @ toks"
  have "length pool = length (d_spawned d)" using arg_cong [OF a(1), of length] by simp
  then show ?thesis using a by (simp add: grow_pool_def comp_def)
qed

text \<open>Every row a goroutine holds is claimed in the store in its name, and no row is held twice.\<close>

definition rows_held ::
  "('s \<Rightarrow> string \<Rightarrow> string \<Rightarrow> uint64 \<Rightarrow> string \<times> int \<Rightarrow> bool) \<Rightarrow> 's \<Rightarrow> (string \<times> delivery) list \<Rightarrow> bool" where
  "rows_held holds st rs \<longleftrightarrow> distinct (map ID (map snd rs)) \<and>
     (\<forall>q \<in> set rs. holds st (ID (snd q)) (fst q) (Generation (snd q)) (post_of (snd q)))"

definition sys_inv ::
  "('s \<Rightarrow> bool) \<Rightarrow> ('s \<Rightarrow> string \<Rightarrow> string \<Rightarrow> uint64 \<Rightarrow> string \<times> int \<Rightarrow> bool) \<Rightarrow> 's system \<Rightarrow> bool" where
  "sys_inv J holds s \<longleftrightarrow> J (d_store (sy_d s)) \<and> rows_held holds (d_store (sy_d s)) (pool_rows (sy_pool s)) \<and>
     map fst (sy_pool s) = d_spawned (sy_d s) \<and> (\<not> d_started (sy_d s) \<longrightarrow> sy_pool s = [])"

lemma rows_held_drop:
  "rows_held holds st (A @ xs @ B) \<Longrightarrow> rows_held holds st (A @ B)"
  by (auto simp: rows_held_def)

lemma rows_held_key:
  assumes "rows_held holds st rs" "k \<in> set (map ID (map snd rs))"
  shows "\<exists>ow g p. holds st k ow g p"
proof -
  obtain q where q: "q \<in> set rs" "k = ID (snd q)" using assms(2) by auto
  then have "holds st k (fst q) (Generation (snd q)) (post_of (snd q))" using assms(1) by (simp add: rows_held_def)
  then show ?thesis by blast
qed

lemma rows_held_mid:
  assumes "rows_held holds st (A @ r # B)"
  shows "rows_held holds st (A @ B)" "q \<in> set (A @ B) \<Longrightarrow> ID (snd q) \<noteq> ID (snd r)"
proof -
  show "rows_held holds st (A @ B)" using assms by (auto simp: rows_held_def)
  have "ID (snd r) \<notin> set (map ID (map snd (A @ B)))" using assms by (auto simp: rows_held_def)
  moreover have "ID (snd q) \<in> set (map ID (map snd (A @ B)))" if "q \<in> set (A @ B)"
    using imageI [OF that, of "\<lambda>q. ID (snd q)"] by (auto simp only: set_map image_image)
  ultimately show "q \<in> set (A @ B) \<Longrightarrow> ID (snd q) \<noteq> ID (snd r)" by metis
qed

lemma distinct_middle:
  "distinct (as @ cs) \<Longrightarrow> distinct bs \<Longrightarrow> set bs \<inter> set (as @ cs) = {} \<Longrightarrow> distinct (as @ bs @ cs)"
  by auto

text \<open>What one step of the system must preserve, and the abstract steps that explain it.\<close>

definition explained ::
  "('s \<Rightarrow> bool) \<Rightarrow> ('s \<Rightarrow> astate) \<Rightarrow> ('s \<Rightarrow> string \<Rightarrow> string \<Rightarrow> uint64 \<Rightarrow> string \<times> int \<Rightarrow> bool) \<Rightarrow>
   's system \<Rightarrow> 's system \<Rightarrow> bool" where
  "explained J view holds s s' \<longleftrightarrow> sys_inv J holds s' \<and>
     (\<exists>ls. asteps (view (d_store (sy_d s))) ls (view (d_store (sy_d s'))) \<and>
        map post_of (sy_posts s') = map post_of (sy_posts s) @ attempts ls)"

context fenced_store
begin

text \<open>A call that ends no claim of the rows \<open>rs\<close> keeps them held.\<close>

lemma rows_persist:
  assumes "inv (d_store d)" "rows_held holds (d_store d) rs" "one_call ops ok P d d'"
    and "\<And>c q. P c \<Longrightarrow> q \<in> set rs \<Longrightarrow> \<not> ends_claim (ID (snd q)) (fst q) (Generation (snd q)) c"
  shows "inv (d_store d')" "rows_held holds (d_store d') rs"
    "\<exists>ls. asteps (view (d_store d)) ls (view (d_store d')) \<and> attempts ls = []"
proof -
  show "inv (d_store d')"
    using assms(1,3) call_steps(1) by (auto simp: one_call_def)
  show "\<exists>ls. asteps (view (d_store d)) ls (view (d_store d')) \<and> attempts ls = []"
    using assms(1,3) call_steps(2) by (fastforce simp: one_call_def intro: exI [of _ "[]"])
  show "rows_held holds (d_store d') rs"
    using assms(3) unfolding one_call_def
  proof (elim conjE disjE exE)
    assume "d_store d' = d_store d"
    then show ?thesis using assms(2) by simp
  next
    fix c assume c: "ok (call_env c)" "P c" "d_store d' = exec_call ops c (d_store d)"
    show ?thesis
      using assms(2) holds_persist [OF assms(1) c(1)] assms(4) [OF c(2)]
      by (auto simp: rows_held_def c(3))
  qed
qed

lemma quiet_explained:
  assumes "sys_inv inv holds s" "one_call ops ok P (sy_d s) d'"
    and "\<And>c q. P c \<Longrightarrow> q \<in> set (pool_rows (sy_pool s)) \<Longrightarrow> \<not> ends_claim (ID (snd q)) (fst q) (Generation (snd q)) c"
  shows "explained inv view holds s (s\<lparr>sy_d := d'\<rparr>)"
proof -
  have i: "inv (d_store (sy_d s))" "rows_held holds (d_store (sy_d s)) (pool_rows (sy_pool s))"
    using assms(1) by (simp_all add: sys_inv_def)
  note p = rows_persist [OF i assms(2,3)]
  show ?thesis
    using p assms(1,2) by (fastforce simp: explained_def sys_inv_def one_call_def dest: d_confD)
qed

lemma explained_claim:
  assumes "sys_inv inv holds s" "i < length (sy_pool s)" "sy_pool s ! i = (tok, WIdle)" "ok e"
    "claimBatch ops e tok (sy_d s) = (r, d')"
  shows "explained inv view holds s (s\<lparr>sy_d := d', sy_pool := (sy_pool s)[i := (tok, after_claim r)]\<rparr>)"
proof -
  let ?d = "sy_d s" and ?A = "pool_rows (take i (sy_pool s))" and ?B = "pool_rows (drop (Suc i) (sy_pool s))"
  have i: "inv (d_store ?d)" "rows_held holds (d_store ?d) (pool_rows (sy_pool s))"
    using assms(1) by (simp_all add: sys_inv_def)
  note call = claimBatch_call [where ok = ok, OF assms(5,4)]
  note p = rows_persist [OF i call]
  have p': "inv (d_store d')" "rows_held holds (d_store d') (?A @ ?B)"
    "\<exists>ls. asteps (view (d_store ?d)) ls (view (d_store d')) \<and> attempts ls = []"
    using p pool_rows_split(1) [OF assms(2,3)] by (simp_all add: ends_nothing_def)
  define xs where "xs = phase_rows (after_claim r)"
  have D: "distinct (map ID xs) \<and>
      (\<forall>x \<in> set xs. holds (d_store d') (ID x) tok (Generation x) (SubscriberID x, Sequence x) \<and>
         (\<forall>ow g q. \<not> holds (d_store ?d) (ID x) ow g q))"
  proof (cases "\<exists>ds. r = Some (Inr ds)")
    case True
    then obtain ds where r: "r = Some (Inr ds)" by blast
    then have "op_Claim ops e tok (d_generation ?d) (partitionsFor (d_own ?d) tok) claimBatch_size (d_store ?d) = (Inr ds, d_store d')"
      using assms(5) by (auto simp: claimBatch_def split: option.splits if_splits prod.splits)
    from claim_holds [OF i(1) assms(4) this] show ?thesis by (simp add: r xs_def)
  next
    case False
    then have "xs = []" by (auto simp: xs_def split: option.split sum.split)
    then show ?thesis by simp
  qed
  have ds: "distinct (map ID xs)" using D by (rule conjunct1)
  have ds2: "holds (d_store d') (ID x) tok (Generation x) (post_of x)" if "x \<in> set xs" for x
    using bspec [OF conjunct2 [OF D] that, THEN conjunct1] by (simp add: post_of_def)
  have ds3: "\<not> holds (d_store ?d) (ID x) ow g q" if "x \<in> set xs" for x ow g q
    using bspec [OF conjunct2 [OF D] that, THEN conjunct2] by (cases q) simp
  have "rows_held holds (d_store ?d) (?A @ ?B)"
    using i(2) unfolding pool_rows_split(1) [OF assms(2,3)] by simp
  note key = rows_held_key [OF this]
  have disj: "set (map ID xs) \<inter> set (map ID (map snd (?A @ ?B))) = {}"
  proof (rule equals0I)
    fix k assume k: "k \<in> set (map ID xs) \<inter> set (map ID (map snd (?A @ ?B)))"
    then obtain x where "x \<in> set xs" "k = ID x" by auto
    then show False using key [of k] k ds3 by blast
  qed
  have "rows_held holds (d_store d') (?A @ map (Pair tok) xs @ ?B)"
    unfolding rows_held_def
  proof
    have "map snd (map (Pair tok) xs) = xs" by (induction xs) simp_all
    then have eq: "map ID (map snd (?A @ map (Pair tok) xs @ ?B)) = map ID (map snd ?A) @ map ID xs @ map ID (map snd ?B)"
      by (simp only: map_append)
    have "distinct (map ID (map snd ?A) @ map ID (map snd ?B))"
      using p'(2) unfolding rows_held_def map_append by (rule conjunct1)
    then show "distinct (map ID (map snd (?A @ map (Pair tok) xs @ ?B)))"
      unfolding eq using ds disj unfolding map_append by (rule distinct_middle)
    show "\<forall>q \<in> set (?A @ map (Pair tok) xs @ ?B). holds (d_store d') (ID (snd q)) (fst q) (Generation (snd q)) (post_of (snd q))"
      using ds2 p'(2) by (auto simp: rows_held_def)
  qed
  then show ?thesis
    using p'(1,3) assms(1,2,3) call
    by (fastforce simp: explained_def sys_inv_def one_call_def d_conf_def pool_rows_split(2) [OF assms(2,3)] xs_def [symmetric]
        simp del: phase_rows_next)
qed

lemma explained_post:
  assumes "sys_inv inv holds s" "i < length (sy_pool s)" "sy_pool s ! i = (tok, WBatch (del # ds))"
  shows "explained inv view holds s
    (s\<lparr>sy_pool := (sy_pool s)[i := (tok, WPosting del ds)], sy_posts := sy_posts s @ [del]\<rparr>)"
proof -
  let ?st = "d_store (sy_d s)"
  have "pool_rows ((sy_pool s)[i := (tok, WPosting del ds)]) = pool_rows (sy_pool s)"
    by (simp add: pool_rows_split [OF assms(2,3)])
  moreover have "(tok, del) \<in> set (pool_rows (sy_pool s))" by (simp add: pool_rows_split(1) [OF assms(2,3)])
  then have "holds ?st (ID del) tok (Generation del) (SubscriberID del, Sequence del)"
    using assms(1) by (fastforce simp: sys_inv_def rows_held_def post_of_def)
  then have "asteps (view ?st) [AAttempt (SubscriberID del) (Sequence del)] (view ?st)"
    using assms(1) by (intro asteps_one attempt_step) (auto simp: sys_inv_def)
  ultimately show ?thesis
    using assms(1,2,3)
    by (auto simp: explained_def sys_inv_def post_of_def
        intro!: exI [of _ "[AAttempt (SubscriberID del) (Sequence del)]"])
qed

lemma explained_mark:
  assumes "sys_inv inv holds s" "i < length (sy_pool s)" "sy_pool s ! i = (tok, WPosting del ds)" "ok e"
  shows "explained inv view holds s
    (s\<lparr>sy_d := count_delivery tok (deliverOne ops e now rnd tok del res (sy_d s)),
       sy_pool := (sy_pool s)[i := (tok, next_phase ds)]\<rparr>)"
proof -
  let ?d = "sy_d s" and ?A = "pool_rows (take i (sy_pool s))" and ?B = "pool_rows (drop (Suc i) (sy_pool s))"
  let ?d' = "deliverOne ops e now rnd tok del res (sy_d s)"
  have i: "inv (d_store ?d)" "rows_held holds (d_store ?d) (?A @ (tok, del) # map (Pair tok) ds @ ?B)"
    using assms(1) by (simp_all add: sys_inv_def pool_rows_split(1) [OF assms(2,3)])
  note held = rows_held_mid(1) [OF i(2)] and other = rows_held_mid(2) [OF i(2), unfolded snd_conv]
  note call = deliverOne_call [where ok = ok and ops = ops and del = del and d = ?d and tok = tok and now = now
      and rnd = rnd and res = res, OF assms(4)]
  note p = rows_persist [OF i(1) held call]
  have p': "inv (d_store ?d')" "rows_held holds (d_store ?d') (?A @ map (Pair tok) ds @ ?B)"
    "\<exists>ls. asteps (view (d_store ?d)) ls (view (d_store ?d')) \<and> attempts ls = []"
    using p other unfolding ends_only_def by blast+
  show ?thesis
    using p' assms(1,2,3) call
    by (fastforce simp: explained_def sys_inv_def one_call_def d_conf_def pool_rows_split(2) [OF assms(2,3)])
qed

lemma explained_pool:
  assumes "sys_inv inv holds s" "d_store d' = d_store (sy_d s)" "rows_held holds (d_store d') (pool_rows pool)"
    "map fst pool = d_spawned d'" "\<not> d_started d' \<longrightarrow> pool = []"
  shows "explained inv view holds s (s\<lparr>sy_d := d', sy_pool := pool\<rparr>)"
  using assms by (auto simp: explained_def sys_inv_def intro: exI [of _ "[]"])

lemma explained_grow:
  assumes "sys_inv inv holds s" "inv (d_store d')" "d_spawned d' = d_spawned (sy_d s) @ toks"
    "\<exists>ls. asteps (view (d_store (sy_d s))) ls (view (d_store d')) \<and> attempts ls = []"
    "d_store d' = d_store (sy_d s) \<or> sy_pool s = []" "d_started (sy_d s) \<longrightarrow> d_started d'"
    "toks \<noteq> [] \<longrightarrow> d_started d'"
  shows "explained inv view holds s (s\<lparr>sy_d := d', sy_pool := grow_pool d' (sy_pool s)\<rparr>)"
proof -
  have "map fst (grow_pool d' (sy_pool s)) = d_spawned d'"
    using assms(1,3) by (intro pool_tokens_grow) (simp_all add: sys_inv_def)
  moreover have "rows_held holds (d_store d') (pool_rows (sy_pool s))"
    using assms(1,5) by (auto simp: sys_inv_def rows_held_def)
  moreover have "grow_pool d' (sy_pool s) = []" if "\<not> d_started d'"
    using that assms(1,3,6,7) calculation(1) by (auto simp: sys_inv_def grow_pool_def)
  ultimately show ?thesis
    using assms(2,4) by (auto simp: explained_def sys_inv_def)
qed

lemma explained_start:
  assumes "sys_inv inv holds s" "ok e" "Start ops e (sy_d s) = (r, d')"
  shows "explained inv view holds s (s\<lparr>sy_d := d', sy_pool := grow_pool d' (sy_pool s)\<rparr>)"
proof -
  let ?d = "sy_d s" and ?c = "RecoverStale_call e (effectiveStaleAge (sy_d s))"
  have i: "inv (d_store ?d)" using assms(1) by (simp add: sys_inv_def)
  have d: "d_store d' = d_store ?d \<and> d_spawned d' = d_spawned ?d \<and> d_started d' = d_started ?d \<or>
      \<not> d_started ?d \<and> (d_store d' = d_store ?d \<or> d_store d' = exec_call ops ?c (d_store ?d)) \<and>
        (d_spawned d' = d_spawned ?d \<or> d_started d' \<and> (\<exists>toks. d_spawned d' = d_spawned ?d @ toks))"
    using assms(3) by (auto simp: Start_def Let_def split: prod.splits if_splits sum.splits)
  obtain toks where toks: "d_spawned d' = d_spawned ?d @ toks" "toks \<noteq> [] \<longrightarrow> d_started d'"
    using d by (metis append_Nil2)
  show ?thesis
  proof (rule explained_grow [OF assms(1) _ toks(1) _ _ _ toks(2)])
    show "inv (d_store d')" using d i call_steps(1) [OF i, of ?c] assms(2) by auto
    show "\<exists>ls. asteps (view (d_store ?d)) ls (view (d_store d')) \<and> attempts ls = []"
      using d call_steps(2) [OF i, of ?c] assms(2) by (auto intro: exI [of _ "[]"])
    show "d_store d' = d_store ?d \<or> sy_pool s = []" "d_started ?d \<longrightarrow> d_started d'"
      using d assms(1) by (auto simp: sys_inv_def)
  qed
qed

lemma pool_rows_token: "q \<in> set (pool_rows pool) \<Longrightarrow> fst q \<in> set (map fst pool)"
  by (induction pool) auto

lemma explained_foreign:
  assumes "sys_inv inv holds s" "ok (call_env c)" "foreign_ok (d_spawned (sy_d s)) c"
  shows "explained inv view holds s (s\<lparr>sy_d := (sy_d s)\<lparr>d_store := exec_call ops c (d_store (sy_d s))\<rparr>\<rparr>)"
proof (rule quiet_explained [OF assms(1)])
  show "one_call ops ok (foreign_ok (d_spawned (sy_d s))) (sy_d s) ((sy_d s)\<lparr>d_store := exec_call ops c (d_store (sy_d s))\<rparr>)"
    using assms(2,3) by (auto simp: one_call_def)
  show "\<not> ends_claim (ID (snd q)) (fst q) (Generation (snd q)) c'"
    if "foreign_ok (d_spawned (sy_d s)) c'" "q \<in> set (pool_rows (sy_pool s))" for c' q
  proof -
    have "fst q \<in> set (d_spawned (sy_d s))"
      using pool_rows_token [OF that(2)] assms(1) unfolding sys_inv_def by metis
    then show ?thesis using that(1) by (cases c') (auto simp: foreign_ok_def ends_claim_def)
  qed
qed

lemma step_explained:
  assumes "sys_step ops ok marshal counts s s'" "sys_inv inv holds s"
  shows "explained inv view holds s s'"
  using assms
proof (induction rule: sys_step.induct)
  case (worker_claim i s tok e r d')
  then show ?case by (intro explained_claim)
next
  case (worker_wait i s tok dt w d')
  note d' = waitForWorkD [OF worker_wait.hyps(4)]
  show ?case unfolding d' using worker_wait.prems by (intro quiet_explained [where P = ends_nothing] one_call_none) (simp_all add: ends_nothing_def)
next
  case (worker_post i s tok del ds)
  then show ?case by (intro explained_post)
next
  case (worker_mark i s tok del ds e now rnd res)
  then show ?case by (intro explained_mark)
next
  case (worker_exit i s tok p)
  have "rows_held holds (d_store (sy_d s)) (pool_rows ((sy_pool s)[i := (tok, WExited)]))"
    using worker_exit rows_held_drop by (fastforce simp: sys_inv_def pool_rows_split [OF worker_exit.hyps(1,2)])
  then show ?case
    using explained_pool [OF worker_exit.prems, of "sy_d s"] worker_exit.prems worker_exit.hyps(1,2)
    by (fastforce simp: sys_inv_def)
next
  case (host_start e s r d')
  then show ?case by (intro explained_start)
next
  case (host_resize ctxerr ws s r d')
  have d: "d_store d' = d_store (sy_d s) \<and> d_started d' = d_started (sy_d s) \<and>
      (\<exists>toks. d_spawned d' = d_spawned (sy_d s) @ toks \<and> (toks \<noteq> [] \<longrightarrow> d_started d'))"
    using host_resize.hyps by (auto simp: Resize_def split: option.splits if_splits sum.splits)
  then obtain toks where toks: "d_spawned d' = d_spawned (sy_d s) @ toks" "toks \<noteq> [] \<longrightarrow> d_started d'" by blast
  show ?case
    by (rule explained_grow [OF host_resize.prems _ toks(1) _ _ _ toks(2)])
      (use d host_resize.prems in \<open>auto simp: sys_inv_def intro: exI [of _ "[]"]\<close>)
next
  case (host_dispatch e ctxerr rnds nows ev ss s r d')
  then show ?case by (intro quiet_explained [OF _ Dispatch_call]) (simp_all add: ends_nothing_def)
next
  case (host_suspended e x s r d')
  then show ?case by (intro quiet_explained [OF _ Suspended_call]) (simp_all add: ends_nothing_def)
next
  case (host_resume e x s r d')
  then show ?case by (intro quiet_explained [OF _ Dispatcher_Resume_call]) (simp_all add: ends_nothing_def)
next
  case (host_close s r d')
  have "one_call ops ok ends_nothing (sy_d s) d'"
    using host_close.hyps by (intro one_call_none) (auto simp: Close_begin_def Let_def split: if_splits)
  then show ?case by (rule quiet_explained [OF host_close.prems]) (simp add: ends_nothing_def)
next
  case (host_drain s e stop r d')
  then show ?case by (intro quiet_explained [OF _ Close_poll_call]) (simp_all add: ends_nothing_def)
next
  case (foreign c s)
  then show ?case by (intro explained_foreign)
qed

lemma run_explained:
  assumes "(sys_step ops ok marshal counts)\<^sup>*\<^sup>* s s'" "sys_inv inv holds s"
  shows "explained inv view holds s s'"
  using assms
proof (induction rule: rtranclp_induct)
  case base
  then show ?case by (auto simp: explained_def intro: exI [of _ "[]"])
next
  case (step s1 s2)
  have e1: "explained inv view holds s s1" using step by simp
  then have e2: "explained inv view holds s1 s2" using step_explained [OF step.hyps(2)] by (simp add: explained_def)
  obtain ls where "asteps (view (d_store (sy_d s))) ls (view (d_store (sy_d s1)))"
      "map post_of (sy_posts s1) = map post_of (sy_posts s) @ attempts ls"
    using e1 by (auto simp: explained_def)
  moreover obtain ms where "asteps (view (d_store (sy_d s1))) ms (view (d_store (sy_d s2)))"
      "map post_of (sy_posts s2) = map post_of (sy_posts s1) @ attempts ms"
    using e2 by (auto simp: explained_def)
  ultimately show ?case
    using e2 by (auto simp: explained_def intro!: exI [of _ "ls @ ms"] asteps_append)
qed

text \<open>The attempts of a run never go back to an earlier row of a subscriber.\<close>

lemma posts_ordered:
  assumes "(sys_step ops ok marshal counts)\<^sup>*\<^sup>* s s'" "sys_inv inv holds s" "sy_posts s = []"
  shows "per_subscriber_order (map post_of (sy_posts s'))"
proof -
  obtain ls where "asteps (view (d_store (sy_d s))) ls (view (d_store (sy_d s')))"
      "map post_of (sy_posts s') = attempts ls"
    using run_explained [OF assms(1,2)] assms(3) by (auto simp: explained_def)
  moreover have "ainv (view (d_store (sy_d s)))" using assms(2) inv_view by (simp add: sys_inv_def)
  ultimately show ?thesis using asteps_attempts_ordered by metis
qed

text \<open>The pool never holds two rows of one subscriber.\<close>

lemma pool_one_per_subscriber:
  assumes "sys_inv inv holds s"
  shows "distinct (map SubscriberID (map snd (pool_rows (sy_pool s))))"
proof -
  let ?rs = "map snd (pool_rows (sy_pool s))" and ?st = "d_store (sy_d s)"
  have i: "inv ?st" and d: "distinct (map ID ?rs)" using assms by (auto simp: sys_inv_def rows_held_def)
  have h: "\<exists>tok. holds ?st (ID x) tok (Generation x) (SubscriberID x, Sequence x)" if "x \<in> set ?rs" for x
    using assms that by (fastforce simp: sys_inv_def rows_held_def post_of_def)
  have "inj_on SubscriberID (set ?rs)"
  proof (rule inj_onI)
    fix x y assume x: "x \<in> set ?rs" "y \<in> set ?rs" "SubscriberID x = SubscriberID y"
    then have "ID x = ID y" using h [OF x(1)] h [OF x(2)] one_holder [OF i] by metis
    then show "x = y" using d x(1,2) by (meson distinct_map inj_onD)
  qed
  then show ?thesis using d unfolding distinct_map [of SubscriberID] by (simp only: distinct_map)
qed

end

text \<open>Rows of different goroutines are at different places of the pool's rows.\<close>

lemma pool_rows_apart:
  assumes "distinct (map f (map snd (pool_rows pool)))" "i < length pool" "j < length pool" "i \<noteq> j"
    "pool ! i = (tok, p)" "pool ! j = (tok', p')" "x \<in> set (phase_rows p)" "y \<in> set (phase_rows p')"
  shows "f x \<noteq> f y"
proof -
  have rest: "pool ! j \<in> set (take i pool @ drop (Suc i) pool)"
  proof (cases "j < i")
    case True
    then show ?thesis using assms(2) by (auto simp: in_set_conv_nth intro!: exI [of _ j])
  next
    case False
    then have "pool ! j = drop (Suc i) pool ! (j - Suc i)" "j - Suc i < length (drop (Suc i) pool)"
      using assms(3,4) by simp_all
    then show ?thesis by (metis Un_iff nth_mem set_append)
  qed
  have "(tok', y) \<in> set (pool_rows ps)" if "(tok', p') \<in> set ps" for ps
    using that assms(8) by (induction ps) auto
  then have "y \<in> set (map snd (pool_rows (take i pool @ drop (Suc i) pool)))"
    using rest assms(6) by force
  then show ?thesis
    using assms(1,7) by (auto simp: pool_rows_split(1) [OF assms(2,5)])
qed

end
