(* ===== verification/MemoryFenced.thy ===== *)
theory MemoryFenced
  imports MemoryProps Workers
begin

text \<open>
  The memory store is a fenced store: a claim of it starts when a row is handed out and ends only by
  the holder's mark or by recovery. With this the dispatcher's guarantees hold over it.
\<close>

definition mem_holds :: "mem \<Rightarrow> string \<Rightarrow> string \<Rightarrow> uint64 \<Rightarrow> string \<times> int \<Rightarrow> bool" where
  "mem_holds s k owner gen p \<longleftrightarrow>
     (\<exists>d. row s k = Some d \<and> Status d = StatusInFlight \<and> Owner d = owner \<and> Generation d = gen \<and> post_of d = p)"

section \<open>Rows in flight stay as they are\<close>

definition in_flight_stay :: "mem \<Rightarrow> mem \<Rightarrow> bool" where
  "in_flight_stay s s' \<longleftrightarrow>
     (\<forall>k d. row s k = Some d \<longrightarrow> Status d = StatusInFlight \<longrightarrow> row s' k = Some d)"

lemma in_flight_stay_refl: "in_flight_stay s s"
  by (simp add: in_flight_stay_def)

lemma in_flight_stay_trans: "in_flight_stay s s1 \<Longrightarrow> in_flight_stay s1 s2 \<Longrightarrow> in_flight_stay s s2"
  by (simp add: in_flight_stay_def)

lemma in_flight_stay_signal: "in_flight_stay s s' \<Longrightarrow> in_flight_stay s (signal s')"
  by (simp add: in_flight_stay_def store_simps)

lemma stay_holds: "in_flight_stay s s' \<Longrightarrow> mem_holds s k ow g p \<Longrightarrow> mem_holds s' k ow g p"
  by (auto simp: in_flight_stay_def mem_holds_def)

lemma stay_retention:
  assumes "mem_inv s" "fair_env e"
  shows "in_flight_stay s (applyRetentionLocked e x t s)"
proof -
  note wk = mem_invD(1) [OF assms(1)]
  have "\<exists>d'. row s k = Some d' \<and> Status d' = StatusRetained"
    if "k \<in> (\<lambda>(d, r). ID d) ` set (dropped_rows e x t s)" for k
    using that dropped_rows_retained [OF assms(2), of _ _ x t s] well_keyedD [OF wk] by fastforce
  then show ?thesis
    unfolding in_flight_stay_def applyRetention_eq [OF assms(2) wk] drop_all_frame by fastforce
qed

lemma stay_retention_fold:
  "mem_inv s \<Longrightarrow> fair_env e \<Longrightarrow> in_flight_stay s (fold (\<lambda>x. applyRetentionLocked e x t) xs s)"
proof (induction xs arbitrary: s)
  case (Cons x xs)
  have "mem_inv (applyRetentionLocked e x t s)"
    using refines_inv [OF Cons.prems(1) refines_retention [OF Cons.prems]] .
  then show ?case
    using in_flight_stay_trans [OF stay_retention [OF Cons.prems] Cons.IH] Cons.prems(2) by simp
qed (simp add: in_flight_stay_refl)

lemma stay_enqueue_loop:
  "mem_inv s \<Longrightarrow> in_flight_stay s (fst (snd (enqueue_loop t ds s touched)))"
proof (induction ds arbitrary: s touched)
  case (Cons d ds)
  show ?case
  proof (cases "ID d \<noteq> [] \<and> SubscriberID d \<noteq> [] \<and> row s (ID d) = None")
    case True
    have "in_flight_stay s (enqueue_row t d s)"
      using True by (auto simp: in_flight_stay_def enqueue_row_frame [OF mem_invD(2) [OF Cons.prems]])
    moreover have "mem_inv (enqueue_row t d s)"
      using refines_inv [OF Cons.prems refines_enqueue_row [OF Cons.prems]] True by simp
    ultimately show ?thesis
      using in_flight_stay_trans [OF _ Cons.IH] enqueue_loop_step [OF mem_invD(2) [OF Cons.prems], of d] True by simp
  next
    case False
    then show ?thesis by (auto simp: in_flight_stay_refl)
  qed
qed (simp add: in_flight_stay_refl)

lemma stay_Enqueue:
  assumes "mem_inv s" "fair_env e"
  shows "in_flight_stay s (snd (Enqueue e ds s))"
proof (cases "ctx_err e")
  case None
  obtain err s1 touched where l: "enqueue_loop (clock e) ds s [] = (err, s1, touched)" by (metis prod_cases3)
  have "in_flight_stay s s1" using stay_enqueue_loop [OF assms(1), of "clock e" ds "[]"] l by simp
  moreover have "mem_inv s1"
    using refines_inv [OF assms(1) refines_enqueue_loop [OF assms(1), of "clock e" ds "[]"]] l by simp
  ultimately show ?thesis
    using in_flight_stay_trans [OF _ stay_retention_fold [OF _ assms(2)]] None
    by (auto simp: Enqueue_def l intro!: in_flight_stay_signal)
qed (simp add: Enqueue_def in_flight_stay_refl)

lemma stay_Resume:
  assumes "mem_inv s" "fair_env e"
  shows "in_flight_stay s (snd (Resume e x s))"
proof (cases "ctx_err e = None \<and> x \<noteq> []")
  case True
  let ?s = "applyRetentionLocked e x (clock e) s"
  have "well_keyed ?s" using mem_invD(1) refines_inv [OF assms(1) refines_retention [OF assms]] by blast
  then have "in_flight_stay ?s (resume_rows e x ?s)"
    by (auto simp: in_flight_stay_def resume_rows_frame [OF assms(2)])
  then show ?thesis
    using in_flight_stay_trans [OF stay_retention [OF assms]] Resume_Inr True by (simp add: in_flight_stay_signal)
next
  case False
  then show ?thesis by (auto simp: Resume_def in_flight_stay_refl split: option.split)
qed

text \<open>What a claim does to the rows, with no assumption on its arguments.\<close>

lemma Claim_rows:
  assumes "mem_inv s" "fair_env e" "Claim e owner gen parts limit s = (Inr ds, s')"
  shows "\<exists>cs. distinct (map c_id cs) \<and> (\<forall>c \<in> set cs. row s (c_id c) = Some (cand_row s c) \<and> Status (cand_row s c) = StatusPending) \<and>
    ds = map (\<lambda>c. cloneDelivery (claim_row owner gen (clock e) (cand_row s c))) cs \<and>
    (\<forall>k. row s' k = (if k \<in> c_id ` set cs then map_option (claim_row owner gen (clock e)) (row s k) else row s k))"
proof (cases "ctx_err e = None \<and> owner \<noteq> [] \<and> gen \<noteq> 0 \<and> 0 < limit \<and> parts \<noteq> []")
  case False
  then have "ds = []" "row s' k = row s k" for k
    using Claim_idle [OF False, of s] same_rows_row [of s s'] assms(3) by simp_all
  then show ?thesis by (intro exI [of _ "[]"]) simp
next
  case True
  then have T: "ctx_err e = None" "owner \<noteq> []" "gen \<noteq> 0" "0 < limit" "parts \<noteq> []" by simp_all
  let ?f = "claim_row owner gen (clock e)" and ?cs = "take (nat limit) (line_up e parts s)"
  note C = Claim_eq [OF assms(1,2) T, unfolded assms(3) fst_conv snd_conv]
  note lp = line_up_props [OF assms(1,2), where parts = parts]
  obtain s1 where s1: "same_rows s s1" "same_rows (fold (\<lambda>c. set_row (c_id c) ?f) ?cs s1) s'"
    using C(2) by (elim exE conjE)
  have dist: "distinct (map c_id ?cs)" using lp(1) by (simp add: distinct_take flip: take_map)
  have "row s' k = (if k \<in> c_id ` set ?cs then map_option ?f (row s k) else row s k)" for k
    using same_rows_row [OF s1(2), of k] same_rows_row [OF s1(1), of k] by (simp add: fold_set_row [OF dist])
  moreover have "row s (c_id c) = Some (cand_row s c) \<and> Status (cand_row s c) = StatusPending" if "c \<in> set ?cs" for c
    using lp(4) [OF in_set_takeD [OF that]] by (simp add: claimable_def)
  ultimately show ?thesis using C(1) dist by (intro exI [of _ ?cs]) simp
qed

lemma stay_Claim:
  assumes "mem_inv s" "fair_env e"
  shows "in_flight_stay s (snd (Claim e owner gen parts limit s))"
proof (cases "fst (Claim e owner gen parts limit s)")
  case (Inl err)
  then have "snd (Claim e owner gen parts limit s) = s"
    by (auto simp: Claim_def Let_def split: option.splits if_splits prod.splits)
  then show ?thesis by (simp add: in_flight_stay_refl)
next
  case (Inr ds)
  obtain cs where cs: "\<forall>c \<in> set cs. row s (c_id c) = Some (cand_row s c) \<and> Status (cand_row s c) = StatusPending"
      "\<forall>k. row (snd (Claim e owner gen parts limit s)) k =
        (if k \<in> c_id ` set cs then map_option (claim_row owner gen (clock e)) (row s k) else row s k)"
    using Claim_rows [OF assms, of owner gen parts limit ds "snd (Claim e owner gen parts limit s)"] Inr
    by (metis prod.collapse)
  show ?thesis using cs unfolding in_flight_stay_def by fastforce
qed

section \<open>Marks leave the claims of others alone\<close>

lemma mark_keeps:
  assumes "mem_holds s k owner gen p" "(k', ow, g) \<noteq> (k, owner, gen)" "requireOwner s k' ow g = Inr d"
  shows "k' \<noteq> k"
  using assms by (auto simp: mem_holds_def requireOwner_Inr)

lemma holds_set_other: "k' \<noteq> k \<Longrightarrow> mem_holds (set_row k' f s) k ow g p = mem_holds s k ow g p"
  by (simp add: mem_holds_def store_simps)

lemma holds_signal: "mem_holds (signal s) k ow g p = mem_holds s k ow g p"
  by (simp add: mem_holds_def store_simps)

lemma markTerminal_keeps:
  assumes "mem_holds s k owner gen p" "(k', ow, g) \<noteq> (k, owner, gen)"
  shows "mem_holds (snd (markTerminal e k' ow g st msg s)) k owner gen p"
  using assms mark_keeps [OF assms]
  by (auto simp: markTerminal_def holds_signal holds_set_other split: option.split sum.split)

lemma MarkFailed_keeps:
  assumes "mem_holds s k owner gen p" "(k', ow, g) \<noteq> (k, owner, gen)"
  shows "mem_holds (snd (MarkFailed e k' ow g a t msg s)) k owner gen p"
  using assms mark_keeps [OF assms]
  by (auto simp: MarkFailed_def holds_signal holds_set_other split: option.split sum.split)

lemma ExhaustAndSuspend_keeps:
  assumes "mem_inv s" "fair_env e" "mem_holds s k owner gen p" "(k', ow, g) \<noteq> (k, owner, gen)"
  shows "mem_holds (snd (ExhaustAndSuspend e k' ow g msg s)) k owner gen p"
proof (cases "\<exists>d. ctx_err e = None \<and> requireOwner s k' ow g = Inr d")
  case True
  then obtain d where d: "ctx_err e = None" "requireOwner s k' ow g = Inr d" by blast
  let ?s = "suspend_rows k' (SubscriberID d) msg s"
  have "mem_inv ?s"
    using refines_inv [OF assms(1) refines_suspend_rows [OF assms(1)]] d(2) by (simp add: requireOwner_Inr)
  note stay = stay_holds [OF stay_retention [OF this assms(2)]]
  have "mem_holds ?s k owner gen p"
  proof -
    obtain d0 where d0: "row s k = Some d0" "Status d0 = StatusInFlight" "Owner d0 = owner" "Generation d0 = gen" "post_of d0 = p"
      using assms(3) by (auto simp: mem_holds_def)
    then have "row ?s k = Some d0"
      using mark_keeps [OF assms(3,4) d(2)] by (simp add: suspend_rows_frame retain_row_def)
    then show ?thesis using d0 by (simp add: mem_holds_def)
  qed
  then show ?thesis using stay by (simp add: ExhaustAndSuspend_Inr [OF d] holds_signal)
next
  case False
  then show ?thesis using assms(3) by (auto simp: ExhaustAndSuspend_def split: option.split sum.split)
qed

lemma memory_holds_persist:
  assumes "mem_inv s" "fair_env (call_env c)" "mem_holds s k owner gen p" "\<not> ends_claim k owner gen c"
  shows "mem_holds (exec_call memory_store c s) k owner gen p"
proof (cases c)
  case (Enqueue_call e ds)
  then show ?thesis using stay_holds [OF stay_Enqueue [OF assms(1)] assms(3)] assms(2) by simp
next
  case (Claim_call e ow g ps n)
  then show ?thesis using stay_holds [OF stay_Claim [OF assms(1)] assms(3)] assms(2) by simp
next
  case (Resume_call e x)
  then show ?thesis using stay_holds [OF stay_Resume [OF assms(1)] assms(3)] assms(2) by simp
next
  case (MarkDelivered_call e k' ow g)
  then show ?thesis using markTerminal_keeps [OF assms(3)] assms(4) by (simp add: MarkDelivered_def ends_claim_def)
next
  case (MarkDeadLetter_call e k' ow g m)
  then show ?thesis using markTerminal_keeps [OF assms(3)] assms(4) by (simp add: MarkDeadLetter_def ends_claim_def)
next
  case (MarkFailed_call e k' ow g a t m)
  then show ?thesis using MarkFailed_keeps [OF assms(3)] assms(4) by (simp add: ends_claim_def)
next
  case (ExhaustAndSuspend_call e k' ow g m)
  then show ?thesis using ExhaustAndSuspend_keeps [OF assms(1) _ assms(3)] assms(2,4) by (simp add: ends_claim_def)
qed (use assms in \<open>auto simp: ends_claim_def IsSuspended_def PendingOrInFlight_def split: option.splits\<close>)

lemma memory_claim_holds:
  assumes "mem_inv s" "fair_env e" "Claim e owner gen ps lim s = (Inr ds, s')"
  shows "distinct (map ID ds) \<and>
    (\<forall>d \<in> set ds. mem_holds s' (ID d) owner (Generation d) (SubscriberID d, Sequence d) \<and>
       (\<forall>ow g p. \<not> mem_holds s (ID d) ow g p))"
proof -
  let ?f = "claim_row owner gen (clock e)"
  obtain cs where cs: "distinct (map c_id cs)"
      "\<forall>c \<in> set cs. row s (c_id c) = Some (cand_row s c) \<and> Status (cand_row s c) = StatusPending"
      "ds = map (\<lambda>c. cloneDelivery (?f (cand_row s c))) cs"
      "\<forall>k. row s' k = (if k \<in> c_id ` set cs then map_option ?f (row s k) else row s k)"
    using Claim_rows [OF assms] by (elim exE conjE)
  have ids: "ID (cand_row s c) = c_id c" if "c \<in> set cs" for c
    using cs(2) that well_keyedD [OF mem_invD(1) [OF assms(1)]] by blast
  have "map ID ds = map c_id cs" using ids by (simp add: cs(3))
  moreover have "mem_holds s' (c_id c) owner gen (SubscriberID (cand_row s c), Sequence (cand_row s c)) \<and>
      (\<forall>ow g p. \<not> mem_holds s (c_id c) ow g p)" if "c \<in> set cs" for c
    using cs(2,4) that by (auto simp: mem_holds_def claim_row_def post_of_def)
  moreover have "Generation (?f d) = gen" for d by (simp add: claim_row_def)
  ultimately show ?thesis using cs(1) ids unfolding \<open>map ID ds = map c_id cs\<close> by (auto simp: cs(3))
qed

interpretation mem_fenced: fenced_store memory_store fair_env mem_inv mem_view mem_holds
proof
  show "\<exists>r. rows (mem_view s) k = Some r \<and> a_sub r = x \<and> a_seq r = n \<and> a_st r = StatusInFlight"
    if "mem_inv s" "mem_holds s k owner gen (x, n)" for s k owner gen x n
    using that(2) by (auto simp: mem_holds_def post_of_def)
  show "distinct (map ID ds) \<and>
      (\<forall>d \<in> set ds. mem_holds s' (ID d) owner (Generation d) (SubscriberID d, Sequence d) \<and>
         (\<forall>ow g p. \<not> mem_holds s (ID d) ow g p))"
    if "mem_inv s" "fair_env e" "op_Claim memory_store e owner gen ps lim s = (Inr ds, s')" for s e owner gen ps lim ds s'
    using memory_claim_holds [OF that(1,2) that(3) [unfolded memory_store_simps]] .
qed (rule memory_holds_persist)

end
