(* ===== verification/Runs.thy ===== *)
theory Runs
  imports Workers
begin

text \<open>
  Concrete runs of a dispatcher over any store: the steps of the system as functions, and that each
  extends a run. The examples of the dispatcher's properties are built from them.
\<close>

definition sample_marshal :: "string \<Rightarrow> string \<Rightarrow> bytes \<Rightarrow> string + bytes" where
  "sample_marshal tok ty dat = Inr (tok @ ty @ dat)"

definition sample_event :: "string \<Rightarrow> Event" where
  "sample_event k = \<lparr>ev_ID = k, ev_Type = ''t'', ev_Payload = None\<rparr>"

definition sample_sub :: "string \<Rightarrow> Subscriber" where
  "sample_sub x = \<lparr>sub_ID = x, sub_URL = ''http://u'', sub_Secret = None\<rparr>"

definition ok_result :: Result where
  "ok_result = \<lparr>outcome = OutcomeSuccess, StatusCode = 200, Err = None\<rparr>"

section \<open>Steps\<close>

definition do_start :: "('e, 's) store_ops \<Rightarrow> 'e \<Rightarrow> 's system \<Rightarrow> 's system" where
  "do_start ops e s = (let d' = snd (Start ops e (sy_d s)) in s\<lparr>sy_d := d', sy_pool := grow_pool d' (sy_pool s)\<rparr>)"

definition do_dispatch :: "('e, 's) store_ops \<Rightarrow> 'e \<Rightarrow> nat \<Rightarrow> string \<Rightarrow> string list \<Rightarrow> 's system \<Rightarrow> 's system" where
  "do_dispatch ops e n k xs s = s\<lparr>sy_d := snd (Dispatch ops sample_marshal e None
     (\<lambda>i. Some [char_of (n + i)]) (\<lambda>_. 2) (sample_event k) (map sample_sub xs) (sy_d s))\<rparr>"

definition at_index :: "nat \<Rightarrow> (string \<times> phase) list \<Rightarrow> string \<times> phase" where
  "at_index i pool = (if i < length pool then pool ! i else ([], WExited))"

lemma at_indexD: "at_index i pool = (tok, p) \<Longrightarrow> p \<noteq> WExited \<Longrightarrow> i < length pool \<and> pool ! i = (tok, p)"
  by (simp add: at_index_def split: if_splits)

definition do_claim :: "('e, 's) store_ops \<Rightarrow> 'e \<Rightarrow> nat \<Rightarrow> 's system \<Rightarrow> 's system" where
  "do_claim ops e i s = (case at_index i (sy_pool s) of
       (tok, WIdle) \<Rightarrow> let (r, d') = claimBatch ops e tok (sy_d s)
         in s\<lparr>sy_d := d', sy_pool := (sy_pool s)[i := (tok, after_claim r)]\<rparr>
     | _ \<Rightarrow> s)"

definition do_post :: "nat \<Rightarrow> 's system \<Rightarrow> 's system" where
  "do_post i s = (case at_index i (sy_pool s) of
       (tok, WBatch (del # ds)) \<Rightarrow> s\<lparr>sy_pool := (sy_pool s)[i := (tok, WPosting del ds)], sy_posts := sy_posts s @ [del]\<rparr>
     | _ \<Rightarrow> s)"

definition do_mark :: "('e, 's) store_ops \<Rightarrow> 'e \<Rightarrow> nat \<Rightarrow> Result \<Rightarrow> 's system \<Rightarrow> 's system" where
  "do_mark ops e i res s = (case at_index i (sy_pool s) of
       (tok, WPosting del ds) \<Rightarrow>
         s\<lparr>sy_d := count_delivery tok (deliverOne ops e 4 id tok del res (sy_d s)),
           sy_pool := (sy_pool s)[i := (tok, next_phase ds)]\<rparr>
     | _ \<Rightarrow> s)"

section \<open>Runs\<close>

lemma run_trans: "sys_step ops ok sample_marshal c s s' \<Longrightarrow>
    (sys_step ops ok sample_marshal c)\<^sup>*\<^sup>* s0 s \<Longrightarrow> (sys_step ops ok sample_marshal c)\<^sup>*\<^sup>* s0 s'"
  by (rule rtranclp.rtrancl_into_rtrancl)

lemma run_start:
  "ok e \<Longrightarrow> (sys_step ops ok sample_marshal c)\<^sup>*\<^sup>* s0 s \<Longrightarrow> (sys_step ops ok sample_marshal c)\<^sup>*\<^sup>* s0 (do_start ops e s)"
proof -
  assume e: "ok e"
  obtain r d' where d: "Start ops e (sy_d s) = (r, d')" by fastforce
  have "sys_step ops ok sample_marshal c s (do_start ops e s)"
    using sys_step.host_start [of ok, OF e d] by (simp add: do_start_def d)
  then show "(sys_step ops ok sample_marshal c)\<^sup>*\<^sup>* s0 s \<Longrightarrow> ?thesis" by simp
qed

lemma run_dispatch:
  "ok e \<Longrightarrow> (sys_step ops ok sample_marshal c)\<^sup>*\<^sup>* s0 s \<Longrightarrow>
   (sys_step ops ok sample_marshal c)\<^sup>*\<^sup>* s0 (do_dispatch ops e n k xs s)"
proof -
  assume e: "ok e"
  obtain r d' where d: "Dispatch ops sample_marshal e None
     (\<lambda>i. Some [char_of (n + i)]) (\<lambda>_. 2) (sample_event k) (map sample_sub xs) (sy_d s) = (r, d')" by fastforce
  have "sys_step ops ok sample_marshal c s (do_dispatch ops e n k xs s)"
    using sys_step.host_dispatch [of ok, OF e d] by (simp add: do_dispatch_def d)
  then show "(sys_step ops ok sample_marshal c)\<^sup>*\<^sup>* s0 s \<Longrightarrow> ?thesis" by simp
qed

lemma run_claim:
  "ok e \<Longrightarrow> (sys_step ops ok sample_marshal c)\<^sup>*\<^sup>* s0 s \<Longrightarrow> (sys_step ops ok sample_marshal c)\<^sup>*\<^sup>* s0 (do_claim ops e i s)"
proof (cases "\<exists>tok. at_index i (sy_pool s) = (tok, WIdle)")
  case True
  assume e: "ok e"
  obtain tok r d' where p: "at_index i (sy_pool s) = (tok, WIdle)"
    and d: "claimBatch ops e tok (sy_d s) = (r, d')" using True by fastforce
  note i = at_indexD [OF p phase.distinct(5)]
  have "sys_step ops ok sample_marshal c s (do_claim ops e i s)"
    using sys_step.worker_claim [of i s tok ok, OF conjunct1 [OF i] conjunct2 [OF i] e d]
    by (simp add: do_claim_def p d)
  then show "(sys_step ops ok sample_marshal c)\<^sup>*\<^sup>* s0 s \<Longrightarrow> ?thesis" by simp
next
  case False
  then have "do_claim ops e i s = s" by (auto simp: do_claim_def split: prod.split phase.split)
  then show "(sys_step ops ok sample_marshal c)\<^sup>*\<^sup>* s0 s \<Longrightarrow> ?thesis" by simp
qed

lemma run_post:
  "(sys_step ops ok sample_marshal c)\<^sup>*\<^sup>* s0 s \<Longrightarrow> (sys_step ops ok sample_marshal c)\<^sup>*\<^sup>* s0 (do_post i s)"
  by (auto simp: do_post_def split: prod.split phase.split list.split
      intro: run_trans [OF sys_step.worker_post] dest: at_indexD)

lemma run_mark:
  "ok e \<Longrightarrow> (sys_step ops ok sample_marshal c)\<^sup>*\<^sup>* s0 s \<Longrightarrow>
   (sys_step ops ok sample_marshal c)\<^sup>*\<^sup>* s0 (do_mark ops e i res s)"
  by (auto simp: do_mark_def split: prod.split phase.split
      intro: run_trans [OF sys_step.worker_mark] dest: at_indexD)

end
