(* ===== verification/DispatchProps.thy ===== *)
theory DispatchProps
  imports MemoryFenced MemoryAdmit Runs
begin

text \<open>
  The properties of the dispatcher: over the memory store, the order and the exclusivity of delivery
  attempts in every interleaving of workers, host and other users of the store; and, operation by
  operation, routing, resizing, closing, and what a worker does with the outcome of an attempt.
\<close>

section \<open>The dispatcher over the memory store\<close>

definition set_retention :: "int \<Rightarrow> duration \<Rightarrow> mem \<Rightarrow> mem" where
  "set_retention n a s =
     s\<lparr>RetentionMaxCount := (if n > 0 then n else RetentionMaxCount s),
       RetentionMaxAge := (if a > 0 then a else RetentionMaxAge s)\<rparr>"

definition memory_kind :: "mem store_kind" where
  "memory_kind = \<lparr>k_fresh = mem_New, k_retention = set_retention, k_distributed = (\<lambda>_. False), k_counts = True\<rparr>"

lemma mem_inv_set_retention: "mem_inv s \<Longrightarrow> mem_inv (set_retention n a s)"
proof -
  have "mem_view (set_retention n a s) = mem_view s" "byID (set_retention n a s) = byID s"
    "gates_on (set_retention n a s) = gates_on s"
    by (simp_all add: set_retention_def mem_view_def row_def held_in_def gates_on_def fun_eq_iff)
  then show "mem_inv s \<Longrightarrow> mem_inv (set_retention n a s)"
    using well_keyed_cong [of "set_retention n a s" s] by (simp add: mem_inv_def)
qed

lemma New_Inr:
  assumes "New kind cfg rnd now = Inr d"
  shows "d_store d = k_retention kind (cfg_RetentionMaxCount cfg) (cfg_RetentionMaxAge cfg)
      (case cfg_Store cfg of None \<Rightarrow> k_fresh kind | Some s \<Rightarrow> s)"
    "d_spawned d = []" "\<not> d_started d" "\<not> d_closed d" "d_generation d = 1" "d_errors d = []" "d_suspends d = []"
    "buildOwnership (d_workers d) (if cfg_Partitions cfg \<le> 0 then DefaultPartitions else cfg_Partitions cfg)
       (cfg_OverlapPartitions cfg) (cfg_PartitionsClaim cfg) (d_nodeID d) (d_incarnationID d) = Inr (d_own d)"
proof -
  define inc where "inc = (if cfg_NodeID cfg \<noteq> [] then newIncarnationID rnd now else [])"
  define b where "b = buildOwnership (if cfg_Workers cfg \<le> 0 then 1 else cfg_Workers cfg)
       (if cfg_Partitions cfg \<le> 0 then DefaultPartitions else cfg_Partitions cfg)
       (cfg_OverlapPartitions cfg) (cfg_PartitionsClaim cfg) (cfg_NodeID cfg) inc"
  show "d_store d = k_retention kind (cfg_RetentionMaxCount cfg) (cfg_RetentionMaxAge cfg)
      (case cfg_Store cfg of None \<Rightarrow> k_fresh kind | Some s \<Rightarrow> s)"
    "d_spawned d = []" "\<not> d_started d" "\<not> d_closed d" "d_generation d = 1" "d_errors d = []" "d_suspends d = []"
    using assms unfolding New_def Let_def inc_def [symmetric] b_def [symmetric]
    by (cases b; force split: if_split_asm)+
  have "d_workers d = (if cfg_Workers cfg \<le> 0 then 1 else cfg_Workers cfg) \<and> d_nodeID d = cfg_NodeID cfg \<and>
      d_incarnationID d = inc \<and> b = Inr (d_own d)"
    using assms unfolding New_def Let_def inc_def [symmetric] b_def [symmetric]
    by (cases b; force split: if_split_asm)
  then show "buildOwnership (d_workers d) (if cfg_Partitions cfg \<le> 0 then DefaultPartitions else cfg_Partitions cfg)
       (cfg_OverlapPartitions cfg) (cfg_PartitionsClaim cfg) (d_nodeID d) (d_incarnationID d) = Inr (d_own d)"
    by (simp add: b_def)
qed

definition sound_config :: "mem Config \<Rightarrow> bool" where
  "sound_config cfg \<longleftrightarrow> (case cfg_Store cfg of None \<Rightarrow> True | Some s \<Rightarrow> mem_inv s)"

lemma sys_inv_init:
  assumes "New memory_kind cfg rnd now = Inr d" "sound_config cfg"
  shows "sys_inv mem_inv mem_holds (sys_init d)"
proof -
  have "mem_inv (d_store d)"
    using New_Inr(1) [OF assms(1)] assms(2) mem_inv_New
    by (auto simp: memory_kind_def sound_config_def mem_inv_set_retention split: option.splits)
  then show ?thesis using New_Inr(2) [OF assms(1)] by (simp add: sys_inv_def sys_init_def rows_held_def)
qed

section \<open>A concrete run\<close>

definition sample_config :: "mem Config" where
  "sample_config = \<lparr>cfg_Store = None, cfg_Workers = 2, cfg_Partitions = 2, cfg_MaxAttempts = 0, cfg_BaseBackoff = 0,
     cfg_MaxBackoff = 0, cfg_RetentionMaxCount = 0, cfg_RetentionMaxAge = 0, cfg_OnSuspend = True,
     cfg_OnDeliveryError = True, cfg_IDPrefix = ''x'', cfg_OverlapPartitions = False, cfg_PartitionsClaim = None,
     cfg_StaleClaimAge = 0, cfg_NodeID = []\<rparr>"

definition sample_d :: "mem dispatcher" where
  "sample_d = (case New memory_kind sample_config None 0 of Inl err \<Rightarrow> undefined | Inr d \<Rightarrow> d)"

abbreviation mem_run :: "mem system \<Rightarrow> mem system \<Rightarrow> bool" where
  "mem_run \<equiv> (sys_step memory_store fair_env sample_marshal True)\<^sup>*\<^sup>*"

text \<open>
  Two events: at \<open>sample_two\<close> both workers are posting, at \<open>sample_end\<close> the second event of \<open>a\<close> is posted
  too, after the first has been delivered.
\<close>

definition sample_two :: "mem system" where
  "sample_two = do_post 1 (do_claim memory_store (live_env 3) 1 (do_post 0 (do_claim memory_store (live_env 3) 0
     (do_dispatch memory_store (live_env 2) 98 ''e2'' [''a'', ''b'']
       (do_dispatch memory_store (live_env 2) 65 ''e1'' [''a''] (do_start memory_store (live_env 1) (sys_init sample_d)))))))"

definition sample_end :: "mem system" where
  "sample_end = do_post 0 (do_claim memory_store (live_env 3) 0 (do_mark memory_store (live_env 4) 0 ok_result sample_two))"

definition sample_facts :: bool where
  "sample_facts \<longleftrightarrow> length (sy_pool sample_two) = 2 \<and> map post_of (sy_posts sample_end) = [(''a'', 1), (''b'', 1), (''a'', 2)] \<and>
     (case sy_pool sample_two ! 0 of (t0, WPosting x []) \<Rightarrow> post_of x = (''a'', 1) | _ \<Rightarrow> False) \<and>
     (case sy_pool sample_two ! 1 of (t1, WPosting x []) \<Rightarrow> post_of x = (''b'', 1) | _ \<Rightarrow> False)"

lemma sample_facts: sample_facts
  by code_simp

lemma New_sample: "New memory_kind sample_config None 0 = Inr sample_d"
proof -
  have "\<not> isl (New memory_kind sample_config None 0)" by code_simp
  then show ?thesis by (auto simp: sample_d_def isl_def split: sum.split)
qed

lemma sample_sound: "sound_config sample_config"
  by (simp add: sound_config_def sample_config_def)

lemma sample_runs: "mem_run (sys_init sample_d) sample_two" "mem_run (sys_init sample_d) sample_end"
proof -
  show r: "mem_run (sys_init sample_d) sample_two"
    unfolding sample_two_def by (simp add: run_post run_claim run_dispatch run_start)
  show "mem_run (sys_init sample_d) sample_end"
    unfolding sample_end_def using r by (simp add: run_post run_claim run_mark)
qed

section \<open>Order and exclusivity of attempts\<close>

lemma posts_in_order:
  assumes "New memory_kind cfg rnd now = Inr d" "sound_config cfg"
    "(sys_step memory_store fair_env marshal counts)\<^sup>*\<^sup>* (sys_init d) s"
    "i < j" "j < length (sy_posts s)" "SubscriberID (sy_posts s ! i) = SubscriberID (sy_posts s ! j)"
  shows "Sequence (sy_posts s ! i) \<le> Sequence (sy_posts s ! j)"
proof -
  have "per_subscriber_order (map post_of (sy_posts s))"
    using mem_fenced.posts_ordered [OF assms(3) sys_inv_init [OF assms(1,2)]] by (simp add: sys_init_def)
  from per_subscriber_order_nth [OF this assms(4)] show ?thesis
    using assms(4-6) by (simp add: post_of_def)
qed

text \<open>
  Claim C5. However the workers of a dispatcher over the memory store interleave with each other, with
  the host's calls (starting, resizing, dispatching, resuming, closing) and with other users of the
  store, its delivery attempts never go back: of two attempts for one subscriber the earlier one is of
  the same or an earlier row of that subscriber.
\<close>

theorem dispatcher_posts_in_order:
  assumes "New memory_kind cfg rnd now = Inr d" "sound_config cfg"
    "(sys_step memory_store fair_env marshal counts)\<^sup>*\<^sup>* (sys_init d) s"
    "i < j" "j < length (sy_posts s)" "SubscriberID (sy_posts s ! i) = SubscriberID (sy_posts s ! j)"
  shows "Sequence (sy_posts s ! i) \<le> Sequence (sy_posts s ! j)"
  using posts_in_order [OF assms] .

theorem dispatcher_posts_in_order_witness:
  "mem_run (sys_init sample_d) sample_end \<and>
   map post_of (sy_posts sample_end) = [(''a'', 1), (''b'', 1), (''a'', 2)] \<and>
   Sequence (sy_posts sample_end ! 0) \<le> Sequence (sy_posts sample_end ! 2)"
proof -
  have m: "map post_of (sy_posts sample_end) = [(''a'', 1), (''b'', 1), (''a'', 2)]"
    using sample_facts by (simp add: sample_facts_def)
  then have n: "length (sy_posts sample_end) = 3" by (metis length_map length_Cons list.size(3) numeral_3_eq_3)
  have p: "post_of (sy_posts sample_end ! 0) = (''a'', 1)" "post_of (sy_posts sample_end ! 2) = (''a'', 2)"
    using m n nth_map [of 0 "sy_posts sample_end" post_of] nth_map [of 2 "sy_posts sample_end" post_of] by simp_all
  show ?thesis
    using dispatcher_posts_in_order [OF New_sample sample_sound sample_runs(2), of 0 2] sample_runs(2) m n p
    by (simp add: post_of_def)
qed

lemma one_attempt_at_a_time:
  assumes "New memory_kind cfg rnd now = Inr d" "sound_config cfg"
    "(sys_step memory_store fair_env marshal counts)\<^sup>*\<^sup>* (sys_init d) s"
    "i < length (sy_pool s)" "j < length (sy_pool s)" "i \<noteq> j"
    "sy_pool s ! i = (tok, WPosting x xs)" "sy_pool s ! j = (tok', WPosting y ys)"
  shows "SubscriberID x \<noteq> SubscriberID y"
proof -
  have "sys_inv mem_inv mem_holds s"
    using mem_fenced.run_explained [OF assms(3) sys_inv_init [OF assms(1,2)]] by (simp add: explained_def)
  from pool_rows_apart [OF mem_fenced.pool_one_per_subscriber [OF this] assms(4-8)] show ?thesis by simp
qed

text \<open>
  Claim C17. No two attempts for one subscriber are ever open at the same time: two goroutines of the
  pool that both wait for the answer to a POST wait for different subscribers, also while a resize is
  changing who serves which partition.
\<close>

theorem dispatcher_one_attempt_at_a_time:
  assumes "New memory_kind cfg rnd now = Inr d" "sound_config cfg"
    "(sys_step memory_store fair_env marshal counts)\<^sup>*\<^sup>* (sys_init d) s"
    "i < length (sy_pool s)" "j < length (sy_pool s)" "i \<noteq> j"
    "sy_pool s ! i = (tok, WPosting x xs)" "sy_pool s ! j = (tok', WPosting y ys)"
  shows "SubscriberID x \<noteq> SubscriberID y"
  using one_attempt_at_a_time [OF assms] .

theorem dispatcher_one_attempt_at_a_time_witness:
  "\<exists>t0 x t1 y. sy_pool sample_two ! 0 = (t0, WPosting x []) \<and> sy_pool sample_two ! 1 = (t1, WPosting y []) \<and>
     SubscriberID x = ''a'' \<and> SubscriberID y = ''b'' \<and> SubscriberID x \<noteq> SubscriberID y"
proof -
  have n: "length (sy_pool sample_two) = 2" using sample_facts by (simp add: sample_facts_def)
  obtain t0 x where x: "sy_pool sample_two ! 0 = (t0, WPosting x [])" "post_of x = (''a'', 1)"
    using sample_facts by (auto simp: sample_facts_def split: prod.splits phase.splits list.splits)
  obtain t1 y where y: "sy_pool sample_two ! 1 = (t1, WPosting y [])" "post_of y = (''b'', 1)"
    using sample_facts by (auto simp: sample_facts_def split: prod.splits phase.splits list.splits)
  show ?thesis
    using dispatcher_one_attempt_at_a_time [OF New_sample sample_sound sample_runs(1) _ _ _ x(1) y(1)] n x y
    by (auto simp: post_of_def)
qed

section \<open>Routing\<close>

text \<open>The ownership map a pool over all partitions, without overlap, has at any time.\<close>

definition routed :: "int \<Rightarrow> 's dispatcher \<Rightarrow> bool" where
  "routed n d \<longleftrightarrow> partitions (d_own d) = n \<and> 0 < n \<and>
     buildOwnership (d_workers d) n False None (d_nodeID d) (d_incarnationID d) = Inr (d_own d)"

lemma routed_conf: "d_conf d' = d_conf d \<Longrightarrow> routed n d' = routed n d"
  by (simp add: d_conf_def routed_def)

lemma effective_positive: "0 < effective_partitions n" "0 < n \<Longrightarrow> effective_partitions n = n"
  by (simp_all add: effective_partitions_def DefaultPartitions_def)

lemma Start_routed: "Start ops e d = (r, d') \<Longrightarrow> routed n d' = routed n d"
  by (auto simp: Start_def Let_def routed_def split: prod.splits if_splits sum.splits)

lemma Resize_routed:
  assumes "Resize ctxerr ws d = (r, d')" "routed n d"
  shows "routed n d' \<and> d_nodeID d' = d_nodeID d \<and> d_incarnationID d' = d_incarnationID d"
proof (cases "d' = d")
  case False
  then obtain o1 where "buildOwnership ws n False None (d_nodeID d) (d_incarnationID d) = Inr o1"
      "d' = spawn_range (d_workers d) ws (d\<lparr>d_own := o1, d_workers := ws, d_generation := d_generation d + 1\<rparr>)"
    using assms by (auto simp: Resize_def routed_def split: option.splits if_splits sum.splits)
  then show ?thesis using assms(2) buildOwnershipD(4) effective_positive(2)
    by (fastforce simp: routed_def)
qed (use assms in simp)

text \<open>Only starting and resizing touch the pool's make-up.\<close>

lemma one_call_conf: "one_call ops ok P d d' \<Longrightarrow> d_conf d' = d_conf d"
  by (simp add: one_call_def)

lemma step_conf:
  assumes "sys_step ops ok marshal counts s s'"
  shows "d_conf (sy_d s') = d_conf (sy_d s) \<or> (\<exists>e r. Start ops e (sy_d s) = (r, sy_d s')) \<or>
    (\<exists>ctxerr ws r. Resize ctxerr ws (sy_d s) = (r, sy_d s'))"
  using assms
proof (cases rule: sys_step.cases)
  case (worker_claim i tok e r d')
  then show ?thesis using one_call_conf [OF claimBatch_call [where ok = ok, OF worker_claim(5,4)]] by simp
next
  case (worker_mark i tok del ds e now rnd res)
  then show ?thesis
    using one_call_conf [OF deliverOne_call [where ok = ok and ops = ops and del = del and d = "sy_d s" and
        tok = tok and now = now and rnd = rnd and res = res, OF worker_mark(4)]] by simp
next
  case (host_dispatch e ctxerr rnds nows ev ss r d')
  then show ?thesis using one_call_conf [OF Dispatch_call [where ok = ok, OF host_dispatch(3,2)]] by simp
next
  case (host_suspended e x r' d')
  then show ?thesis using one_call_conf [OF Suspended_call [where ok = ok, OF host_suspended(3,2)]] by simp
next
  case (host_resume e x r'' d')
  then show ?thesis using one_call_conf [OF Dispatcher_Resume_call [where ok = ok, OF host_resume(3,2)]] by simp
next
  case (host_close r3 d')
  then have "d_conf d' = d_conf (sy_d s)" by (auto simp: Close_begin_def Let_def split: if_splits)
  then show ?thesis using host_close(1) by simp
next
  case (host_drain e stop r4 d')
  then show ?thesis using one_call_conf [OF Close_poll_call [where ok = ok, OF host_drain(4,3)]] by simp
next
  case (host_start e r d')
  then show ?thesis by auto
next
  case (host_resize ctxerr ws r d')
  then show ?thesis by auto
next
  case (worker_wait i tok dt w d')
  then show ?thesis using waitForWorkD [OF worker_wait(5)] by simp
qed simp_all

lemma step_routed:
  assumes "sys_step ops ok marshal counts s s'" "routed n (sy_d s)"
  shows "routed n (sy_d s')"
proof -
  consider "d_conf (sy_d s') = d_conf (sy_d s)" | e r where "Start ops e (sy_d s) = (r, sy_d s')"
    | ctxerr ws r where "Resize ctxerr ws (sy_d s) = (r, sy_d s')"
    using step_conf [OF assms(1)] by blast
  then show ?thesis
  proof cases
    case 1
    then show ?thesis using routed_conf [OF 1] assms(2) by simp
  next
    case 2
    then show ?thesis using Start_routed [OF 2] assms(2) by simp
  next
    case 3
    then show ?thesis using Resize_routed [OF 3] assms(2) by simp
  qed
qed

lemma run_routed: "(sys_step ops ok marshal counts)\<^sup>*\<^sup>* s s' \<Longrightarrow> routed n (sy_d s) \<Longrightarrow> routed n (sy_d s')"
  by (induction rule: rtranclp_induct) (auto intro: step_routed)

lemma New_routed:
  assumes "New kind cfg rnd now = Inr d" "\<not> cfg_OverlapPartitions cfg" "cfg_PartitionsClaim cfg = None"
  shows "routed (partitions (d_own d)) d"
proof -
  define n where "n = (if cfg_Partitions cfg \<le> 0 then DefaultPartitions else cfg_Partitions cfg)"
  have b: "buildOwnership (d_workers d) n False None (d_nodeID d) (d_incarnationID d) = Inr (d_own d)"
    using New_Inr(8) [OF assms(1)] assms(2,3) by (simp add: n_def)
  have "0 < n" by (simp add: n_def DefaultPartitions_def)
  then show ?thesis using b buildOwnershipD(4) [OF b] by (simp add: routed_def effective_positive)
qed

lemma routed_worker:
  assumes "routed n d" "n \<le> max_int64"
  shows "\<exists>w. 0 \<le> w \<and> w < d_workers d \<and>
    ownerOf (d_own d) (hash_Partition x n) = Some (claimOwnerID (d_nodeID d) (d_incarnationID d) w) \<and>
    (\<forall>w'. 0 \<le> w' \<and> w' < d_workers d \<longrightarrow>
      (hash_Partition x n \<in> set (partitionsFor (d_own d) (claimOwnerID (d_nodeID d) (d_incarnationID d) w')) \<longleftrightarrow> w' = w))"
proof -
  have b: "buildOwnership (d_workers d) n False None (d_nodeID d) (d_incarnationID d) = Inr (d_own d)" "0 < n"
    using assms(1) by (simp_all add: routed_def)
  have "hash_Partition x n \<in> set (universe n None)"
    using hash_Partition_range [OF assms(2), of x] b(2) effective_positive(2) [OF b(2)] by (simp add: universe_def)
  from partition_worker [OF b(1) this] show ?thesis .
qed

text \<open>
  Claim C26. Every subscriber is always served by exactly one worker: whatever a dispatcher over all
  partitions without overlap (no PartitionsClaim) has been through, resizes included, the partition its rows are stored under is in the slice of exactly one
  worker of the current pool, and it is the same partition as when the dispatcher was built.
\<close>

theorem subscriber_has_one_worker:
  assumes "New kind cfg rnd now = Inr d" "\<not> cfg_OverlapPartitions cfg" "cfg_PartitionsClaim cfg = None"
    "partitions (d_own d) \<le> max_int64" "(sys_step ops ok marshal counts)\<^sup>*\<^sup>* (sys_init d) s"
  shows "partitions (d_own (sy_d s)) = partitions (d_own d) \<and>
    (\<exists>w. 0 \<le> w \<and> w < d_workers (sy_d s) \<and>
      (\<forall>w'. 0 \<le> w' \<and> w' < d_workers (sy_d s) \<longrightarrow>
        (hash_Partition x (partitions (d_own (sy_d s))) \<in>
           set (partitionsFor (d_own (sy_d s)) (claimOwnerID (d_nodeID (sy_d s)) (d_incarnationID (sy_d s)) w')) \<longleftrightarrow> w' = w)))"
proof -
  have r: "routed (partitions (d_own d)) (sy_d s)"
    using run_routed [OF assms(5)] New_routed [OF assms(1-3)] by (simp add: sys_init_def)
  then have "partitions (d_own (sy_d s)) = partitions (d_own d)" by (simp add: routed_def)
  then show ?thesis using routed_worker [OF r assms(4), of x] by auto
qed

definition sample_resized :: "mem system" where
  "sample_resized = (let d' = snd (Resize None 3 (sy_d sample_two)) in sample_two\<lparr>sy_d := d', sy_pool := grow_pool d' (sy_pool sample_two)\<rparr>)"

theorem subscriber_has_one_worker_witness:
  "d_workers (sy_d sample_resized) = 3 \<and> partitions (d_own (sy_d sample_resized)) = 2 \<and>
   (\<exists>w. 0 \<le> w \<and> w < 3 \<and> (\<forall>w'. 0 \<le> w' \<and> w' < 3 \<longrightarrow>
      (hash_Partition ''a'' 2 \<in> set (partitionsFor (d_own (sy_d sample_resized)) (claimOwnerID [] [] w')) \<longleftrightarrow> w' = w)))"
proof -
  obtain r d' where d: "Resize None 3 (sy_d sample_two) = (r, d')" by fastforce
  have "sys_step memory_store fair_env sample_marshal True sample_two sample_resized"
    using sys_step.host_resize [OF d] by (simp add: sample_resized_def d)
  then have run: "mem_run (sys_init sample_d) sample_resized" using sample_runs(1) by simp
  have c: "d_workers (sy_d sample_resized) = 3" "partitions (d_own (sy_d sample_resized)) = 2"
      "d_nodeID (sy_d sample_resized) = []" "d_incarnationID (sy_d sample_resized) = []"
      "partitions (d_own sample_d) = 2"
    by code_simp+
  show ?thesis
    using subscriber_has_one_worker [OF New_sample _ _ _ run, of "''a''"] c
    by (simp add: sample_config_def max_int64_def)
qed

end
