(* ===== verification/DeliverProps.thy ===== *)
theory DeliverProps
  imports DispatchProps
begin

text \<open>
  What one operation of the dispatcher does over the memory store: the rows a dispatch stores, what
  becomes of a row after an attempt, which workers a resize keeps, and when closing is done.
\<close>

section \<open>Dispatch\<close>

text \<open>The row \<^verbatim>\<open>Dispatch\<close> builds for a subscriber of the event.\<close>

definition row_for :: "Event \<Rightarrow> bytes \<Rightarrow> int \<Rightarrow> Subscriber \<Rightarrow> delivery \<Rightarrow> bool" where
  "row_for ev payload n x r \<longleftrightarrow> EventID r = ev_ID ev \<and> EventType r = ev_Type ev \<and> Payload r = Some payload \<and>
     SubscriberID r = sub_ID x \<and> URL r = sub_URL x \<and> Secret r = copy_bytes (sub_Secret x) \<and>
     PartitionNo r = hash_Partition (sub_ID x) n \<and> Status r = StatusPending \<and> Attempt r = 0"

lemma nextID_own [simp]: "nextID rnd now d = (tok, d1) \<Longrightarrow> d_own d1 = d_own d"
  by (auto simp: nextID_def Let_def split: option.splits)

lemma build_rows_each:
  "build_rows rnds nows ev payload i ss d = (rs, d') \<Longrightarrow> list_all2 (row_for ev payload (partitions (d_own d))) ss rs"
proof (induction ss arbitrary: i d rs d')
  case (Cons x ss)
  obtain tok d1 where n: "nextID (rnds i) (nows i) d = (tok, d1)" by fastforce
  obtain rs' d2 where b: "build_rows rnds nows ev payload (Suc i) ss d1 = (rs', d2)" by fastforce
  show ?case using Cons.prems Cons.IH [OF b] nextID_own [OF n] by (auto simp: n b row_for_def)
qed simp

lemma check_subs_None: "check_subs ss = None \<longleftrightarrow> (\<forall>x \<in> set ss. sub_ID x \<noteq> [] \<and> sub_URL x \<noteq> [])"
  by (induction ss) auto

definition dispatchable :: "'s dispatcher \<Rightarrow> Event \<Rightarrow> Subscriber list \<Rightarrow> bool" where
  "dispatchable d ev ss \<longleftrightarrow> \<not> d_closed d \<and> d_started d \<and> ev_ID ev \<noteq> [] \<and> ss \<noteq> [] \<and>
     (\<forall>x \<in> set ss. sub_ID x \<noteq> [] \<and> sub_URL x \<noteq> [])"

lemma Dispatch_cases:
  "\<not> (ctxerr = None \<and> dispatchable d ev ss) \<Longrightarrow> \<exists>err. Dispatch ops marshal e ctxerr rnds nows ev ss d = (Some err, d)"
  "encodeOnce marshal ev = Inl m \<Longrightarrow> \<exists>err. Dispatch ops marshal e ctxerr rnds nows ev ss d = (Some err, d)"
  "dispatchable d ev ss \<Longrightarrow> encodeOnce marshal ev = Inr payload \<Longrightarrow>
   Dispatch ops marshal e None rnds nows ev ss d =
     (let (rs, d1) = build_rows rnds nows ev payload 0 ss d; (err, st) = op_Enqueue ops e rs (d_store d1)
      in (map_option FStore err, d1\<lparr>d_store := st\<rparr>))"
proof -
  show "\<exists>err. Dispatch ops marshal e ctxerr rnds nows ev ss d = (Some err, d)" if "\<not> (ctxerr = None \<and> dispatchable d ev ss)"
    using that check_subs_None [of ss]
    by (cases ctxerr; cases "check_subs ss"; cases "d_closed d"; cases "ss = []"; cases "d_started d"; cases "ev_ID ev = []")
      (simp_all add: Dispatch_def dispatchable_def)
  show "\<exists>err. Dispatch ops marshal e ctxerr rnds nows ev ss d = (Some err, d)" if "encodeOnce marshal ev = Inl m"
    using that by (cases ctxerr; cases "check_subs ss") (simp_all add: Dispatch_def)
  show "Dispatch ops marshal e None rnds nows ev ss d =
     (let (rs, d1) = build_rows rnds nows ev payload 0 ss d; (err, st) = op_Enqueue ops e rs (d_store d1)
      in (map_option FStore err, d1\<lparr>d_store := st\<rparr>))" if "dispatchable d ev ss" "encodeOnce marshal ev = Inr payload"
    using that check_subs_None [of ss] by (simp add: Dispatch_def dispatchable_def)
qed

lemma dispatch_accepted:
  assumes "mem_inv (d_store d)" "fair_env e" "ctx_err e = None"
    "Dispatch memory_store marshal e ctxerr rnds nows ev ss d = (None, d')"
  shows "\<exists>payload rs. encodeOnce marshal ev = Inr payload \<and> dispatchable d ev ss \<and> distinct (map ID rs) \<and>
    list_all2 (row_for ev payload (partitions (d_own d))) ss rs \<and>
    (\<forall>i < length rs. let r = rs ! i; x = SubscriberID r in
       row (d_store d') (ID r) =
         Some (stored_row (clock e) (next_seq (d_store d) x + earlier_of r (take i rs)) (held_in (d_store d) x) r) \<or>
       held_in (d_store d) x \<and> row (d_store d') (ID r) = None)"
proof -
  have ok: "ctxerr = None" "dispatchable d ev ss"
    using Dispatch_cases(1) [of ctxerr d ev ss memory_store marshal e rnds nows] assms(4)
    by (cases "ctxerr = None \<and> dispatchable d ev ss"; simp)+
  obtain payload where p: "encodeOnce marshal ev = Inr payload"
    using Dispatch_cases(2) [of marshal ev _ memory_store e ctxerr rnds nows ss d] assms(4) by (cases "encodeOnce marshal ev") auto
  obtain rs d1 where b: "build_rows rnds nows ev payload 0 ss d = (rs, d1)" by fastforce
  obtain err st where q: "Enqueue e rs (d_store d1) = (err, st)" by fastforce
  have st1: "d_store d1 = d_store d" using build_rows_frame [OF b] by auto
  have d': "err = None" "d_store d' = st"
    using assms(4) ok(1) by (auto simp: Dispatch_cases(3) [OF ok(2) p] b q)
  note E = Enqueue_numbers [OF assms(1-3) q [unfolded st1, symmetric]]
  have "distinct (map ID rs)" using E d'(1) by (simp add: admissible_def)
  then show ?thesis
    using p ok(2) build_rows_each [OF b] E d' by (intro exI [of _ payload] exI [of _ rs]) simp
qed

text \<open>
  Claim C36. A dispatch that is accepted stores exactly one pending row per subscriber, in their order,
  all with the payload encoded once from the event, under the subscriber's own partition, URL and
  secret, and with the next sequence number of that subscriber. A row of a suspended subscriber is
  retained instead, and may be dropped at once by the retention bounds.
\<close>

theorem dispatch_stores_event:
  assumes "mem_inv (d_store d)" "fair_env e" "ctx_err e = None"
    "Dispatch memory_store marshal e ctxerr rnds nows ev ss d = (None, d')"
  shows "\<exists>payload rs. encodeOnce marshal ev = Inr payload \<and> dispatchable d ev ss \<and> distinct (map ID rs) \<and>
    list_all2 (row_for ev payload (partitions (d_own d))) ss rs \<and>
    (\<forall>i < length rs. let r = rs ! i; x = SubscriberID r in
       row (d_store d') (ID r) =
         Some (stored_row (clock e) (next_seq (d_store d) x + earlier_of r (take i rs)) (held_in (d_store d) x) r) \<or>
       held_in (d_store d) x \<and> row (d_store d') (ID r) = None)"
  using dispatch_accepted [OF assms] .

definition started_d :: "mem dispatcher" where
  "started_d = sy_d (do_start memory_store (live_env 1) (sys_init sample_d))"

lemma started_inv: "mem_inv (d_store started_d)"
proof -
  have "mem_run (sys_init sample_d) (do_start memory_store (live_env 1) (sys_init sample_d))" by (simp add: run_start)
  then have "sys_inv mem_inv mem_holds (do_start memory_store (live_env 1) (sys_init sample_d))"
    using mem_fenced.run_explained [OF _ sys_inv_init [OF New_sample sample_sound]] by (simp add: explained_def)
  then show ?thesis by (simp add: sys_inv_def started_d_def)
qed

theorem dispatch_stores_event_witness:
  "\<exists>d'. Dispatch memory_store sample_marshal (live_env 2) None (\<lambda>i. Some [char_of (65 + i)]) (\<lambda>_. 2)
       (sample_event ''e'') [sample_sub ''a'', sample_sub ''a''] started_d = (None, d') \<and>
     (\<exists>payload rs. encodeOnce sample_marshal (sample_event ''e'') = Inr payload \<and>
        list_all2 (row_for (sample_event ''e'') payload (partitions (d_own started_d))) [sample_sub ''a'', sample_sub ''a''] rs)"
proof -
  let ?r = "Dispatch memory_store sample_marshal (live_env 2) None (\<lambda>i. Some [char_of (65 + i)]) (\<lambda>_. 2)
       (sample_event ''e'') [sample_sub ''a'', sample_sub ''a''] started_d"
  have "fst ?r = None" by code_simp
  then have "?r = (None, snd ?r)" by (metis prod.collapse)
  then show ?thesis using dispatch_stores_event [OF started_inv, of "live_env 2"] by (metis live_env_simps(1,4))
qed

text \<open>
  What \<^verbatim>\<open>Dispatch\<close> refuses it leaves no trace of: when the dispatcher is closed or not started,
  the caller's context is done, the event has no ID or no subscriber, a subscriber lacks its ID or
  URL, or the event cannot be encoded, it reports an error, stores no row, and the dispatcher is
  unchanged.
\<close>

theorem dispatch_rejects:
  assumes "ctxerr \<noteq> None \<or> d_closed d \<or> \<not> d_started d \<or> ev_ID ev = [] \<or> ss = [] \<or>
    (\<exists>x \<in> set ss. sub_ID x = [] \<or> sub_URL x = []) \<or> isl (encodeOnce marshal ev)"
  shows "\<exists>err. Dispatch ops marshal e ctxerr rnds nows ev ss d = (Some err, d)"
proof (cases "isl (encodeOnce marshal ev)")
  case True
  then show ?thesis by (auto simp: isl_def intro: Dispatch_cases(2))
next
  case False
  then have "\<not> (ctxerr = None \<and> dispatchable d ev ss)" using assms by (auto simp: dispatchable_def)
  then show ?thesis by (rule Dispatch_cases(1))
qed

theorem dispatch_rejects_witness:
  "\<exists>err. Dispatch memory_store sample_marshal (live_env 2) None (\<lambda>i. None) (\<lambda>_. 2)
     (sample_event ''e'') [sample_sub ''a'', sample_sub []] started_d = (Some err, started_d)"
  by (rule dispatch_rejects) (simp add: sample_sub_def)

section \<open>After an attempt\<close>

text \<open>What an attempt's result does to the row: delivered, kept for a retry, or given up.\<close>

definition gives_up :: "Result \<Rightarrow> delivery \<Rightarrow> 's dispatcher \<Rightarrow> bool" where
  "gives_up res del d \<longleftrightarrow> outcome res = OutcomePermanent \<or> outcome res = OutcomeRetryable \<and> Attempt del \<ge> d_maxAttempts d"

definition marked_row :: "gotime \<Rightarrow> (int \<Rightarrow> int) \<Rightarrow> delivery \<Rightarrow> Result \<Rightarrow> 's dispatcher \<Rightarrow> delivery \<Rightarrow> delivery" where
  "marked_row now rnd del res d r = release
     (if outcome res = OutcomeSuccess then r\<lparr>Status := StatusDelivered, LastError := []\<rparr>
      else if gives_up res del d then r\<lparr>Status := StatusDeadLettered, LastError := Result_Error res\<rparr>
      else r\<lparr>Status := StatusPending, Attempt := Attempt del,
             NextAttempt := time_Add now (Delay rnd (Attempt del) (d_baseBackoff d) (d_maxBackoff d)),
             LastError := Result_Error res\<rparr>)"

lemma exhausted_rows:
  assumes "mem_inv s" "fair_env e" "ctx_err e = None" "requireOwner s k owner gen = Inr r"
  shows "fst (ExhaustAndSuspend e k owner gen msg s) = None"
    "row (snd (ExhaustAndSuspend e k owner gen msg s)) k = Some (release (r\<lparr>Status := StatusDeadLettered, LastError := msg\<rparr>))"
    "held_in (snd (ExhaustAndSuspend e k owner gen msg s)) (SubscriberID r)"
    "row (snd (ExhaustAndSuspend e k owner gen msg s)) k' = Some r' \<Longrightarrow> SubscriberID r' = SubscriberID r \<Longrightarrow>
       Status r' \<noteq> StatusPending"
proof -
  let ?x = "SubscriberID r" and ?s = "suspend_rows k (SubscriberID r) msg s"
  have inv: "mem_inv ?s"
    using refines_inv [OF assms(1) refines_suspend_rows [OF assms(1)]] assms(4) by (simp add: requireOwner_Inr)
  note wk = mem_invD(1) [OF inv]
  note eq = ExhaustAndSuspend_Inr [OF assms(3,4), of msg]
  have r: "row s k = Some r" "Status r = StatusInFlight" using assms(4) by (simp_all add: requireOwner_Inr)
  have sub: "SubscriberID (release (r\<lparr>Status := StatusDeadLettered, LastError := msg\<rparr>)) = ?x"
    "Status (release (r\<lparr>Status := StatusDeadLettered, LastError := msg\<rparr>)) = StatusDeadLettered" by (simp_all add: release_def)
  have k: "row ?s k = Some (release (r\<lparr>Status := StatusDeadLettered, LastError := msg\<rparr>))"
    using r sub by (simp add: suspend_rows_frame retain_row_def)
  show "fst (ExhaustAndSuspend e k owner gen msg s) = None" by (simp add: eq)
  show "row (snd (ExhaustAndSuspend e k owner gen msg s)) k = Some (release (r\<lparr>Status := StatusDeadLettered, LastError := msg\<rparr>))"
    using retention_rows [OF inv assms(2), of ?x "clock e" k] k sub by (auto simp: eq store_simps retained_of_def)
  show "held_in (snd (ExhaustAndSuspend e k owner gen msg s)) ?x"
    by (simp add: eq frame_simps applyRetention_eq [OF assms(2) wk] drop_all_frame suspend_rows_frame)
  show "Status r' \<noteq> StatusPending" if "row (snd (ExhaustAndSuspend e k owner gen msg s)) k' = Some r'" "SubscriberID r' = ?x"
  proof -
    have "row ?s k' = Some r'"
      using that(1) by (auto simp: eq store_simps applyRetention_eq [OF assms(2) wk] drop_all_frame split: if_splits)
    then obtain r0 where "r' = retain_row ?x r0" by (auto simp: suspend_rows_frame split: if_splits)
    then show ?thesis using that(2) by (simp add: retain_row_def release_def split: if_splits)
  qed
qed

lemma delivered_one:
  assumes "mem_inv (d_store d)" "fair_env e" "ctx_err e = None" "requireOwner (d_store d) (ID del) owner (Generation del) = Inr r"
    "d' = deliverOne memory_store e now rnd owner del res d"
  shows "row (d_store d') (ID del) = Some (marked_row now rnd del res d r)" "d_errors d' = d_errors d"
    "gives_up res del d \<Longrightarrow> held_in (d_store d') (SubscriberID r)"
    "gives_up res del d \<Longrightarrow> row (d_store d') k' = Some r' \<Longrightarrow> SubscriberID r' = SubscriberID r \<Longrightarrow> Status r' \<noteq> StatusPending"
    "d_suspends d' = d_suspends d @ (if gives_up res del d \<and> d_onSuspend d then [SubscriberID del] else [])"
proof -
  let ?k = "ID del" and ?g = "Generation del" and ?m = "Result_Error res" and ?s = "d_store d"
  let ?nxt = "time_Add now (Delay rnd (Attempt del) (d_baseBackoff d) (d_maxBackoff d))"
  have r: "row ?s ?k = Some r" using assms(4) by (simp add: requireOwner_Inr)
  note X = exhausted_rows [OF assms(1-4), where msg = ?m]
  have ex: "exhaust memory_store e owner del ?m d =
      d\<lparr>d_store := snd (ExhaustAndSuspend e ?k owner ?g ?m ?s),
        d_suspends := d_suspends d @ (if d_onSuspend d then [SubscriberID del] else [])\<rparr>"
    using X(1) by (auto simp: exhaust_def Let_def split: prod.split)
  consider (ok) "outcome res = OutcomeSuccess" "\<not> gives_up res del d"
      "d' = d\<lparr>d_store := signal (set_row ?k (\<lambda>d. release (d\<lparr>Status := StatusDelivered, LastError := []\<rparr>)) ?s)\<rparr>"
    | (retry) "outcome res = OutcomeRetryable" "\<not> gives_up res del d"
      "d' = d\<lparr>d_store := signal (set_row ?k (\<lambda>d. release (d\<lparr>Status := StatusPending, Attempt := Attempt del,
         NextAttempt := ?nxt, LastError := ?m\<rparr>)) ?s)\<rparr>"
    | (up) "outcome res \<noteq> OutcomeSuccess" "gives_up res del d" "d' = exhaust memory_store e owner del ?m d"
    using assms(3-5)
    by (cases "outcome res") (auto simp: deliverOne_def gives_up_def MarkDelivered_def markTerminal_def MarkFailed_def
        Let_def reportDeliveryError_def)
  note C = this
  show "row (d_store d') ?k = Some (marked_row now rnd del res d r)"
    using C by cases (simp_all add: marked_row_def r store_simps ex X(2))
  show "d_errors d' = d_errors d" using C by cases (simp_all add: ex)
  show "held_in (d_store d') (SubscriberID r)" if "gives_up res del d" using C that by cases (simp_all add: ex X(3))
  show "Status r' \<noteq> StatusPending"
    if "gives_up res del d" "row (d_store d') k' = Some r'" "SubscriberID r' = SubscriberID r"
    using C that X(4) by cases (simp_all add: ex)
  show "d_suspends d' = d_suspends d @ (if gives_up res del d \<and> d_onSuspend d then [SubscriberID del] else [])"
    using C by cases (simp_all add: ex)
qed

text \<open>
  Claim C34. The result of an attempt settles the row it was made for, while the worker still holds
  its claim: a success marks it delivered; a permanent failure, or a retryable one with no attempts
  left, dead-letters it, suspends the subscriber, leaves none of its rows pending and calls
  \<^verbatim>\<open>OnSuspend\<close>; any other failure puts it back as pending, due after the backoff of its attempt number.
  No error is reported.
\<close>

theorem deliver_settles_row:
  assumes "mem_inv (d_store d)" "fair_env e" "ctx_err e = None"
    "requireOwner (d_store d) (ID del) owner (Generation del) = Inr r"
    "d' = deliverOne memory_store e now rnd owner del res d"
  shows "row (d_store d') (ID del) = Some (marked_row now rnd del res d r) \<and> d_errors d' = d_errors d \<and>
    d_suspends d' = d_suspends d @ (if gives_up res del d \<and> d_onSuspend d then [SubscriberID del] else []) \<and>
    (gives_up res del d \<longrightarrow> held_in (d_store d') (SubscriberID r) \<and>
       (\<forall>k' r'. row (d_store d') k' = Some r' \<longrightarrow> SubscriberID r' = SubscriberID r \<longrightarrow> Status r' \<noteq> StatusPending))"
  using delivered_one [OF assms] by blast

definition posting_row :: delivery where
  "posting_row = (case sy_pool sample_two ! 0 of (tok, WPosting x xs) \<Rightarrow> x | _ \<Rightarrow> undefined)"

definition gone_result :: Result where
  "gone_result = \<lparr>outcome = OutcomePermanent, StatusCode = 410, Err = None\<rparr>"

lemma sample_two_inv: "mem_inv (d_store (sy_d sample_two))"
  using mem_fenced.run_explained [OF sample_runs(1) sys_inv_init [OF New_sample sample_sound]]
  by (simp add: explained_def sys_inv_def)

theorem deliver_settles_row_witness:
  "\<exists>r. requireOwner (d_store (sy_d sample_two)) (ID posting_row) ''worker-0'' (Generation posting_row) = Inr r \<and>
     held_in (d_store (deliverOne memory_store (live_env 5) 5 id ''worker-0'' posting_row gone_result (sy_d sample_two))) (SubscriberID r)"
proof -
  let ?q = "requireOwner (d_store (sy_d sample_two)) (ID posting_row) ''worker-0'' (Generation posting_row)"
  have "\<not> isl ?q" by code_simp
  then obtain r where r: "?q = Inr r" by (cases ?q) simp_all
  have "gives_up gone_result posting_row (sy_d sample_two)" by (simp add: gives_up_def gone_result_def)
  then show ?thesis
    using deliver_settles_row [OF sample_two_inv _ _ r refl, of "live_env 5"] r by (metis live_env_simps(1,4))
qed

text \<open>
  Claim C35. A worker that has lost its claim cannot change anything: when the row is not in flight under
  its owner and the generation of its claim, whatever the result of its attempt, the store is left as
  it was, the host's \<^verbatim>\<open>OnSuspend\<close> is not called, and exactly one error is reported to
  \<^verbatim>\<open>OnDeliveryError\<close>, naming the row, if there is such a hook.
\<close>

theorem deliver_reports_lost_claim:
  assumes "ctx_err e = None" "requireOwner (d_store d) (ID del) owner (Generation del) = Inl err"
    "d' = deliverOne memory_store e now rnd owner del res d"
  shows "d_store d' = d_store d \<and> d_suspends d' = d_suspends d \<and>
    (\<exists>what. d_errors d' = d_errors d @ (if d_onDeliveryError d then
       [\<lparr>Op = what, DeliveryID = ID del, me_SubscriberID = SubscriberID del, me_EventID = EventID del, me_Err = err\<rparr>]
       else []))"
  using assms
  by (cases "outcome res")
    (auto simp: deliverOne_def exhaust_def MarkDelivered_def markTerminal_def MarkFailed_def ExhaustAndSuspend_def
      Let_def reportDeliveryError_def)

theorem deliver_reports_lost_claim_witness:
  "d_store (deliverOne memory_store (live_env 5) 5 id ''worker-1'' posting_row ok_result (sy_d sample_two)) = d_store (sy_d sample_two)"
proof -
  let ?q = "requireOwner (d_store (sy_d sample_two)) (ID posting_row) ''worker-1'' (Generation posting_row)"
  have "isl ?q" by code_simp
  then obtain err where "?q = Inl err" by (auto simp: isl_def)
  from deliver_reports_lost_claim [OF _ this refl, of "live_env 5"] show ?thesis by simp
qed

section \<open>Resize\<close>

text \<open>A goroutine goes on while its index is in the pool, and leaves when it is not.\<close>

lemma claimBatch_leaves:
  assumes "int64 w" "0 \<le> w"
  shows "fst (claimBatch ops e (claimOwnerID node inc w) d) = None \<longleftrightarrow> d_workers d \<le> w"
  using assms by (auto simp: claimBatch_def parse_claimOwnerID split: prod.split)

lemma resized:
  assumes "Resize ctxerr ws d = (None, d')" "ws \<noteq> d_workers d"
  shows "ctxerr = None \<and> 0 < ws \<and> d_workers d' = ws \<and> d_generation d' = d_generation d + 1 \<and> d_store d' = d_store d \<and>
    d_spawned d' = d_spawned d @ map (claimOwnerID (d_nodeID d) (d_incarnationID d)) [d_workers d..ws - 1]"
proof -
  obtain o1 where "ctxerr = None" "0 < ws"
    "d' = spawn_range (d_workers d) ws (d\<lparr>d_own := o1, d_workers := ws, d_generation := d_generation d + 1\<rparr>)"
    using assms by (auto simp: Resize_def split: option.splits if_splits sum.splits)
  then show ?thesis by simp
qed

text \<open>
  A resize that succeeds with a new size bumps the generation by one, leaves every row of the
  store as it was, starts exactly the goroutines the larger pool lacks, and from then on a goroutine
  claims again if and only if its index is in the new pool: those beyond it leave.
\<close>

theorem resize_switches_pool:
  assumes "Resize ctxerr ws d = (None, d')" "ws \<noteq> d_workers d"
  shows "d_generation d' = d_generation d + 1 \<and> d_store d' = d_store d \<and> d_workers d' = ws \<and>
    d_spawned d' = d_spawned d @ map (claimOwnerID (d_nodeID d) (d_incarnationID d)) [d_workers d..ws - 1] \<and>
    (\<forall>w. int64 w \<longrightarrow> 0 \<le> w \<longrightarrow>
       (fst (claimBatch ops e (claimOwnerID (d_nodeID d) (d_incarnationID d) w) d') = None \<longleftrightarrow> ws \<le> w))"
  using resized [OF assms] claimBatch_leaves by metis

theorem resize_switches_pool_witness:
  "d_spawned (snd (Resize None 3 started_d)) = [''worker-0'', ''worker-1'', ''worker-2''] \<and>
   d_generation (snd (Resize None 3 started_d)) = d_generation started_d + 1"
proof -
  have e: "fst (Resize None 3 started_d) = None" "d_workers started_d = 2"
    "d_spawned (snd (Resize None 3 started_d)) = [''worker-0'', ''worker-1'', ''worker-2'']" by code_simp+
  then have r: "Resize None 3 started_d = (None, snd (Resize None 3 started_d))" by (metis prod.collapse)
  show ?thesis using conjunct1 [OF resize_switches_pool [OF r, where ops = memory_store]] e by simp
qed

section \<open>Close\<close>

lemma count_rows_zero:
  "count_rows p s = 0 \<Longrightarrow> row s k = Some d \<Longrightarrow> \<not> p d"
  using filter_empty_conv [of "\<lambda>(k, d). p d" "byID s"] by (auto simp: count_rows_def row_def dest!: map_of_SomeD)

lemma close_polled:
  assumes "Close_poll memory_store True e stop d = (Some None, d')"
  shows "d_cancelled d' \<and> d_store d' = d_store d \<and>
    (\<forall>k r. row (d_store d') k = Some r \<longrightarrow> Status r \<noteq> StatusPending \<and> Status r \<noteq> StatusInFlight)"
proof -
  let ?p = "\<lambda>d. Status d = StatusPending \<or> Status d = StatusInFlight"
  have "d' = d\<lparr>d_cancelled := True\<rparr> \<and> count_rows ?p (d_store d) = 0"
    using assms by (auto simp: Close_poll_def pendingCount_def PendingOrInFlight_def Let_def split: option.splits if_splits)
  then have "d' = d\<lparr>d_cancelled := True\<rparr>" "\<not> ?p r" if "row (d_store d) k = Some r" for k r
    using count_rows_zero [OF _ that, of ?p] by blast+
  then show ?thesis using \<open>d' = _ \<and> _\<close> by simp
qed

text \<open>
  Claim C37. When \<^verbatim>\<open>Close\<close> returns without an error after waiting, no row of the store is pending or in
  flight at that moment, and the workers have been told to stop. From the moment \<^verbatim>\<open>Close\<close> began every
  dispatch was refused.
\<close>

theorem close_returns_drained:
  assumes "Close_begin d0 = (None, d1)" "d_closed d = d_closed d1" "Close_poll memory_store True e stop d = (Some None, d')"
  shows "d_cancelled d' \<and> d_store d' = d_store d \<and>
    (\<forall>k r. row (d_store d') k = Some r \<longrightarrow> Status r \<noteq> StatusPending \<and> Status r \<noteq> StatusInFlight) \<and>
    (\<exists>err. Dispatch memory_store marshal e' ctxerr rnds nows ev ss d = (Some err, d))"
proof -
  have "d_closed d" using assms(1,2) by (auto simp: Close_begin_def Let_def split: if_splits)
  then have "\<not> (ctxerr = None \<and> dispatchable d ev ss)" by (simp add: dispatchable_def)
  from Dispatch_cases(1) [OF this] close_polled [OF assms(3)] show ?thesis by (intro conjI) blast+
qed

theorem close_returns_drained_witness:
  "d_cancelled (snd (Close_poll memory_store True (live_env 9) None (snd (Close_begin started_d))))"
proof -
  let ?d1 = "snd (Close_begin started_d)"
  have "fst (Close_begin started_d) = None" by code_simp
  then have b: "Close_begin started_d = (None, ?d1)" by (metis prod.collapse)
  have "fst (Close_poll memory_store True (live_env 9) None ?d1) = Some None" by code_simp
  then have "Close_poll memory_store True (live_env 9) None ?d1 =
      (Some None, snd (Close_poll memory_store True (live_env 9) None ?d1))" by (metis prod.collapse)
  from close_returns_drained [OF b refl this] show ?thesis by blast
qed

end
