(* ===== verification/Tables.thy ===== *)
theory Tables
  imports StoreTypes
begin

text \<open>
  A SQL table of delivery rows, as an association list from its primary key, and the statements the
  Postgres store runs on it: UPDATE, DELETE and SELECT with a WHERE clause. The rows a statement
  visits are those of the list; a statement sees the table as it was when it began.
\<close>

type_synonym table = "(string \<times> delivery) list"

definition upd_where :: "(delivery \<Rightarrow> bool) \<Rightarrow> (delivery \<Rightarrow> delivery) \<Rightarrow> table \<Rightarrow> table" where
  "upd_where p f T = map (\<lambda>(k, d). (k, if p d then f d else d)) T"

definition sel_where :: "(delivery \<Rightarrow> bool) \<Rightarrow> table \<Rightarrow> delivery list" where
  "sel_where p T = filter p (map snd T)"

definition cnt_where :: "(delivery \<Rightarrow> bool) \<Rightarrow> table \<Rightarrow> int" where
  "cnt_where p T = int (length (sel_where p T))"

definition keyed :: "table \<Rightarrow> bool" where
  "keyed T \<longleftrightarrow> distinct (map fst T) \<and> (\<forall>(k, d) \<in> set T. ID d = k)"

lemma map_of_upd_where [store_simps]:
  "map_of (upd_where p f T) k = map_option (\<lambda>d. if p d then f d else d) (map_of T k)"
  by (induction T) (auto simp: upd_where_def)

lemma keys_upd_where [simp]: "map fst (upd_where p f T) = map fst T"
  by (induction T) (auto simp: upd_where_def)

lemma keyed_upd_where: "keyed T \<Longrightarrow> (\<And>d. ID (f d) = ID d) \<Longrightarrow> keyed (upd_where p f T)"
  by (auto simp: keyed_def upd_where_def comp_def split_def)

lemma keyedD: "keyed T \<Longrightarrow> map_of T k = Some d \<Longrightarrow> ID d = k"
  by (auto simp: keyed_def dest!: map_of_SomeD)

lemma in_sel_where: "keyed T \<Longrightarrow> d \<in> set (sel_where p T) \<longleftrightarrow> map_of T (ID d) = Some d \<and> p d"
  by (force simp: sel_where_def keyed_def dest: map_of_SomeD intro: map_of_is_SomeI)

lemma sel_where_ID: "keyed T \<Longrightarrow> map ID (map snd T) = map fst T"
  by (induction T) (auto simp: keyed_def)

lemma distinct_sel_where: "keyed T \<Longrightarrow> distinct (map ID (sel_where p T))"
proof -
  assume k: "keyed T"
  have "distinct (map ID (map snd T))" unfolding sel_where_ID [OF k] using k by (simp add: keyed_def)
  then show ?thesis unfolding sel_where_def by (rule distinct_map_filter)
qed

lemma cnt_where_pos: "keyed T \<Longrightarrow> 0 < cnt_where p T \<longleftrightarrow> (\<exists>k d. map_of T k = Some d \<and> p d)"
proof -
  assume k: "keyed T"
  have "0 < cnt_where p T \<longleftrightarrow> (\<exists>d. d \<in> set (sel_where p T))"
    unfolding cnt_where_def by (cases "sel_where p T") auto
  also have "\<dots> \<longleftrightarrow> (\<exists>k d. map_of T k = Some d \<and> p d)"
    using in_sel_where [OF k] keyedD [OF k] by metis
  finally show ?thesis .
qed

lemma cnt_where_zero: "keyed T \<Longrightarrow> cnt_where p T = 0 \<longleftrightarrow> (\<forall>k d. map_of T k = Some d \<longrightarrow> \<not> p d)"
  using cnt_where_pos [of T p] by (auto simp: cnt_where_def)

lemma map_of_snoc: "map_of T k' = None \<Longrightarrow> map_of (T @ [(k', d)]) = (map_of T)(k' \<mapsto> d)"
  by (auto simp: map_add_def fun_eq_iff split: option.split)

lemma keyed_snoc: "keyed T \<Longrightarrow> map_of T (ID d) = None \<Longrightarrow> keyed (T @ [(ID d, d)])"
  by (auto simp: keyed_def map_of_eq_None_iff)

lemma map_of_delete: "map_of (AList.delete k T) = (map_of T)(k := None)"
  by (simp add: delete_conv' fun_eq_iff)

lemma keyed_delete: "keyed T \<Longrightarrow> keyed (AList.delete k T)"
  by (auto simp: keyed_def AList.delete_eq split_def intro: distinct_map_filter)

end
