(* ===== verification/Postgres.thy ===== *)
theory Postgres
  imports Tables Memory Hash Ownership
begin

text \<open>
  \<^verbatim>\<open>store/postgres/postgres.go\<close>: the Postgres store. The database is its four tables; a \<^verbatim>\<open>Store\<close> value is
  the process-local part (bounds, test toggles, the ownership flag, the notify channel). A statement
  is a function on the tables, a call a composition of statements. A transaction that fails is rolled
  back, so a call that reports an error from inside one leaves the tables as they were.
  NULL in \<^verbatim>\<open>owner\<close> is the empty string, and in \<^verbatim>\<open>claimed_at\<close> the zero time: \<^verbatim>\<open>scanDelivery\<close> reads them so.
  Calls run one after another; rows other sessions have locked are an input of \<^verbatim>\<open>Claim\<close>.
\<close>

section \<open>State\<close>

datatype owner_state = PoActive | PoDraining

record owner_row =
  owner_node :: string
  po_generation :: int
  po_state :: owner_state
  next_owner :: "string option"

record pgdb =
  deliveries :: table
  subscriber_seq :: "string \<rightharpoonup> int"
  subscribers :: "string \<rightharpoonup> subMeta"
  partition_owners :: "(int \<times> owner_row) list"

record pgproc =
  pg_RetentionMaxCount :: int
  pg_RetentionMaxAge :: duration
  pg_DisableHOL :: bool
  pg_SkipSuspendGate :: bool
  BypassDrainingClaimGate :: bool
  SkipInFlightReset :: bool
  SkipMarkOwnerGenCheck :: bool
  distributedOwnership :: bool
  pg_notify :: bool

record pg =
  db :: pgdb
  proc :: pgproc

text \<open>
  What a call reads beside its arguments: the error of its context; the clocks of the process and of
  the server (\<^verbatim>\<open>now()\<close>); which statement the database refuses, if any; the rows locked by other
  sessions; the collation of text, as the sort key of a string; the order rows come back in; and the
  order of the map of touched subscribers.
\<close>

datatype stmt = SRefresh | SMeta | SMain

record pgenv =
  pe_ctx :: "string option"
  pe_clock :: gotime
  pe_now :: gotime
  pe_fault :: "stmt \<Rightarrow> string option"
  pe_locked :: "string \<Rightarrow> bool"
  pe_collate :: "string \<Rightarrow> string"
  pe_arrange :: "delivery list \<Rightarrow> delivery list"
  pe_touched :: "string list \<Rightarrow> string list"

definition fair_pg :: "pgenv \<Rightarrow> bool" where
  "fair_pg e \<longleftrightarrow> (\<forall>ds. mset (pe_arrange e ds) = mset ds) \<and> (\<forall>xs. set (pe_touched e xs) = set xs)"

text \<open>TIMESTAMPTZ keeps microseconds.\<close>

definition micros :: "gotime \<Rightarrow> gotime" where
  "micros t = t - t mod 1000"

definition pg_DefaultRetentionMaxCount :: int where "pg_DefaultRetentionMaxCount = 1000"
definition pg_DefaultRetentionMaxAge :: duration where "pg_DefaultRetentionMaxAge = 24 * hour"

definition pg_empty :: pg where
  "pg_empty = \<lparr>db = \<lparr>deliveries = [], subscriber_seq = Map.empty, subscribers = Map.empty, partition_owners = []\<rparr>,
     proc = \<lparr>pg_RetentionMaxCount = 0, pg_RetentionMaxAge = 0, pg_DisableHOL = False, pg_SkipSuspendGate = False,
       BypassDrainingClaimGate = False, SkipInFlightReset = False, SkipMarkOwnerGenCheck = False,
       distributedOwnership = False, pg_notify = False\<rparr>\<rparr>"

definition pg_signal :: "pg \<Rightarrow> pg" where
  "pg_signal s = s\<lparr>proc := (proc s)\<lparr>pg_notify := True\<rparr>\<rparr>"

definition SetDistributedOwnership :: "bool \<Rightarrow> pg \<Rightarrow> pg" where
  "SetDistributedOwnership v s = s\<lparr>proc := (proc s)\<lparr>distributedOwnership := v\<rparr>\<rparr>"

definition HasDistributedOwnership :: "pg \<Rightarrow> bool" where
  "HasDistributedOwnership s = distributedOwnership (proc s)"

definition refreshDistributedOwnership :: "pgenv \<Rightarrow> pg \<Rightarrow> store_error option \<times> pg" where
  "refreshDistributedOwnership e s =
     (case pe_fault e SRefresh of
        Some m \<Rightarrow> (Some (EDatabase m), s)
      | None \<Rightarrow> (None, if partition_owners (db s) \<noteq> [] then SetDistributedOwnership True s else s))"

definition pg_retentionCount :: "pgproc \<Rightarrow> int" where
  "pg_retentionCount p = (if pg_RetentionMaxCount p > 0 then pg_RetentionMaxCount p else pg_DefaultRetentionMaxCount)"

definition pg_retentionAge :: "pgproc \<Rightarrow> duration" where
  "pg_retentionAge p = (if pg_RetentionMaxAge p > 0 then pg_RetentionMaxAge p else pg_DefaultRetentionMaxAge)"

section \<open>Retention\<close>

definition dropRetainedTx :: "string \<Rightarrow> string \<Rightarrow> int \<Rightarrow> string \<Rightarrow> pgdb \<Rightarrow> pgdb" where
  "dropRetainedTx x k n reason t =
     (let t1 = t\<lparr>deliveries := AList.delete k (deliveries t)\<rparr>;
          m = (case subscribers t1 x of
                 None \<Rightarrow> \<lparr>suspended = True, gap = True, dropped = 1, marker = []\<rparr>
               | Some m \<Rightarrow> m\<lparr>gap := True, dropped := dropped m + 1\<rparr>)
      in t1\<lparr>subscribers := (subscribers t1)(x \<mapsto> m\<lparr>marker := gap_marker x (dropped m) n reason\<rparr>)\<rparr>)"

fun drop_rows :: "string \<Rightarrow> string \<Rightarrow> delivery list \<Rightarrow> pgdb \<Rightarrow> pgdb" where
  "drop_rows x reason [] t = t"
| "drop_rows x reason (d # ds) t = drop_rows x reason ds (dropRetainedTx x (ID d) (Sequence d) reason t)"

text \<open>\<^verbatim>\<open>SELECT ... ORDER BY sequence ASC\<close>\<close>

definition retained_by_seq :: "(delivery \<Rightarrow> bool) \<Rightarrow> string \<Rightarrow> pgdb \<Rightarrow> delivery list" where
  "retained_by_seq p x t =
     sort_key Sequence (sel_where (\<lambda>d. SubscriberID d = x \<and> Status d = StatusRetained \<and> p d) (deliveries t))"

definition applyRetentionTx :: "pgproc \<Rightarrow> string \<Rightarrow> gotime \<Rightarrow> pgdb \<Rightarrow> pgdb" where
  "applyRetentionTx p x t0 t =
     (let cutoff = micros (time_Add t0 (neg_duration (pg_retentionAge p)));
          t1 = drop_rows x ''age'' (retained_by_seq (\<lambda>d. CreatedAt d < cutoff) x t) t;
          retained = retained_by_seq (\<lambda>d. True) x t1
      in drop_rows x ''count'' (take (length retained - nat (pg_retentionCount p)) retained) t1)"

section \<open>Enqueue\<close>

definition is_suspended :: "pgdb \<Rightarrow> string \<Rightarrow> bool" where
  "is_suspended t x = (case subscribers t x of None \<Rightarrow> False | Some m \<Rightarrow> suspended m)"

definition not_null :: "bytes option \<Rightarrow> bytes option" where
  "not_null b = Some (case b of None \<Rightarrow> [] | Some bs \<Rightarrow> bs)"

definition pg_stored_row :: "gotime \<Rightarrow> int \<Rightarrow> bool \<Rightarrow> delivery \<Rightarrow> delivery" where
  "pg_stored_row t n retained d =
     d\<lparr>Payload := not_null (Payload d), Secret := not_null (Secret d), Sequence := n,
       Attempt := 0, NextAttempt := micros t, CreatedAt := micros t, Owner := [], Generation := 0,
       ClaimedAt := zero_time, LastError := [],
       Status := (if retained then StatusRetained else StatusPending)\<rparr>"

definition pg_next_seq :: "pgdb \<Rightarrow> string \<Rightarrow> int" where
  "pg_next_seq t x = (case subscriber_seq t x of None \<Rightarrow> 1 | Some n \<Rightarrow> n + 1)"

text \<open>The insert is refused when the primary key or \<^verbatim>\<open>UNIQUE (subscriber_id, sequence)\<close> is taken.\<close>

definition key_taken :: "delivery \<Rightarrow> table \<Rightarrow> bool" where
  "key_taken d T \<longleftrightarrow>
     list_ex (\<lambda>(k, d'). k = ID d \<or> SubscriberID d' = SubscriberID d \<and> Sequence d' = Sequence d) T"

fun pg_enqueue_loop ::
  "bool \<Rightarrow> gotime \<Rightarrow> delivery list \<Rightarrow> pgdb \<Rightarrow> string list \<Rightarrow> store_error + pgdb \<times> string list" where
  "pg_enqueue_loop skip t0 [] t touched = Inr (t, touched)"
| "pg_enqueue_loop skip t0 (d # ds) t touched =
     (if ID d = [] then Inl EMissingID
      else if SubscriberID d = [] then Inl (EMissingSubscriberID (ID d))
      else let x = SubscriberID d;
               n = pg_next_seq t x;
               t1 = t\<lparr>subscriber_seq := (subscriber_seq t)(x \<mapsto> n)\<rparr>;
               retained = (\<not> skip \<and> is_suspended t1 x);
               r = pg_stored_row t0 n retained d
           in if key_taken r (deliveries t1) then Inl (EDuplicateID (ID d))
              else pg_enqueue_loop skip t0 ds (t1\<lparr>deliveries := deliveries t1 @ [(ID d, r)]\<rparr>)
                     (if retained then List.insert x touched else touched))"

definition pg_Enqueue :: "pgenv \<Rightarrow> delivery list \<Rightarrow> pg \<Rightarrow> store_error option \<times> pg" where
  "pg_Enqueue e ds s =
     (case pe_ctx e of
        Some err \<Rightarrow> (Some (ECtx err), s)
      | None \<Rightarrow>
          if ds = [] then (None, s)
          else case pe_fault e SMain of
                 Some m \<Rightarrow> (Some (EDatabase m), s)
               | None \<Rightarrow>
                   (case pg_enqueue_loop (pg_SkipSuspendGate (proc s)) (pe_clock e) ds (db s) [] of
                      Inl err \<Rightarrow> (Some err, s)
                    | Inr (t, touched) \<Rightarrow>
                        (None, pg_signal (s\<lparr>db := fold (\<lambda>x. applyRetentionTx (proc s) x (pe_clock e))
                                                   (pe_touched e touched) t\<rparr>))))"

section \<open>Claim\<close>

definition owner_of_partition :: "pgdb \<Rightarrow> int \<Rightarrow> owner_row option" where
  "owner_of_partition t p = map_of (partition_owners t) p"

definition parseDistributedOwner :: "string \<Rightarrow> string option" where
  "parseDistributedOwner owner =
     (let parts = Split owner (CHR ''/'') in
      if length parts \<noteq> 3 then None
      else if parts ! 0 = [] \<or> parts ! 1 = [] then None
      else if \<not> HasPrefix (parts ! 2) worker_prefix then None
      else case scan_int (TrimPrefix (parts ! 2) worker_prefix) of
             None \<Rightarrow> None
           | Some n \<Rightarrow> if parts ! 2 \<noteq> worker_prefix @ show_int n then None else Some (parts ! 0))"

definition checkOwnershipMetadata :: "pgenv \<Rightarrow> pgdb \<Rightarrow> store_error option" where
  "checkOwnershipMetadata e t =
     (case pe_fault e SMeta of
        Some m \<Rightarrow> Some (EDatabase m)
      | None \<Rightarrow>
          if partition_owners t = [] then Some EOwnershipEmpty
          else let missing = cnt_where (\<lambda>d. (Status d = StatusPending \<or> Status d = StatusInFlight) \<and>
                     owner_of_partition t (PartitionNo d) = None) (deliveries t)
               in if missing > 0 then Some (EOwnershipMissing missing) else None)"

text \<open>\<^verbatim>\<open>NOT EXISTS\<close> an earlier unfinished row of the subscriber.\<close>

definition no_earlier :: "table \<Rightarrow> delivery \<Rightarrow> bool" where
  "no_earlier T d \<longleftrightarrow>
     \<not> list_ex (\<lambda>(k, d'). SubscriberID d' = SubscriberID d \<and> Sequence d' < Sequence d \<and>
          (Status d' = StatusPending \<or> Status d' = StatusInFlight)) T"

definition pg_candidates :: "pgenv \<Rightarrow> pgproc \<Rightarrow> (delivery \<Rightarrow> bool) \<Rightarrow> int \<Rightarrow> pgdb \<Rightarrow> delivery list" where
  "pg_candidates e p owned limit t =
     take (nat limit) (filter (\<lambda>d. \<not> pe_locked e (ID d))
       (sort_key (\<lambda>d. (PartitionNo d, pe_collate e (SubscriberID d), Sequence d))
         (sel_where (\<lambda>d. Status d = StatusPending \<and> NextAttempt d \<le> pe_now e \<and> owned d \<and>
              (pg_SkipSuspendGate p \<or> \<not> is_suspended t (SubscriberID d)) \<and>
              (pg_DisableHOL p \<or> no_earlier (deliveries t) d)) (deliveries t))))"

definition pg_claim_update ::
  "pgenv \<Rightarrow> string \<Rightarrow> (delivery \<Rightarrow> uint64) \<Rightarrow> delivery list \<Rightarrow> pg \<Rightarrow> (store_error + delivery list) \<times> pg" where
  "pg_claim_update e owner stamp cands s =
     (let f = (\<lambda>d. claim_row owner (stamp d) (pe_now e) d);
          ids = map ID cands
      in (Inr (pe_arrange e (map f cands)),
          s\<lparr>db := (db s)\<lparr>deliveries := upd_where (\<lambda>d. ID d \<in> set ids) f (deliveries (db s))\<rparr>\<rparr>))"

text \<open>In distributed mode only partitions the owner table gives to the node, in state active.\<close>

definition node_owns :: "pgproc \<Rightarrow> string \<Rightarrow> pgdb \<Rightarrow> delivery \<Rightarrow> bool" where
  "node_owns p node t d \<longleftrightarrow>
     (case owner_of_partition t (PartitionNo d) of
        None \<Rightarrow> False
      | Some po \<Rightarrow> owner_node po = node \<and> (BypassDrainingClaimGate p \<or> po_state po = PoActive))"

definition partition_stamp :: "pgdb \<Rightarrow> delivery \<Rightarrow> uint64" where
  "partition_stamp t d = (case owner_of_partition t (PartitionNo d) of None \<Rightarrow> 0 | Some po \<Rightarrow> word_of_int (po_generation po))"

definition pg_Claim ::
  "pgenv \<Rightarrow> string \<Rightarrow> uint64 \<Rightarrow> int list \<Rightarrow> int \<Rightarrow> pg \<Rightarrow> (store_error + delivery list) \<times> pg" where
  "pg_Claim e owner gen parts limit s =
     (case pe_ctx e of
        Some err \<Rightarrow> (Inl (ECtx err), s)
      | None \<Rightarrow>
          if owner = [] then (Inl EClaimOwner, s)
          else if gen = 0 then (Inl EClaimGeneration, s)
          else if limit \<le> 0 then (Inr [], s)
          else case refreshDistributedOwnership e s of
            (Some err, s1) \<Rightarrow> (Inl err, s1)
          | (None, s1) \<Rightarrow>
              let p = proc s1; t = db s1 in
              if \<not> distributedOwnership p then
                if parts = [] then (Inr [], s1)
                else (case pe_fault e SMain of
                        Some m \<Rightarrow> (Inl (EDatabase m), s1)
                      | None \<Rightarrow> pg_claim_update e owner (\<lambda>_. gen)
                                 (pg_candidates e p (\<lambda>d. PartitionNo d \<in> set parts) limit t) s1)
              else case parseDistributedOwner owner of
                     None \<Rightarrow> (Inl (EDistributedOwner owner), s1)
                   | Some node \<Rightarrow>
                       (case checkOwnershipMetadata e t of
                          Some err \<Rightarrow> (Inl err, s1)
                        | None \<Rightarrow>
                            (case pe_fault e SMain of
                               Some m \<Rightarrow> (Inl (EDatabase m), s1)
                             | None \<Rightarrow> pg_claim_update e owner (partition_stamp t)
                                        (pg_candidates e p (node_owns p node t) limit t) s1)))"

section \<open>Marks\<close>

text \<open>The WHERE clause of a mark. A NULL owner equals nothing.\<close>

definition mark_where :: "pgproc \<Rightarrow> string \<Rightarrow> string \<Rightarrow> uint64 \<Rightarrow> delivery \<Rightarrow> bool" where
  "mark_where p k owner gen d \<longleftrightarrow> ID d = k \<and> Status d = StatusInFlight \<and>
     (SkipMarkOwnerGenCheck p \<or> Owner d \<noteq> [] \<and> Owner d = owner \<and> Generation d = gen)"

definition pg_mark ::
  "pgenv \<Rightarrow> string \<Rightarrow> string \<Rightarrow> uint64 \<Rightarrow> (delivery \<Rightarrow> delivery) \<Rightarrow> pg \<Rightarrow> store_error option \<times> pg" where
  "pg_mark e k owner gen f s =
     (case pe_ctx e of
        Some err \<Rightarrow> (Some (ECtx err), s)
      | None \<Rightarrow>
          if gen = 0 then (Some EMarkGeneration, s)
          else case pe_fault e SMain of
                 Some m \<Rightarrow> (Some (EDatabase m), s)
               | None \<Rightarrow>
                   if cnt_where (mark_where (proc s) k owner gen) (deliveries (db s)) = 0
                   then (Some (EStaleClaim k), s)
                   else (None, pg_signal (s\<lparr>db := (db s)\<lparr>deliveries :=
                          upd_where (mark_where (proc s) k owner gen) (release \<circ> f) (deliveries (db s))\<rparr>\<rparr>)))"

definition pg_markTerminal ::
  "pgenv \<Rightarrow> string \<Rightarrow> string \<Rightarrow> uint64 \<Rightarrow> status \<Rightarrow> string \<Rightarrow> pg \<Rightarrow> store_error option \<times> pg" where
  "pg_markTerminal e k owner gen st msg s = pg_mark e k owner gen (\<lambda>d. d\<lparr>Status := st, LastError := msg\<rparr>) s"

definition pg_MarkDelivered :: "pgenv \<Rightarrow> string \<Rightarrow> string \<Rightarrow> uint64 \<Rightarrow> pg \<Rightarrow> store_error option \<times> pg" where
  "pg_MarkDelivered e k owner gen s = pg_markTerminal e k owner gen StatusDelivered [] s"

definition pg_MarkDeadLetter ::
  "pgenv \<Rightarrow> string \<Rightarrow> string \<Rightarrow> uint64 \<Rightarrow> string \<Rightarrow> pg \<Rightarrow> store_error option \<times> pg" where
  "pg_MarkDeadLetter e k owner gen msg s = pg_markTerminal e k owner gen StatusDeadLettered msg s"

definition pg_MarkFailed ::
  "pgenv \<Rightarrow> string \<Rightarrow> string \<Rightarrow> uint64 \<Rightarrow> int \<Rightarrow> gotime \<Rightarrow> string \<Rightarrow> pg \<Rightarrow> store_error option \<times> pg" where
  "pg_MarkFailed e k owner gen attempt nxt msg s =
     pg_mark e k owner gen
       (\<lambda>d. d\<lparr>Status := StatusPending, Attempt := attempt, NextAttempt := micros nxt, LastError := msg\<rparr>) s"

section \<open>Suspension and recovery\<close>

definition pg_suspend :: "string \<Rightarrow> pgdb \<Rightarrow> pgdb" where
  "pg_suspend x t = t\<lparr>subscribers := (subscribers t)(x \<mapsto>
     (case subscribers t x of
        None \<Rightarrow> \<lparr>suspended = True, gap = False, dropped = 0, marker = []\<rparr>
      | Some m \<Rightarrow> m\<lparr>suspended := True\<rparr>))\<rparr>"

definition pg_ExhaustAndSuspend ::
  "pgenv \<Rightarrow> string \<Rightarrow> string \<Rightarrow> uint64 \<Rightarrow> string \<Rightarrow> pg \<Rightarrow> store_error option \<times> pg" where
  "pg_ExhaustAndSuspend e k owner gen msg s =
     (case pe_ctx e of
        Some err \<Rightarrow> (Some (ECtx err), s)
      | None \<Rightarrow>
          if gen = 0 then (Some EMarkGeneration, s)
          else case pe_fault e SMain of
                 Some m \<Rightarrow> (Some (EDatabase m), s)
               | None \<Rightarrow>
                   (case sel_where (mark_where (proc s) k owner gen) (deliveries (db s)) of
                      [] \<Rightarrow> (Some (EStaleClaim k), s)
                    | d # _ \<Rightarrow>
                        let x = SubscriberID d; t = db s;
                            t1 = t\<lparr>deliveries := upd_where (mark_where (proc s) k owner gen)
                                   (\<lambda>d. release (d\<lparr>Status := StatusDeadLettered, LastError := msg\<rparr>)) (deliveries t)\<rparr>;
                            t2 = pg_suspend x t1;
                            t3 = t2\<lparr>deliveries := upd_where (\<lambda>d. SubscriberID d = x \<and> Status d = StatusPending)
                                   (\<lambda>d. release (d\<lparr>Status := StatusRetained\<rparr>)) (deliveries t2)\<rparr>
                        in (None, pg_signal (s\<lparr>db := applyRetentionTx (proc s) x (pe_clock e) t3\<rparr>))))"

definition pg_Resume :: "pgenv \<Rightarrow> string \<Rightarrow> pg \<Rightarrow> (store_error + GapInfo) \<times> pg" where
  "pg_Resume e x s =
     (case pe_ctx e of
        Some err \<Rightarrow> (Inl (ECtx err), s)
      | None \<Rightarrow>
          if x = [] then (Inl EResumeSubscriber, s)
          else case pe_fault e SMain of
                 Some m \<Rightarrow> (Inl (EDatabase m), s)
               | None \<Rightarrow>
                   let t1 = applyRetentionTx (proc s) x (pe_clock e) (db s) in
                   (case subscribers t1 x of
                      None \<Rightarrow> (Inr no_gap, s\<lparr>db := t1\<rparr>)
                    | Some m \<Rightarrow>
                        let t2 = t1\<lparr>deliveries := upd_where (\<lambda>d. SubscriberID d = x \<and> Status d = StatusRetained)
                                   (requeue_row (micros (pe_clock e))) (deliveries t1)\<rparr>;
                            t3 = t2\<lparr>subscribers := (subscribers t2)(x \<mapsto>
                                   m\<lparr>suspended := False, gap := False, dropped := 0, marker := []\<rparr>)\<rparr>
                        in (Inr \<lparr>Occurred = gap m, Dropped = dropped m, Marker = marker m\<rparr>, pg_signal (s\<lparr>db := t3\<rparr>))))"

definition pg_IsSuspended :: "pgenv \<Rightarrow> string \<Rightarrow> pg \<Rightarrow> (store_error + bool) \<times> pg" where
  "pg_IsSuspended e x s =
     (case pe_ctx e of
        Some err \<Rightarrow> (Inl (ECtx err), s)
      | None \<Rightarrow>
          (case pe_fault e SMain of
             Some m \<Rightarrow> (Inl (EDatabase m), s)
           | None \<Rightarrow> (Inr (is_suspended (db s) x), s)))"

definition pg_stale :: "gotime \<Rightarrow> delivery \<Rightarrow> bool" where
  "pg_stale cutoff d \<longleftrightarrow> Status d = StatusInFlight \<and> \<not> IsZero (ClaimedAt d) \<and> ClaimedAt d < cutoff"

definition pg_RecoverStale :: "pgenv \<Rightarrow> duration \<Rightarrow> pg \<Rightarrow> (store_error + int) \<times> pg" where
  "pg_RecoverStale e olderThan s =
     (case pe_ctx e of
        Some err \<Rightarrow> (Inl (ECtx err), s)
      | None \<Rightarrow>
          (case pe_fault e SMain of
             Some m \<Rightarrow> (Inl (EDatabase m), s)
           | None \<Rightarrow>
               let cutoff = micros (time_Add (pe_clock e) (neg_duration olderThan));
                   n = cnt_where (pg_stale cutoff) (deliveries (db s));
                   s1 = s\<lparr>db := (db s)\<lparr>deliveries := upd_where (pg_stale cutoff)
                          (\<lambda>d. release (d\<lparr>Status := StatusPending\<rparr>)) (deliveries (db s))\<rparr>\<rparr>
               in (Inr n, if n > 0 then pg_signal s1 else s1)))"

definition pg_BackdateClaimForTest :: "pgenv \<Rightarrow> string \<Rightarrow> gotime \<Rightarrow> pg \<Rightarrow> store_error option \<times> pg" where
  "pg_BackdateClaimForTest e k t0 s =
     (case pe_fault e SMain of
        Some m \<Rightarrow> (Some (EDatabase m), s)
      | None \<Rightarrow>
          let w = (\<lambda>d. ID d = k \<and> Status d = StatusInFlight) in
          if cnt_where w (deliveries (db s)) = 0 then (Some (ENotInFlight k), s)
          else (None, s\<lparr>db := (db s)\<lparr>deliveries := upd_where w (\<lambda>d. d\<lparr>ClaimedAt := micros t0\<rparr>) (deliveries (db s))\<rparr>\<rparr>))"

definition pg_PendingOrInFlight :: "pgenv \<Rightarrow> pg \<Rightarrow> (store_error + int) \<times> pg" where
  "pg_PendingOrInFlight e s =
     (case pe_ctx e of
        Some err \<Rightarrow> (Inl (ECtx err), s)
      | None \<Rightarrow>
          (case pe_fault e SMain of
             Some m \<Rightarrow> (Inl (EDatabase m), s)
           | None \<Rightarrow> (Inr (cnt_where (\<lambda>d. Status d = StatusPending \<or> Status d = StatusInFlight) (deliveries (db s))), s)))"

definition pg_RetainedCount :: "pgenv \<Rightarrow> string \<Rightarrow> pg \<Rightarrow> store_error + int" where
  "pg_RetainedCount e x s =
     (case pe_fault e SMain of
        Some m \<Rightarrow> Inl (EDatabase m)
      | None \<Rightarrow> Inr (cnt_where (\<lambda>d. SubscriberID d = x \<and> Status d = StatusRetained) (deliveries (db s))))"

definition TruncateForTest :: "pgenv \<Rightarrow> pg \<Rightarrow> store_error option \<times> pg" where
  "TruncateForTest e s =
     (case pe_fault e SMain of
        Some m \<Rightarrow> (Some (EDatabase m), s)
      | None \<Rightarrow> (None, SetDistributedOwnership False (s\<lparr>db := db pg_empty\<rparr>)))"

definition pg_store :: "(pgenv, pg) store_ops" where
  "pg_store = \<lparr>op_Enqueue = pg_Enqueue, op_Claim = pg_Claim, op_MarkDelivered = pg_MarkDelivered,
     op_MarkFailed = pg_MarkFailed, op_MarkDeadLetter = pg_MarkDeadLetter,
     op_ExhaustAndSuspend = pg_ExhaustAndSuspend, op_Resume = pg_Resume, op_IsSuspended = pg_IsSuspended,
     op_RecoverStale = pg_RecoverStale, op_PendingOrInFlight = pg_PendingOrInFlight\<rparr>"

lemma pg_store_simps [simp]:
  "op_Enqueue pg_store = pg_Enqueue" "op_Claim pg_store = pg_Claim"
  "op_MarkDelivered pg_store = pg_MarkDelivered" "op_MarkFailed pg_store = pg_MarkFailed"
  "op_MarkDeadLetter pg_store = pg_MarkDeadLetter" "op_ExhaustAndSuspend pg_store = pg_ExhaustAndSuspend"
  "op_Resume pg_store = pg_Resume" "op_IsSuspended pg_store = pg_IsSuspended"
  "op_RecoverStale pg_store = pg_RecoverStale" "op_PendingOrInFlight pg_store = pg_PendingOrInFlight"
  by (simp_all add: pg_store_def)

end
