(* ===== verification/PostgresRefine.thy ===== *)
theory PostgresRefine
  imports Postgres MemoryRefine
begin

text \<open>
  The Postgres store implements the abstract store: its abstraction, the refinement of every
  statement and every call, and the interpretation of \<open>ordering_store\<close>.
\<close>

section \<open>Abstract steps over several rows\<close>

definition drop_keys :: "string list \<Rightarrow> astate \<Rightarrow> astate" where
  "drop_keys ks a = a\<lparr>rows := (\<lambda>k. if k \<in> set ks then None else rows a k)\<rparr>"

lemma drop_keys_asteps:
  assumes "distinct ks" "\<forall>k \<in> set ks. \<exists>r. rows a k = Some r \<and> a_st r = StatusRetained"
  shows "\<exists>ls. asteps a ls (drop_keys ks a) \<and> claims ls = []"
  using assms
proof (induction ks arbitrary: a)
  case Nil
  then show ?case by (auto simp: drop_keys_def intro: exI [of _ "[]"])
next
  case (Cons k ks)
  let ?a = "a\<lparr>rows := (rows a)(k := None)\<rparr>"
  obtain r where r: "rows a k = Some r" "a_st r = StatusRetained" using Cons.prems(2) by auto
  obtain ls where ls: "asteps ?a ls (drop_keys ks ?a)" "claims ls = []"
    using Cons.IH [of ?a] Cons.prems by fastforce
  have "drop_keys ks ?a = drop_keys (k # ks) a" by (auto simp: drop_keys_def fun_eq_iff)
  then show ?case
    using astep.drop [OF r] ls by (auto intro!: exI [of _ "ADrop (a_sub r) (a_seq r) # ls"] asteps.step)
qed

definition claim_ready :: "astate \<Rightarrow> string \<Rightarrow> bool" where
  "claim_ready a k \<longleftrightarrow> (\<exists>r. rows a k = Some r \<and> a_st r = StatusPending \<and> \<not> held a (a_sub r) \<and>
     (\<forall>k' r'. rows a k' = Some r' \<longrightarrow> a_sub r' = a_sub r \<longrightarrow> unfinished (a_st r') \<longrightarrow> a_seq r \<le> a_seq r'))"

definition post_at :: "astate \<Rightarrow> string \<Rightarrow> string \<times> int" where
  "post_at a k = (a_sub (the (rows a k)), a_seq (the (rows a k)))"

lemma claim_keys_asteps:
  assumes "\<forall>k \<in> set ks. claim_ready a k" "distinct (map (\<lambda>k. fst (post_at a k)) ks)"
  shows "\<exists>ls. asteps a ls (fold (\<lambda>k. set_st k StatusInFlight) ks a) \<and> claims ls = map (post_at a) ks"
  using assms
proof (induction ks arbitrary: a)
  case Nil
  then show ?case by (auto intro: exI [of _ "[]"])
next
  case (Cons k ks)
  let ?a = "set_st k StatusInFlight a"
  obtain r where r: "rows a k = Some r" "a_st r = StatusPending" "\<not> held a (a_sub r)"
      "\<And>k' r'. rows a k' = Some r' \<Longrightarrow> a_sub r' = a_sub r \<Longrightarrow> unfinished (a_st r') \<Longrightarrow> a_seq r \<le> a_seq r'"
    using Cons.prems(1) by (auto simp: claim_ready_def)
  have other: "k' \<noteq> k \<and> a_sub (the (rows a k')) \<noteq> a_sub r" if "k' \<in> set ks" for k'
  proof -
    have "fst (post_at a k') \<noteq> fst (post_at a k)"
      using Cons.prems(2) imageI [OF that, of "\<lambda>k. fst (post_at a k)"] by auto
    then show ?thesis using r(1) by (auto simp: post_at_def)
  qed
  have "claim_ready ?a k'" if "k' \<in> set ks" for k'
  proof -
    obtain r1 where r1: "rows a k' = Some r1" "a_st r1 = StatusPending" "\<not> held a (a_sub r1)"
        "\<forall>k2 r2. rows a k2 = Some r2 \<longrightarrow> a_sub r2 = a_sub r1 \<longrightarrow> unfinished (a_st r2) \<longrightarrow> a_seq r1 \<le> a_seq r2"
      using Cons.prems(1) \<open>k' \<in> set ks\<close> by (auto simp: claim_ready_def)
    then show ?thesis
      using other [OF that] r(1) by (auto simp: claim_ready_def split: if_splits intro!: exI [of _ r1])
  qed
  then have ready: "\<forall>k' \<in> set ks. claim_ready ?a k'" by blast
  have post: "post_at ?a k' = post_at a k'" if "k' \<in> set ks" for k'
    using other [OF that] by (simp add: post_at_def)
  have eq: "map (post_at ?a) ks = map (post_at a) ks" "map (\<lambda>k. fst (post_at ?a k)) ks = map (\<lambda>k. fst (post_at a k)) ks"
    using post by simp_all
  have "distinct (map (\<lambda>k. fst (post_at ?a k)) ks)" unfolding eq(2) using Cons.prems(2) by simp
  from Cons.IH [OF ready this] obtain ls where
    ls: "asteps ?a ls (fold (\<lambda>k. set_st k StatusInFlight) ks ?a)" "claims ls = map (post_at a) ks"
    unfolding eq(1) by blast
  have "astep a (AClaim (a_sub r) (a_seq r)) ?a" using r by (intro astep.claim)
  then show ?case
    using ls r(1) by (auto simp: post_at_def intro!: exI [of _ "AClaim (a_sub r) (a_seq r) # ls"] asteps.step)
qed

section \<open>Abstraction and invariant\<close>

definition pg_view :: "pgdb \<Rightarrow> astate" where
  "pg_view t = \<lparr>rows = (\<lambda>k. map_option arow_of (map_of (deliveries t) k)), held = is_suspended t,
     last_seq = (\<lambda>x. case subscriber_seq t x of None \<Rightarrow> 0 | Some n \<Rightarrow> n)\<rparr>"

definition db_inv :: "pgdb \<Rightarrow> bool" where
  "db_inv t \<longleftrightarrow> keyed (deliveries t) \<and> ainv (pg_view t)"

definition pg_gates :: "pgproc \<Rightarrow> bool" where
  "pg_gates p \<longleftrightarrow> \<not> pg_DisableHOL p \<and> \<not> pg_SkipSuspendGate p"

definition pg_inv :: "pg \<Rightarrow> bool" where
  "pg_inv s \<longleftrightarrow> db_inv (db s) \<and> pg_gates (proc s)"

lemma pg_view_simps [simp]:
  "rows (pg_view t) k = map_option arow_of (map_of (deliveries t) k)" "held (pg_view t) = is_suspended t"
  "last_seq (pg_view t) x = (case subscriber_seq t x of None \<Rightarrow> 0 | Some n \<Rightarrow> n)"
  by (simp_all add: pg_view_def)

lemma pg_view_eqI:
  assumes "\<And>k. map_option arow_of (map_of (deliveries t) k) = rows a k" "is_suspended t = held a"
    "\<And>x. (case subscriber_seq t x of None \<Rightarrow> 0 | Some n \<Rightarrow> n) = last_seq a x"
  shows "pg_view t = a"
  using assms by (intro astate.equality) (simp_all add: pg_view_def fun_eq_iff)

text \<open>From one database to another by abstract steps that hand out \<open>hs\<close>.\<close>

definition db_steps :: "pgdb \<Rightarrow> pgdb \<Rightarrow> (string \<times> int) list \<Rightarrow> bool" where
  "db_steps t t' hs \<longleftrightarrow> keyed (deliveries t') \<and> (\<exists>ls. asteps (pg_view t) ls (pg_view t') \<and> claims ls = hs)"

lemma db_invD: "db_inv t \<Longrightarrow> keyed (deliveries t)" "db_inv t \<Longrightarrow> ainv (pg_view t)"
  by (simp_all add: db_inv_def)

lemma db_steps_inv: "db_inv t \<Longrightarrow> db_steps t t' hs \<Longrightarrow> db_inv t'"
  using asteps_ainv by (auto simp: db_inv_def db_steps_def)

lemma db_steps_trans: "db_steps t t1 [] \<Longrightarrow> db_steps t1 t2 hs \<Longrightarrow> db_steps t t2 hs"
  using asteps_append by (fastforce simp: db_steps_def)

lemma db_steps_refl: "db_inv t \<Longrightarrow> db_steps t t []"
  by (auto simp: db_steps_def db_inv_def intro: exI [of _ "[]"])

lemma db_steps_one: "keyed (deliveries t') \<Longrightarrow> astep (pg_view t) l (pg_view t') \<Longrightarrow> claim_of l = [] \<Longrightarrow> db_steps t t' []"
  by (auto simp: db_steps_def intro!: exI [of _ "[l]"] asteps_one)

lemma is_suspended_simps [simp]:
  "is_suspended (t\<lparr>deliveries := T\<rparr>) = is_suspended t" "is_suspended (t\<lparr>subscriber_seq := q\<rparr>) = is_suspended t"
  "is_suspended (t\<lparr>partition_owners := po\<rparr>) = is_suspended t"
  "is_suspended (t\<lparr>subscribers := (subscribers t)(x \<mapsto> m)\<rparr>) = (is_suspended t)(x := suspended m)"
  by (simp_all add: is_suspended_def fun_eq_iff)

text \<open>An UPDATE of rows in flight to one new status.\<close>

lemma view_upd_where:
  assumes "\<And>d. p d \<Longrightarrow> arow_of (f d) = (arow_of d)\<lparr>a_st := st\<rparr>"
    "\<And>k. k \<in> set ks \<longleftrightarrow> (\<exists>d. map_of (deliveries t) k = Some d \<and> p d)"
  shows "pg_view (t\<lparr>deliveries := upd_where p f (deliveries t)\<rparr>) = fold (\<lambda>k. set_st k st) ks (pg_view t)"
proof (rule pg_view_eqI)
  fix k
  show "map_option arow_of (map_of (deliveries (t\<lparr>deliveries := upd_where p f (deliveries t)\<rparr>)) k) =
      rows (fold (\<lambda>k. set_st k st) ks (pg_view t)) k"
    by (cases "map_of (deliveries t) k") (auto simp: store_simps fold_set_st assms)
qed (simp_all add: fold_set_st)

lemma keys_where:
  "keyed T \<Longrightarrow> distinct (map ID (sel_where p T))"
  "keyed T \<Longrightarrow> k \<in> set (map ID (sel_where p T)) \<longleftrightarrow> (\<exists>d. map_of T k = Some d \<and> p d)"
proof -
  assume k: "keyed T"
  show "distinct (map ID (sel_where p T))" using distinct_sel_where [OF k] .
next
  assume k: "keyed T"
  have "k \<in> set (map ID (sel_where p T)) \<longleftrightarrow> (\<exists>d. ID d = k \<and> map_of T (ID d) = Some d \<and> p d)"
    using in_sel_where [OF k, of _ p] by auto
  then show "k \<in> set (map ID (sel_where p T)) \<longleftrightarrow> (\<exists>d. map_of T k = Some d \<and> p d)"
    using keyedD [OF k] by metis
qed

lemma retry_where:
  assumes "db_inv t" "\<And>d. p d \<Longrightarrow> Status d = StatusInFlight" "\<And>d. ID (f d) = ID d"
    "\<And>d. p d \<Longrightarrow> arow_of (f d) = (arow_of d)\<lparr>a_st := StatusPending\<rparr>"
  shows "db_steps t (t\<lparr>deliveries := upd_where p f (deliveries t)\<rparr>) []"
proof -
  note k = db_invD(1) [OF assms(1)]
  note ks = keys_where [OF k, where p = p]
  have "\<exists>ls. asteps (pg_view t) ls (fold (\<lambda>k. set_st k StatusPending) (map ID (sel_where p (deliveries t))) (pg_view t)) \<and>
      claims ls = []"
  proof (rule retry_all_asteps [OF ks(1)], intro ballI)
    fix k assume "k \<in> set (map ID (sel_where p (deliveries t)))"
    then obtain d where "map_of (deliveries t) k = Some d" "p d" using ks(2) by blast
    then show "\<exists>r. rows (pg_view t) k = Some r \<and> a_st r = StatusInFlight"
      using assms(2) by (simp add: arow_of_def)
  qed
  then show ?thesis
    using view_upd_where [where p = p and f = f, OF assms(4) ks(2)] keyed_upd_where [OF k assms(3)]
    by (simp add: db_steps_def)
qed

section \<open>Retention\<close>

lemma dropRetainedTx_frame:
  assumes "is_suspended t x"
  shows "map_of (deliveries (dropRetainedTx x k n reason t)) = (map_of (deliveries t))(k := None)"
    "keyed (deliveries t) \<Longrightarrow> keyed (deliveries (dropRetainedTx x k n reason t))"
    "is_suspended (dropRetainedTx x k n reason t) = is_suspended t"
    "subscriber_seq (dropRetainedTx x k n reason t) = subscriber_seq t"
    "partition_owners (dropRetainedTx x k n reason t) = partition_owners t"
  using assms
  by (auto simp: dropRetainedTx_def Let_def map_of_delete keyed_delete is_suspended_def fun_eq_iff split: option.split)

lemma drop_rows_frame:
  "is_suspended t x \<Longrightarrow> map_of (deliveries (drop_rows x reason ds t)) =
     (\<lambda>k. if k \<in> ID ` set ds then None else map_of (deliveries t) k)"
  "is_suspended t x \<Longrightarrow> keyed (deliveries t) \<Longrightarrow> keyed (deliveries (drop_rows x reason ds t))"
  "is_suspended t x \<Longrightarrow> is_suspended (drop_rows x reason ds t) = is_suspended t"
  "subscriber_seq (drop_rows x reason ds t) = subscriber_seq t"
  "partition_owners (drop_rows x reason ds t) = partition_owners t"
proof (induction ds arbitrary: t)
  case (Cons d ds)
  { case 1 then show ?case using Cons.IH(1) by (auto simp: dropRetainedTx_frame fun_eq_iff) }
  { case 2 then show ?case using Cons.IH(2) by (simp add: dropRetainedTx_frame) }
  { case 3 then show ?case using Cons.IH(3) by (simp add: dropRetainedTx_frame) }
  { case 4 then show ?case using Cons.IH(4) by (simp add: dropRetainedTx_def Let_def) }
  { case 5 then show ?case using Cons.IH(5) by (simp add: dropRetainedTx_def Let_def) }
qed auto

lemma drop_rows_steps:
  assumes "db_inv t" "distinct (map ID ds)"
    "\<forall>d \<in> set ds. map_of (deliveries t) (ID d) = Some d \<and> SubscriberID d = x \<and> Status d = StatusRetained"
  shows "db_steps t (drop_rows x reason ds t) []"
proof (cases ds)
  case Nil
  then show ?thesis using db_steps_refl [OF assms(1)] by simp
next
  case (Cons d ds')
  have d: "rows (pg_view t) (ID d) = Some (arow_of d)" "SubscriberID d = x" "Status d = StatusRetained"
    using assms(3) Cons by auto
  have "hold_inv (pg_view t)" using db_invD(2) [OF assms(1)] by (simp add: ainv_def)
  then have sus: "is_suspended t x" using hold_invD(2) [OF _ d(1)] d(2,3) by auto
  note f = drop_rows_frame(1-3) [OF sus, where ds = ds and reason = reason]
  have "\<exists>ls. asteps (pg_view t) ls (drop_keys (map ID ds) (pg_view t)) \<and> claims ls = []"
    using assms(2,3) by (intro drop_keys_asteps) auto
  moreover have "pg_view (drop_rows x reason ds t) = drop_keys (map ID ds) (pg_view t)"
    by (rule pg_view_eqI) (auto simp: f drop_rows_frame(4) drop_keys_def)
  ultimately show ?thesis using f(2) db_invD(1) [OF assms(1)] by (simp add: db_steps_def)
qed

lemma retained_by_seq_props:
  assumes "keyed (deliveries t)"
  shows "distinct (map ID (retained_by_seq p x t))"
    "d \<in> set (retained_by_seq p x t) \<longleftrightarrow>
       map_of (deliveries t) (ID d) = Some d \<and> SubscriberID d = x \<and> Status d = StatusRetained \<and> p d"
    "sorted (map Sequence (retained_by_seq p x t))"
proof -
  let ?S = "sel_where (\<lambda>d. SubscriberID d = x \<and> Status d = StatusRetained \<and> p d) (deliveries t)"
  have "mset (map ID (sort_key Sequence ?S)) = mset (map ID ?S)" by simp
  then show "distinct (map ID (retained_by_seq p x t))"
    unfolding retained_by_seq_def using distinct_sel_where [OF assms] mset_eq_imp_distinct_iff by blast
  show "d \<in> set (retained_by_seq p x t) \<longleftrightarrow>
      map_of (deliveries t) (ID d) = Some d \<and> SubscriberID d = x \<and> Status d = StatusRetained \<and> p d"
    by (simp add: retained_by_seq_def in_sel_where [OF assms])
  show "sorted (map Sequence (retained_by_seq p x t))" by (simp add: retained_by_seq_def)
qed

lemma retention_steps: "db_inv t \<Longrightarrow> db_steps t (applyRetentionTx p x t0 t) []"
proof -
  assume i: "db_inv t"
  let ?t1 = "drop_rows x ''age'' (retained_by_seq (\<lambda>d. CreatedAt d < micros (time_Add t0 (neg_duration (pg_retentionAge p)))) x t) t"
  let ?n = "length (retained_by_seq (\<lambda>d. True) x ?t1) - nat (pg_retentionCount p)"
  have s1: "db_steps t ?t1 []"
    using retained_by_seq_props [OF db_invD(1) [OF i]] by (intro drop_rows_steps [OF i]) auto
  have i1: "db_inv ?t1" by (rule db_steps_inv [OF i s1])
  note r = retained_by_seq_props [OF db_invD(1) [OF i1]]
  have "db_steps ?t1 (drop_rows x ''count'' (take ?n (retained_by_seq (\<lambda>d. True) x ?t1)) ?t1) []"
    using r(1,2) by (intro drop_rows_steps [OF i1]) (auto simp: distinct_take take_map [symmetric] dest!: in_set_takeD)
  then show ?thesis using db_steps_trans [OF s1] by (simp add: applyRetentionTx_def Let_def)
qed

lemma retention_fold_steps: "db_inv t \<Longrightarrow> db_steps t (fold (\<lambda>x. applyRetentionTx p x t0) xs t) []"
proof (induction xs arbitrary: t)
  case (Cons x xs)
  have s: "db_steps t (applyRetentionTx p x t0 t) []" using retention_steps [OF Cons.prems] .
  show ?case using db_steps_trans [OF s Cons.IH [OF db_steps_inv [OF Cons.prems s]]] by simp
qed (simp add: db_steps_refl)

section \<open>Enqueue\<close>

lemma pg_stored_row_simps [simp]:
  "ID (pg_stored_row t n r d) = ID d" "SubscriberID (pg_stored_row t n r d) = SubscriberID d"
  "Sequence (pg_stored_row t n r d) = n" "PartitionNo (pg_stored_row t n r d) = PartitionNo d"
  "Status (pg_stored_row t n r d) = (if r then StatusRetained else StatusPending)"
  by (simp_all add: pg_stored_row_def)

lemma not_key_taken: "\<not> key_taken d T \<Longrightarrow> map_of T (ID d) = None"
  by (force simp: key_taken_def list_ex_iff map_of_eq_None_iff)

definition pg_enqueue_row :: "gotime \<Rightarrow> delivery \<Rightarrow> pgdb \<Rightarrow> pgdb" where
  "pg_enqueue_row t0 d t = t\<lparr>subscriber_seq := (subscriber_seq t)(SubscriberID d \<mapsto> pg_next_seq t (SubscriberID d)),
     deliveries := deliveries t @
       [(ID d, pg_stored_row t0 (pg_next_seq t (SubscriberID d)) (is_suspended t (SubscriberID d)) d)]\<rparr>"

lemma pg_enqueue_row_steps:
  assumes "db_inv t" "map_of (deliveries t) (ID d) = None"
  shows "db_steps t (pg_enqueue_row t0 d t) []"
proof (rule db_steps_one)
  let ?x = "SubscriberID d" and ?n = "pg_next_seq t (SubscriberID d)"
  let ?r = "pg_stored_row t0 ?n (is_suspended t ?x) d"
  show "keyed (deliveries (pg_enqueue_row t0 d t))"
    using keyed_snoc [of "deliveries t" ?r] assms db_invD(1) by (simp add: pg_enqueue_row_def)
  have n: "?n = last_seq (pg_view t) ?x + 1" by (simp add: pg_next_seq_def split: option.split)
  have "astep (pg_view t) (AEnqueue ?x ?n) ((pg_view t)\<lparr>rows := (rows (pg_view t))(ID d \<mapsto>
      \<lparr>a_sub = ?x, a_seq = ?n, a_st = if held (pg_view t) ?x then StatusRetained else StatusPending\<rparr>),
      last_seq := (last_seq (pg_view t))(?x := ?n)\<rparr>)"
    using assms(2) n by (intro astep.enqueue) simp_all
  moreover have m: "map_of (deliveries (pg_enqueue_row t0 d t)) = (map_of (deliveries t))(ID d \<mapsto> ?r)"
    by (simp add: pg_enqueue_row_def map_of_snoc [OF assms(2)] del: map_of_append)
  have "pg_view (pg_enqueue_row t0 d t) = (pg_view t)\<lparr>rows := (rows (pg_view t))(ID d \<mapsto>
      \<lparr>a_sub = ?x, a_seq = ?n, a_st = if held (pg_view t) ?x then StatusRetained else StatusPending\<rparr>),
      last_seq := (last_seq (pg_view t))(?x := ?n)\<rparr>"
    by (rule pg_view_eqI) (simp_all add: m, simp_all add: arow_of_def pg_enqueue_row_def)
  ultimately show "astep (pg_view t) (AEnqueue ?x ?n) (pg_view (pg_enqueue_row t0 d t))" by simp
qed simp

lemma pg_enqueue_loop_steps:
  "pg_enqueue_loop False t0 ds t touched = Inr (t', touched') \<Longrightarrow> db_inv t \<Longrightarrow> db_steps t t' []"
proof (induction ds arbitrary: t touched)
  case (Cons d ds)
  let ?t1 = "pg_enqueue_row t0 d t"
  have l: "pg_enqueue_loop False t0 ds ?t1 (if is_suspended t (SubscriberID d) then List.insert (SubscriberID d) touched else touched) = Inr (t', touched')"
    and n: "map_of (deliveries t) (ID d) = None"
    using Cons.prems(1) not_key_taken by (force simp: Let_def pg_enqueue_row_def split: if_splits)+
  note s = pg_enqueue_row_steps [OF Cons.prems(2) n, of t0]
  show ?case using db_steps_trans [OF s Cons.IH [OF l db_steps_inv [OF Cons.prems(2) s]]] .
qed (simp add: db_steps_refl)

section \<open>Claim\<close>

lemma claim_ready_unique:
  assumes "ainv a" "claim_ready a k" "claim_ready a k'" "fst (post_at a k) = fst (post_at a k')"
  shows "k = k'"
proof -
  obtain r where r: "rows a k = Some r" "a_st r = StatusPending"
      "\<forall>k' r'. rows a k' = Some r' \<longrightarrow> a_sub r' = a_sub r \<longrightarrow> unfinished (a_st r') \<longrightarrow> a_seq r \<le> a_seq r'"
    using assms(2) by (auto simp: claim_ready_def)
  obtain r' where r': "rows a k' = Some r'" "a_st r' = StatusPending"
      "\<forall>k r. rows a k = Some r \<longrightarrow> a_sub r = a_sub r' \<longrightarrow> unfinished (a_st r) \<longrightarrow> a_seq r' \<le> a_seq r"
    using assms(3) by (auto simp: claim_ready_def)
  have sub: "a_sub r = a_sub r'" using assms(4) r(1) r'(1) by (simp add: post_at_def)
  have "a_seq r \<le> a_seq r'" using r(3) r'(1,2) sub by simp
  moreover have "a_seq r' \<le> a_seq r" using r'(3) r(1,2) sub by simp
  ultimately show ?thesis
    using assms(1) seq_invD(3) [of a k r k' r'] r(1) r'(1) sub by (simp add: ainv_def)
qed

lemma claim_keys_steps:
  assumes "ainv a" "distinct ks" "\<forall>k \<in> set ks. claim_ready a k"
  shows "\<exists>ls. asteps a ls (fold (\<lambda>k. set_st k StatusInFlight) ks a) \<and> claims ls = map (post_at a) ks"
proof (rule claim_keys_asteps [OF assms(3)])
  have "inj_on (\<lambda>k. fst (post_at a k)) (set ks)"
    using claim_ready_unique [OF assms(1)] assms(3) by (auto intro!: inj_onI)
  then show "distinct (map (\<lambda>k. fst (post_at a k)) ks)" using assms(2) by (simp add: distinct_map)
qed

lemma no_earlier_least:
  assumes "keyed T" "no_earlier T d" "map_of T k' = Some d'" "SubscriberID d' = SubscriberID d" "unfinished (Status d')"
  shows "Sequence d \<le> Sequence d'"
  using assms(2-5) map_of_SomeD [OF assms(3)] by (force simp: no_earlier_def list_ex_iff unfinished_def not_less)

definition claim_fit :: "pgdb \<Rightarrow> delivery \<Rightarrow> bool" where
  "claim_fit t d \<longleftrightarrow> map_of (deliveries t) (ID d) = Some d \<and> Status d = StatusPending \<and>
     \<not> is_suspended t (SubscriberID d) \<and> no_earlier (deliveries t) d"

lemma claim_fit_ready: "db_inv t \<Longrightarrow> claim_fit t d \<Longrightarrow> claim_ready (pg_view t) (ID d)"
  using no_earlier_least [OF db_invD(1), of t d]
  by (auto simp: claim_fit_def claim_ready_def intro!: exI [of _ "arow_of d"])

lemma pg_candidates_fit:
  assumes "keyed (deliveries t)" "pg_gates p"
  shows "distinct (map ID (pg_candidates e p owned limit t))"
    "d \<in> set (pg_candidates e p owned limit t) \<Longrightarrow> claim_fit t d \<and> owned d \<and> NextAttempt d \<le> pe_now e \<and> \<not> pe_locked e (ID d)"
proof -
  let ?S = "sel_where (\<lambda>d. Status d = StatusPending \<and> NextAttempt d \<le> pe_now e \<and> owned d \<and>
              (pg_SkipSuspendGate p \<or> \<not> is_suspended t (SubscriberID d)) \<and>
              (pg_DisableHOL p \<or> no_earlier (deliveries t) d)) (deliveries t)"
  let ?key = "\<lambda>d. (PartitionNo d, pe_collate e (SubscriberID d), Sequence d)"
  have "mset (map ID (sort_key ?key ?S)) = mset (map ID ?S)" by simp
  then have "distinct (map ID (sort_key ?key ?S))"
    using distinct_sel_where [OF assms(1)] mset_eq_imp_distinct_iff by blast
  then have "distinct (map ID (filter (\<lambda>d. \<not> pe_locked e (ID d)) (sort_key ?key ?S)))" by (rule distinct_map_filter)
  then show "distinct (map ID (pg_candidates e p owned limit t))"
    unfolding pg_candidates_def by (simp add: distinct_take flip: take_map)
  show "claim_fit t d \<and> owned d \<and> NextAttempt d \<le> pe_now e \<and> \<not> pe_locked e (ID d)"
    if "d \<in> set (pg_candidates e p owned limit t)"
    using that assms(2) unfolding pg_candidates_def
    by (auto simp: in_sel_where [OF assms(1)] claim_fit_def pg_gates_def dest!: in_set_takeD)
qed

text \<open>The update and what it returns, whatever order the rows come back in.\<close>

lemma claim_update_steps:
  assumes "db_inv (db s)" "distinct (map ID cands)" "\<forall>d \<in> set cands. claim_fit (db s) d" "fair_pg e"
    "pg_claim_update e owner stamp cands s = (Inr ds, s')"
  shows "db_steps (db s) (db s') (map (\<lambda>d. (SubscriberID d, Sequence d)) ds)" "proc s' = proc s"
proof -
  let ?f = "\<lambda>d. claim_row owner (stamp d) (pe_now e) d" and ?T = "deliveries (db s)" and ?a = "pg_view (db s)"
  have ds: "ds = pe_arrange e (map ?f cands)"
    and s': "s' = s\<lparr>db := (db s)\<lparr>deliveries := upd_where (\<lambda>d. ID d \<in> set (map ID cands)) ?f ?T\<rparr>\<rparr>"
    using assms(5) by (simp_all add: pg_claim_update_def Let_def)
  show "proc s' = proc s" by (simp add: s')
  note k = db_invD(1) [OF assms(1)]
  have m: "mset ds = mset (map ?f cands)" using assms(4) by (simp add: ds fair_pg_def)
  have "mset (map ID ds) = image_mset ID (mset (map ?f cands))" using m by simp
  also have "\<dots> = mset (map ID cands)" by (simp add: image_mset.compositionality comp_def)
  finally have mID: "mset (map ID ds) = mset (map ID cands)" .
  have dist: "distinct (map ID ds)" using mset_eq_imp_distinct_iff [OF mID] assms(2) by simp
  have ids: "set (map ID ds) = set (map ID cands)" using mset_eq_setD [OF mID] .
  have ready: "\<forall>k \<in> set (map ID ds). claim_ready ?a k"
    using claim_fit_ready [OF assms(1)] assms(3) unfolding ids by auto
  obtain ls where ls: "asteps ?a ls (fold (\<lambda>k. set_st k StatusInFlight) (map ID ds) ?a)" "claims ls = map (post_at ?a) (map ID ds)"
    using claim_keys_steps [OF db_invD(2) [OF assms(1)] dist ready] by blast
  have inT: "\<exists>d. map_of ?T k = Some d \<and> ID d \<in> set (map ID cands)" if "k \<in> set (map ID cands)" for k
    using that assms(3) by (auto simp: claim_fit_def)
  have db': "db s' = (db s)\<lparr>deliveries := upd_where (\<lambda>d. ID d \<in> set (map ID cands)) ?f ?T\<rparr>" by (simp add: s')
  have "pg_view (db s') = fold (\<lambda>k. set_st k StatusInFlight) (map ID ds) ?a"
    unfolding db'
  proof (rule view_upd_where)
    show "k \<in> set (map ID ds) \<longleftrightarrow> (\<exists>d. map_of ?T k = Some d \<and> ID d \<in> set (map ID cands))" for k
      unfolding ids using inT keyedD [OF k] by metis
  qed (simp add: arow_of_def)
  moreover have "claims ls = map (\<lambda>d. (SubscriberID d, Sequence d)) ds"
  proof -
    have "post_at ?a (ID x) = (SubscriberID x, Sequence x)" if "x \<in> set ds" for x
    proof -
      have "x \<in> ?f ` set cands" using mset_eq_setD [OF m] that by simp
      then obtain d where "d \<in> set cands" "x = ?f d" by blast
      then show ?thesis using assms(3) by (auto simp: claim_fit_def post_at_def)
    qed
    then show ?thesis using ls(2) by simp
  qed
  moreover have "keyed (deliveries (db s'))" using keyed_upd_where [OF k] by (simp add: s')
  ultimately show "db_steps (db s) (db s') (map (\<lambda>d. (SubscriberID d, Sequence d)) ds)"
    using ls(1) unfolding db_steps_def by metis
qed

lemma refresh_simps:
  "refreshDistributedOwnership e s = (r, s') \<Longrightarrow> db s' = db s"
  "refreshDistributedOwnership e s = (r, s') \<Longrightarrow> pg_gates (proc s') = pg_gates (proc s)"
  by (auto simp: refreshDistributedOwnership_def SetDistributedOwnership_def pg_gates_def split: option.splits if_splits)

text \<open>A claim that returns rows got them from one update; every other claim leaves the tables alone.\<close>

lemma pg_Claim_cases:
  assumes "pg_Claim e owner gen parts limit s = (r, s')" "pg_gates (proc s)"
  shows "(db s' = db s \<and> (\<forall>ds. r = Inr ds \<longrightarrow> ds = []) \<and> pg_gates (proc s')) \<or>
    (\<exists>s1 owned stamp. pe_ctx e = None \<and> owner \<noteq> [] \<and> gen \<noteq> 0 \<and> db s1 = db s \<and> pg_gates (proc s1) \<and>
       (r, s') = pg_claim_update e owner stamp (pg_candidates e (proc s1) owned limit (db s1)) s1 \<and>
       (\<not> distributedOwnership (proc s1) \<and> partition_owners (db s) = [] \<and> stamp = (\<lambda>_. gen) \<and>
          owned = (\<lambda>d. PartitionNo d \<in> set parts) \<or>
        (\<exists>node. parseDistributedOwner owner = Some node \<and> stamp = partition_stamp (db s) \<and>
           owned = node_owns (proc s1) node (db s) \<and> checkOwnershipMetadata e (db s) = None)))"
proof (cases "pe_ctx e = None \<and> owner \<noteq> [] \<and> gen \<noteq> 0 \<and> 0 < limit")
  case False
  then show ?thesis using assms by (auto simp: pg_Claim_def split: option.splits if_splits)
next
  case True
  obtain err s1 where ref: "refreshDistributedOwnership e s = (err, s1)" by fastforce
  note f = refresh_simps [OF ref]
  have none: "err = None \<Longrightarrow> \<not> distributedOwnership (proc s1) \<Longrightarrow> partition_owners (db s) = []"
    using ref by (auto simp: refreshDistributedOwnership_def SetDistributedOwnership_def split: option.splits if_splits)
  have c: "pg_Claim e owner gen parts limit s = (case err of Some er \<Rightarrow> (Inl er, s1) | None \<Rightarrow>
      let p = proc s1; t = db s1 in
              if \<not> distributedOwnership p then
                if parts = [] then (Inr [], s1)
                else (case pe_fault e SMain of
                        Some m \<Rightarrow> (Inl (EDatabase m), s1)
                      | None \<Rightarrow> pg_claim_update e owner (\<lambda>_. gen)
                                 (pg_candidates e p (\<lambda>d. PartitionNo d \<in> set parts) limit t) s1)
              else case parseDistributedOwner owner of
                     None \<Rightarrow> (Inl (EDistributedOwner owner), s1)
                   | Some node \<Rightarrow>
                       (case checkOwnershipMetadata e t of
                          Some err \<Rightarrow> (Inl err, s1)
                        | None \<Rightarrow>
                            (case pe_fault e SMain of
                               Some m \<Rightarrow> (Inl (EDatabase m), s1)
                             | None \<Rightarrow> pg_claim_update e owner (partition_stamp t)
                                        (pg_candidates e p (node_owns p node t) limit t) s1)))"
    using True by (simp add: pg_Claim_def ref)
  consider (no) "db s' = db s" "\<forall>ds. r = Inr ds \<longrightarrow> ds = []" "s' = s1"
    | (legacy) "err = None" "\<not> distributedOwnership (proc s1)"
      "(r, s') = pg_claim_update e owner (\<lambda>_. gen) (pg_candidates e (proc s1) (\<lambda>d. PartitionNo d \<in> set parts) limit (db s1)) s1"
    | (node) node where "parseDistributedOwner owner = Some node" "checkOwnershipMetadata e (db s1) = None"
      "(r, s') = pg_claim_update e owner (partition_stamp (db s1)) (pg_candidates e (proc s1) (node_owns (proc s1) node (db s1)) limit (db s1)) s1"
    using assms(1) f(1) unfolding c Let_def by (force split: option.splits if_splits)
  then show ?thesis
  proof cases
    case no
    then show ?thesis using f(2) assms(2) by simp
  next
    case legacy
    then show ?thesis using f assms(2) True none by blast
  next
    case node
    then show ?thesis using f assms(2) True by (intro disjI2 exI [of _ s1] exI [of _ "node_owns (proc s1) node (db s)"]
      exI [of _ "partition_stamp (db s)"]) simp
  qed
qed

lemma pg_Claim_update_cases:
  assumes "pg_Claim e owner gen parts limit s = (r, s')" "pg_gates (proc s)"
  shows "(db s' = db s \<and> (\<forall>ds. r = Inr ds \<longrightarrow> ds = []) \<and> pg_gates (proc s')) \<or>
    (\<exists>s1 owned stamp. db s1 = db s \<and> pg_gates (proc s1) \<and>
       (r, s') = pg_claim_update e owner stamp (pg_candidates e (proc s1) owned limit (db s1)) s1)"
  using pg_Claim_cases [OF assms] by (elim disjE exE conjE) blast+

lemma pg_Claim_steps:
  assumes "pg_inv s" "fair_pg e" "pg_Claim e owner gen parts limit s = (r, s')"
  shows "db_steps (db s) (db s') (case r of Inl err \<Rightarrow> [] | Inr ds \<Rightarrow> map (\<lambda>d. (SubscriberID d, Sequence d)) ds) \<and> pg_gates (proc s')"
proof -
  have i: "db_inv (db s)" "pg_gates (proc s)" using assms(1) by (simp_all add: pg_inv_def)
  from pg_Claim_update_cases [OF assms(3) i(2)] show ?thesis
  proof (elim disjE exE conjE)
    assume "db s' = db s" "\<forall>ds. r = Inr ds \<longrightarrow> ds = []" "pg_gates (proc s')"
    then show ?thesis using db_steps_refl [OF i(1)] by (cases r) auto
  next
    fix s1 owned stamp
    assume s1: "db s1 = db s" "pg_gates (proc s1)"
      "(r, s') = pg_claim_update e owner stamp (pg_candidates e (proc s1) owned limit (db s1)) s1"
    obtain ds where ds: "r = Inr ds" using s1(3) by (simp add: pg_claim_update_def Let_def)
    note cf = pg_candidates_fit [OF db_invD(1) [OF i(1)] s1(2), where e = e and owned = owned and limit = limit]
    have "db_steps (db s1) (db s') (map (\<lambda>d. (SubscriberID d, Sequence d)) ds)" "proc s' = proc s1"
      using claim_update_steps [of s1 _ e owner stamp ds s', OF _ _ _ assms(2) s1(3) [unfolded ds, symmetric]] cf i(1)
      by (auto simp: s1(1))
    then show ?thesis using s1(1,2) by (simp add: ds)
  qed
qed

section \<open>Marks\<close>

lemma mark_one:
  assumes "keyed T" "map_of T k = Some d" "mark_where p k owner gen d"
  shows "k' \<in> set [k] \<longleftrightarrow> (\<exists>d. map_of T k' = Some d \<and> mark_where p k owner gen d)"
  using assms keyedD [OF assms(1), of k'] by (auto simp: mark_where_def)

lemma settle_one:
  assumes "db_inv t" "map_of (deliveries t) k = Some d" "mark_where p k owner gen d" "finished st"
    "\<And>d. arow_of (f d) = (arow_of d)\<lparr>a_st := st\<rparr>" "\<And>d. ID (f d) = ID d"
  shows "db_steps t (t\<lparr>deliveries := upd_where (mark_where p k owner gen) f (deliveries t)\<rparr>) []"
proof -
  note k = db_invD(1) [OF assms(1)]
  have "Status d = StatusInFlight" using assms(3) by (simp add: mark_where_def)
  then obtain l where l: "astep (pg_view t) l (set_st k st (pg_view t))" "claim_of l = []"
    using assms(2,4) astep.deliver [of "pg_view t" k "arow_of d"] astep.dead [of "pg_view t" k "arow_of d"]
    by (cases st) (fastforce intro: claim_of.simps)+
  have "pg_view (t\<lparr>deliveries := upd_where (mark_where p k owner gen) f (deliveries t)\<rparr>) = fold (\<lambda>k. set_st k st) [k] (pg_view t)"
    using mark_one [OF k assms(2,3)] assms(5) by (intro view_upd_where)
  then show ?thesis
    using l keyed_upd_where [OF k assms(6)] by (intro db_steps_one [where l = l]) simp_all
qed

lemma pg_signal_simps [simp]: "db (pg_signal s) = db s" "pg_gates (proc (pg_signal s)) = pg_gates (proc s)"
  by (simp_all add: pg_signal_def pg_gates_def)

lemma pg_mark_cases:
  assumes "keyed (deliveries (db s))"
  shows "fst (pg_mark e k owner gen f s) \<noteq> None \<and> snd (pg_mark e k owner gen f s) = s \<or>
    (\<exists>d. pe_ctx e = None \<and> gen \<noteq> 0 \<and> map_of (deliveries (db s)) k = Some d \<and> mark_where (proc s) k owner gen d \<and>
       pg_mark e k owner gen f s = (None, pg_signal (s\<lparr>db := (db s)\<lparr>deliveries :=
         upd_where (mark_where (proc s) k owner gen) (release \<circ> f) (deliveries (db s))\<rparr>\<rparr>)))"
proof -
  have "\<exists>d. map_of (deliveries (db s)) k = Some d \<and> mark_where (proc s) k owner gen d"
    if "cnt_where (mark_where (proc s) k owner gen) (deliveries (db s)) \<noteq> 0"
    using that cnt_where_zero [OF assms] keyedD [OF assms] by (auto simp: mark_where_def)
  then show ?thesis
    by (cases "pe_ctx e"; cases "gen = 0"; cases "pe_fault e SMain";
        cases "cnt_where (mark_where (proc s) k owner gen) (deliveries (db s)) = 0") (simp_all add: pg_mark_def)
qed

lemma pg_mark_steps:
  assumes "pg_inv s" "finished st \<and> (\<forall>d. arow_of (f d) = (arow_of d)\<lparr>a_st := st\<rparr>) \<or>
      (\<forall>d. arow_of (f d) = (arow_of d)\<lparr>a_st := StatusPending\<rparr>)" "\<And>d. ID (f d) = ID d"
  shows "db_steps (db s) (db (snd (pg_mark e k owner gen f s))) [] \<and> pg_gates (proc (snd (pg_mark e k owner gen f s)))"
proof -
  have i: "db_inv (db s)" "pg_gates (proc s)" using assms(1) by (simp_all add: pg_inv_def)
  from pg_mark_cases [OF db_invD(1) [OF i(1)], of e k owner gen f] show ?thesis
  proof (elim disjE exE conjE)
    assume "snd (pg_mark e k owner gen f s) = s"
    then show ?thesis using db_steps_refl i by simp
  next
    fix d assume d: "map_of (deliveries (db s)) k = Some d" "mark_where (proc s) k owner gen d"
      "pg_mark e k owner gen f s = (None, pg_signal (s\<lparr>db := (db s)\<lparr>deliveries :=
         upd_where (mark_where (proc s) k owner gen) (release \<circ> f) (deliveries (db s))\<rparr>\<rparr>))"
    have "db_steps (db s) ((db s)\<lparr>deliveries := upd_where (mark_where (proc s) k owner gen) (release \<circ> f) (deliveries (db s))\<rparr>) []"
      using assms(2)
    proof
      assume "finished st \<and> (\<forall>d. arow_of (f d) = (arow_of d)\<lparr>a_st := st\<rparr>)"
      then show ?thesis using assms(3) by (intro settle_one [OF i(1) d(1,2), of st]) simp_all
    next
      assume "\<forall>d. arow_of (f d) = (arow_of d)\<lparr>a_st := StatusPending\<rparr>"
      then show ?thesis using assms(3) by (intro retry_where [OF i(1)]) (simp_all add: mark_where_def)
    qed
    then show ?thesis using d(3) i(2) by simp
  qed
qed

section \<open>Suspension, resumption, recovery\<close>

lemma pg_suspend_simps [simp]:
  "deliveries (pg_suspend x t) = deliveries t" "subscriber_seq (pg_suspend x t) = subscriber_seq t"
  "partition_owners (pg_suspend x t) = partition_owners t" "is_suspended (pg_suspend x t) = (is_suspended t)(x := True)"
  by (auto simp: pg_suspend_def is_suspended_def fun_eq_iff split: option.split)

definition pg_exhaust_rows :: "pgproc \<Rightarrow> string \<Rightarrow> string \<Rightarrow> uint64 \<Rightarrow> string \<Rightarrow> string \<Rightarrow> pgdb \<Rightarrow> pgdb" where
  "pg_exhaust_rows p k owner gen msg x t =
     (let t2 = pg_suspend x (t\<lparr>deliveries := upd_where (mark_where p k owner gen)
                 (\<lambda>d. release (d\<lparr>Status := StatusDeadLettered, LastError := msg\<rparr>)) (deliveries t)\<rparr>)
      in t2\<lparr>deliveries := upd_where (\<lambda>d. SubscriberID d = x \<and> Status d = StatusPending)
              (\<lambda>d. release (d\<lparr>Status := StatusRetained\<rparr>)) (deliveries t2)\<rparr>)"

lemma pg_exhaust_steps:
  assumes "db_inv t" "map_of (deliveries t) k = Some d" "mark_where p k owner gen d" "x = SubscriberID d"
  shows "db_steps t (pg_exhaust_rows p k owner gen msg x t) []"
proof (rule db_steps_one)
  let ?a' = "set_st k StatusDeadLettered (pg_view t)"
  note kd = db_invD(1) [OF assms(1)]
  show "keyed (deliveries (pg_exhaust_rows p k owner gen msg x t))"
    by (simp add: pg_exhaust_rows_def Let_def keyed_upd_where kd)
  have w: "map_of (deliveries t) k' = Some d' \<Longrightarrow> mark_where p k owner gen d' \<longleftrightarrow> k' = k" for k' d'
  proof
    assume "map_of (deliveries t) k' = Some d'" "mark_where p k owner gen d'"
    then show "k' = k" using keyedD [OF kd, of k' d'] by (simp add: mark_where_def)
  next
    assume "map_of (deliveries t) k' = Some d'" "k' = k"
    then show "mark_where p k owner gen d'" using assms(2,3) by simp
  qed
  have "pg_view (pg_exhaust_rows p k owner gen msg x t) =
      ?a'\<lparr>rows := move_all x StatusPending StatusRetained (rows ?a'), held := (held (pg_view t))(x := True)\<rparr>"
  proof (rule pg_view_eqI)
    fix k'
    show "map_option arow_of (map_of (deliveries (pg_exhaust_rows p k owner gen msg x t)) k') =
        rows (?a'\<lparr>rows := move_all x StatusPending StatusRetained (rows ?a'), held := (held (pg_view t))(x := True)\<rparr>) k'"
    proof (cases "map_of (deliveries t) k'")
      case None
      then show ?thesis by (auto simp: pg_exhaust_rows_def Let_def store_simps move_all_def)
    next
      case (Some d')
      note w' = w [OF Some]
      show ?thesis using Some
        by (auto simp: pg_exhaust_rows_def Let_def store_simps move_all_def w' arow_of_def)
    qed
  qed (simp_all add: pg_exhaust_rows_def Let_def)
  then show "astep (pg_view t) (ASuspend x (Sequence d)) (pg_view (pg_exhaust_rows p k owner gen msg x t))"
    using astep.suspend [of "pg_view t" k "arow_of d" ?a'] assms(2-4) by (simp add: mark_where_def)
qed simp

lemma pg_ExhaustAndSuspend_cases:
  assumes "keyed (deliveries (db s))"
  shows "fst (pg_ExhaustAndSuspend e k owner gen msg s) \<noteq> None \<and> snd (pg_ExhaustAndSuspend e k owner gen msg s) = s \<or>
    (\<exists>d. pe_ctx e = None \<and> gen \<noteq> 0 \<and> map_of (deliveries (db s)) k = Some d \<and> mark_where (proc s) k owner gen d \<and>
       pg_ExhaustAndSuspend e k owner gen msg s = (None, pg_signal (s\<lparr>db := applyRetentionTx (proc s) (SubscriberID d) (pe_clock e)
         (pg_exhaust_rows (proc s) k owner gen msg (SubscriberID d) (db s))\<rparr>)))"
proof (cases "sel_where (mark_where (proc s) k owner gen) (deliveries (db s))")
  case Nil
  then show ?thesis by (auto simp: pg_ExhaustAndSuspend_def split: option.splits)
next
  case (Cons d ds)
  then have "d \<in> set (sel_where (mark_where (proc s) k owner gen) (deliveries (db s)))" by simp
  then have "map_of (deliveries (db s)) k = Some d" "mark_where (proc s) k owner gen d"
    using in_sel_where [OF assms] by (auto simp: mark_where_def)
  then show ?thesis
    by (cases "pe_ctx e"; cases "gen = 0"; cases "pe_fault e SMain")
      (simp_all add: pg_ExhaustAndSuspend_def Cons pg_exhaust_rows_def Let_def)
qed

lemma pg_ExhaustAndSuspend_steps:
  assumes "pg_inv s"
  shows "db_steps (db s) (db (snd (pg_ExhaustAndSuspend e k owner gen msg s))) [] \<and>
    pg_gates (proc (snd (pg_ExhaustAndSuspend e k owner gen msg s)))"
proof -
  have i: "db_inv (db s)" "pg_gates (proc s)" using assms(1) by (simp_all add: pg_inv_def)
  from pg_ExhaustAndSuspend_cases [OF db_invD(1) [OF i(1)], of e k owner gen msg] show ?thesis
  proof (elim disjE exE conjE)
    assume "snd (pg_ExhaustAndSuspend e k owner gen msg s) = s"
    then show ?thesis using db_steps_refl i by simp
  next
    fix d assume d: "map_of (deliveries (db s)) k = Some d" "mark_where (proc s) k owner gen d"
      "pg_ExhaustAndSuspend e k owner gen msg s = (None, pg_signal (s\<lparr>db := applyRetentionTx (proc s) (SubscriberID d) (pe_clock e)
         (pg_exhaust_rows (proc s) k owner gen msg (SubscriberID d) (db s))\<rparr>))"
    note st = pg_exhaust_steps [OF i(1) d(1,2) refl, of msg]
    show ?thesis using db_steps_trans [OF st retention_steps [OF db_steps_inv [OF i(1) st]]] d(3) i(2) by simp
  qed
qed

definition pg_resume_rows :: "gotime \<Rightarrow> string \<Rightarrow> subMeta \<Rightarrow> pgdb \<Rightarrow> pgdb" where
  "pg_resume_rows t0 x m t = t\<lparr>deliveries := upd_where (\<lambda>d. SubscriberID d = x \<and> Status d = StatusRetained)
       (requeue_row t0) (deliveries t),
     subscribers := (subscribers t)(x \<mapsto> m\<lparr>suspended := False, gap := False, dropped := 0, marker := []\<rparr>)\<rparr>"

lemma pg_resume_steps:
  assumes "db_inv t"
  shows "db_steps t (pg_resume_rows t0 x m t) []"
proof (rule db_steps_one)
  have "pg_view (pg_resume_rows t0 x m t) = (pg_view t)\<lparr>rows := move_all x StatusRetained StatusPending (rows (pg_view t)),
      held := (held (pg_view t))(x := False)\<rparr>"
  proof (rule pg_view_eqI)
    fix k
    show "map_option arow_of (map_of (deliveries (pg_resume_rows t0 x m t)) k) =
        rows ((pg_view t)\<lparr>rows := move_all x StatusRetained StatusPending (rows (pg_view t)),
          held := (held (pg_view t))(x := False)\<rparr>) k"
      by (cases "map_of (deliveries t) k")
        (auto simp: pg_resume_rows_def store_simps move_all_def arow_of_def requeue_row_def)
  qed (auto simp: pg_resume_rows_def is_suspended_def fun_eq_iff)
  then show "astep (pg_view t) (AResume x) (pg_view (pg_resume_rows t0 x m t))" using astep.resume by metis
  show "keyed (deliveries (pg_resume_rows t0 x m t))"
    by (simp add: pg_resume_rows_def keyed_upd_where db_invD(1) [OF assms] requeue_row_def)
qed simp

lemma pg_Resume_eq:
  assumes "pe_ctx e = None" "x \<noteq> []" "pe_fault e SMain = None"
  shows "pg_Resume e x s =
    (let t1 = applyRetentionTx (proc s) x (pe_clock e) (db s) in
     case subscribers t1 x of None \<Rightarrow> (Inr no_gap, s\<lparr>db := t1\<rparr>)
     | Some m \<Rightarrow> (Inr \<lparr>Occurred = gap m, Dropped = dropped m, Marker = marker m\<rparr>,
         pg_signal (s\<lparr>db := pg_resume_rows (micros (pe_clock e)) x m t1\<rparr>)))"
  using assms by (simp add: pg_Resume_def pg_resume_rows_def Let_def cong: option.case_cong)

lemma pg_Resume_steps:
  assumes "pg_inv s"
  shows "db_steps (db s) (db (snd (pg_Resume e x s))) [] \<and> pg_gates (proc (snd (pg_Resume e x s)))"
proof (cases "pe_ctx e = None \<and> x \<noteq> [] \<and> pe_fault e SMain = None")
  case False
  then have "snd (pg_Resume e x s) = s" by (auto simp: pg_Resume_def split: option.splits)
  then show ?thesis using assms db_steps_refl by (simp add: pg_inv_def)
next
  case True
  have i: "db_inv (db s)" "pg_gates (proc s)" using assms(1) by (simp_all add: pg_inv_def)
  let ?t1 = "applyRetentionTx (proc s) x (pe_clock e) (db s)"
  note s1 = retention_steps [OF i(1), of "proc s" x "pe_clock e"]
  note s2 = pg_resume_steps [OF db_steps_inv [OF i(1) s1], of "micros (pe_clock e)" x]
  show ?thesis
    using s1 db_steps_trans [OF s1 s2] i(2) True by (simp add: pg_Resume_eq Let_def split: option.split)
qed

lemma pg_RecoverStale_steps:
  assumes "pg_inv s"
  shows "db_steps (db s) (db (snd (pg_RecoverStale e a s))) [] \<and> pg_gates (proc (snd (pg_RecoverStale e a s)))"
proof -
  have i: "db_inv (db s)" "pg_gates (proc s)" using assms(1) by (simp_all add: pg_inv_def)
  have "db_steps (db s) ((db s)\<lparr>deliveries := upd_where (pg_stale c) (\<lambda>d. release (d\<lparr>Status := StatusPending\<rparr>)) (deliveries (db s))\<rparr>) []" for c
    by (rule retry_where [OF i(1)]) (simp_all add: pg_stale_def arow_of_def)
  then show ?thesis using db_steps_refl i by (auto simp: pg_RecoverStale_def Let_def split: option.split)
qed

section \<open>The Postgres store is an ordering store\<close>

lemma pg_Enqueue_steps:
  assumes "pg_inv s"
  shows "db_steps (db s) (db (snd (pg_Enqueue e ds s))) [] \<and> pg_gates (proc (snd (pg_Enqueue e ds s)))"
proof -
  have i: "db_inv (db s)" "pg_gates (proc s)" using assms(1) by (simp_all add: pg_inv_def)
  show ?thesis
  proof (cases "\<exists>t touched. pe_ctx e = None \<and> ds \<noteq> [] \<and> pe_fault e SMain = None \<and>
      pg_enqueue_loop False (pe_clock e) ds (db s) [] = Inr (t, touched)")
    case True
    then obtain t touched where t: "pe_ctx e = None" "ds \<noteq> []" "pe_fault e SMain = None"
      "pg_enqueue_loop False (pe_clock e) ds (db s) [] = Inr (t, touched)" by blast
    note s1 = pg_enqueue_loop_steps [OF t(4) i(1)]
    have "db_steps (db s) (fold (\<lambda>x. applyRetentionTx (proc s) x (pe_clock e)) (pe_touched e touched) t) []"
      using db_steps_trans [OF s1 retention_fold_steps [OF db_steps_inv [OF i(1) s1]]] .
    moreover have "\<not> pg_SkipSuspendGate (proc s)" using i(2) by (simp add: pg_gates_def)
    ultimately show ?thesis using t i(2) by (simp add: pg_Enqueue_def)
  next
    case False
    then have "snd (pg_Enqueue e ds s) = s"
      using i(2) by (auto simp: pg_Enqueue_def pg_gates_def split: option.splits sum.splits)
    then show ?thesis using db_steps_refl i by simp
  qed
qed

lemma pg_call_steps:
  assumes "pg_inv s" "fair_pg (call_env c)"
  shows "db_steps (db s) (db (exec_call pg_store c s)) (handed_out pg_store c s) \<and> pg_gates (proc (exec_call pg_store c s))"
proof (cases c)
  case (Claim_call e ow g ps n)
  obtain r s' where r: "pg_Claim e ow g ps n s = (r, s')" by fastforce
  show ?thesis using pg_Claim_steps [OF assms(1) _ r] assms(2) Claim_call by (simp add: handed_out_def r)
next
  case (MarkDelivered_call e k ow g)
  then show ?thesis
    using pg_mark_steps [OF assms(1), of StatusDelivered "\<lambda>d. d\<lparr>Status := StatusDelivered, LastError := []\<rparr>"]
    by (simp add: handed_out_def pg_MarkDelivered_def pg_markTerminal_def arow_of_def)
next
  case (MarkDeadLetter_call e k ow g m)
  then show ?thesis
    using pg_mark_steps [OF assms(1), of StatusDeadLettered "\<lambda>d. d\<lparr>Status := StatusDeadLettered, LastError := m\<rparr>"]
    by (simp add: handed_out_def pg_MarkDeadLetter_def pg_markTerminal_def arow_of_def)
next
  case (MarkFailed_call e k ow g a t m)
  then show ?thesis
    using pg_mark_steps [OF assms(1), of StatusDelivered "\<lambda>d. d\<lparr>Status := StatusPending, Attempt := a, NextAttempt := micros t, LastError := m\<rparr>"]
    by (simp add: handed_out_def pg_MarkFailed_def arow_of_def)
next
  case (IsSuspended_call e x)
  then have "exec_call pg_store c s = s" by (auto simp: pg_IsSuspended_def split: option.splits)
  then show ?thesis using db_steps_refl assms(1) IsSuspended_call by (simp add: handed_out_def pg_inv_def)
next
  case (PendingOrInFlight_call e)
  then have "exec_call pg_store c s = s" by (auto simp: pg_PendingOrInFlight_def split: option.splits)
  then show ?thesis using db_steps_refl assms(1) PendingOrInFlight_call by (simp add: handed_out_def pg_inv_def)
qed (use pg_Enqueue_steps [OF assms(1)] pg_ExhaustAndSuspend_steps [OF assms(1)] pg_Resume_steps [OF assms(1)]
      pg_RecoverStale_steps [OF assms(1)] in \<open>simp_all add: handed_out_def\<close>)

interpretation pg_ordering: ordering_store pg_store fair_pg pg_inv "\<lambda>s. pg_view (db s)"
proof
  show "ainv (pg_view (db s))" if "pg_inv s" for s using that db_invD(2) by (simp add: pg_inv_def)
  show "pg_inv (exec_call pg_store c s) \<and>
      (\<exists>ls. asteps (pg_view (db s)) ls (pg_view (db (exec_call pg_store c s))) \<and> claims ls = handed_out pg_store c s)"
    if "pg_inv s" "fair_pg (call_env c)" for s c
    using pg_call_steps [OF that] db_steps_inv that(1) by (auto simp: pg_inv_def db_steps_def)
qed

end
