(* ===== verification/Cluster.thy ===== *)
theory Cluster
  imports PostgresRefine Workers
begin

text \<open>
  Several processes on one database: each has its own \<^verbatim>\<open>Store\<close> value (toggles, flag, channel), the tables
  are shared, and a call names the process it runs in. The cluster as a whole is an ordering store
  and a fenced store.
\<close>

record cluster =
  cl_db :: pgdb
  cl_proc :: "nat \<Rightarrow> pgproc"

definition at_node :: "nat \<Rightarrow> cluster \<Rightarrow> pg" where
  "at_node n c = \<lparr>db = cl_db c, proc = cl_proc c n\<rparr>"

definition put_node :: "nat \<Rightarrow> pg \<Rightarrow> cluster \<Rightarrow> cluster" where
  "put_node n s c = c\<lparr>cl_db := db s, cl_proc := (cl_proc c)(n := proc s)\<rparr>"

definition on_node :: "nat \<Rightarrow> (pg \<Rightarrow> 'r \<times> pg) \<Rightarrow> cluster \<Rightarrow> 'r \<times> cluster" where
  "on_node n f c = (let (r, s) = f (at_node n c) in (r, put_node n s c))"

lemma on_node_simps [simp]:
  "fst (on_node n f c) = fst (f (at_node n c))" "snd (on_node n f c) = put_node n (snd (f (at_node n c))) c"
  "db (at_node n c) = cl_db c" "proc (at_node n c) = cl_proc c n"
  "cl_db (put_node n s c) = db s" "cl_proc (put_node n s c) = (cl_proc c)(n := proc s)"
  by (simp_all add: on_node_def at_node_def put_node_def split: prod.split)

type_synonym node_env = "nat \<times> pgenv"

definition cluster_store :: "(node_env, cluster) store_ops" where
  "cluster_store = \<lparr>
     op_Enqueue = (\<lambda>(n, e) ds. on_node n (pg_Enqueue e ds)),
     op_Claim = (\<lambda>(n, e) ow g ps l. on_node n (pg_Claim e ow g ps l)),
     op_MarkDelivered = (\<lambda>(n, e) k ow g. on_node n (pg_MarkDelivered e k ow g)),
     op_MarkFailed = (\<lambda>(n, e) k ow g a t m. on_node n (pg_MarkFailed e k ow g a t m)),
     op_MarkDeadLetter = (\<lambda>(n, e) k ow g m. on_node n (pg_MarkDeadLetter e k ow g m)),
     op_ExhaustAndSuspend = (\<lambda>(n, e) k ow g m. on_node n (pg_ExhaustAndSuspend e k ow g m)),
     op_Resume = (\<lambda>(n, e) x. on_node n (pg_Resume e x)),
     op_IsSuspended = (\<lambda>(n, e) x. on_node n (pg_IsSuspended e x)),
     op_RecoverStale = (\<lambda>(n, e) a. on_node n (pg_RecoverStale e a)),
     op_PendingOrInFlight = (\<lambda>(n, e). on_node n (pg_PendingOrInFlight e))\<rparr>"

text \<open>A call of the cluster is a call of the store at its node.\<close>

fun local_call :: "node_env call \<Rightarrow> pgenv call" where
  "local_call (Enqueue_call e ds) = Enqueue_call (snd e) ds"
| "local_call (Claim_call e ow g ps n) = Claim_call (snd e) ow g ps n"
| "local_call (MarkDelivered_call e k ow g) = MarkDelivered_call (snd e) k ow g"
| "local_call (MarkFailed_call e k ow g a t m) = MarkFailed_call (snd e) k ow g a t m"
| "local_call (MarkDeadLetter_call e k ow g m) = MarkDeadLetter_call (snd e) k ow g m"
| "local_call (ExhaustAndSuspend_call e k ow g m) = ExhaustAndSuspend_call (snd e) k ow g m"
| "local_call (Resume_call e x) = Resume_call (snd e) x"
| "local_call (IsSuspended_call e x) = IsSuspended_call (snd e) x"
| "local_call (RecoverStale_call e a) = RecoverStale_call (snd e) a"
| "local_call (PendingOrInFlight_call e) = PendingOrInFlight_call (snd e)"

lemma exec_cluster:
  "exec_call cluster_store c s =
     put_node (fst (call_env c)) (exec_call pg_store (local_call c) (at_node (fst (call_env c)) s)) s"
  "handed_out cluster_store c s = handed_out pg_store (local_call c) (at_node (fst (call_env c)) s)"
  "call_env (local_call c) = snd (call_env c)"
  by (cases c; simp add: cluster_store_def handed_out_def split_def)+

definition sound_proc :: "pgproc \<Rightarrow> bool" where
  "sound_proc p \<longleftrightarrow> pg_gates p \<and> \<not> SkipMarkOwnerGenCheck p"

definition cluster_inv :: "cluster \<Rightarrow> bool" where
  "cluster_inv c \<longleftrightarrow> db_inv (cl_db c) \<and> (\<forall>n. sound_proc (cl_proc c n))"

definition fair_node :: "node_env \<Rightarrow> bool" where
  "fair_node e \<longleftrightarrow> fair_pg (snd e)"

text \<open>No call touches the toggles.\<close>

lemma call_toggles: "SkipMarkOwnerGenCheck (proc (exec_call pg_store c s)) = SkipMarkOwnerGenCheck (proc s)"
proof -
  have r: "SkipMarkOwnerGenCheck (proc s') = SkipMarkOwnerGenCheck (proc s)"
    if "refreshDistributedOwnership e s = (err, s')" for e err s'
    using that by (auto simp: refreshDistributedOwnership_def SetDistributedOwnership_def split: option.splits if_splits)
  have m: "SkipMarkOwnerGenCheck (proc (snd (pg_mark e k ow g f s))) = SkipMarkOwnerGenCheck (proc s)" for e k ow g f
    by (simp add: pg_mark_def pg_signal_def split: option.split)
  show ?thesis
  proof (cases c)
    case (Claim_call e ow g ps n)
    obtain err s1 where e: "refreshDistributedOwnership e s = (err, s1)" by fastforce
    show ?thesis using r [OF e]
      by (auto simp: Claim_call pg_Claim_def e pg_claim_update_def Let_def split: option.splits)
  qed (auto simp: m pg_MarkDelivered_def pg_MarkDeadLetter_def pg_markTerminal_def pg_MarkFailed_def pg_Enqueue_def
      pg_ExhaustAndSuspend_def pg_Resume_def pg_IsSuspended_def pg_RecoverStale_def pg_PendingOrInFlight_def pg_signal_def
      Let_def split: option.split sum.split prod.split list.split)
qed

lemma cluster_call_inv:
  assumes "cluster_inv s" "fair_node (call_env c)"
  shows "cluster_inv (exec_call cluster_store c s)"
    "\<exists>ls. asteps (pg_view (cl_db s)) ls (pg_view (cl_db (exec_call cluster_store c s))) \<and> claims ls = handed_out cluster_store c s"
proof -
  let ?n = "fst (call_env c)" and ?c = "local_call c"
  have i: "pg_inv (at_node ?n s)" "\<not> SkipMarkOwnerGenCheck (proc (at_node ?n s))"
    using assms(1) by (simp_all add: cluster_inv_def pg_inv_def sound_proc_def)
  have f: "fair_pg (call_env ?c)" using assms(2) by (simp add: exec_cluster fair_node_def)
  note st = pg_ordering.call_refines [OF i(1) f]
  show "cluster_inv (exec_call cluster_store c s)"
    using st i(2) call_toggles [of ?c "at_node ?n s"] assms(1)
    by (simp add: cluster_inv_def exec_cluster pg_inv_def sound_proc_def)
  show "\<exists>ls. asteps (pg_view (cl_db s)) ls (pg_view (cl_db (exec_call cluster_store c s))) \<and> claims ls = handed_out cluster_store c s"
    using st by (simp add: exec_cluster)
qed

interpretation cluster_ordering: ordering_store cluster_store fair_node cluster_inv "\<lambda>s. pg_view (cl_db s)"
  by unfold_locales (use cluster_call_inv in \<open>auto simp: cluster_inv_def db_invD(2)\<close>)

end
