(* ===== verification/PostgresFenced.thy ===== *)
theory PostgresFenced
  imports Cluster
begin

text \<open>
  A claim in the database starts when a row is handed out and ends only by a mark of its holder, by
  recovery, or by a takeover; so a cluster is a fenced store and the dispatcher's guarantees hold over
  it, on every node.
\<close>

definition db_holds :: "pgdb \<Rightarrow> string \<Rightarrow> string \<Rightarrow> uint64 \<Rightarrow> string \<times> int \<Rightarrow> bool" where
  "db_holds t k owner gen p \<longleftrightarrow> (\<exists>d. map_of (deliveries t) k = Some d \<and> Status d = StatusInFlight \<and>
     Owner d = owner \<and> Generation d = gen \<and> post_of d = p)"

section \<open>Rows in flight stay as they are\<close>

definition db_stay :: "pgdb \<Rightarrow> pgdb \<Rightarrow> bool" where
  "db_stay t t' \<longleftrightarrow> (\<forall>k d. map_of (deliveries t) k = Some d \<longrightarrow> Status d = StatusInFlight \<longrightarrow> map_of (deliveries t') k = Some d)"

lemma db_stay_refl: "db_stay t t"
  by (simp add: db_stay_def)

lemma db_stay_trans: "db_stay t t1 \<Longrightarrow> db_stay t1 t2 \<Longrightarrow> db_stay t t2"
  by (simp add: db_stay_def)

lemma db_stay_holds: "db_stay t t' \<Longrightarrow> db_holds t k ow g p \<Longrightarrow> db_holds t' k ow g p"
  by (auto simp: db_stay_def db_holds_def)

lemma stay_upd_where:
  "(\<And>d. p d \<Longrightarrow> Status d \<noteq> StatusInFlight) \<Longrightarrow> db_stay t (t\<lparr>deliveries := upd_where p f (deliveries t)\<rparr>)"
  by (auto simp: db_stay_def store_simps)

lemma stay_drop_rows:
  assumes "db_inv t" "\<forall>d \<in> set ds. map_of (deliveries t) (ID d) = Some d \<and> SubscriberID d = x \<and> Status d = StatusRetained"
  shows "db_stay t (drop_rows x reason ds t)"
proof (cases ds)
  case Nil
  then show ?thesis by (simp add: db_stay_refl)
next
  case (Cons d ds')
  have d: "rows (pg_view t) (ID d) = Some (arow_of d)" "SubscriberID d = x" "Status d = StatusRetained"
    using assms(2) Cons by auto
  have "hold_inv (pg_view t)" using db_invD(2) [OF assms(1)] by (simp add: ainv_def)
  then have "is_suspended t x" using hold_invD(2) [OF _ d(1)] d(2,3) by auto
  from drop_rows_frame(1) [OF this] show ?thesis using assms(2) by (fastforce simp: db_stay_def)
qed

lemma stay_db_retention: "db_inv t \<Longrightarrow> db_stay t (applyRetentionTx p x t0 t)"
proof -
  assume i: "db_inv t"
  let ?aged = "retained_by_seq (\<lambda>d. CreatedAt d < micros (time_Add t0 (neg_duration (pg_retentionAge p)))) x t"
  let ?t1 = "drop_rows x ''age'' ?aged t"
  let ?n = "length (retained_by_seq (\<lambda>d. True) x ?t1) - nat (pg_retentionCount p)"
  note r = retained_by_seq_props [OF db_invD(1) [OF i]]
  have s1: "db_steps t ?t1 []" using r by (intro drop_rows_steps [OF i]) auto
  have i1: "db_inv ?t1" by (rule db_steps_inv [OF i s1])
  note r1 = retained_by_seq_props(2) [OF db_invD(1) [OF i1]]
  have st: "db_stay t ?t1" using r(2) by (intro stay_drop_rows [OF i]) simp
  have "db_stay ?t1 (drop_rows x ''count'' (take ?n (retained_by_seq (\<lambda>d. True) x ?t1)) ?t1)"
    using r1 by (intro stay_drop_rows [OF i1]) (auto dest!: in_set_takeD)
  from db_stay_trans [OF st this] show ?thesis by (simp add: applyRetentionTx_def Let_def)
qed

lemma stay_db_retention_fold: "db_inv t \<Longrightarrow> db_stay t (fold (\<lambda>x. applyRetentionTx p x t0) xs t)"
proof (induction xs arbitrary: t)
  case (Cons x xs)
  have "db_inv (applyRetentionTx p x t0 t)" using db_steps_inv [OF Cons.prems retention_steps [OF Cons.prems]] .
  then show ?case using db_stay_trans [OF stay_db_retention [OF Cons.prems] Cons.IH] by simp
qed (simp add: db_stay_refl)

lemma stay_pg_enqueue_loop:
  "pg_enqueue_loop False t0 ds t touched = Inr (t', touched') \<Longrightarrow> db_stay t t'"
proof (induction ds arbitrary: t touched)
  case (Cons d ds)
  have l: "pg_enqueue_loop False t0 ds (pg_enqueue_row t0 d t)
      (if is_suspended t (SubscriberID d) then List.insert (SubscriberID d) touched else touched) = Inr (t', touched')"
    and n: "map_of (deliveries t) (ID d) = None"
    using Cons.prems(1) not_key_taken by (force simp: Let_def pg_enqueue_row_def split: if_splits)+
  have "db_stay t (pg_enqueue_row t0 d t)"
    by (auto simp: db_stay_def pg_enqueue_row_def map_of_snoc [OF n] simp del: map_of_append)
      (use n in simp)
  then show ?case using db_stay_trans [OF _ Cons.IH [OF l]] by simp
qed (simp add: db_stay_refl)

lemma stay_pg_Enqueue:
  assumes "pg_inv s"
  shows "db_stay (db s) (db (snd (pg_Enqueue e ds s)))"
proof (cases "\<exists>t touched. pe_ctx e = None \<and> ds \<noteq> [] \<and> pe_fault e SMain = None \<and>
    pg_enqueue_loop False (pe_clock e) ds (db s) [] = Inr (t, touched)")
  case True
  then obtain t touched where t: "pe_ctx e = None" "ds \<noteq> []" "pe_fault e SMain = None"
    "pg_enqueue_loop False (pe_clock e) ds (db s) [] = Inr (t, touched)" by blast
  have i: "db_inv (db s)" "\<not> pg_SkipSuspendGate (proc s)" using assms by (simp_all add: pg_inv_def pg_gates_def)
  have "db_inv t" using db_steps_inv [OF i(1) pg_enqueue_loop_steps [OF t(4) i(1)]] .
  then show ?thesis
    using db_stay_trans [OF stay_pg_enqueue_loop [OF t(4)] stay_db_retention_fold] t i(2) by (simp add: pg_Enqueue_def)
next
  case False
  then have "snd (pg_Enqueue e ds s) = s"
    using assms by (auto simp: pg_Enqueue_def pg_inv_def pg_gates_def split: option.splits sum.splits)
  then show ?thesis by (simp add: db_stay_refl)
qed

lemma stay_pg_Resume:
  assumes "pg_inv s"
  shows "db_stay (db s) (db (snd (pg_Resume e x s)))"
proof (cases "pe_ctx e = None \<and> x \<noteq> [] \<and> pe_fault e SMain = None")
  case False
  then have "snd (pg_Resume e x s) = s" by (auto simp: pg_Resume_def split: option.splits)
  then show ?thesis by (simp add: db_stay_refl)
next
  case True
  have "db_inv (db s)" using assms by (simp add: pg_inv_def)
  note s1 = stay_db_retention [OF this, of "proc s" x "pe_clock e"]
  have "db_stay t (pg_resume_rows t0 x m t)" for t0 m t
    by (auto simp: db_stay_def pg_resume_rows_def store_simps)
  note s2 = db_stay_trans [OF s1 this]
  show ?thesis using s1 s2 True by (simp add: pg_Resume_eq Let_def split: option.split)
qed

text \<open>The rows a claim takes were pending, and afterwards are held by the caller.\<close>

lemma pg_claim_facts:
  assumes "pg_inv s" "fair_pg e" "pg_Claim e owner gen parts limit s = (r, s')"
  shows "db_stay (db s) (db s')"
    "r = Inr ds \<Longrightarrow> distinct (map ID ds) \<and> (\<forall>d \<in> set ds. db_holds (db s') (ID d) owner (Generation d) (post_of d) \<and>
       (\<forall>ow g p. \<not> db_holds (db s) (ID d) ow g p))"
proof -
  have i: "db_inv (db s)" "pg_gates (proc s)" using assms(1) by (simp_all add: pg_inv_def)
  have "db_stay (db s) (db s') \<and> (r = Inr ds \<longrightarrow> distinct (map ID ds) \<and>
      (\<forall>d \<in> set ds. db_holds (db s') (ID d) owner (Generation d) (post_of d) \<and> (\<forall>ow g p. \<not> db_holds (db s) (ID d) ow g p)))"
    using pg_Claim_update_cases [OF assms(3) i(2)]
  proof (elim disjE exE conjE)
    assume e: "db s' = db s" "\<forall>ds. r = Inr ds \<longrightarrow> ds = []"
    show ?thesis
    proof (cases "r = Inr ds")
      case True
      then have "ds = []" using e(2) by blast
      then show ?thesis by (simp add: e(1) db_stay_refl)
    qed (simp add: e(1) db_stay_refl)
  next
    fix s1 owned stamp
    assume s1: "db s1 = db s" "pg_gates (proc s1)"
      and u: "(r, s') = pg_claim_update e owner stamp (pg_candidates e (proc s1) owned limit (db s1)) s1"
    let ?cs = "pg_candidates e (proc s1) owned limit (db s1)" and ?T = "deliveries (db s)"
    let ?f = "\<lambda>d. claim_row owner (stamp d) (pe_now e) d"
    note cf = pg_candidates_fit [OF db_invD(1) [OF i(1)] s1(2), where e = e and owned = owned and limit = limit]
    have T': "deliveries (db s') = upd_where (\<lambda>d. ID d \<in> set (map ID ?cs)) ?f ?T" and r: "r = Inr (pe_arrange e (map ?f ?cs))"
      using u s1(1) by (simp_all add: pg_claim_update_def Let_def)
    have cs: "map_of ?T (ID c) = Some c \<and> Status c = StatusPending" if "c \<in> set ?cs" for c
      using cf(2) [of c] that s1(1) by (simp add: claim_fit_def)
    have m: "mset (pe_arrange e (map ?f ?cs)) = mset (map ?f ?cs)" using assms(2) by (simp add: fair_pg_def)
    have "db_stay (db s) (db s')"
    proof -
      have "ID d \<notin> set (map ID ?cs)" if "map_of ?T k = Some d" "Status d = StatusInFlight" for k d
      proof
        assume "ID d \<in> set (map ID ?cs)"
        then obtain c where "c \<in> set ?cs" "ID c = ID d" by auto
        moreover have "ID d = k" using keyedD [OF db_invD(1) [OF i(1)] that(1)] .
        ultimately show False using cs [of c] that by simp
      qed
      then show ?thesis by (simp add: db_stay_def T' store_simps)
    qed
    moreover have "distinct (map ID ds) \<and> (\<forall>d \<in> set ds. db_holds (db s') (ID d) owner (Generation d) (post_of d) \<and>
        (\<forall>ow g p. \<not> db_holds (db s) (ID d) ow g p))" if "r = Inr ds"
    proof -
      have ds: "mset ds = mset (map ?f ?cs)" using that r m by simp
      have "mset (map ID ds) = image_mset ID (mset (map ?f ?cs))" using ds by simp
      also have "\<dots> = mset (map ID ?cs)" by (simp add: image_mset.compositionality comp_def)
      finally have "mset (map ID ds) = mset (map ID ?cs)" .
      then have "distinct (map ID ds)" using mset_eq_imp_distinct_iff cf(1) s1(1) by metis
      moreover have "db_holds (db s') (ID d) owner (Generation d) (post_of d) \<and> (\<forall>ow g p. \<not> db_holds (db s) (ID d) ow g p)"
        if "d \<in> set ds" for d
      proof -
        have "d \<in> ?f ` set ?cs" using mset_eq_setD [OF ds] that by simp
        then obtain c where c: "c \<in> set ?cs" "d = ?f c" by blast
        then show ?thesis using cs [OF c(1)] by (auto simp: db_holds_def T' store_simps claim_row_def post_of_def)
      qed
      ultimately show ?thesis by blast
    qed
    ultimately show ?thesis by blast
  qed
  then show "db_stay (db s) (db s')"
    "r = Inr ds \<Longrightarrow> distinct (map ID ds) \<and> (\<forall>d \<in> set ds. db_holds (db s') (ID d) owner (Generation d) (post_of d) \<and>
       (\<forall>ow g p. \<not> db_holds (db s) (ID d) ow g p))" by blast+
qed

section \<open>Marks leave the claims of others alone\<close>

lemma mark_where_other:
  assumes "keyed (deliveries t)" "\<not> SkipMarkOwnerGenCheck p" "map_of (deliveries t) k = Some d"
    "Owner d = owner" "Generation d = gen" "(k', ow, g) \<noteq> (k, owner, gen)"
  shows "\<not> mark_where p k' ow g d"
  using assms(2-6) keyedD [OF assms(1,3)] by (auto simp: mark_where_def)

lemma pg_mark_keeps:
  assumes "pg_inv s" "\<not> SkipMarkOwnerGenCheck (proc s)" "db_holds (db s) k owner gen p" "(k', ow, g) \<noteq> (k, owner, gen)"
  shows "db_holds (db (snd (pg_mark e k' ow g f s))) k owner gen p"
proof -
  have kd: "keyed (deliveries (db s))" using assms(1) by (simp add: pg_inv_def db_inv_def)
  obtain d where d: "map_of (deliveries (db s)) k = Some d" "Status d = StatusInFlight" "Owner d = owner" "Generation d = gen" "post_of d = p"
    using assms(3) by (auto simp: db_holds_def)
  note n = mark_where_other [OF kd assms(2) d(1,3,4) assms(4)]
  from pg_mark_cases [OF kd, of e k' ow g f] show ?thesis
  proof (elim disjE exE conjE)
    assume "snd (pg_mark e k' ow g f s) = s"
    then show ?thesis using assms(3) by simp
  next
    assume m: "pg_mark e k' ow g f s = (None, pg_signal (s\<lparr>db := (db s)\<lparr>deliveries :=
         upd_where (mark_where (proc s) k' ow g) (release \<circ> f) (deliveries (db s))\<rparr>\<rparr>))"
    show ?thesis using n d by (simp add: m db_holds_def store_simps)
  qed
qed

lemma pg_exhaust_keeps:
  assumes "pg_inv s" "\<not> SkipMarkOwnerGenCheck (proc s)" "db_holds (db s) k owner gen p" "(k', ow, g) \<noteq> (k, owner, gen)"
  shows "db_holds (db (snd (pg_ExhaustAndSuspend e k' ow g msg s))) k owner gen p"
proof -
  have i: "db_inv (db s)" using assms(1) by (simp add: pg_inv_def)
  note kd = db_invD(1) [OF i]
  obtain d where d: "map_of (deliveries (db s)) k = Some d" "Status d = StatusInFlight" "Owner d = owner" "Generation d = gen" "post_of d = p"
    using assms(3) by (auto simp: db_holds_def)
  note n = mark_where_other [OF kd assms(2) d(1,3,4) assms(4)]
  from pg_ExhaustAndSuspend_cases [OF kd, of e k' ow g msg] show ?thesis
  proof (elim disjE exE conjE)
    assume "snd (pg_ExhaustAndSuspend e k' ow g msg s) = s"
    then show ?thesis using assms(3) by simp
  next
    fix d' :: delivery
    let ?t = "pg_exhaust_rows (proc s) k' ow g msg (SubscriberID d') (db s)"
    assume x: "map_of (deliveries (db s)) k' = Some d'" "mark_where (proc s) k' ow g d'"
      "pg_ExhaustAndSuspend e k' ow g msg s =
        (None, pg_signal (s\<lparr>db := applyRetentionTx (proc s) (SubscriberID d') (pe_clock e) ?t\<rparr>))"
    have "db_holds ?t k owner gen p"
      using n d by (simp add: db_holds_def pg_exhaust_rows_def Let_def store_simps)
    moreover have "db_inv ?t" using db_steps_inv [OF i pg_exhaust_steps [OF i x(1,2) refl]] .
    ultimately show ?thesis using db_stay_holds [OF stay_db_retention] x(3) by simp
  qed
qed

lemma pg_holds_persist:
  assumes "pg_inv s" "\<not> SkipMarkOwnerGenCheck (proc s)" "fair_pg (call_env c)" "db_holds (db s) k owner gen p"
    "\<not> ends_claim k owner gen c"
  shows "db_holds (db (exec_call pg_store c s)) k owner gen p"
proof (cases c)
  case (Enqueue_call e ds)
  then show ?thesis using db_stay_holds [OF stay_pg_Enqueue [OF assms(1)] assms(4)] by simp
next
  case (Claim_call e ow g ps n)
  obtain r s' where r: "pg_Claim e ow g ps n s = (r, s')" by fastforce
  show ?thesis using db_stay_holds [OF pg_claim_facts(1) [OF assms(1) _ r] assms(4)] assms(3) Claim_call by (simp add: r)
next
  case (Resume_call e x)
  then show ?thesis using db_stay_holds [OF stay_pg_Resume [OF assms(1)] assms(4)] by simp
next
  case (MarkDelivered_call e k' ow g)
  then show ?thesis using pg_mark_keeps [OF assms(1,2,4)] assms(5)
    by (simp add: pg_MarkDelivered_def pg_markTerminal_def ends_claim_def)
next
  case (MarkDeadLetter_call e k' ow g m)
  then show ?thesis using pg_mark_keeps [OF assms(1,2,4)] assms(5)
    by (simp add: pg_MarkDeadLetter_def pg_markTerminal_def ends_claim_def)
next
  case (MarkFailed_call e k' ow g a t m)
  then show ?thesis using pg_mark_keeps [OF assms(1,2,4)] assms(5) by (simp add: pg_MarkFailed_def ends_claim_def)
next
  case (ExhaustAndSuspend_call e k' ow g m)
  then show ?thesis using pg_exhaust_keeps [OF assms(1,2,4)] assms(5) by (simp add: ends_claim_def)
next
  case (IsSuspended_call e x)
  then show ?thesis using assms(4) by (simp add: pg_IsSuspended_def split: option.split)
next
  case (PendingOrInFlight_call e)
  then show ?thesis using assms(4) by (simp add: pg_PendingOrInFlight_def split: option.split)
qed (use assms(5) in \<open>simp add: ends_claim_def\<close>)

section \<open>A cluster is a fenced store\<close>

lemma ends_local: "ends_claim k ow g (local_call c) = ends_claim k ow g c"
  by (cases c) (simp_all add: ends_claim_def)

lemma at_node_inv: "cluster_inv s \<Longrightarrow> pg_inv (at_node n s) \<and> \<not> SkipMarkOwnerGenCheck (proc (at_node n s))"
  by (simp add: cluster_inv_def pg_inv_def sound_proc_def)

interpretation cluster_fenced: fenced_store cluster_store fair_node cluster_inv "\<lambda>s. pg_view (cl_db s)"
  "\<lambda>s. db_holds (cl_db s)"
proof
  show "\<exists>r. rows (pg_view (cl_db s)) k = Some r \<and> a_sub r = x \<and> a_seq r = n \<and> a_st r = StatusInFlight"
    if "cluster_inv s" "db_holds (cl_db s) k owner gen (x, n)" for s k owner gen x n
    using that(2) by (auto simp: db_holds_def post_of_def)
  show "distinct (map ID ds) \<and>
      (\<forall>d \<in> set ds. db_holds (cl_db s') (ID d) owner (Generation d) (SubscriberID d, Sequence d) \<and>
         (\<forall>ow g p. \<not> db_holds (cl_db s) (ID d) ow g p))"
    if "cluster_inv s" "fair_node e" "op_Claim cluster_store e owner gen ps lim s = (Inr ds, s')" for s e owner gen ps lim ds s'
  proof -
    obtain n e' where e: "e = (n, e')" by fastforce
    obtain r s1 where r: "pg_Claim e' owner gen ps lim (at_node n s) = (r, s1)" by fastforce
    have "r = Inr ds" "cl_db s' = db s1" using that(3) by (auto simp: e cluster_store_def on_node_def r)
    then show ?thesis
      using pg_claim_facts(2) [OF conjunct1 [OF at_node_inv [OF that(1)]] _ r, of ds] that(2)
      by (simp add: e fair_node_def post_of_def)
  qed
  show "db_holds (cl_db (exec_call cluster_store c s)) k owner gen p"
    if "cluster_inv s" "fair_node (call_env c)" "db_holds (cl_db s) k owner gen p" "\<not> ends_claim k owner gen c" for s c k owner gen p
    using pg_holds_persist [of "at_node (fst (call_env c)) s" "local_call c" k owner gen p] at_node_inv [OF that(1)] that(2-4)
    by (simp add: exec_cluster ends_local fair_node_def)
qed

end
