(* ===== verification/Handoff.thy ===== *)
theory Handoff
  imports PostgresFenced
begin

text \<open>
  \<^verbatim>\<open>store/postgres/ownership.go\<close>: which node owns which partition, moving a partition from one node to
  another gracefully or by force, and a cluster in which nodes do both while they use the store.
\<close>

section \<open>The operations\<close>

datatype handoff_error =
    HCtx string
  | HDatabase string
  | HRefresh store_error
  | HPartitions
  | HOwnerNode
  | HNoOwners
  | HEmptyOwner nat
  | HOwnerSlash string
  | HConflict int string
  | HNotDistributed
  | HNodes
  | HSlash
  | HSameNode
  | HMissed int
  | HToNode
  | HExpectedGen
  | HNoPartition int
  | HTakeover int

definition has_slash :: "string \<Rightarrow> bool" where
  "has_slash node \<longleftrightarrow> CHR ''/'' \<in> set node"

fun check_owners :: "nat \<Rightarrow> string list \<Rightarrow> handoff_error option" where
  "check_owners p [] = None"
| "check_owners p (node # nodes) =
     (if node = [] then Some (HEmptyOwner p)
      else if has_slash node then Some (HOwnerSlash node)
      else check_owners (Suc p) nodes)"

text \<open>The scan of the existing rows, in partition order, stops at the first that disagrees.\<close>

fun first_conflict :: "string list \<Rightarrow> (int \<times> owner_row) list \<Rightarrow> handoff_error option" where
  "first_conflict nodes [] = None"
| "first_conflict nodes ((p, po) # rest) =
     (if owner_node po \<noteq> nodes ! nat p then Some (HConflict p (owner_node po)) else first_conflict nodes rest)"

definition new_owner :: "string \<Rightarrow> owner_row" where
  "new_owner node = \<lparr>owner_node = node, po_generation = 1, po_state = PoActive, next_owner = None\<rparr>"

fun insert_missing :: "int \<Rightarrow> string list \<Rightarrow> (int \<times> owner_row) list \<Rightarrow> (int \<times> owner_row) list" where
  "insert_missing p [] tab = tab"
| "insert_missing p (node # nodes) tab =
     insert_missing (p + 1) nodes (if map_of tab p = None then tab @ [(p, new_owner node)] else tab)"

definition EnsureOwnerAssignments :: "pgenv \<Rightarrow> string list \<Rightarrow> pg \<Rightarrow> handoff_error option \<times> pg" where
  "EnsureOwnerAssignments e nodes s =
     (case pe_ctx e of
        Some err \<Rightarrow> (Some (HCtx err), s)
      | None \<Rightarrow>
          if nodes = [] then (Some HNoOwners, s)
          else case check_owners 0 nodes of
            Some err \<Rightarrow> (Some err, s)
          | None \<Rightarrow>
            (case pe_fault e SMain of
               Some m \<Rightarrow> (Some (HDatabase m), s)
             | None \<Rightarrow>
                 let tab = partition_owners (db s);
                     existing = sort_key fst (filter (\<lambda>(p, po). 0 \<le> p \<and> p < int (length nodes)) tab)
                 in (case first_conflict nodes existing of
                       Some err \<Rightarrow> (Some err, s)
                     | None \<Rightarrow> (None, SetDistributedOwnership True
                         (s\<lparr>db := (db s)\<lparr>partition_owners := insert_missing 0 nodes tab\<rparr>\<rparr>)))))"

definition EnsureOwners :: "pgenv \<Rightarrow> int \<Rightarrow> string \<Rightarrow> pg \<Rightarrow> handoff_error option \<times> pg" where
  "EnsureOwners e n node s =
     (if n \<le> 0 then (Some HPartitions, s)
      else if node = [] then (Some HOwnerNode, s)
      else EnsureOwnerAssignments e (replicate (nat n) node) s)"

definition set_owner :: "int \<Rightarrow> owner_row \<Rightarrow> pg \<Rightarrow> pg" where
  "set_owner p po s = s\<lparr>db := (db s)\<lparr>partition_owners := AList.update p po (partition_owners (db s))\<rparr>\<rparr>"

text \<open>The checks the three moves share: context, refresh, mode.\<close>

definition with_ownership :: "pgenv \<Rightarrow> pg \<Rightarrow> (pg \<Rightarrow> handoff_error option \<times> pg) \<Rightarrow> handoff_error option \<times> pg" where
  "with_ownership e s f =
     (case pe_ctx e of
        Some err \<Rightarrow> (Some (HCtx err), s)
      | None \<Rightarrow>
          (case refreshDistributedOwnership e s of
             (Some err, s1) \<Rightarrow> (Some (HRefresh err), s1)
           | (None, s1) \<Rightarrow> if \<not> distributedOwnership (proc s1) then (Some HNotDistributed, s1) else f s1))"

definition BeginHandoff :: "pgenv \<Rightarrow> int \<Rightarrow> string \<Rightarrow> string \<Rightarrow> pg \<Rightarrow> handoff_error option \<times> pg" where
  "BeginHandoff e p src dst s = with_ownership e s (\<lambda>s1.
     if src = [] \<or> dst = [] then (Some HNodes, s1)
     else if has_slash src \<or> has_slash dst then (Some HSlash, s1)
     else if src = dst then (Some HSameNode, s1)
     else case pe_fault e SMain of
            Some m \<Rightarrow> (Some (HDatabase m), s1)
          | None \<Rightarrow>
              (case owner_of_partition (db s1) p of
                 None \<Rightarrow> (Some (HMissed p), s1)
               | Some po \<Rightarrow>
                   if owner_node po = src \<and> po_state po = PoActive \<and> next_owner po = None
                   then (None, set_owner p (po\<lparr>po_state := PoDraining, next_owner := Some dst\<rparr>) s1)
                   else (Some (HMissed p), s1)))"

definition in_flight_in :: "int \<Rightarrow> delivery \<Rightarrow> bool" where
  "in_flight_in p d \<longleftrightarrow> PartitionNo d = p \<and> Status d = StatusInFlight"

text \<open>\<^verbatim>\<open>generation + 1\<close> in a BIGINT is an error of the database at its limit.\<close>

definition CompleteHandoff :: "pgenv \<Rightarrow> int \<Rightarrow> pg \<Rightarrow> handoff_error option \<times> pg" where
  "CompleteHandoff e p s = with_ownership e s (\<lambda>s1.
     case pe_fault e SMain of
       Some m \<Rightarrow> (Some (HDatabase m), s1)
     | None \<Rightarrow>
         (case owner_of_partition (db s1) p of
            None \<Rightarrow> (Some (HMissed p), s1)
          | Some po \<Rightarrow>
              (case next_owner po of
                 None \<Rightarrow> (Some (HMissed p), s1)
               | Some dst \<Rightarrow>
                   if po_state po = PoDraining \<and> cnt_where (in_flight_in p) (deliveries (db s1)) = 0
                   then if po_generation po = max_int64 then (Some (HDatabase ''bigint out of range''), s1)
                     else (None, pg_signal (set_owner p
                       (po\<lparr>owner_node := dst, po_state := PoActive, next_owner := None, po_generation := po_generation po + 1\<rparr>) s1))
                   else (Some (HMissed p), s1))))"

definition ForceTakeover :: "pgenv \<Rightarrow> int \<Rightarrow> string \<Rightarrow> uint64 \<Rightarrow> pg \<Rightarrow> handoff_error option \<times> pg" where
  "ForceTakeover e p dst expected s = with_ownership e s (\<lambda>s1.
     if dst = [] then (Some HToNode, s1)
     else if has_slash dst then (Some HSlash, s1)
     else if expected = 0 then (Some HExpectedGen, s1)
     else case pe_fault e SMain of
            Some m \<Rightarrow> (Some (HDatabase m), s1)
          | None \<Rightarrow>
              (case owner_of_partition (db s1) p of
                 None \<Rightarrow> (Some (HNoPartition p), s1)
               | Some po \<Rightarrow>
                   let gen = (word_of_int (po_generation po) :: uint64) in
                   if owner_node po = dst then
                     if po_state po = PoDraining \<and> gen = expected then
                       if po_generation po = sint expected
                       then (None, pg_signal (set_owner p (po\<lparr>po_state := PoActive, next_owner := None\<rparr>) s1))
                       else (Some (HMissed p), s1)
                     else if po_state po = PoActive \<and> (gen = expected \<or> gen = expected + 1) then (None, s1)
                     else (Some (HTakeover p), s1)
                   else if gen \<noteq> expected then (Some (HTakeover p), s1)
                   else if po_generation po \<noteq> sint expected then (Some (HMissed p), s1)
                   else if po_generation po = max_int64 then (Some (HDatabase ''bigint out of range''), s1)
                   else let s2 = set_owner p (po\<lparr>owner_node := dst, po_generation := po_generation po + 1,
                                   po_state := PoActive, next_owner := None\<rparr>) s1;
                            s3 = (if SkipInFlightReset (proc s2) then s2
                                  else s2\<lparr>db := (db s2)\<lparr>deliveries := upd_where (in_flight_in p)
                                         (\<lambda>d. release (d\<lparr>Status := StatusPending\<rparr>)) (deliveries (db s2))\<rparr>\<rparr>)
                        in (None, pg_signal s3)))"

section \<open>Diagnostics\<close>

definition OwnerRow :: "pgenv \<Rightarrow> int \<Rightarrow> pg \<Rightarrow> (string \<times> owner_state \<times> string \<times> uint64) option" where
  "OwnerRow e p s =
     (if pe_fault e SMain \<noteq> None then None
      else map_option (\<lambda>po. (owner_node po, po_state po,
             (case next_owner po of None \<Rightarrow> [] | Some n \<Rightarrow> n), word_of_int (po_generation po)))
             (owner_of_partition (db s) p))"

definition InFlightCount :: "pgenv \<Rightarrow> int \<Rightarrow> pg \<Rightarrow> handoff_error + int" where
  "InFlightCount e p s =
     (case pe_fault e SMain of Some m \<Rightarrow> Inl (HDatabase m) | None \<Rightarrow> Inr (cnt_where (in_flight_in p) (deliveries (db s))))"

definition InFlightStamp :: "pgenv \<Rightarrow> int \<Rightarrow> pg \<Rightarrow> (string \<times> string \<times> uint64) option" where
  "InFlightStamp e p s =
     (if pe_fault e SMain \<noteq> None then None
      else case sort_key Sequence (sel_where (in_flight_in p) (deliveries (db s))) of
             [] \<Rightarrow> None
           | d # _ \<Rightarrow> Some (ID d, Owner d, Generation d))"

definition DeliveryStatus :: "pgenv \<Rightarrow> string \<Rightarrow> pg \<Rightarrow> string option" where
  "DeliveryStatus e k s =
     (if pe_fault e SMain \<noteq> None then None
      else map_option (\<lambda>d. status_text (Status d)) (map_of (deliveries (db s)) k))"

section \<open>A cluster that also moves partitions\<close>

datatype cluster_op =
    Store_op "node_env call"
  | Ensure_op node_env "string list"
  | Begin_op node_env int string string
  | Complete_op node_env int
  | Force_op node_env int string uint64

fun exec_op :: "cluster_op \<Rightarrow> cluster \<Rightarrow> cluster" where
  "exec_op (Store_op c) s = exec_call cluster_store c s"
| "exec_op (Ensure_op e nodes) s = snd (on_node (fst e) (EnsureOwnerAssignments (snd e) nodes) s)"
| "exec_op (Begin_op e p src dst) s = snd (on_node (fst e) (BeginHandoff (snd e) p src dst) s)"
| "exec_op (Complete_op e p) s = snd (on_node (fst e) (CompleteHandoff (snd e) p) s)"
| "exec_op (Force_op e p dst g) s = snd (on_node (fst e) (ForceTakeover (snd e) p dst g) s)"

fun op_env :: "cluster_op \<Rightarrow> node_env" where
  "op_env (Store_op c) = call_env c"
| "op_env (Ensure_op e nodes) = e"
| "op_env (Begin_op e p src dst) = e"
| "op_env (Complete_op e p) = e"
| "op_env (Force_op e p dst g) = e"

definition op_handed :: "cluster_op \<Rightarrow> cluster \<Rightarrow> (string \<times> int) list" where
  "op_handed x s = (case x of Store_op c \<Rightarrow> handed_out cluster_store c s | _ \<Rightarrow> [])"

fun exec_ops :: "cluster_op list \<Rightarrow> cluster \<Rightarrow> cluster" where
  "exec_ops [] s = s"
| "exec_ops (x # xs) s = exec_ops xs (exec_op x s)"

fun op_history :: "cluster_op list \<Rightarrow> cluster \<Rightarrow> (string \<times> int) list" where
  "op_history [] s = []"
| "op_history (x # xs) s = op_handed x s @ op_history xs (exec_op x s)"

end
