(* ===== verification/HandoffProps.thy ===== *)
theory HandoffProps
  imports Handoff MemoryProps
begin

text \<open>
  What moving partitions does and does not do: order over any history of a cluster, the fence a
  takeover puts up, draining, and who may claim what.
\<close>

section \<open>Moving a partition leaves the rows in order\<close>

definition owners_only :: "pg \<Rightarrow> pg \<Rightarrow> bool" where
  "owners_only s s' \<longleftrightarrow> (\<exists>po. db s' = (db s)\<lparr>partition_owners := po\<rparr>)"

definition same_toggles :: "pg \<Rightarrow> pg \<Rightarrow> bool" where
  "same_toggles s s' \<longleftrightarrow> sound_proc (proc s') = sound_proc (proc s)"

lemma same_db: "db s' = db s \<Longrightarrow> owners_only s s'"
  unfolding owners_only_def by (intro exI [of _ "partition_owners (db s)"]) simp

lemma owners_only_set: "owners_only s s1 \<Longrightarrow> owners_only s (set_owner p po s1)"
  by (auto simp: owners_only_def set_owner_def)

lemma owners_only_signal: "owners_only s s1 \<Longrightarrow> owners_only s (pg_signal s1)"
  by (simp add: owners_only_def)

lemma toggles_simps [simp]:
  "sound_proc (proc (set_owner p po s)) = sound_proc (proc s)" "sound_proc (proc (pg_signal s)) = sound_proc (proc s)"
  "sound_proc (proc (SetDistributedOwnership v s)) = sound_proc (proc s)" "sound_proc (proc (s\<lparr>db := t\<rparr>)) = sound_proc (proc s)"
  by (simp_all add: set_owner_def pg_signal_def SetDistributedOwnership_def sound_proc_def pg_gates_def)

lemma db_SetDistributed [simp]: "db (SetDistributedOwnership v s) = db s"
  by (simp add: SetDistributedOwnership_def)

lemma refresh_toggles: "refreshDistributedOwnership e s = (r, s') \<Longrightarrow> sound_proc (proc s') = sound_proc (proc s)"
  by (auto simp: refreshDistributedOwnership_def split: option.splits if_splits)

text \<open>The shared checks either answer with an error, tables untouched, or run the move on the same tables.\<close>

lemma with_ownership_cases:
  obtains err s1 where "with_ownership e s f = (Some err, s1)" "db s1 = db s" "sound_proc (proc s1) = sound_proc (proc s)"
  | s1 where "with_ownership e s f = f s1" "pe_ctx e = None" "db s1 = db s" "sound_proc (proc s1) = sound_proc (proc s)"
      "distributedOwnership (proc s1)"
proof -
  obtain r s1 where r: "refreshDistributedOwnership e s = (r, s1)" by fastforce
  note f = refresh_simps(1) [OF r] refresh_toggles [OF r]
  show thesis
  proof (cases "pe_ctx e = None \<and> r = None \<and> distributedOwnership (proc s1)")
    case True
    then show ?thesis using that(2) [of s1] f by (simp add: with_ownership_def r)
  next
    case False
    then obtain err s2 where "with_ownership e s f = (Some err, s2)" "s2 = s \<or> s2 = s1"
      by (cases "pe_ctx e"; cases r) (auto simp: with_ownership_def r)
    then show ?thesis using that(1) [of err s2] f by auto
  qed
qed

definition force_reset :: "int \<Rightarrow> pg \<Rightarrow> pg \<Rightarrow> bool" where
  "force_reset p s s' \<longleftrightarrow> (\<exists>po. db s' = (db s)\<lparr>partition_owners := po,
     deliveries := upd_where (in_flight_in p) (\<lambda>d. release (d\<lparr>Status := StatusPending\<rparr>)) (deliveries (db s))\<rparr>)"

definition moves :: "bool \<Rightarrow> int \<Rightarrow> pg \<Rightarrow> pg \<Rightarrow> bool" where
  "moves forced p s s' \<longleftrightarrow> (owners_only s s' \<or> forced \<and> force_reset p s s') \<and> same_toggles s s'"

lemma with_ownership_moves:
  assumes "\<And>s1. moves b p s1 (snd (f s1))"
  shows "moves b p s (snd (with_ownership e s f))"
proof (rule with_ownership_cases [where e = e and s = s and f = f])
  fix err s1 assume "with_ownership e s f = (Some err, s1)" "db s1 = db s" "sound_proc (proc s1) = sound_proc (proc s)"
  then show ?thesis by (simp add: moves_def same_db same_toggles_def)
next
  fix s1 assume s1: "with_ownership e s f = f s1" "db s1 = db s" "sound_proc (proc s1) = sound_proc (proc s)"
  from assms [of s1] show ?thesis by (simp add: s1 moves_def owners_only_def force_reset_def same_toggles_def)
qed

lemma moves_same: "moves b p s s"
  by (simp add: moves_def same_db same_toggles_def)

lemma moves_set: "moves b p s (set_owner q po s)"
  using owners_only_set [OF same_db [OF refl]] by (simp add: moves_def same_toggles_def)

lemma moves_signal: "moves b p s s' \<Longrightarrow> moves b p s (pg_signal s')"
  by (simp add: moves_def owners_only_def force_reset_def same_toggles_def)

lemmas moves_intros = moves_same moves_set moves_signal

lemma Ensure_moves: "moves b p s (snd (EnsureOwnerAssignments e ns s))"
  by (auto simp: moves_def EnsureOwnerAssignments_def Let_def same_toggles_def same_db owners_only_def split: option.split
      intro: exI [of _ "partition_owners (db s)"])

lemma Begin_moves: "moves b q s (snd (BeginHandoff e p src dst s))"
  unfolding BeginHandoff_def by (rule with_ownership_moves) (simp add: moves_intros split: option.split)

lemma Complete_moves: "moves b q s (snd (CompleteHandoff e p s))"
  unfolding CompleteHandoff_def by (rule with_ownership_moves) (simp add: moves_intros split: option.split)

lemma Force_moves: "moves True p s (snd (ForceTakeover e p dst g s))"
proof -
  have r: "moves True p s1 (set_owner p po s1\<lparr>db := (db (set_owner p po s1))\<lparr>deliveries := upd_where (in_flight_in p)
      (\<lambda>d. release (d\<lparr>Status := StatusPending\<rparr>)) (deliveries (db (set_owner p po s1)))\<rparr>\<rparr>)" for s1 po
    by (auto simp: moves_def force_reset_def same_toggles_def set_owner_def)
  show ?thesis
    unfolding ForceTakeover_def Let_def
    by (rule with_ownership_moves) (simp add: moves_intros r split: option.split)
qed

lemma pg_view_owners [simp]: "pg_view (t\<lparr>partition_owners := po\<rparr>) = pg_view t"
  by (simp add: pg_view_def)

lemma moves_steps:
  assumes "moves b p s s'" "db_inv (db s)"
  shows "db_steps (db s) (db s') [] \<and> sound_proc (proc s') = sound_proc (proc s)"
proof -
  have "db_steps (db s) (db s') []" if "owners_only s s'"
    using that assms(2) by (auto simp: owners_only_def db_steps_def db_inv_def intro: exI [of _ "[]"])
  moreover have "db_steps (db s) (db s') []" if forced: "force_reset p s s'"
  proof -
    obtain po where po: "db s' = (db s)\<lparr>partition_owners := po, deliveries := upd_where (in_flight_in p)
        (\<lambda>d. release (d\<lparr>Status := StatusPending\<rparr>)) (deliveries (db s))\<rparr>"
      using forced unfolding force_reset_def by blast
    let ?t = "(db s)\<lparr>deliveries := upd_where (in_flight_in p) (\<lambda>d. release (d\<lparr>Status := StatusPending\<rparr>)) (deliveries (db s))\<rparr>"
    have "db_steps (db s) ?t []" by (rule retry_where [OF assms(2)]) (simp_all add: in_flight_in_def arow_of_def)
    moreover have "db s' = ?t\<lparr>partition_owners := po\<rparr>" by (simp add: po)
    ultimately show ?thesis by (simp add: db_steps_def)
  qed
  ultimately show ?thesis using assms(1) by (auto simp: moves_def same_toggles_def)
qed

section \<open>Order over any history of a cluster\<close>

lemma op_steps:
  assumes "cluster_inv s" "fair_node (op_env x)"
  shows "cluster_inv (exec_op x s) \<and>
    (\<exists>ls. asteps (pg_view (cl_db s)) ls (pg_view (cl_db (exec_op x s))) \<and> claims ls = op_handed x s)"
proof -
  have m: "cluster_inv (put_node n s' s) \<and> (\<exists>ls. asteps (pg_view (cl_db s)) ls (pg_view (db s')) \<and> claims ls = [])"
    if "moves b p (at_node n s) s'" for n s' b p
  proof -
    have i: "db_inv (cl_db s)" "\<And>n. sound_proc (cl_proc s n)" using assms(1) by (simp_all add: cluster_inv_def)
    have st: "db_steps (cl_db s) (db s') []" "sound_proc (proc s')"
      using moves_steps [OF that] i by simp_all
    show ?thesis using st i db_steps_inv [OF i(1) st(1)] by (simp add: cluster_inv_def db_steps_def)
  qed
  show ?thesis
  proof (cases x)
    case (Store_op c)
    then show ?thesis using cluster_call_inv [OF assms(1), of c] assms(2) by (simp add: op_handed_def)
  next
    case (Ensure_op e ns)
    then show ?thesis using m [OF Ensure_moves] by (simp add: op_handed_def)
  next
    case (Begin_op e p src dst)
    then show ?thesis using m [OF Begin_moves] by (simp add: op_handed_def)
  next
    case (Complete_op e p)
    then show ?thesis using m [OF Complete_moves] by (simp add: op_handed_def)
  next
    case (Force_op e p dst g)
    then show ?thesis using m [OF Force_moves] by (simp add: op_handed_def)
  qed
qed

lemma ops_steps:
  assumes "cluster_inv s" "\<forall>x \<in> set xs. fair_node (op_env x)"
  shows "cluster_inv (exec_ops xs s) \<and>
    (\<exists>ls. asteps (pg_view (cl_db s)) ls (pg_view (cl_db (exec_ops xs s))) \<and> claims ls = op_history xs s)"
  using assms
proof (induction xs arbitrary: s)
  case Nil
  then show ?case by (auto intro: exI [of _ "[]"])
next
  case (Cons x xs)
  have x: "fair_node (op_env x)" "\<forall>x \<in> set xs. fair_node (op_env x)" using Cons.prems(2) by auto
  obtain ls where ls: "asteps (pg_view (cl_db s)) ls (pg_view (cl_db (exec_op x s)))" "claims ls = op_handed x s"
    and i: "cluster_inv (exec_op x s)"
    using op_steps [OF Cons.prems(1) x(1)] by blast
  obtain ms where "asteps (pg_view (cl_db (exec_op x s))) ms (pg_view (cl_db (exec_ops xs (exec_op x s))))"
      "claims ms = op_history xs (exec_op x s)" "cluster_inv (exec_ops xs (exec_op x s))"
    using Cons.IH [OF i x(2)] by blast
  with ls show ?case by (auto intro!: exI [of _ "ls @ ms"] intro: asteps_append)
qed

lemma op_history_ordered:
  assumes "cluster_inv s" "\<forall>x \<in> set xs. fair_node (op_env x)"
  shows "per_subscriber_order (op_history xs s)"
proof -
  obtain ls where "asteps (pg_view (cl_db s)) ls (pg_view (cl_db (exec_ops xs s)))" "claims ls = op_history xs s"
    using ops_steps [OF assms] by blast
  moreover have "ainv (pg_view (cl_db s))" using assms(1) by (simp add: cluster_inv_def db_invD(2))
  ultimately show ?thesis using asteps_claims_ordered by metis
qed

end
