(* ===== verification/Takeover.thy ===== *)
theory Takeover
  imports HandoffProps
begin

text \<open>
  The fence of a forced takeover: after it, no row of the partition is ever again in flight under the
  generation that was taken over, so nothing the old owner still does to such a row has any effect.
\<close>

section \<open>No call puts a row in flight except a claim\<close>

definition db_nogain :: "pgdb \<Rightarrow> pgdb \<Rightarrow> bool" where
  "db_nogain t t' \<longleftrightarrow> (\<forall>k d. map_of (deliveries t') k = Some d \<longrightarrow> Status d = StatusInFlight \<longrightarrow> map_of (deliveries t) k = Some d)"

lemma nogain_refl: "db_nogain t t"
  by (simp add: db_nogain_def)

lemma nogain_trans: "db_nogain t t1 \<Longrightarrow> db_nogain t1 t2 \<Longrightarrow> db_nogain t t2"
  by (simp add: db_nogain_def)

lemma nogain_upd_where:
  "(\<And>d. Status (f d) \<noteq> StatusInFlight) \<Longrightarrow> db_nogain t (t\<lparr>deliveries := upd_where p f (deliveries t)\<rparr>)"
  by (auto simp: db_nogain_def store_simps split: if_splits)

lemma nogain_cong: "deliveries t' = deliveries t1 \<Longrightarrow> db_nogain t t1 \<Longrightarrow> db_nogain t t'"
  by (simp add: db_nogain_def)

lemma nogain_drop: "db_nogain t (dropRetainedTx x k n reason t)"
  by (auto simp: db_nogain_def dropRetainedTx_def Let_def map_of_delete split: if_splits)

lemma nogain_drop_rows: "db_nogain t (drop_rows x reason ds t)"
proof (induction ds arbitrary: t)
  case (Cons d ds)
  show ?case using nogain_trans [OF nogain_drop Cons.IH] by simp
qed (simp add: nogain_refl)

lemma db_nogain_retention: "db_nogain t (applyRetentionTx p x t0 t)"
  using nogain_trans [OF nogain_drop_rows nogain_drop_rows] by (simp add: applyRetentionTx_def Let_def)

lemma nogain_retention_fold: "db_nogain t (fold (\<lambda>x. applyRetentionTx p x t0) xs t)"
proof (induction xs arbitrary: t)
  case (Cons x xs)
  show ?case using nogain_trans [OF db_nogain_retention Cons.IH] by simp
qed (simp add: nogain_refl)

lemma nogain_enqueue_row:
  assumes "map_of (deliveries t) (ID d) = None"
  shows "db_nogain t (pg_enqueue_row t0 d t)"
proof -
  have "map_of (deliveries (pg_enqueue_row t0 d t)) = (map_of (deliveries t))(ID d \<mapsto>
      pg_stored_row t0 (pg_next_seq t (SubscriberID d)) (is_suspended t (SubscriberID d)) d)"
    by (simp add: pg_enqueue_row_def map_of_snoc [OF assms] del: map_of_append)
  then show ?thesis by (auto simp: db_nogain_def split: if_splits)
qed

lemma nogain_pg_enqueue_loop:
  "pg_enqueue_loop False t0 ds t touched = Inr (t', touched') \<Longrightarrow> db_nogain t t'"
proof (induction ds arbitrary: t touched)
  case (Cons d ds)
  have l: "pg_enqueue_loop False t0 ds (pg_enqueue_row t0 d t)
      (if is_suspended t (SubscriberID d) then List.insert (SubscriberID d) touched else touched) = Inr (t', touched')"
    and n: "map_of (deliveries t) (ID d) = None"
    using Cons.prems(1) not_key_taken by (force simp: Let_def pg_enqueue_row_def split: if_splits)+
  show ?case using nogain_trans [OF nogain_enqueue_row [OF n] Cons.IH [OF l]] .
qed (simp add: nogain_refl)

lemma nogain_pg_Enqueue: "pg_gates (proc s) \<Longrightarrow> db_nogain (db s) (db (snd (pg_Enqueue e ds s)))"
  using nogain_trans [OF nogain_pg_enqueue_loop nogain_retention_fold]
  by (auto simp: pg_Enqueue_def pg_gates_def nogain_refl split: option.split sum.split)

lemma nogain_pg_Resume: "db_nogain (db s) (db (snd (pg_Resume e x s)))"
proof (cases "pe_ctx e = None \<and> x \<noteq> [] \<and> pe_fault e SMain = None")
  case False
  then have "snd (pg_Resume e x s) = s" by (auto simp: pg_Resume_def split: option.splits)
  then show ?thesis by (simp add: nogain_refl)
next
  case True
  have r: "db_nogain t (pg_resume_rows t0 x m t)" for t0 m t
    by (auto simp: db_nogain_def pg_resume_rows_def store_simps requeue_row_def split: if_splits)
  show ?thesis
    using db_nogain_retention nogain_trans [OF db_nogain_retention r] True
    by (simp add: pg_Resume_eq Let_def split: option.split)
qed

lemma nogain_pg_mark: "(\<And>d. Status (f d) \<noteq> StatusInFlight) \<Longrightarrow> db_nogain (db s) (db (snd (pg_mark e k ow g f s)))"
  by (auto simp: pg_mark_def nogain_refl intro!: nogain_upd_where split: option.split)

lemma nogain_pg_exhaust: "db_nogain (db s) (db (snd (pg_ExhaustAndSuspend e k ow g msg s)))"
proof -
  have "db_nogain t (pg_exhaust_rows p k ow g msg x t)" for p x t
    by (auto simp: db_nogain_def pg_exhaust_rows_def Let_def store_simps split: if_splits)
  note x = nogain_trans [OF this db_nogain_retention]
  show ?thesis
    using x by (auto simp: pg_ExhaustAndSuspend_def pg_exhaust_rows_def Let_def nogain_refl split: option.split list.split)
qed

lemma nogain_call:
  assumes "pg_gates (proc s)" "\<forall>e ow g ps n. c \<noteq> Claim_call e ow g ps n"
  shows "db_nogain (db s) (db (exec_call pg_store c s))"
  using assms nogain_pg_Enqueue nogain_pg_Resume nogain_pg_exhaust
  by (cases c) (auto simp: nogain_refl pg_MarkDelivered_def pg_MarkDeadLetter_def pg_MarkFailed_def pg_markTerminal_def
      pg_IsSuspended_def pg_PendingOrInFlight_def pg_RecoverStale_def Let_def
      intro!: nogain_pg_mark nogain_upd_where split: option.split)

text \<open>No call of the store touches the owner table.\<close>

lemma retention_owners: "partition_owners (applyRetentionTx p x t0 t) = partition_owners t"
  by (simp add: applyRetentionTx_def Let_def drop_rows_frame(5))

lemma retention_fold_owners: "partition_owners (fold (\<lambda>x. applyRetentionTx p x t0) xs t) = partition_owners t"
  by (induction xs arbitrary: t) (simp_all add: retention_owners)

lemma enqueue_loop_owners:
  "pg_enqueue_loop skip t0 ds t touched = Inr (t', touched') \<Longrightarrow> partition_owners t' = partition_owners t"
  by (induction ds arbitrary: t touched) (force simp: Let_def split: if_splits)+

lemma Claim_owners: "partition_owners (db (snd (pg_Claim e ow g ps n s))) = partition_owners (db s)"
proof -
  obtain r s1 where "refreshDistributedOwnership e s = (r, s1)" by fastforce
  then show ?thesis
    using refresh_simps(1) [of e s r s1]
    by (auto simp: pg_Claim_def pg_claim_update_def Let_def split: option.split)
qed

lemma call_owners: "partition_owners (db (exec_call pg_store c s)) = partition_owners (db s)"
  using Claim_owners enqueue_loop_owners
  by (cases c) (auto simp: pg_MarkDelivered_def pg_MarkDeadLetter_def pg_MarkFailed_def pg_markTerminal_def pg_mark_def
      pg_IsSuspended_def pg_PendingOrInFlight_def pg_RecoverStale_def pg_Enqueue_def pg_Resume_def pg_ExhaustAndSuspend_def
      retention_owners retention_fold_owners Let_def split: option.split sum.split list.split)

section \<open>The fence\<close>

definition fence :: "int \<Rightarrow> int \<Rightarrow> pgdb \<Rightarrow> bool" where
  "fence p g t \<longleftrightarrow> 0 \<le> g \<and>
     (\<exists>po. owner_of_partition t p = Some po \<and> g < po_generation po \<and> po_generation po \<le> max_int64) \<and>
     (\<forall>k d. map_of (deliveries t) k = Some d \<longrightarrow> PartitionNo d = p \<longrightarrow> Status d = StatusInFlight \<longrightarrow>
        Generation d \<noteq> word_of_int g)"

lemma stamps_differ:
  assumes "0 \<le> g" "g < G" "G \<le> max_int64"
  shows "(word_of_int G :: uint64) \<noteq> word_of_int g"
proof
  assume "(word_of_int G :: uint64) = word_of_int g"
  then have "uint (word_of_int G :: uint64) = uint (word_of_int g :: uint64)" by simp
  then show False using assms by (simp add: uint_word_of_int max_int64_def)
qed

lemma fence_nogain:
  assumes "fence p g t" "db_nogain t t'" "owner_of_partition t' p = Some po" "g < po_generation po" "po_generation po \<le> max_int64"
  shows "fence p g t'"
  using assms unfolding fence_def db_nogain_def by blast

lemma fence_Claim:
  assumes "pg_gates (proc s)" "fence p g (db s)" "pg_Claim e owner gen parts limit s = (r, s')"
  shows "fence p g (db s')"
proof -
  obtain po where po: "owner_of_partition (db s) p = Some po" "g < po_generation po" "po_generation po \<le> max_int64" "0 \<le> g"
    using assms(2) by (auto simp: fence_def)
  from pg_Claim_cases [OF assms(3,1)] consider "db s' = db s"
    | s1 cs where "db s1 = db s" "(r, s') = pg_claim_update e owner (partition_stamp (db s)) cs s1"
  proof (elim disjE exE conjE)
    assume "partition_owners (db s) = []"
    then show ?thesis using po(1) by (simp add: owner_of_partition_def)
  qed (use that in blast)+
  then show ?thesis
  proof cases
    case 1
    then show ?thesis using assms(2) by simp
  next
    case 2
    let ?f = "\<lambda>d. claim_row owner (partition_stamp (db s) d) (pe_now e) d"
    have T: "deliveries (db s') = upd_where (\<lambda>d. ID d \<in> set (map ID cs)) ?f (deliveries (db s))"
      and o': "partition_owners (db s') = partition_owners (db s)"
      using 2 by (auto simp: pg_claim_update_def Let_def)
    have "Generation d \<noteq> word_of_int g"
      if k: "map_of (deliveries (db s')) k = Some d" "PartitionNo d = p" "Status d = StatusInFlight" for k d
    proof -
      obtain d0 where d0: "map_of (deliveries (db s)) k = Some d0" "d = (if ID d0 \<in> set (map ID cs) then ?f d0 else d0)"
        using k(1) by (auto simp: T store_simps)
      show ?thesis
      proof (cases "ID d0 \<in> set (map ID cs)")
        case True
        then have "Generation d = word_of_int (po_generation po)"
          using d0(2) k(2) po(1) by (simp add: claim_row_def partition_stamp_def)
        then show ?thesis using stamps_differ [OF po(4,2,3)] by simp
      next
        case False
        then show ?thesis using d0 k assms(2) by (simp add: fence_def)
      qed
    qed
    then show ?thesis using po o' by (auto simp: fence_def owner_of_partition_def)
  qed
qed

lemma fence_call:
  assumes "pg_gates (proc s)" "fence p g (db s)"
  shows "fence p g (db (exec_call pg_store c s))"
proof (cases "\<exists>e ow g' ps n. c = Claim_call e ow g' ps n")
  case True
  then obtain e ow g' ps n where c: "c = Claim_call e ow g' ps n" by blast
  obtain r s' where r: "pg_Claim e ow g' ps n s = (r, s')" by fastforce
  show ?thesis using fence_Claim [OF assms r] by (simp add: c r)
next
  case False
  then have n: "db_nogain (db s) (db (exec_call pg_store c s))" by (intro nogain_call [OF assms(1)]) blast
  obtain po where "owner_of_partition (db s) p = Some po" "g < po_generation po" "po_generation po \<le> max_int64"
    using assms(2) by (auto simp: fence_def)
  then show ?thesis by (intro fence_nogain [OF assms(2) n]) (simp_all add: owner_of_partition_def call_owners)
qed

text \<open>The generation of a partition never goes back, and stays in range.\<close>

definition gens_grow :: "pgdb \<Rightarrow> pgdb \<Rightarrow> bool" where
  "gens_grow t t' \<longleftrightarrow> (\<forall>p po. owner_of_partition t p = Some po \<longrightarrow> po_generation po \<le> max_int64 \<longrightarrow>
     (\<exists>po'. owner_of_partition t' p = Some po' \<and> po_generation po \<le> po_generation po' \<and> po_generation po' \<le> max_int64))"

lemma gens_grow_refl: "gens_grow t t"
  by (auto simp: gens_grow_def)

lemma gens_grow_set:
  assumes "owner_of_partition (db s) p = Some po" "po_generation po' = po_generation po \<or>
    po_generation po' = po_generation po + 1 \<and> po_generation po \<noteq> max_int64"
  shows "gens_grow (db s) (db (set_owner p po' s))"
  using assms by (auto simp: gens_grow_def set_owner_def owner_of_partition_def update_conv')

lemma gens_grow_signal [simp]: "gens_grow t (db (pg_signal s)) = gens_grow t (db s)"
  by simp

lemma insert_missing_keeps: "map_of tab p = Some po \<Longrightarrow> map_of (insert_missing q ns tab) p = Some po"
  by (induction ns arbitrary: q tab) auto

lemma with_ownership_db:
  assumes "\<And>s1. db s1 = db s \<Longrightarrow> Q (db (snd (f s1)))" "Q (db s)"
  shows "Q (db (snd (with_ownership e s f)))"
  by (rule with_ownership_cases [where e = e and s = s and f = f]) (use assms in simp_all)

lemma Ensure_grow: "gens_grow (db s) (db (snd (EnsureOwnerAssignments e ns s)))"
proof -
  have "gens_grow t (t\<lparr>partition_owners := insert_missing 0 ns (partition_owners t)\<rparr>)" for t
    using insert_missing_keeps by (auto simp: gens_grow_def owner_of_partition_def)
  then show ?thesis by (auto simp: EnsureOwnerAssignments_def Let_def gens_grow_refl split: option.split)
qed

lemma Begin_grow: "gens_grow (db s) (db (snd (BeginHandoff e p src dst s)))"
  unfolding BeginHandoff_def
proof (rule with_ownership_db [where Q = "gens_grow (db s)"], goal_cases)
  case (1 s1)
  then show ?case by (auto simp: gens_grow_refl 1 [symmetric] intro!: gens_grow_set split: option.split)
qed (rule gens_grow_refl)

lemma Complete_grow: "gens_grow (db s) (db (snd (CompleteHandoff e p s)))"
  unfolding CompleteHandoff_def
proof (rule with_ownership_db [where Q = "gens_grow (db s)"], goal_cases)
  case (1 s1)
  then show ?case by (auto simp: gens_grow_refl 1 [symmetric] intro!: gens_grow_set split: option.split)
qed (rule gens_grow_refl)

lemma Force_grow: "gens_grow (db s) (db (snd (ForceTakeover e p dst g s)))"
  unfolding ForceTakeover_def Let_def
proof (rule with_ownership_db [where Q = "gens_grow (db s)"], goal_cases)
  case (1 s1)
  have r: "gens_grow t t' \<Longrightarrow> gens_grow t (t'\<lparr>deliveries := T\<rparr>)" for t t' T
    by (simp add: gens_grow_def owner_of_partition_def)
  show ?case by (auto simp: gens_grow_refl 1 [symmetric] intro!: gens_grow_set r split: option.split)
qed (rule gens_grow_refl)

lemma moves_nogain: "moves b p s s' \<Longrightarrow> db_nogain (db s) (db s')"
proof -
  assume m: "moves b p s s'"
  have "db_nogain (db s) (db s')" if "owners_only s s'"
    using that by (auto simp: owners_only_def db_nogain_def)
  moreover have "db_nogain (db s) (db s')" if forced: "force_reset p s s'"
    using forced by (auto simp: force_reset_def db_nogain_def store_simps split: if_splits)
  ultimately show ?thesis using m by (auto simp: moves_def)
qed

lemma fence_grow:
  assumes "fence p g t" "db_nogain t t'" "gens_grow t t'"
  shows "fence p g t'"
proof -
  obtain po where po: "owner_of_partition t p = Some po" "g < po_generation po" "po_generation po \<le> max_int64"
    using assms(1) by (auto simp: fence_def)
  obtain po' where "owner_of_partition t' p = Some po'" "po_generation po \<le> po_generation po'" "po_generation po' \<le> max_int64"
    using assms(3) po unfolding gens_grow_def by blast
  then show ?thesis using po(2) by (intro fence_nogain [OF assms(1,2)]) simp_all
qed

lemma fence_op:
  assumes "\<forall>n. sound_proc (cl_proc s n)" "fence p g (cl_db s)"
  shows "fence p g (cl_db (exec_op x s))"
proof (cases x)
  case (Store_op c)
  then show ?thesis
    using fence_call [of "at_node (fst (call_env c)) s" p g "local_call c"] assms
    by (simp add: exec_cluster sound_proc_def)
next
  case (Ensure_op e ns)
  then show ?thesis
    using fence_grow [OF _ moves_nogain [OF Ensure_moves] Ensure_grow, of p g "at_node (fst e) s"] assms(2) by simp
next
  case (Begin_op e q src dst)
  then show ?thesis
    using fence_grow [OF _ moves_nogain [OF Begin_moves] Begin_grow, of p g "at_node (fst e) s"] assms(2) by simp
next
  case (Complete_op e q)
  then show ?thesis
    using fence_grow [OF _ moves_nogain [OF Complete_moves] Complete_grow, of p g "at_node (fst e) s"] assms(2) by simp
next
  case (Force_op e q dst g')
  then show ?thesis
    using fence_grow [OF _ moves_nogain [OF Force_moves] Force_grow, of p g "at_node (fst e) s"] assms(2) by simp
qed

lemma fence_ops:
  "cluster_inv s \<Longrightarrow> \<forall>x \<in> set xs. fair_node (op_env x) \<Longrightarrow> fence p g (cl_db s) \<Longrightarrow> fence p g (cl_db (exec_ops xs s))"
proof (induction xs arbitrary: s)
  case (Cons x xs)
  then show ?case using op_steps [of s x] fence_op [of s p g x] by (simp add: cluster_inv_def)
qed simp

text \<open>A takeover from another node puts the fence up.\<close>

lemma takeover_effect:
  assumes "ForceTakeover e p dst expected s = (None, s')" "owner_of_partition (db s) p = Some po" "owner_node po \<noteq> dst"
  shows "po_generation po = sint expected \<and> po_generation po \<noteq> max_int64 \<and>
    owner_of_partition (db s') p = Some (po\<lparr>owner_node := dst, po_generation := po_generation po + 1,
       po_state := PoActive, next_owner := None\<rparr>) \<and>
    (\<not> SkipInFlightReset (proc s) \<longrightarrow> (\<forall>k d. map_of (deliveries (db s')) k = Some d \<longrightarrow> PartitionNo d = p \<longrightarrow> Status d \<noteq> StatusInFlight))"
proof -
  let ?f = "\<lambda>s1. ForceTakeover e p dst expected s1"
  obtain r s1 where r: "refreshDistributedOwnership e s = (r, s1)" by fastforce
  have s1: "db s1 = db s" "SkipInFlightReset (proc s1) = SkipInFlightReset (proc s)"
    using r by (auto simp: refreshDistributedOwnership_def SetDistributedOwnership_def split: option.splits if_splits)
  have g: "pe_ctx e = None" "r = None" "distributedOwnership (proc s1)" "pe_fault e SMain = None"
      "po_generation po = sint expected" "po_generation po \<noteq> max_int64"
      "dst \<noteq> []" "\<not> has_slash dst" "expected \<noteq> 0" "(word_of_int (po_generation po) :: uint64) = expected"
    using assms by (auto simp: ForceTakeover_def with_ownership_def r s1 Let_def split: option.splits if_splits)
  let ?s2 = "set_owner p (po\<lparr>owner_node := dst, po_generation := po_generation po + 1, po_state := PoActive, next_owner := None\<rparr>) s1"
  have "ForceTakeover e p dst expected s = (None, pg_signal (if SkipInFlightReset (proc ?s2) then ?s2
      else ?s2\<lparr>db := (db ?s2)\<lparr>deliveries := upd_where (in_flight_in p) (\<lambda>d. release (d\<lparr>Status := StatusPending\<rparr>)) (deliveries (db ?s2))\<rparr>\<rparr>))"
    unfolding ForceTakeover_def with_ownership_def r Let_def using assms(2,3) g by (simp add: s1)
  then have s': "s' = pg_signal (if SkipInFlightReset (proc ?s2) then ?s2
      else ?s2\<lparr>db := (db ?s2)\<lparr>deliveries := upd_where (in_flight_in p) (\<lambda>d. release (d\<lparr>Status := StatusPending\<rparr>)) (deliveries (db ?s2))\<rparr>\<rparr>)"
    using assms(1) by simp
  have "owner_of_partition (db s') p = Some (po\<lparr>owner_node := dst, po_generation := po_generation po + 1,
       po_state := PoActive, next_owner := None\<rparr>)"
    by (simp add: s' set_owner_def owner_of_partition_def update_conv')
  moreover have "Status d \<noteq> StatusInFlight"
    if k: "\<not> SkipInFlightReset (proc s)" "map_of (deliveries (db s')) k = Some d" "PartitionNo d = p" for k d
  proof -
    let ?freed = "\<lambda>d. release (d\<lparr>Status := StatusPending\<rparr>)"
    have "deliveries (db s') = upd_where (in_flight_in p) ?freed (deliveries (db s))"
      using k(1) by (simp add: s' set_owner_def s1)
    then obtain d0 where "d = (if in_flight_in p d0 then ?freed d0 else d0)"
      using k(2) by (auto simp: store_simps)
    then show ?thesis using k(3) by (auto simp: in_flight_in_def release_def split: if_splits)
  qed
  ultimately show ?thesis using g(5,6) by blast
qed

end
