(* ===== verification/PostgresProps.thy ===== *)
theory PostgresProps
  imports Takeover
begin

text \<open>
  The properties of the Postgres store and of a cluster of processes on one database.
\<close>

section \<open>A concrete cluster\<close>

definition fresh_cluster :: "(nat \<Rightarrow> pgproc) \<Rightarrow> cluster" where
  "fresh_cluster procs = \<lparr>cl_db = db pg_empty, cl_proc = procs\<rparr>"

definition cluster_empty :: cluster where
  "cluster_empty = fresh_cluster (\<lambda>_. proc pg_empty)"

lemma sound_proc_empty [simp]: "sound_proc (proc pg_empty)"
  by (simp add: sound_proc_def pg_gates_def pg_empty_def)

lemma fresh_cluster_inv: "\<forall>n. sound_proc (procs n) \<Longrightarrow> cluster_inv (fresh_cluster procs)"
proof -
  assume procs: "\<forall>n. sound_proc (procs n)"
  have "pg_view (db pg_empty) = \<lparr>rows = Map.empty, held = (\<lambda>_. False), last_seq = (\<lambda>_. 0)\<rparr>"
    by (rule pg_view_eqI) (simp_all add: pg_empty_def is_suspended_def fun_eq_iff)
  then show ?thesis
    using ainv_empty procs by (simp add: cluster_inv_def fresh_cluster_def db_inv_def) (simp add: pg_empty_def keyed_def)
qed

lemma cluster_empty_inv: "cluster_inv cluster_empty"
  by (simp add: cluster_empty_def fresh_cluster_inv)

definition pg_live :: "gotime \<Rightarrow> pgenv" where
  "pg_live t = \<lparr>pe_ctx = None, pe_clock = t, pe_now = t, pe_fault = (\<lambda>_. None), pe_locked = (\<lambda>_. False),
     pe_collate = (\<lambda>x. x), pe_arrange = (\<lambda>ds. ds), pe_touched = (\<lambda>xs. xs)\<rparr>"

lemma pg_live_fair [simp]: "fair_node (n, pg_live t)"
  by (simp add: fair_node_def fair_pg_def pg_live_def)

lemma pg_live_simps [simp]: "pe_ctx (pg_live t) = None" "pe_fault (pg_live t) st = None"
  by (simp_all add: pg_live_def)

definition pg_row :: "string \<Rightarrow> string \<Rightarrow> delivery" where
  "pg_row k x = \<lparr>ID = k, EventID = ''e'', SubscriberID = x, URL = ''u'', PartitionNo = 0, Sequence = 0,
     Payload = None, EventType = [], Secret = None, Status = StatusPending, Attempt = 0, NextAttempt = 0,
     LastError = [], Owner = [], Generation = 0, ClaimedAt = 0, CreatedAt = 0\<rparr>"

text \<open>
  Node 0 (\<open>a\<close>) claims the first of two rows; node 1 (\<open>b\<close>) takes the partition over and claims the row
  again, while \<open>a\<close> still works on it.
\<close>

definition sample_setup :: "cluster_op list" where
  "sample_setup =
     [Ensure_op (0, pg_live 1000) [''a''],
      Store_op (Enqueue_call (0, pg_live 2000) [pg_row ''r1'' ''s'', pg_row ''r2'' ''s'']),
      Store_op (Claim_call (0, pg_live 3000) ''a/i/worker-0'' 1 [0] 64)]"

definition sample_takeover :: "cluster_op list" where
  "sample_takeover =
     [Force_op (1, pg_live 4000) 0 ''b'' 1,
      Store_op (Claim_call (1, pg_live 5000) ''b/j/worker-0'' 1 [0] 64),
      Store_op (MarkDelivered_call (1, pg_live 6000) ''r1'' ''b/j/worker-0'' 2),
      Store_op (Claim_call (1, pg_live 7000) ''b/j/worker-0'' 1 [0] 64)]"

lemma sample_ops_fair:
  "\<forall>x \<in> set sample_setup. fair_node (op_env x)" "\<forall>x \<in> set sample_takeover. fair_node (op_env x)"
  by (simp_all add: sample_setup_def sample_takeover_def)

lemma sample_cluster_inv: "cluster_inv (exec_ops sample_setup cluster_empty)"
  using ops_steps [OF cluster_empty_inv sample_ops_fair(1)] by blast

section \<open>Order\<close>

lemma sample_op_history: "op_history (sample_setup @ sample_takeover) cluster_empty = [(''s'', 1), (''s'', 1), (''s'', 2)]"
  by code_simp

text \<open>
  Claim C1. Whatever the processes of a cluster do on one database, enqueue, claim, mark, suspend, resume,
  recover, hand partitions over or take them by force, in any order and on any node, and whatever rows
  other sessions have locked: the rows the database hands out for a subscriber, to whichever node, never
  go back to a smaller sequence number.
\<close>

theorem cluster_never_inverts:
  assumes "\<forall>n. sound_proc (procs n)" "\<forall>x \<in> set xs. fair_node (op_env x)"
    and "i < j" "j < length (op_history xs (fresh_cluster procs))"
    and "fst (op_history xs (fresh_cluster procs) ! i) = fst (op_history xs (fresh_cluster procs) ! j)"
  shows "snd (op_history xs (fresh_cluster procs) ! i) \<le> snd (op_history xs (fresh_cluster procs) ! j)"
  using per_subscriber_order_nth [OF op_history_ordered [OF fresh_cluster_inv [OF assms(1)] assms(2)] assms(3-5)] .

theorem cluster_never_inverts_witness:
  "op_history (sample_setup @ sample_takeover) cluster_empty = [(''s'', 1), (''s'', 1), (''s'', 2)] \<and>
   snd (op_history (sample_setup @ sample_takeover) cluster_empty ! 1)
     \<le> snd (op_history (sample_setup @ sample_takeover) cluster_empty ! 2)"
proof -
  have "\<forall>x \<in> set (sample_setup @ sample_takeover). fair_node (op_env x)" using sample_ops_fair by auto
  from cluster_never_inverts [OF _ this, of "\<lambda>_. proc pg_empty" 1 2] show ?thesis
    by (simp add: sample_op_history flip: cluster_empty_def)
qed

text \<open>
  Claim C9. Every history of a cluster implements the abstract ordering specification: there is a run of
  abstract steps between the abstractions of the tables before and after that hands out exactly what
  the database handed out; ownership moves take part in it only by putting rows back. In particular the
  tables stay well formed: no two rows of a subscriber in flight, no handed-out row with an unfinished
  earlier one, nothing pending for a suspended subscriber.
\<close>

theorem cluster_refines_abstract:
  assumes "cluster_inv s" "\<forall>x \<in> set xs. fair_node (op_env x)"
  shows "cluster_inv (exec_ops xs s) \<and> ainv (pg_view (cl_db (exec_ops xs s))) \<and>
    (\<exists>ls. asteps (pg_view (cl_db s)) ls (pg_view (cl_db (exec_ops xs s))) \<and> claims ls = op_history xs s)"
  using ops_steps [OF assms] by (auto simp: cluster_inv_def db_invD(2))

theorem cluster_refines_abstract_witness:
  "\<exists>ls. asteps (pg_view (cl_db cluster_empty)) ls (pg_view (cl_db (exec_ops (sample_setup @ sample_takeover) cluster_empty))) \<and>
     claims ls = [(''s'', 1), (''s'', 1), (''s'', 2)]"
proof -
  have "\<forall>x \<in> set (sample_setup @ sample_takeover). fair_node (op_env x)" using sample_ops_fair by auto
  from cluster_refines_abstract [OF cluster_empty_inv this] show ?thesis by (simp add: sample_op_history)
qed

section \<open>The fence\<close>

text \<open>An operation that answers with an error and does nothing.\<close>

definition refused :: "('s \<Rightarrow> store_error option \<times> 's) \<Rightarrow> 's \<Rightarrow> bool" where
  "refused f s \<longleftrightarrow> fst (f s) \<noteq> None \<and> snd (f s) = s"

definition marks_refused :: "node_env \<Rightarrow> string \<Rightarrow> string \<Rightarrow> uint64 \<Rightarrow> cluster \<Rightarrow> bool" where
  "marks_refused e k ow g s \<longleftrightarrow> refused (op_MarkDelivered cluster_store e k ow g) s \<and>
     (\<forall>a t m. refused (op_MarkFailed cluster_store e k ow g a t m) s) \<and>
     (\<forall>m. refused (op_MarkDeadLetter cluster_store e k ow g m) s) \<and>
     (\<forall>m. refused (op_ExhaustAndSuspend cluster_store e k ow g m) s)"

lemma put_at_node [simp]: "put_node n (at_node n s) s = s"
  by (simp add: put_node_def at_node_def)

lemma marks_refusedI:
  assumes "keyed (deliveries (cl_db s))" "\<forall>n. sound_proc (cl_proc s n)"
    and "\<And>d. map_of (deliveries (cl_db s)) k = Some d \<Longrightarrow> Status d = StatusInFlight \<Longrightarrow> Owner d \<noteq> ow \<or> Generation d \<noteq> g"
  shows "marks_refused e k ow g s"
proof -
  let ?s = "at_node (fst e) s"
  have K: "keyed (deliveries (db ?s))" and p: "\<not> SkipMarkOwnerGenCheck (proc ?s)"
    using assms(1,2) by (simp_all add: sound_proc_def)
  have no: "\<not> mark_where (proc ?s) k ow g d" if "map_of (deliveries (db ?s)) k = Some d" for d
    using assms(3) [of d] that p by (auto simp: mark_where_def)
  have m: "fst (pg_mark e' k ow g f ?s) \<noteq> None \<and> snd (pg_mark e' k ow g f ?s) = ?s" for e' f
    using pg_mark_cases [OF K, of e' k ow g f] no by blast
  have x: "fst (pg_ExhaustAndSuspend e' k ow g msg ?s) \<noteq> None \<and> snd (pg_ExhaustAndSuspend e' k ow g msg ?s) = ?s" for e' msg
    using pg_ExhaustAndSuspend_cases [OF K, of e' k ow g msg] no by blast
  show ?thesis
    by (simp add: marks_refused_def refused_def cluster_store_def split_def m x pg_MarkDelivered_def pg_MarkDeadLetter_def
        pg_MarkFailed_def pg_markTerminal_def del: not_None_eq)
qed

lemma fence_refuses:
  assumes "keyed (deliveries (cl_db s))" "\<forall>n. sound_proc (cl_proc s n)" "fence p (sint g) (cl_db s)"
    and "\<forall>d. map_of (deliveries (cl_db s)) k = Some d \<longrightarrow> PartitionNo d = p"
  shows "marks_refused e k ow g s"
  by (rule marks_refusedI [OF assms(1,2)]) (use assms(3,4) in \<open>auto simp: fence_def\<close>)

lemma takeover_puts_fence:
  assumes "on_node n (ForceTakeover e p dst g) s = (None, s1)" "\<not> SkipInFlightReset (cl_proc s n)"
    and "owner_of_partition (cl_db s) p = Some po" "owner_node po \<noteq> dst" "0 \<le> po_generation po" "po_generation po \<le> max_int64"
  shows "fence p (sint g) (cl_db s1)"
    "owner_of_partition (cl_db s1) p = Some \<lparr>owner_node = dst, po_generation = sint g + 1, po_state = PoActive, next_owner = None\<rparr>"
proof -
  obtain s' where f: "ForceTakeover e p dst g (at_node n s) = (None, s')" and s1: "cl_db s1 = db s'"
    using assms(1) by (auto simp: on_node_def split: prod.splits)
  note t = takeover_effect [OF f, of po]
  show "owner_of_partition (cl_db s1) p = Some \<lparr>owner_node = dst, po_generation = sint g + 1, po_state = PoActive, next_owner = None\<rparr>"
    using t assms(3,4) by (simp add: s1)
  then show "fence p (sint g) (cl_db s1)"
    using t assms(2-6) by (auto simp: s1 fence_def)
qed

lemma fence_later:
  assumes "cluster_inv s" "fence p (sint g) (cl_db s)" "\<forall>x \<in> set xs. fair_node (op_env x)"
    and "\<forall>d. map_of (deliveries (cl_db (exec_ops xs s))) k = Some d \<longrightarrow> PartitionNo d = p"
  shows "marks_refused e k ow g (exec_ops xs s)"
  using fence_refuses [OF _ _ fence_ops [OF assms(1,3,2)] assms(4)] ops_steps [OF assms(1,3)]
  by (auto simp: cluster_inv_def db_invD)

text \<open>
  Claim C2. A forced takeover fences the node it takes a partition from. If node \<open>dst\<close> takes partition
  \<open>p\<close> from another node at generation \<open>g\<close>, the partition is its own and active at generation \<open>g + 1\<close>; and
  from then on, whatever happens in the cluster, every mark (delivered, failed, dead-letter,
  exhausted) that still carries generation \<open>g\<close> for a row of the partition is refused and changes nothing,
  on any node and for any owner name, so the old owner can no longer affect what the new one does.
\<close>

theorem takeover_fences:
  assumes "cluster_inv s" "on_node n (ForceTakeover e p dst g) s = (None, s1)" "\<not> SkipInFlightReset (cl_proc s n)"
    and "owner_of_partition (cl_db s) p = Some po" "owner_node po \<noteq> dst" "0 \<le> po_generation po" "po_generation po \<le> max_int64"
    and "\<forall>x \<in> set xs. fair_node (op_env x)" "fair_node (n, e)"
    and "\<forall>d. map_of (deliveries (cl_db (exec_ops xs s1))) k = Some d \<longrightarrow> PartitionNo d = p"
  shows "owner_of_partition (cl_db s1) p =
      Some \<lparr>owner_node = dst, po_generation = sint g + 1, po_state = PoActive, next_owner = None\<rparr> \<and>
    marks_refused e' k ow g (exec_ops xs s1)"
proof -
  have "cluster_inv s1" using op_steps [OF assms(1), of "Force_op (n, e) p dst g"] assms(2,9) by (simp flip: on_node_simps(2))
  with takeover_puts_fence [OF assms(2-7)] show ?thesis using fence_later assms(8,10) by blast
qed

definition sample_before :: cluster where "sample_before = exec_ops sample_setup cluster_empty"

definition sample_after :: cluster where
  "sample_after = snd (on_node 1 (ForceTakeover (pg_live 4000) 0 ''b'' 1) sample_before)"

lemma sample_before_facts:
  "cluster_inv sample_before" "\<not> SkipInFlightReset (cl_proc sample_before 1)"
  "owner_of_partition (cl_db sample_before) 0 = Some (new_owner ''a'')"
  "on_node 1 (ForceTakeover (pg_live 4000) 0 ''b'' 1) sample_before = (None, sample_after)"
proof -
  show "cluster_inv sample_before" by (simp add: sample_before_def sample_cluster_inv)
  show "\<not> SkipInFlightReset (cl_proc sample_before 1)" by code_simp
  show "owner_of_partition (cl_db sample_before) 0 = Some (new_owner ''a'')" by code_simp
  have "fst (on_node 1 (ForceTakeover (pg_live 4000) 0 ''b'' 1) sample_before) = None" by code_simp
  then show "on_node 1 (ForceTakeover (pg_live 4000) 0 ''b'' 1) sample_before = (None, sample_after)"
    unfolding sample_after_def by (simp only: prod_eq_iff fst_conv snd_conv simp_thms)
qed

theorem takeover_fences_witness:
  "map_option (\<lambda>d. (Status d, Owner d, Generation d)) (map_of (deliveries (cl_db sample_before)) ''r1'')
     = Some (StatusInFlight, ''a/i/worker-0'', 1) \<and>
   marks_refused (0, pg_live 5500) ''r1'' ''a/i/worker-0'' 1 (exec_ops [Store_op (Claim_call (1, pg_live 5000) ''b/j/worker-0'' 1 [0] 64)] sample_after)"
proof -
  let ?xs = "[Store_op (Claim_call (1, pg_live 5000) ''b/j/worker-0'' 1 [0] 64)]"
  have row: "map_option PartitionNo (map_of (deliveries (cl_db (exec_ops ?xs sample_after))) ''r1'') = Some 0" by code_simp
  have "marks_refused (0, pg_live 5500) ''r1'' ''a/i/worker-0'' 1 (exec_ops ?xs sample_after)"
    using takeover_fences [OF sample_before_facts(1,4,2,3), of ?xs "''r1''" "(0, pg_live 5500)" "''a/i/worker-0''"] row
    by (auto simp: new_owner_def max_int64_def)
  moreover have "map_option (\<lambda>d. (Status d, Owner d, Generation d)) (map_of (deliveries (cl_db sample_before)) ''r1'')
     = Some (StatusInFlight, ''a/i/worker-0'', 1)" by code_simp
  ultimately show ?thesis by simp
qed

section \<open>A graceful handoff\<close>

lemma cnt_where_none: "cnt_where q T = 0 \<Longrightarrow> map_of T k = Some d \<Longrightarrow> \<not> q d"
  by (auto simp: cnt_where_def sel_where_def filter_empty_conv dest!: map_of_SomeD)

lemma complete_effect:
  assumes "CompleteHandoff e p s = (None, s')"
  shows "\<exists>po dst. owner_of_partition (db s) p = Some po \<and> po_state po = PoDraining \<and> next_owner po = Some dst \<and>
    po_generation po \<noteq> max_int64 \<and> deliveries (db s') = deliveries (db s) \<and>
    (\<forall>k d. map_of (deliveries (db s)) k = Some d \<longrightarrow> PartitionNo d = p \<longrightarrow> Status d \<noteq> StatusInFlight) \<and>
    owner_of_partition (db s') = (owner_of_partition (db s))(p \<mapsto>
      \<lparr>owner_node = dst, po_generation = po_generation po + 1, po_state = PoActive, next_owner = None\<rparr>)"
proof -
  define f where "f = (\<lambda>s1. case pe_fault e SMain of
       Some m \<Rightarrow> (Some (HDatabase m), s1)
     | None \<Rightarrow>
         (case owner_of_partition (db s1) p of
            None \<Rightarrow> (Some (HMissed p), s1)
          | Some po \<Rightarrow>
              (case next_owner po of
                 None \<Rightarrow> (Some (HMissed p), s1)
               | Some dst \<Rightarrow>
                   if po_state po = PoDraining \<and> cnt_where (in_flight_in p) (deliveries (db s1)) = 0
                   then if po_generation po = max_int64 then (Some (HDatabase ''bigint out of range''), s1)
                     else (None, pg_signal (set_owner p
                       (po\<lparr>owner_node := dst, po_state := PoActive, next_owner := None, po_generation := po_generation po + 1\<rparr>) s1))
                   else (Some (HMissed p), s1))))"
  have c: "with_ownership e s f = (None, s')" using assms by (simp add: CompleteHandoff_def f_def)
  obtain s1 where s1: "f s1 = (None, s')" "db s1 = db s"
    by (rule with_ownership_cases [where e = e and s = s and f = f]) (use c in simp_all)
  obtain po dst where po: "owner_of_partition (db s) p = Some po" "next_owner po = Some dst" "po_state po = PoDraining"
      "cnt_where (in_flight_in p) (deliveries (db s)) = 0" "po_generation po \<noteq> max_int64"
      "s' = pg_signal (set_owner p
          (po\<lparr>owner_node := dst, po_state := PoActive, next_owner := None, po_generation := po_generation po + 1\<rparr>) s1)"
    using s1 unfolding f_def by (auto split: option.splits if_splits)
  have no: "\<forall>k d. map_of (deliveries (db s)) k = Some d \<longrightarrow> PartitionNo d = p \<longrightarrow> Status d \<noteq> StatusInFlight"
    using cnt_where_none [OF po(4)] by (auto simp: in_flight_in_def)
  have "owner_of_partition (db s') = (owner_of_partition (db s))(p \<mapsto>
      \<lparr>owner_node = dst, po_generation = po_generation po + 1, po_state = PoActive, next_owner = None\<rparr>)"
    by (simp add: po(6) set_owner_def s1(2) owner_of_partition_def update_conv' fun_eq_iff)
  then show ?thesis using po no by (auto simp: s1(2) set_owner_def)
qed

section \<open>Claims\<close>

lemma node_owns_iff:
  "\<not> BypassDrainingClaimGate p \<Longrightarrow> node_owns p node t d \<longleftrightarrow>
     (\<exists>po. owner_of_partition t (PartitionNo d) = Some po \<and> owner_node po = node \<and> po_state po = PoActive)"
  by (auto simp: node_owns_def split: option.split)

lemma refresh_bypass:
  "refreshDistributedOwnership e s = (r, s') \<Longrightarrow> BypassDrainingClaimGate (proc s') = BypassDrainingClaimGate (proc s)"
  by (auto simp: refreshDistributedOwnership_def SetDistributedOwnership_def split: option.splits if_splits)

lemma Claim_bypass:
  "BypassDrainingClaimGate (proc (snd (pg_Claim e ow g ps n s))) = BypassDrainingClaimGate (proc s)"
proof -
  obtain r s1 where "refreshDistributedOwnership e s = (r, s1)" by fastforce
  then show ?thesis
    using refresh_bypass [of e s r s1]
    by (auto simp: pg_Claim_def pg_claim_update_def Let_def split: option.split)
qed

text \<open>A candidate of a distributed claim, and what becomes of it.\<close>

lemma candidate_owned:
  assumes "pg_gates p" "keyed (deliveries t)" "\<not> BypassDrainingClaimGate p"
    and "d0 \<in> set (pg_candidates e p (node_owns p node t) limit t)"
  shows "\<exists>po. map_of (deliveries t) (ID d0) = Some d0 \<and> Status d0 = StatusPending \<and>
    NextAttempt d0 \<le> pe_now e \<and> \<not> pe_locked e (ID d0) \<and> \<not> is_suspended t (SubscriberID d0) \<and>
    (\<forall>k d1. map_of (deliveries t) k = Some d1 \<longrightarrow> SubscriberID d1 = SubscriberID d0 \<longrightarrow>
       Status d1 \<in> {StatusPending, StatusInFlight} \<longrightarrow> Sequence d0 \<le> Sequence d1) \<and>
    owner_of_partition t (PartitionNo d0) = Some po \<and> po_state po = PoActive \<and> owner_node po = node \<and>
    partition_stamp t d0 = word_of_int (po_generation po)"
proof -
  note f = pg_candidates_fit(2) [OF assms(2,1,4)]
  obtain po where po: "owner_of_partition t (PartitionNo d0) = Some po" "owner_node po = node" "po_state po = PoActive"
    using f by (auto simp: node_owns_iff [OF assms(3)])
  have "Sequence d0 \<le> Sequence d1"
    if "map_of (deliveries t) k = Some d1" "SubscriberID d1 = SubscriberID d0" "Status d1 \<in> {StatusPending, StatusInFlight}" for k d1
    using f map_of_SomeD [OF that(1)] that(2,3) by (force simp: claim_fit_def no_earlier_def list_ex_iff)
  then show ?thesis using f po by (intro exI [of _ po]) (simp add: claim_fit_def partition_stamp_def)
qed

text \<open>
  Claim C6. Once a database has an owner table, a claim hands out only rows of partitions that the table
  gives, in state active, to the node named in the claiming worker's token (a draining partition hands
  out nothing); each was pending, due by the server's clock, not locked by another session, of a
  subscriber that is not suspended and the first unfinished row of its subscriber; it comes back in
  flight, held by the caller, stamped with the generation of its partition rather than the one the caller
  passed. No more rows come back than the limit, and none twice.
\<close>

theorem claim_respects_ownership:
  assumes "pg_inv s" "fair_pg e" "partition_owners (db s) \<noteq> []" "\<not> BypassDrainingClaimGate (proc s)"
    and "pg_Claim e owner gen parts limit s = (Inr ds, s')"
  shows "length ds \<le> nat limit \<and> distinct (map ID ds) \<and>
    (\<forall>d \<in> set ds. \<exists>d0 po. map_of (deliveries (db s)) (ID d) = Some d0 \<and> Status d0 = StatusPending \<and>
       NextAttempt d0 \<le> pe_now e \<and> \<not> pe_locked e (ID d) \<and> \<not> is_suspended (db s) (SubscriberID d0) \<and>
       (\<forall>k d1. map_of (deliveries (db s)) k = Some d1 \<longrightarrow> SubscriberID d1 = SubscriberID d0 \<longrightarrow>
          Status d1 \<in> {StatusPending, StatusInFlight} \<longrightarrow> Sequence d0 \<le> Sequence d1) \<and>
       owner_of_partition (db s) (PartitionNo d0) = Some po \<and> po_state po = PoActive \<and>
       parseDistributedOwner owner = Some (owner_node po) \<and>
       d = claim_row owner (word_of_int (po_generation po)) (pe_now e) d0)"
proof -
  have i: "pg_gates (proc s)" "keyed (deliveries (db s))" using assms(1) by (simp_all add: pg_inv_def db_invD)
  show ?thesis
    using pg_Claim_cases [OF assms(5) i(1)]
  proof (elim disjE exE conjE)
    assume "\<forall>ds'. (Inr ds :: store_error + delivery list) = Inr ds' \<longrightarrow> ds' = []"
    then show ?thesis by simp
  next
    fix s1 owned stamp assume "partition_owners (db s) = []"
    then show ?thesis using assms(3) by simp
  next
    fix s1 owned stamp node
    assume s1: "db s1 = db s" "pg_gates (proc s1)"
      "(Inr ds, s') = pg_claim_update e owner stamp (pg_candidates e (proc s1) owned limit (db s1)) s1"
      and node: "parseDistributedOwner owner = Some node" "stamp = partition_stamp (db s)"
      "owned = node_owns (proc s1) node (db s)"
    let ?cs = "pg_candidates e (proc s1) owned limit (db s)"
    let ?f = "\<lambda>d. claim_row owner (partition_stamp (db s) d) (pe_now e) d"
    have ds: "ds = pe_arrange e (map ?f ?cs)" and p': "proc s' = proc s1"
      using s1(3) unfolding pg_claim_update_def Let_def s1(1) node(2) by simp_all
    have byp: "\<not> BypassDrainingClaimGate (proc s1)" using Claim_bypass [of e owner gen parts limit s] assms(4,5) p' by simp
    have m: "mset ds = mset (map ?f ?cs)" using assms(2) by (simp add: ds fair_pg_def)
    have ids: "map ID (map ?f ?cs) = map ID ?cs" by (simp add: claim_row_def)
    have "mset (map ID ds) = mset (map ID ?cs)" using arg_cong [OF m, of "image_mset ID"] ids by (simp only: mset_map [symmetric])
    then have "distinct (map ID ds)" using pg_candidates_fit(1) [OF i(2) s1(2)] mset_eq_imp_distinct_iff by blast
    moreover have "length ds \<le> nat limit" using mset_eq_length [OF m] by (simp add: pg_candidates_def)
    moreover have "\<exists>d0. d0 \<in> set ?cs \<and> d = ?f d0 \<and> ID d0 = ID d" if "d \<in> set ds" for d
      using that mset_eq_setD [OF m] by (auto simp: claim_row_def)
    ultimately show ?thesis
      using candidate_owned [OF s1(2) i(2) byp] node(1) unfolding node(3) by metis
  qed
qed

text \<open>Two rows of one subscriber are pending in a partition of node \<open>a\<close>; only the first is handed out.\<close>

definition sample_enqueued :: cluster where "sample_enqueued = exec_ops (take 2 sample_setup) cluster_empty"

definition sample_claimed :: "delivery list \<times> pg" where
  "sample_claimed = (case pg_Claim (pg_live 3000) ''a/i/worker-0'' 7 [] 64 (at_node 0 sample_enqueued) of
     (Inr ds, s) \<Rightarrow> (ds, s) | (Inl _, s) \<Rightarrow> ([], s))"

theorem claim_respects_ownership_witness:
  "pg_Claim (pg_live 3000) ''a/i/worker-0'' 7 [] 64 (at_node 0 sample_enqueued) = (Inr (fst sample_claimed), snd sample_claimed) \<and>
   map (\<lambda>d. (ID d, Owner d, Generation d)) (fst sample_claimed) = [(''r1'', ''a/i/worker-0'', 1)] \<and>
   distinct (map ID (fst sample_claimed))"
proof -
  have "\<forall>x \<in> set (take 2 sample_setup). fair_node (op_env x)" using sample_ops_fair(1) by (meson in_set_takeD)
  from conjunct1 [OF ops_steps [OF cluster_empty_inv this]] have "cluster_inv sample_enqueued"
    unfolding sample_enqueued_def .
  then have i: "pg_inv (at_node 0 sample_enqueued)" by (rule conjunct1 [OF at_node_inv])
  have f: "fair_pg (pg_live 3000)" by (simp add: fair_pg_def pg_live_def)
  have o: "partition_owners (db (at_node 0 sample_enqueued)) \<noteq> []" "\<not> BypassDrainingClaimGate (proc (at_node 0 sample_enqueued))"
    by code_simp+
  have m: "map (\<lambda>d. (ID d, Owner d, Generation d)) (fst sample_claimed) = [(''r1'', ''a/i/worker-0'', 1)]" by code_simp
  obtain r s' where r: "pg_Claim (pg_live 3000) ''a/i/worker-0'' 7 [] 64 (at_node 0 sample_enqueued) = (r, s')" by fastforce
  then have "r = Inr (fst sample_claimed)" "s' = snd sample_claimed"
    using m by (cases r; simp add: sample_claimed_def)+
  with r have c: "pg_Claim (pg_live 3000) ''a/i/worker-0'' 7 [] 64 (at_node 0 sample_enqueued) = (Inr (fst sample_claimed), snd sample_claimed)"
    by simp
  show ?thesis using claim_respects_ownership [OF i f o c] m c by blast
qed

end
