(* ===== verification/ClusterProps.thy ===== *)
theory ClusterProps
  imports PostgresProps DispatchProps
begin

text \<open>
  The dispatcher on a node of a cluster, and the functions that give out and move partitions, each on
  its own: assigning owners, retrying a takeover, reading a node from a worker's token.
\<close>

section \<open>A dispatcher on a cluster\<close>

definition cluster_kind :: "nat \<Rightarrow> cluster store_kind" where
  "cluster_kind n = \<lparr>k_fresh = cluster_empty, k_retention = (\<lambda>_ _ s. s),
     k_distributed = (\<lambda>s. HasDistributedOwnership (at_node n s)), k_counts = True\<rparr>"

lemma cluster_sys_inv:
  assumes "New (cluster_kind n) cfg rnd now = Inr d" "cfg_Store cfg = Some s0" "cluster_inv s0"
  shows "sys_inv cluster_inv (\<lambda>s. db_holds (cl_db s)) (sys_init d)"
  using New_Inr(1,2) [OF assms(1)] assms(2,3) by (simp add: sys_inv_def sys_init_def rows_held_def cluster_kind_def)

text \<open>A node \<open>a\<close> that owns both partitions.\<close>

definition sample_owned :: cluster where
  "sample_owned = exec_ops [Ensure_op (0, pg_live 1000) [''a'', ''a'']] cluster_empty"

definition sample_node_config :: "cluster Config" where
  "sample_node_config = \<lparr>cfg_Store = Some sample_owned, cfg_Workers = 2, cfg_Partitions = 2, cfg_MaxAttempts = 0,
     cfg_BaseBackoff = 0, cfg_MaxBackoff = 0, cfg_RetentionMaxCount = 0, cfg_RetentionMaxAge = 0, cfg_OnSuspend = True,
     cfg_OnDeliveryError = True, cfg_IDPrefix = ''x'', cfg_OverlapPartitions = False, cfg_PartitionsClaim = None,
     cfg_StaleClaimAge = 0, cfg_NodeID = ''a''\<rparr>"

definition sample_node_d :: "cluster dispatcher" where
  "sample_node_d = (case New (cluster_kind 0) sample_node_config (Some ''r'') 0 of Inl err \<Rightarrow> undefined | Inr d \<Rightarrow> d)"

lemma New_sample_node: "New (cluster_kind 0) sample_node_config (Some ''r'') 0 = Inr sample_node_d"
proof -
  have "\<not> isl (New (cluster_kind 0) sample_node_config (Some ''r'') 0)" by code_simp
  then show ?thesis by (auto simp: sample_node_d_def isl_def split: sum.split)
qed

section \<open>A dispatcher among the nodes of a cluster\<close>

text \<open>
  What others do to the database while a dispatcher runs: any call of the store, by any node, not in the name of this
  dispatcher's workers; assigning owners; graceful handoffs of any partition. Recovery of stale claims
  and a forced takeover take rows from live attempts by design: they count here when they leave the rows
  \<open>rs\<close> that the dispatcher's goroutines hold at that moment alone, that is when none of them is stale, or in the
  partition taken.
\<close>

definition row_spared :: "(delivery \<Rightarrow> bool) \<Rightarrow> (string \<times> delivery) list \<Rightarrow> cluster \<Rightarrow> bool" where
  "row_spared p rs s \<longleftrightarrow> (\<forall>q \<in> set rs. case map_of (deliveries (cl_db s)) (ID (snd q)) of None \<Rightarrow> True | Some d \<Rightarrow> \<not> p d)"

fun spares :: "string list \<Rightarrow> (string \<times> delivery) list \<Rightarrow> cluster_op \<Rightarrow> cluster \<Rightarrow> bool" where
  "spares toks rs (Store_op c) s \<longleftrightarrow>
     (case c of
        RecoverStale_call e a \<Rightarrow> row_spared (pg_stale (micros (time_Add (pe_clock (snd e)) (neg_duration a)))) rs s
      | _ \<Rightarrow> foreign_ok toks c)"
| "spares toks rs (Force_op e p dst g) s \<longleftrightarrow> row_spared (\<lambda>d. PartitionNo d = p) rs s"
| "spares toks rs x s \<longleftrightarrow> True"

inductive node_step ::
  "(string \<Rightarrow> string \<Rightarrow> bytes \<Rightarrow> string + bytes) \<Rightarrow> bool \<Rightarrow> cluster system \<Rightarrow> cluster system \<Rightarrow> bool" for marshal counts where
  own: "sys_step cluster_store fair_node marshal counts s s' \<Longrightarrow> node_step marshal counts s s'"
| others: "fair_node (op_env x) \<Longrightarrow> spares (d_spawned (sy_d s)) (pool_rows (sy_pool s)) x (d_store (sy_d s)) \<Longrightarrow>
     node_step marshal counts s (s\<lparr>sy_d := (sy_d s)\<lparr>d_store := exec_op x (d_store (sy_d s))\<rparr>\<rparr>)"

abbreviation cl_holds :: "cluster \<Rightarrow> string \<Rightarrow> string \<Rightarrow> uint64 \<Rightarrow> string \<times> int \<Rightarrow> bool" where
  "cl_holds \<equiv> \<lambda>s. db_holds (cl_db s)"

abbreviation cl_explained :: "cluster system \<Rightarrow> cluster system \<Rightarrow> bool" where
  "cl_explained \<equiv> explained cluster_inv (\<lambda>s. pg_view (cl_db s)) cl_holds"

lemma row_sparedD: "row_spared p rs s \<Longrightarrow> q \<in> set rs \<Longrightarrow> map_of (deliveries (cl_db s)) (ID (snd q)) = Some d \<Longrightarrow> \<not> p d"
  by (auto simp: row_spared_def split: option.splits)

lemma holds_same_row:
  "map_of (deliveries t') k = map_of (deliveries t) k \<Longrightarrow> db_holds t' k ow g p = db_holds t k ow g p"
  by (simp add: db_holds_def)

lemma recover_spares:
  assumes "row_spared (pg_stale (micros (time_Add (pe_clock e) (neg_duration a)))) rs s" "q \<in> set rs"
  shows "map_of (deliveries (db (snd (pg_RecoverStale e a (at_node n s))))) (ID (snd q)) = map_of (deliveries (cl_db s)) (ID (snd q))"
  using row_sparedD [OF assms]
  by (cases "map_of (deliveries (cl_db s)) (ID (snd q))") (auto simp: pg_RecoverStale_def Let_def store_simps split: option.split)

lemma move_spares:
  assumes "moves b p (at_node n s) s'" "b \<longrightarrow> row_spared (\<lambda>d. PartitionNo d = p) rs s" "q \<in> set rs"
  shows "map_of (deliveries (db s')) (ID (snd q)) = map_of (deliveries (cl_db s)) (ID (snd q))"
proof -
  have "owners_only (at_node n s) s' \<or> b \<and> force_reset p (at_node n s) s'" using assms(1) by (simp add: moves_def)
  then show ?thesis
  proof
    assume "owners_only (at_node n s) s'"
    then show ?thesis by (auto simp: owners_only_def)
  next
    assume f: "b \<and> force_reset p (at_node n s) s'"
    then obtain po where "db s' = (cl_db s)\<lparr>partition_owners := po, deliveries := upd_where (in_flight_in p)
        (\<lambda>d. release (d\<lparr>Status := StatusPending\<rparr>)) (deliveries (cl_db s))\<rparr>"
      by (auto simp: force_reset_def)
    then show ?thesis
      using f row_sparedD [OF _ assms(3)] assms(2)
      by (cases "map_of (deliveries (cl_db s)) (ID (snd q))") (auto simp: store_simps in_flight_in_def)
  qed
qed

lemma spared_rows_held:
  assumes "cluster_inv s" "fair_node (op_env x)" "spares toks rs x s" "rows_held cl_holds s rs" "fst ` set rs \<subseteq> set toks"
  shows "rows_held cl_holds (exec_op x s) rs"
proof -
  have keep: "cl_holds (exec_op x s) (ID (snd q)) (fst q) (Generation (snd q)) (post_of (snd q))" if q: "q \<in> set rs" for q
  proof -
    have h: "cl_holds s (ID (snd q)) (fst q) (Generation (snd q)) (post_of (snd q))"
      using assms(4) q by (simp add: rows_held_def)
    have same: ?thesis if "map_of (deliveries (cl_db (exec_op x s))) (ID (snd q)) = map_of (deliveries (cl_db s)) (ID (snd q))"
      using h holds_same_row [OF that] by simp
    show ?thesis
    proof (cases x)
      case (Store_op c)
      show ?thesis
      proof (cases "\<exists>e a. c = RecoverStale_call e a")
        case True
        then obtain e a where c: "c = RecoverStale_call e a" by blast
        have "row_spared (pg_stale (micros (time_Add (pe_clock (snd e)) (neg_duration a)))) rs s"
          using assms(3) Store_op c by simp
        from recover_spares [OF this q, of "fst e"] show ?thesis
          using Store_op c by (intro same) (simp add: cluster_store_def split_def)
      next
        case False
        then have "foreign_ok toks c" using assms(3) Store_op by (cases c) simp_all
        moreover have "fst q \<in> set toks" using assms(5) q by auto
        ultimately have "\<not> ends_claim (ID (snd q)) (fst q) (Generation (snd q)) c"
          by (cases c) (auto simp: foreign_ok_def ends_claim_def)
        then show ?thesis using cluster_fenced.holds_persist [OF assms(1) _ h] assms(2) Store_op by simp
      qed
    next
      case (Ensure_op e ns)
      then show ?thesis using move_spares [OF Ensure_moves [where b = False] _ q] by (intro same) simp
    next
      case (Begin_op e p src dst)
      then show ?thesis using move_spares [OF Begin_moves [where b = False] _ q] by (intro same) simp
    next
      case (Complete_op e p)
      then show ?thesis using move_spares [OF Complete_moves [where b = False] _ q] by (intro same) simp
    next
      case (Force_op e p dst g)
      then show ?thesis using move_spares [OF Force_moves _ q] assms(3) by (intro same) simp
    qed
  qed
  then show ?thesis using assms(4) by (simp add: rows_held_def)
qed

lemma node_step_explained:
  assumes "node_step marshal counts s s'" "sys_inv cluster_inv cl_holds s"
  shows "cl_explained s s'"
  using assms
proof (induction rule: node_step.induct)
  case (own s s')
  then show ?case by (rule cluster_fenced.step_explained)
next
  case (others x s)
  let ?s = "d_store (sy_d s)"
  have i: "cluster_inv ?s" "rows_held cl_holds ?s (pool_rows (sy_pool s))" "map fst (sy_pool s) = d_spawned (sy_d s)"
    using others.prems by (simp_all add: sys_inv_def)
  have "fst ` set (pool_rows (sy_pool s)) \<subseteq> set (d_spawned (sy_d s))"
    using cluster_fenced.pool_rows_token i(3) by (metis image_subsetI)
  note h = spared_rows_held [OF i(1) others.hyps i(2) this]
  obtain ls where "asteps (pg_view (cl_db ?s)) ls (pg_view (cl_db (exec_op x ?s)))" "cluster_inv (exec_op x ?s)"
    using op_steps [OF i(1) others.hyps(1)] by blast
  moreover from this obtain ms where "asteps (pg_view (cl_db ?s)) ms (pg_view (cl_db (exec_op x ?s)))" "attempts ms = []"
    using asteps_without_attempts by blast
  ultimately show ?case
    using h others.prems by (auto simp: explained_def sys_inv_def)
qed

lemma explained_trans:
  assumes "explained J view holds s s1" "explained J view holds s1 s2"
  shows "explained J view holds s s2"
proof -
  obtain ls where "asteps (view (d_store (sy_d s))) ls (view (d_store (sy_d s1)))"
      "map post_of (sy_posts s1) = map post_of (sy_posts s) @ attempts ls"
    using assms(1) by (auto simp: explained_def)
  moreover obtain ms where "asteps (view (d_store (sy_d s1))) ms (view (d_store (sy_d s2)))"
      "map post_of (sy_posts s2) = map post_of (sy_posts s1) @ attempts ms"
    using assms(2) by (auto simp: explained_def)
  ultimately show ?thesis
    using assms(2) by (auto simp: explained_def intro!: exI [of _ "ls @ ms"] asteps_append)
qed

lemma node_run_explained:
  assumes "(node_step marshal counts)\<^sup>*\<^sup>* s s'" "sys_inv cluster_inv cl_holds s"
  shows "cl_explained s s'"
  using assms
proof (induction rule: rtranclp_induct)
  case base
  then show ?case by (auto simp: explained_def intro: exI [of _ "[]"])
next
  case (step s1 s2)
  have e: "cl_explained s s1" using step by simp
  then have "sys_inv cluster_inv cl_holds s1" by (simp add: explained_def)
  then show ?case by (rule explained_trans [OF e node_step_explained [OF step.hyps(2)]])
qed

lemma own_run: "(sys_step cluster_store fair_node marshal counts)\<^sup>*\<^sup>* s s' \<Longrightarrow> (node_step marshal counts)\<^sup>*\<^sup>* s s'"
  by (induction rule: rtranclp_induct) (auto intro: rtranclp.rtrancl_into_rtrancl own)

text \<open>
  Claim C18. The dispatcher keeps its order on a cluster: however the workers of a dispatcher whose store is the
  database interleave with each other, with the host and with the other nodes (their calls to the
  store, owner assignments and graceful handoffs of any partition, the recovery of stale claims and
  forced takeovers that spare the rows this dispatcher's goroutines hold at the time), its delivery
  attempts for one subscriber never go back to an earlier row, and at no time do its goroutines hold two
  rows of one subscriber. A recovery or takeover of a row that is being posted is outside: it may show
  on the wire as a repeated or reordered attempt, and what then holds is the fence (see \<open>takeover_effect\<close> and what follows it).
\<close>

theorem cluster_dispatcher_in_order:
  assumes "New (cluster_kind n) cfg rnd now = Inr d" "cfg_Store cfg = Some s0" "cluster_inv s0"
    and "(node_step marshal counts)\<^sup>*\<^sup>* (sys_init d) s"
  shows "(\<forall>i j. i < j \<and> j < length (sy_posts s) \<and> SubscriberID (sy_posts s ! i) = SubscriberID (sy_posts s ! j) \<longrightarrow>
      Sequence (sy_posts s ! i) \<le> Sequence (sy_posts s ! j)) \<and>
    distinct (map SubscriberID (map snd (pool_rows (sy_pool s))))"
proof -
  have i: "sys_inv cluster_inv cl_holds (sys_init d)" by (rule cluster_sys_inv [OF assms(1-3)])
  have ex: "cl_explained (sys_init d) s" by (rule node_run_explained [OF assms(4) i])
  then obtain ls where "asteps (pg_view (cl_db (d_store d))) ls (pg_view (cl_db (d_store (sy_d s))))"
      "map post_of (sy_posts s) = attempts ls"
    by (auto simp: explained_def sys_init_def)
  moreover have "ainv (pg_view (cl_db (d_store d)))"
    using i by (simp add: sys_inv_def sys_init_def cluster_inv_def db_invD)
  ultimately have o: "per_subscriber_order (map post_of (sy_posts s))" using asteps_attempts_ordered by metis
  have "sys_inv cluster_inv cl_holds s" using ex by (simp add: explained_def)
  then have "distinct (map SubscriberID (map snd (pool_rows (sy_pool s))))" by (rule cluster_fenced.pool_one_per_subscriber)
  moreover have "Sequence (sy_posts s ! i) \<le> Sequence (sy_posts s ! j)"
    if "i < j" "j < length (sy_posts s)" "SubscriberID (sy_posts s ! i) = SubscriberID (sy_posts s ! j)" for i j
    using per_subscriber_order_nth [OF o that(1)] that by (simp add: post_of_def)
  ultimately show ?thesis by blast
qed


text \<open>
  Node \<open>a\<close> owns both partitions. While worker 0 holds a row of each, node 1 recovers stale claims (none of
  them is) and starts to hand partition 1 over to itself; once its row is delivered, the handoff
  completes, and another node takes partition 1 by force while worker 0 posts the next row of partition 0.
\<close>

definition do_other :: "cluster_op \<Rightarrow> cluster system \<Rightarrow> cluster system" where
  "do_other x s = s\<lparr>sy_d := (sy_d s)\<lparr>d_store := exec_op x (d_store (sy_d s))\<rparr>\<rparr>"

lemma run_other:
  "(node_step marshal c)\<^sup>*\<^sup>* s0 s \<Longrightarrow> fair_node (op_env x) \<Longrightarrow>
   spares (d_spawned (sy_d s)) (pool_rows (sy_pool s)) x (d_store (sy_d s)) \<Longrightarrow>
   (node_step marshal c)\<^sup>*\<^sup>* s0 (do_other x s)"
proof -
  assume "fair_node (op_env x)" "spares (d_spawned (sy_d s)) (pool_rows (sy_pool s)) x (d_store (sy_d s))"
  then have "node_step marshal c s (do_other x s)" unfolding do_other_def by (rule others)
  then show "(node_step marshal c)\<^sup>*\<^sup>* s0 s \<Longrightarrow> ?thesis" by simp
qed

definition fleet_claimed :: "cluster system" where
  "fleet_claimed = do_claim cluster_store (0, pg_live 4000) 0
     (do_dispatch cluster_store (0, pg_live 3000) 98 ''e2'' [''a'', ''b'']
       (do_dispatch cluster_store (0, pg_live 3000) 65 ''e1'' [''a'']
         (do_start cluster_store (0, pg_live 2000) (sys_init sample_node_d))))"

definition fleet_recovered :: "cluster system" where
  "fleet_recovered = do_other (Store_op (RecoverStale_call (1, pg_live 6000) 3000)) fleet_claimed"

definition fleet_draining :: "cluster system" where
  "fleet_draining = do_other (Begin_op (1, pg_live 7000) 1 ''a'' ''b'') fleet_recovered"

definition fleet_posted :: "cluster system" where
  "fleet_posted = do_mark cluster_store (0, pg_live 9000) 0 ok_result (do_post 0
     (do_mark cluster_store (0, pg_live 8000) 0 ok_result (do_post 0 fleet_draining)))"

definition fleet_moved :: "cluster system" where
  "fleet_moved = do_other (Complete_op (1, pg_live 10000) 1) fleet_posted"

definition fleet_again :: "cluster system" where
  "fleet_again = do_claim cluster_store (0, pg_live 11000) 0 fleet_moved"

definition fleet_taken :: "cluster system" where
  "fleet_taken = do_other (Force_op (2, pg_live 12000) 1 ''c'' 2) fleet_again"

definition fleet_end :: "cluster system" where
  "fleet_end = do_post 0 fleet_taken"

lemma fleet_run: "(node_step sample_marshal True)\<^sup>*\<^sup>* (sys_init sample_node_d) fleet_end"
proof -
  let ?run = "(node_step sample_marshal True)\<^sup>*\<^sup>*"
  have more: "?run s0 s2" if "?run s0 s1" "(sys_step cluster_store fair_node sample_marshal True)\<^sup>*\<^sup>* s1 s2" for s0 s1 s2
    using rtranclp_trans [OF that(1) own_run [OF that(2)]] .
  have "?run (sys_init sample_node_d) fleet_claimed"
    unfolding fleet_claimed_def by (rule own_run) (simp add: run_claim run_dispatch run_start)
  then have "?run (sys_init sample_node_d) fleet_recovered"
    unfolding fleet_recovered_def by (rule run_other) (simp, code_simp)
  then have "?run (sys_init sample_node_d) fleet_draining"
    unfolding fleet_draining_def by (rule run_other) (simp, code_simp)
  then have "?run (sys_init sample_node_d) fleet_posted"
    unfolding fleet_posted_def by (rule more) (simp add: run_post run_mark)
  then have "?run (sys_init sample_node_d) fleet_moved"
    unfolding fleet_moved_def by (rule run_other) (simp, code_simp)
  then have "?run (sys_init sample_node_d) fleet_again"
    unfolding fleet_again_def by (rule more) (simp add: run_claim)
  then have "?run (sys_init sample_node_d) fleet_taken"
    unfolding fleet_taken_def by (rule run_other) (simp, code_simp)
  then show ?thesis unfolding fleet_end_def by (rule more) (simp add: run_post)
qed

theorem cluster_dispatcher_in_order_witness:
  "(node_step sample_marshal True)\<^sup>*\<^sup>* (sys_init sample_node_d) fleet_end \<and>
   map post_of (sy_posts fleet_end) = [(''a'', 1), (''b'', 1), (''a'', 2)] \<and>
   map_option (\<lambda>po. (owner_node po, po_generation po)) (owner_of_partition (cl_db (d_store (sy_d fleet_moved))) 1) = Some (''b'', 2) \<and>
   map_option (\<lambda>po. (owner_node po, po_generation po)) (owner_of_partition (cl_db (d_store (sy_d fleet_end))) 1) = Some (''c'', 3) \<and>
   distinct (map SubscriberID (map snd (pool_rows (sy_pool fleet_end))))"
proof -
  have "cluster_inv sample_owned"
    unfolding sample_owned_def by (rule conjunct1 [OF ops_steps [OF cluster_empty_inv]]) simp
  moreover have "cfg_Store sample_node_config = Some sample_owned" by (simp add: sample_node_config_def)
  moreover have "map post_of (sy_posts fleet_end) = [(''a'', 1), (''b'', 1), (''a'', 2)]" by code_simp
  moreover have "map_option (\<lambda>po. (owner_node po, po_generation po)) (owner_of_partition (cl_db (d_store (sy_d fleet_moved))) 1) = Some (''b'', 2)"
    "map_option (\<lambda>po. (owner_node po, po_generation po)) (owner_of_partition (cl_db (d_store (sy_d fleet_end))) 1) = Some (''c'', 3)"
    by code_simp+
  ultimately show ?thesis using cluster_dispatcher_in_order [OF New_sample_node] fleet_run by blast
qed

section \<open>Assigning owners\<close>

lemma check_owners_None: "check_owners p ns = None \<longleftrightarrow> (\<forall>n \<in> set ns. n \<noteq> [] \<and> \<not> has_slash n)"
  by (induction ns arbitrary: p) auto

lemma first_conflict_None: "first_conflict ns T = None \<longleftrightarrow> (\<forall>(p, po) \<in> set T. owner_node po = ns ! nat p)"
  by (induction ns T rule: first_conflict.induct) auto

lemma insert_missing_lookup:
  "map_of (insert_missing q ns tab) p = (case map_of tab p of Some po \<Rightarrow> Some po
     | None \<Rightarrow> if q \<le> p \<and> p < q + int (length ns) then Some (new_owner (ns ! nat (p - q))) else None)"
proof (induction ns arbitrary: q tab)
  case (Cons n ns)
  have s: "nat (p - q) = Suc (nat (p - (q + 1)))" if "q + 1 \<le> p" using that by simp
  show ?case
    by (auto simp: Cons.IH map_add_Some_iff map_add_def s split: option.split)
qed (simp split: option.split)

lemma insert_missing_set:
  "(p, po) \<in> set (insert_missing q ns tab) \<Longrightarrow>
   (p, po) \<in> set tab \<or> q \<le> p \<and> p < q + int (length ns) \<and> po = new_owner (ns ! nat (p - q))"
proof (induction ns arbitrary: q tab)
  case (Cons n ns)
  have s: "nat (p - q) = Suc (nat (p - (q + 1)))" if "q + 1 \<le> p" using that by simp
  show ?case using Cons.IH [OF Cons.prems [simplified]] by (auto simp: s split: if_splits)
qed simp

definition agrees :: "string list \<Rightarrow> (int \<times> owner_row) list \<Rightarrow> bool" where
  "agrees ns tab \<longleftrightarrow> (\<forall>(p, po) \<in> set tab. 0 \<le> p \<longrightarrow> p < int (length ns) \<longrightarrow> owner_node po = ns ! nat p)"

text \<open>When the call succeeds, and what it does then.\<close>

lemma Ensure_success:
  assumes "pe_ctx e = None" "pe_fault e SMain = None"
  shows "fst (EnsureOwnerAssignments e ns s) = None \<longleftrightarrow>
      ns \<noteq> [] \<and> (\<forall>n \<in> set ns. n \<noteq> [] \<and> \<not> has_slash n) \<and> agrees ns (partition_owners (db s))"
    and "snd (EnsureOwnerAssignments e ns s) = (if fst (EnsureOwnerAssignments e ns s) = None
      then SetDistributedOwnership True (s\<lparr>db := (db s)\<lparr>partition_owners := insert_missing 0 ns (partition_owners (db s))\<rparr>\<rparr>) else s)"
proof -
  let ?ex = "sort_key fst (filter (\<lambda>(p, po). 0 \<le> p \<and> p < int (length ns)) (partition_owners (db s)))"
  have a: "first_conflict ns ?ex = None \<longleftrightarrow> agrees ns (partition_owners (db s))"
    by (auto simp: first_conflict_None agrees_def)
  show "fst (EnsureOwnerAssignments e ns s) = None \<longleftrightarrow>
      ns \<noteq> [] \<and> (\<forall>n \<in> set ns. n \<noteq> [] \<and> \<not> has_slash n) \<and> agrees ns (partition_owners (db s))"
    using assms a check_owners_None [of 0 ns] by (auto simp: EnsureOwnerAssignments_def Let_def split: option.split)
  show "snd (EnsureOwnerAssignments e ns s) = (if fst (EnsureOwnerAssignments e ns s) = None
      then SetDistributedOwnership True (s\<lparr>db := (db s)\<lparr>partition_owners := insert_missing 0 ns (partition_owners (db s))\<rparr>\<rparr>) else s)"
    using assms by (simp add: EnsureOwnerAssignments_def Let_def split: option.split)
qed

lemma agrees_insert: "agrees ns tab \<Longrightarrow> agrees ns (insert_missing 0 ns tab)"
  by (fastforce simp: agrees_def new_owner_def dest: insert_missing_set)

text \<open>
  Claim C39. Assigning owners never changes an assignment: \<open>EnsureOwnerAssignments\<close> succeeds only if every
  name is usable (not empty, no slash) and no partition of the list already belongs to another node; then
  each partition of the list belongs to the node the list names, those without a row got one, active at
  generation 1, and existing rows (with their generation and state), partitions beyond the list and all
  delivery rows are as before. Otherwise nothing at all changes. Assigning the same list again succeeds
  and leaves the tables as they are.
\<close>

theorem ensure_owners_keeps_assignments:
  assumes "pe_ctx e = None" "pe_fault e SMain = None" "EnsureOwnerAssignments e ns s = (r, s')"
  shows "(r \<noteq> None \<longrightarrow> s' = s) \<and>
    (r = None \<longrightarrow> ns \<noteq> [] \<and> (\<forall>n \<in> set ns. n \<noteq> [] \<and> \<not> has_slash n) \<and>
       HasDistributedOwnership s' \<and> deliveries (db s') = deliveries (db s) \<and>
       (\<forall>p. owner_of_partition (db s') p = (case owner_of_partition (db s) p of
            Some po \<Rightarrow> Some po
          | None \<Rightarrow> if 0 \<le> p \<and> p < int (length ns) then Some (new_owner (ns ! nat p)) else None)) \<and>
       (\<forall>p. 0 \<le> p \<and> p < int (length ns) \<longrightarrow> map_option owner_node (owner_of_partition (db s') p) = Some (ns ! nat p)) \<and>
       (\<exists>s''. EnsureOwnerAssignments e ns s' = (None, s'') \<and> owner_of_partition (db s'') = owner_of_partition (db s')))"
proof -
  let ?tab = "partition_owners (db s)"
  note S = Ensure_success [OF assms(1,2)]
  have no: "r \<noteq> None \<longrightarrow> s' = s" using S(2) [of ns s] assms(3) by auto
  have yes: "ns \<noteq> [] \<and> (\<forall>n \<in> set ns. n \<noteq> [] \<and> \<not> has_slash n) \<and> agrees ns ?tab \<and>
      s' = SetDistributedOwnership True (s\<lparr>db := (db s)\<lparr>partition_owners := insert_missing 0 ns ?tab\<rparr>\<rparr>)" if "r = None"
    using S [of ns s] assms(3) that by simp
  have own: "owner_of_partition (db s') p = (case owner_of_partition (db s) p of
      Some po \<Rightarrow> Some po | None \<Rightarrow> if 0 \<le> p \<and> p < int (length ns) then Some (new_owner (ns ! nat p)) else None)"
    if "r = None" for p
    using yes [OF that] by (simp add: owner_of_partition_def SetDistributedOwnership_def insert_missing_lookup split: option.split)
  have node: "map_option owner_node (owner_of_partition (db s') p) = Some (ns ! nat p)"
    if "r = None" "0 \<le> p" "p < int (length ns)" for p
  proof (cases "owner_of_partition (db s) p")
    case None
    then show ?thesis using own [OF that(1), of p] that by (simp add: new_owner_def)
  next
    case (Some po)
    then have "(p, po) \<in> set ?tab" by (simp add: owner_of_partition_def map_of_SomeD)
    then show ?thesis using own [OF that(1), of p] Some yes [OF that(1)] that(2,3) by (auto simp: agrees_def)
  qed
  have again: "\<exists>s''. EnsureOwnerAssignments e ns s' = (None, s'') \<and> owner_of_partition (db s'') = owner_of_partition (db s')"
    if "r = None"
  proof -
    have "partition_owners (db s') = insert_missing 0 ns ?tab" using yes [OF that] by (simp add: SetDistributedOwnership_def)
    then have f: "fst (EnsureOwnerAssignments e ns s') = None" using S(1) [of ns s'] yes [OF that] agrees_insert by simp
    have "owner_of_partition (db (snd (EnsureOwnerAssignments e ns s'))) p = owner_of_partition (db s') p" for p
      using S(2) [of ns s'] f own [OF that, of p]
      by (simp add: owner_of_partition_def SetDistributedOwnership_def insert_missing_lookup split: option.splits if_splits)
    then show ?thesis using f by (intro exI [of _ "snd (EnsureOwnerAssignments e ns s')"]) (simp add: prod_eq_iff fun_eq_iff)
  qed
  show ?thesis using no yes own node again by (auto simp: HasDistributedOwnership_def SetDistributedOwnership_def)
qed

theorem ensure_owners_keeps_assignments_witness:
  "\<exists>s'. EnsureOwnerAssignments (pg_live 0) [''a'', ''b''] pg_empty = (None, s') \<and>
     map_option owner_node (owner_of_partition (db s') 1) = Some ''b''"
proof -
  have "fst (EnsureOwnerAssignments (pg_live 0) [''a'', ''b''] pg_empty) = None" by code_simp
  then obtain s' where s': "EnsureOwnerAssignments (pg_live 0) [''a'', ''b''] pg_empty = (None, s')"
    by (metis prod.collapse)
  have "\<forall>p. 0 \<le> p \<and> p < int (length [''a'', ''b'']) \<longrightarrow>
      map_option owner_node (owner_of_partition (db s') p) = Some ([''a'', ''b''] ! nat p)"
    using ensure_owners_keeps_assignments [OF pg_live_simps s'] by blast
  from spec [OF this, of 1] have "map_option owner_node (owner_of_partition (db s') 1) = Some ''b''" by simp
  with s' show ?thesis by blast
qed

section \<open>Retrying a takeover\<close>

lemma force_success:
  assumes "ForceTakeover e p dst g s = (None, s')"
  shows "dst \<noteq> [] \<and> \<not> has_slash dst \<and> g \<noteq> 0 \<and> (\<exists>po. owner_of_partition (db s') p = Some po \<and> owner_node po = dst \<and>
    po_state po = PoActive \<and> (word_of_int (po_generation po) = g \<or> word_of_int (po_generation po) = g + 1))"
proof -
  obtain r s1 where r: "refreshDistributedOwnership e s = (r, s1)" by fastforce
  obtain po where po: "owner_of_partition (db s) p = Some po"
    using assms refresh_simps(1) [OF r] by (auto simp: ForceTakeover_def with_ownership_def r split: option.splits if_splits)
  have g: "dst \<noteq> []" "\<not> has_slash dst" "g \<noteq> 0"
    using assms by (auto simp: ForceTakeover_def with_ownership_def r split: option.splits if_splits)
  show ?thesis
  proof (cases "owner_node po = dst")
    case False
    then show ?thesis using takeover_effect [OF assms po] g by simp
  next
    case True
    have "s' = s1 \<and> po_state po = PoActive \<and> (word_of_int (po_generation po) = g \<or> word_of_int (po_generation po) = g + 1) \<or>
        s' = pg_signal (set_owner p (po\<lparr>po_state := PoActive, next_owner := None\<rparr>) s1) \<and> word_of_int (po_generation po) = g"
      using assms po True refresh_simps(1) [OF r]
      by (auto simp: ForceTakeover_def with_ownership_def r Let_def split: option.splits if_splits)
    then show ?thesis
      using g po True refresh_simps(1) [OF r] by (auto simp: set_owner_def owner_of_partition_def update_conv')
  qed
qed

text \<open>
  A takeover may be retried: when it has succeeded, the same call on the resulting state, by
  any process, succeeds again and changes no table, so a supervisor that lost the answer can repeat it
  without bumping the generation twice.
\<close>

theorem force_takeover_idempotent:
  assumes "ForceTakeover e p dst g s = (None, s')"
    and "pe_ctx e' = None" "pe_fault e' SRefresh = None" "pe_fault e' SMain = None"
  shows "\<exists>s''. ForceTakeover e' p dst g (s'\<lparr>proc := pr\<rparr>) = (None, s'') \<and> db s'' = db s'"
proof -
  obtain po where po: "dst \<noteq> []" "\<not> has_slash dst" "g \<noteq> 0" "owner_of_partition (db s') p = Some po" "owner_node po = dst"
      "po_state po = PoActive" "word_of_int (po_generation po) = g \<or> word_of_int (po_generation po) = g + 1"
    using force_success [OF assms(1)] by blast
  let ?s = "s'\<lparr>proc := pr\<rparr>" and ?s1 = "SetDistributedOwnership True (s'\<lparr>proc := pr\<rparr>)"
  have "partition_owners (db s') \<noteq> []" using po(4) by (auto simp: owner_of_partition_def)
  then have r: "refreshDistributedOwnership e' ?s = (None, ?s1)" by (simp add: refreshDistributedOwnership_def assms(3))
  have d: "distributedOwnership (proc ?s1)" "db ?s1 = db s'" by (simp_all add: SetDistributedOwnership_def)
  have "ForceTakeover e' p dst g ?s = (None, ?s1)"
    unfolding ForceTakeover_def with_ownership_def Let_def using po assms(2,4) d by (auto simp: r)
  then show ?thesis using d(2) by blast
qed

theorem force_takeover_idempotent_witness:
  "\<exists>s''. ForceTakeover (pg_live 9000) 0 ''b'' 1 ((at_node 1 sample_after)\<lparr>proc := proc pg_empty\<rparr>) = (None, s'') \<and>
     db s'' = cl_db sample_after"
proof -
  obtain s' where f: "ForceTakeover (pg_live 4000) 0 ''b'' 1 (at_node 1 sample_before) = (None, s')" and d: "db s' = cl_db sample_after"
  proof
    let ?r = "ForceTakeover (pg_live 4000) 0 ''b'' 1 (at_node 1 sample_before)"
    have "fst ?r = None" "put_node 1 (snd ?r) sample_before = sample_after"
      using sample_before_facts(4) by (metis fst_conv on_node_simps(1), metis snd_conv on_node_simps(2))
    then show "?r = (None, snd ?r)" "db (snd ?r) = cl_db sample_after"
      by (simp add: prod_eq_iff, metis on_node_simps(5))
  qed
  have eq: "s'\<lparr>proc := proc pg_empty\<rparr> = (at_node 1 sample_after)\<lparr>proc := proc pg_empty\<rparr>" by (simp add: d at_node_def)
  show ?thesis using force_takeover_idempotent [OF f, of "pg_live 9000" "proc pg_empty"] unfolding eq d by simp
qed

section \<open>The node in a worker's token\<close>

lemma Split_Cons:
  "Split s sep = w # ws \<Longrightarrow> sep \<notin> set w \<and> (case ws of [] \<Rightarrow> s = w | _ \<Rightarrow> (\<exists>t. s = w @ sep # t \<and> Split t sep = ws))"
proof (induction s arbitrary: w ws)
  case (Cons c cs)
  show ?case
  proof (cases "c = sep")
    case True
    then show ?thesis using Cons.prems by (cases ws) auto
  next
    case False
    obtain v vs where v: "Split cs sep = v # vs" by (cases "Split cs sep") auto
    then have w: "w = c # v" "ws = vs" using Cons.prems False by simp_all
    show ?thesis using Cons.IH [OF v] False by (cases vs) (auto simp: w)
  qed
qed simp

lemma Split_three:
  "Split s sep = [a, b, c] \<longleftrightarrow> s = a @ sep # b @ sep # c \<and> sep \<notin> set a \<and> sep \<notin> set b \<and> sep \<notin> set c"
proof
  assume "Split s sep = [a, b, c]"
  from Split_Cons [OF this] obtain t where t: "s = a @ sep # t" "Split t sep = [b, c]" "sep \<notin> set a" by auto
  from Split_Cons [OF t(2)] obtain u where u: "t = b @ sep # u" "Split u sep = [c]" "sep \<notin> set b" by auto
  from Split_Cons [OF u(2)] show "s = a @ sep # b @ sep # c \<and> sep \<notin> set a \<and> sep \<notin> set b \<and> sep \<notin> set c"
    using t u by simp
qed (simp add: Split_append Split_no_sep)

lemma scan_int_range: "scan_int s = Some n \<Longrightarrow> int64 n"
  by (auto simp: scan_int_def ParseInt_def Let_def split: option.splits if_splits)

lemma token_no_slash: "CHR ''/'' \<notin> set (worker_prefix @ show_int n)"
  using show_int_chars [of "CHR ''/''" n] by (auto simp: worker_prefix_def is_digit_def)

lemma three_parts: "length xs = 3 \<longleftrightarrow> (\<exists>a b c. xs = [a, b, c])"
  by (auto simp: numeral_3_eq_3 length_Suc_conv)

text \<open>
  The store accepts as the owner of a distributed claim exactly the tokens the workers of a
  dispatcher with a node name and an incarnation carry, and reads back the node: a token is accepted for
  node \<open>n\<close> if and only if it is the one that \<open>claimOwnerID\<close> builds from \<open>n\<close>, some incarnation
  (both not empty, without slash) and some worker index of 64 bits.
\<close>

theorem parse_distributed_owner_exact:
  "parseDistributedOwner owner = Some node \<longleftrightarrow>
     (\<exists>inc w. int64 w \<and> node \<noteq> [] \<and> inc \<noteq> [] \<and> \<not> has_slash node \<and> \<not> has_slash inc \<and> owner = claimOwnerID node inc w)"
proof
  assume p: "parseDistributedOwner owner = Some node"
  then have "length (Split owner (CHR ''/'')) = 3"
    by (simp add: parseDistributedOwner_def Let_def split: if_splits)
  then obtain a b c where s: "Split owner (CHR ''/'') = [a, b, c]" unfolding three_parts by blast
  then obtain n where n: "a \<noteq> []" "b \<noteq> []" "c = worker_prefix @ show_int n" "int64 n" "node = a"
    using p scan_int_range by (auto simp: parseDistributedOwner_def Let_def split: if_splits option.splits)
  then show "\<exists>inc w. int64 w \<and> node \<noteq> [] \<and> inc \<noteq> [] \<and> \<not> has_slash node \<and> \<not> has_slash inc \<and> owner = claimOwnerID node inc w"
    using s unfolding Split_three by (intro exI [of _ b] exI [of _ n]) (simp add: has_slash_def claimOwnerID_def)
next
  assume "\<exists>inc w. int64 w \<and> node \<noteq> [] \<and> inc \<noteq> [] \<and> \<not> has_slash node \<and> \<not> has_slash inc \<and> owner = claimOwnerID node inc w"
  then obtain inc w where o: "int64 w" "node \<noteq> []" "inc \<noteq> []" "\<not> has_slash node" "\<not> has_slash inc" "owner = claimOwnerID node inc w"
    by blast
  then have "Split owner (CHR ''/'') = [node, inc, worker_prefix @ show_int w]"
    using token_no_slash [of w] unfolding Split_three by (simp add: has_slash_def claimOwnerID_def)
  then show "parseDistributedOwner owner = Some node"
    using o(1-3) by (simp add: parseDistributedOwner_def scan_int_show_int)
qed

section \<open>The table of owners\<close>

text \<open>
  What the schema checks of a row of \<^verbatim>\<open>fold_partition_owners\<close>, a partition is draining exactly when it has
  a next owner, and what the operations add: node names that can stand in a worker's token, and a
  generation of at least 1 that fits a BIGINT.
\<close>

definition node_name :: "string \<Rightarrow> bool" where
  "node_name node \<longleftrightarrow> node \<noteq> [] \<and> \<not> has_slash node"

definition owner_row_ok :: "owner_row \<Rightarrow> bool" where
  "owner_row_ok po \<longleftrightarrow> (po_state po = PoActive \<longleftrightarrow> next_owner po = None) \<and> 1 \<le> po_generation po \<and> po_generation po \<le> max_int64 \<and>
     node_name (owner_node po) \<and> (case next_owner po of None \<Rightarrow> True | Some dst \<Rightarrow> node_name dst)"

definition owner_table_ok :: "pgdb \<Rightarrow> bool" where
  "owner_table_ok t \<longleftrightarrow> distinct (map fst (partition_owners t)) \<and> list_all (\<lambda>(p, po). owner_row_ok po) (partition_owners t)"

lemma owner_table_row: "owner_table_ok t \<Longrightarrow> owner_of_partition t p = Some po \<Longrightarrow> owner_row_ok po"
  by (auto simp: owner_table_ok_def owner_of_partition_def list_all_iff dest!: map_of_SomeD)

lemma owner_table_signal [simp]: "owner_table_ok (db (pg_signal s)) = owner_table_ok (db s)"
  by simp

lemma owner_table_deliveries [simp]: "owner_table_ok (t\<lparr>deliveries := T\<rparr>) = owner_table_ok t"
  by (simp add: owner_table_ok_def)

lemma set_update: "set (AList.update k v al) \<subseteq> insert (k, v) (set al)"
  by (induction al) auto

lemma owner_table_set: "owner_table_ok (db s) \<Longrightarrow> owner_row_ok po \<Longrightarrow> owner_table_ok (db (set_owner p po s))"
  by (auto simp: owner_table_ok_def set_owner_def list_all_iff distinct_update dest!: subsetD [OF set_update])

lemma insert_missing_ok:
  assumes "\<forall>n \<in> set ns. node_name n"
  shows "distinct (map fst tab) \<and> list_all (\<lambda>(p, po). owner_row_ok po) tab \<Longrightarrow>
    distinct (map fst (insert_missing q ns tab)) \<and> list_all (\<lambda>(p, po). owner_row_ok po) (insert_missing q ns tab)"
  using assms
  by (induction ns arbitrary: q tab) (simp_all add: map_of_eq_None_iff owner_row_ok_def new_owner_def max_int64_def)

lemma Ensure_owner_table:
  assumes "owner_table_ok (db s)"
  shows "owner_table_ok (db (snd (EnsureOwnerAssignments e ns s)))"
proof -
  have "owner_table_ok (t\<lparr>partition_owners := insert_missing 0 ns (partition_owners t)\<rparr>)"
    if "check_owners 0 ns = None" "owner_table_ok t" for t
    using that insert_missing_ok [of ns "partition_owners t" 0]
    by (simp add: owner_table_ok_def check_owners_None node_name_def)
  then show ?thesis using assms by (simp add: EnsureOwnerAssignments_def Let_def split: option.split)
qed

lemma Begin_owner_table:
  assumes "owner_table_ok (db s)"
  shows "owner_table_ok (db (snd (BeginHandoff e p src dst s)))"
  unfolding BeginHandoff_def
proof (rule with_ownership_db [where Q = owner_table_ok, OF _ assms], goal_cases)
  case (1 s1)
  then have "owner_table_ok (db s1)" using assms by simp
  note i = this owner_table_row [OF this] owner_table_set [OF this]
  show ?case using i(1) by (auto simp: node_name_def owner_row_ok_def dest: i(2) intro!: i(3) split: option.split)
qed

lemma Complete_owner_table:
  assumes "owner_table_ok (db s)"
  shows "owner_table_ok (db (snd (CompleteHandoff e p s)))"
  unfolding CompleteHandoff_def
proof (rule with_ownership_db [where Q = owner_table_ok, OF _ assms], goal_cases)
  case (1 s1)
  then have "owner_table_ok (db s1)" using assms by simp
  note i = this owner_table_row [OF this] owner_table_set [OF this]
  show ?case using i(1) by (auto simp: owner_row_ok_def dest: i(2) intro!: i(3) split: option.split)
qed

lemma Force_owner_table:
  assumes "owner_table_ok (db s)"
  shows "owner_table_ok (db (snd (ForceTakeover e p dst g s)))"
  unfolding ForceTakeover_def Let_def
proof (rule with_ownership_db [where Q = owner_table_ok, OF _ assms], goal_cases)
  case (1 s1)
  then have "owner_table_ok (db s1)" using assms by simp
  note i = this owner_table_row [OF this] owner_table_set [OF this]
  show ?case using i(1) by (auto simp: node_name_def owner_row_ok_def dest: i(2) intro!: i(3) split: option.split)
qed

lemma op_owner_table: "owner_table_ok (cl_db s) \<Longrightarrow> owner_table_ok (cl_db (exec_op x s))"
proof (cases x)
  case (Store_op c)
  have "owner_table_ok t = owner_table_ok t'" if "partition_owners t = partition_owners t'" for t t'
    using that by (simp add: owner_table_ok_def)
  from this [OF call_owners] show "owner_table_ok (cl_db s) \<Longrightarrow> ?thesis" by (simp add: Store_op exec_cluster)
qed (simp_all add: Ensure_owner_table Begin_owner_table Complete_owner_table Force_owner_table)

text \<open>
  Claim C27. The table of owners is well formed in every state a cluster can reach, whatever its processes
  do, whatever toggles they have set and whatever fails: one row for each partition, a next owner exactly
  while the partition is draining, a generation between 1 and the largest BIGINT, and names of nodes
  that are not empty and have no slash.
\<close>

theorem owner_table_well_formed:
  "owner_table_ok (cl_db (exec_ops xs (fresh_cluster procs)))"
proof -
  have "owner_table_ok (cl_db s) \<Longrightarrow> owner_table_ok (cl_db (exec_ops xs s))" for s
    by (induction xs arbitrary: s) (simp_all add: op_owner_table)
  moreover have "owner_table_ok (cl_db (fresh_cluster procs))" by (simp add: fresh_cluster_def pg_empty_def owner_table_ok_def)
  ultimately show ?thesis by blast
qed

end
