(* ===== verification/Bench.thy ===== *)
theory Bench
  imports Dispatcher PostgresRefine
begin

text \<open>
  The two baselines fold is measured against, \<^verbatim>\<open>bench/fifo\<close> and \<^verbatim>\<open>bench/naive\<close>: a queue and a dispatcher
  each. The packages share no code but have the same method bodies except where work is assigned, so the
  queue's record is extensible and the methods that coincide are defined once, for both.
\<close>

section \<open>The queue\<close>

record queue =
  q_byID :: "(string \<times> delivery) list"
  q_seq :: "string \<rightharpoonup> int"
  q_notify :: bool

definition newQueue :: queue where
  "newQueue = \<lparr>q_byID = [], q_seq = Map.empty, q_notify = False\<rparr>"

definition q_signal :: "'a queue_scheme \<Rightarrow> 'a queue_scheme" where
  "q_signal q = q\<lparr>q_notify := True\<rparr>"

definition q_row :: "'a queue_scheme \<Rightarrow> string \<Rightarrow> delivery option" where
  "q_row q k = map_of (q_byID q) k"

definition q_set :: "string \<Rightarrow> (delivery \<Rightarrow> delivery) \<Rightarrow> 'a queue_scheme \<Rightarrow> 'a queue_scheme" where
  "q_set k f q = q\<lparr>q_byID := AList.map_entry k f (q_byID q)\<rparr>"

definition queued_row :: "gotime \<Rightarrow> int \<Rightarrow> delivery \<Rightarrow> delivery" where
  "queued_row t n d =
     d\<lparr>Payload := copy_bytes (Payload d), Secret := copy_bytes (Secret d), Sequence := n,
       Attempt := 0, NextAttempt := t, CreatedAt := t, Status := StatusPending, Owner := [], Generation := 0,
       ClaimedAt := zero_time, LastError := [], PartitionNo := 0\<rparr>"

definition q_next_seq :: "'a queue_scheme \<Rightarrow> string \<Rightarrow> int" where
  "q_next_seq q x = (case q_seq q x of None \<Rightarrow> 0 | Some n \<Rightarrow> n) + 1"

fun q_enqueue_loop :: "gotime \<Rightarrow> delivery list \<Rightarrow> 'a queue_scheme \<Rightarrow> store_error option \<times> 'a queue_scheme" where
  "q_enqueue_loop t [] q = (None, q)"
| "q_enqueue_loop t (d # ds) q =
     (if ID d = [] then (Some EMissingID, q)
      else if SubscriberID d = [] then (Some (EMissingSubscriberID (ID d)), q)
      else if q_row q (ID d) \<noteq> None then (Some (EDuplicateID (ID d)), q)
      else let x = SubscriberID d; n = q_next_seq q x
           in q_enqueue_loop t ds (q\<lparr>q_seq := (q_seq q)(x \<mapsto> n), q_byID := q_byID q @ [(ID d, queued_row t n d)]\<rparr>))"

definition q_Enqueue :: "env \<Rightarrow> delivery list \<Rightarrow> 'a queue_scheme \<Rightarrow> store_error option \<times> 'a queue_scheme" where
  "q_Enqueue e ds q =
     (case ctx_err e of
        Some err \<Rightarrow> (Some (ECtx err), q)
      | None \<Rightarrow>
          (case q_enqueue_loop (clock e) ds q of
             (Some err, q1) \<Rightarrow> (Some err, q1)
           | (None, q1) \<Rightarrow> (None, q_signal q1)))"

definition q_requireOwner :: "'a queue_scheme \<Rightarrow> string \<Rightarrow> string \<Rightarrow> uint64 \<Rightarrow> store_error + delivery" where
  "q_requireOwner q k owner gen =
     (if gen = 0 then Inl EMarkGeneration
      else case q_row q k of
             None \<Rightarrow> Inl (EUnknownDelivery k)
           | Some d \<Rightarrow>
               if Status d \<noteq> StatusInFlight then Inl (ENotInFlight k)
               else if Owner d \<noteq> owner \<or> Generation d \<noteq> gen then Inl (EStaleClaim k)
               else Inr d)"

definition q_markTerminal ::
  "env \<Rightarrow> string \<Rightarrow> string \<Rightarrow> uint64 \<Rightarrow> status \<Rightarrow> string \<Rightarrow> 'a queue_scheme \<Rightarrow> store_error option \<times> 'a queue_scheme" where
  "q_markTerminal e k owner gen st msg q =
     (case ctx_err e of
        Some err \<Rightarrow> (Some (ECtx err), q)
      | None \<Rightarrow>
          (case q_requireOwner q k owner gen of
             Inl err \<Rightarrow> (Some err, q)
           | Inr _ \<Rightarrow> (None, q_signal (q_set k (\<lambda>d. release (d\<lparr>Status := st, LastError := msg\<rparr>)) q))))"

definition q_MarkDelivered :: "env \<Rightarrow> string \<Rightarrow> string \<Rightarrow> uint64 \<Rightarrow> 'a queue_scheme \<Rightarrow> store_error option \<times> 'a queue_scheme" where
  "q_MarkDelivered e k owner gen q = q_markTerminal e k owner gen StatusDelivered [] q"

definition q_MarkDeadLetter ::
  "env \<Rightarrow> string \<Rightarrow> string \<Rightarrow> uint64 \<Rightarrow> string \<Rightarrow> 'a queue_scheme \<Rightarrow> store_error option \<times> 'a queue_scheme" where
  "q_MarkDeadLetter e k owner gen msg q = q_markTerminal e k owner gen StatusDeadLettered msg q"

definition q_MarkFailed ::
  "env \<Rightarrow> string \<Rightarrow> string \<Rightarrow> uint64 \<Rightarrow> int \<Rightarrow> gotime \<Rightarrow> string \<Rightarrow> 'a queue_scheme \<Rightarrow>
   store_error option \<times> 'a queue_scheme" where
  "q_MarkFailed e k owner gen attempt nxt msg q =
     (case ctx_err e of
        Some err \<Rightarrow> (Some (ECtx err), q)
      | None \<Rightarrow>
          (case q_requireOwner q k owner gen of
             Inl err \<Rightarrow> (Some err, q)
           | Inr _ \<Rightarrow> (None, q_signal (q_set k
               (\<lambda>d. release (d\<lparr>Status := StatusPending, Attempt := attempt, NextAttempt := nxt, LastError := msg\<rparr>)) q))))"

definition q_PendingOrInFlight :: "'a queue_scheme \<Rightarrow> int" where
  "q_PendingOrInFlight q = cnt_where (\<lambda>d. Status d = StatusPending \<or> Status d = StatusInFlight) (q_byID q)"

text \<open>The keys and rows one \<^verbatim>\<open>range\<close> loop visits, in the order the runtime picks.\<close>

definition q_visit :: "env \<Rightarrow> loop \<Rightarrow> 'a queue_scheme \<Rightarrow> (string \<times> delivery) list" where
  "q_visit e l q = List.map_filter (\<lambda>k. map_option (Pair k) (q_row q k)) (visit e l (map fst (q_byID q)))"

text \<open>
  A candidate, and \<^verbatim>\<open>sort.Slice\<close> by creation time and sequence. The sort is not stable; as the visiting
  order is any order, every result it may have is the stable sort of some visit.
\<close>

record q_cand =
  qc_id :: string
  qc_at :: gotime
  qc_seq :: int

definition q_cand_of :: "string \<times> delivery \<Rightarrow> q_cand" where
  "q_cand_of kd = \<lparr>qc_id = fst kd, qc_at = CreatedAt (snd kd), qc_seq = Sequence (snd kd)\<rparr>"

definition q_sorted :: "q_cand list \<Rightarrow> q_cand list" where
  "q_sorted cs = sort_key (\<lambda>c. (qc_at c, qc_seq c)) cs"

definition q_due :: "gotime \<Rightarrow> delivery \<Rightarrow> bool" where
  "q_due t d \<longleftrightarrow> Status d = StatusPending \<and> (IsZero (NextAttempt d) \<or> NextAttempt d \<le> t)"

section \<open>Claiming in global order behind heads of line\<close>

fun q_heads :: "(string \<times> delivery) list \<Rightarrow> (string \<rightharpoonup> int) \<Rightarrow> (string \<rightharpoonup> int)" where
  "q_heads [] head = head"
| "q_heads ((k, d) # kds) head =
     (if Status d \<noteq> StatusPending \<and> Status d \<noteq> StatusInFlight then q_heads kds head
      else case head (SubscriberID d) of
             None \<Rightarrow> q_heads kds (head(SubscriberID d \<mapsto> Sequence d))
           | Some cur \<Rightarrow> q_heads kds (if Sequence d < cur then head(SubscriberID d \<mapsto> Sequence d) else head))"

definition fifo_candidates :: "gotime \<Rightarrow> (string \<rightharpoonup> int) \<Rightarrow> (string \<times> delivery) list \<Rightarrow> q_cand list" where
  "fifo_candidates t head kds =
     map q_cand_of (filter (\<lambda>(k, d). q_due t d \<and> head_of head (SubscriberID d) = Sequence d) kds)"

fun fifo_take ::
  "string \<Rightarrow> uint64 \<Rightarrow> gotime \<Rightarrow> int \<Rightarrow> (string \<rightharpoonup> int) \<Rightarrow> q_cand list \<Rightarrow> 'a queue_scheme \<Rightarrow> string list \<Rightarrow>
   delivery list \<Rightarrow> 'a queue_scheme \<times> delivery list" where
  "fifo_take owner gen t limit head [] q taken out = (q, out)"
| "fifo_take owner gen t limit head (c # cs) q taken out =
     (if int (length out) \<ge> limit then (q, out)
      else case q_row q (qc_id c) of
             None \<Rightarrow> fifo_take owner gen t limit head cs q taken out
           | Some d \<Rightarrow>
               if head_of head (SubscriberID d) \<noteq> Sequence d then fifo_take owner gen t limit head cs q taken out
               else if SubscriberID d \<in> set taken then fifo_take owner gen t limit head cs q taken out
               else fifo_take owner gen t limit head cs (q_set (qc_id c) (claim_row owner gen t) q)
                      (SubscriberID d # taken) (out @ [cloneDelivery (claim_row owner gen t d)]))"

definition fifo_Claim ::
  "env \<Rightarrow> string \<Rightarrow> uint64 \<Rightarrow> int \<Rightarrow> queue \<Rightarrow> (store_error + delivery list) \<times> queue" where
  "fifo_Claim e owner gen limit q =
     (case ctx_err e of
        Some err \<Rightarrow> (Inl (ECtx err), q)
      | None \<Rightarrow>
          if owner = [] then (Inl EClaimOwner, q)
          else if gen = 0 then (Inl EClaimGeneration, q)
          else if limit \<le> 0 then (Inr [], q)
          else let t = clock e;
                   head = q_heads (q_visit e LHead q) Map.empty;
                   cands = q_sorted (fifo_candidates t head (q_visit e LCandidates q));
                   (q1, out) = fifo_take owner gen t limit head cands q [] []
               in (Inr out, q1))"

section \<open>Claiming in global order only\<close>

record naive_queue = queue +
  claimCalls :: int
  claimRows :: int
  claimNonEmpty :: int

definition naive_newQueue :: naive_queue where
  "naive_newQueue = \<lparr>q_byID = [], q_seq = Map.empty, q_notify = False, claimCalls = 0, claimRows = 0, claimNonEmpty = 0\<rparr>"

fun naive_take ::
  "string \<Rightarrow> uint64 \<Rightarrow> gotime \<Rightarrow> int \<Rightarrow> q_cand list \<Rightarrow> 'a queue_scheme \<Rightarrow> delivery list \<Rightarrow> 'a queue_scheme \<times> delivery list" where
  "naive_take owner gen t limit [] q out = (q, out)"
| "naive_take owner gen t limit (c # cs) q out =
     (if int (length out) \<ge> limit then (q, out)
      else case q_row q (qc_id c) of
             None \<Rightarrow> naive_take owner gen t limit cs q out
           | Some d \<Rightarrow> naive_take owner gen t limit cs (q_set (qc_id c) (claim_row owner gen t) q)
                         (out @ [cloneDelivery (claim_row owner gen t d)]))"

definition naive_Claim ::
  "env \<Rightarrow> string \<Rightarrow> uint64 \<Rightarrow> int \<Rightarrow> naive_queue \<Rightarrow> (store_error + delivery list) \<times> naive_queue" where
  "naive_Claim e owner gen limit q =
     (case ctx_err e of
        Some err \<Rightarrow> (Inl (ECtx err), q)
      | None \<Rightarrow>
          if owner = [] then (Inl EClaimOwner, q)
          else if gen = 0 then (Inl EClaimGeneration, q)
          else if limit \<le> 0 then (Inr [], q)
          else let t = clock e;
                   q0 = q\<lparr>claimCalls := claimCalls q + 1\<rparr>;
                   cands = q_sorted (map q_cand_of (filter (\<lambda>(k, d). q_due t d) (q_visit e LCandidates q0)));
                   (q1, out) = naive_take owner gen t limit cands q0 []
               in (Inr out, q1\<lparr>claimRows := claimRows q1 + int (length out),
                     claimNonEmpty := claimNonEmpty q1 + (if out \<noteq> [] then 1 else 0)\<rparr>))"

definition naive_claimStats :: "naive_queue \<Rightarrow> int \<times> int \<times> int" where
  "naive_claimStats q = (claimCalls q, claimRows q, claimNonEmpty q)"

text \<open>The other methods of the naive queue, as in its own package.\<close>

definition naive_Enqueue :: "env \<Rightarrow> delivery list \<Rightarrow> naive_queue \<Rightarrow> store_error option \<times> naive_queue" where
  "naive_Enqueue e ds q = q_Enqueue e ds q"

definition naive_requireOwner :: "naive_queue \<Rightarrow> string \<Rightarrow> string \<Rightarrow> uint64 \<Rightarrow> store_error + delivery" where
  "naive_requireOwner q k owner gen = q_requireOwner q k owner gen"

definition naive_markTerminal ::
  "env \<Rightarrow> string \<Rightarrow> string \<Rightarrow> uint64 \<Rightarrow> status \<Rightarrow> string \<Rightarrow> naive_queue \<Rightarrow> store_error option \<times> naive_queue" where
  "naive_markTerminal e k owner gen st msg q = q_markTerminal e k owner gen st msg q"

definition naive_MarkDelivered :: "env \<Rightarrow> string \<Rightarrow> string \<Rightarrow> uint64 \<Rightarrow> naive_queue \<Rightarrow> store_error option \<times> naive_queue" where
  "naive_MarkDelivered e k owner gen q = naive_markTerminal e k owner gen StatusDelivered [] q"

definition naive_MarkDeadLetter ::
  "env \<Rightarrow> string \<Rightarrow> string \<Rightarrow> uint64 \<Rightarrow> string \<Rightarrow> naive_queue \<Rightarrow> store_error option \<times> naive_queue" where
  "naive_MarkDeadLetter e k owner gen msg q = naive_markTerminal e k owner gen StatusDeadLettered msg q"

definition naive_MarkFailed ::
  "env \<Rightarrow> string \<Rightarrow> string \<Rightarrow> uint64 \<Rightarrow> int \<Rightarrow> gotime \<Rightarrow> string \<Rightarrow> naive_queue \<Rightarrow> store_error option \<times> naive_queue" where
  "naive_MarkFailed e k owner gen attempt nxt msg q = q_MarkFailed e k owner gen attempt nxt msg q"

definition naive_PendingOrInFlight :: "naive_queue \<Rightarrow> int" where
  "naive_PendingOrInFlight q = q_PendingOrInFlight q"

end
