(* ===== verification/BenchDispatch.thy ===== *)
theory BenchDispatch
  imports Bench
begin

text \<open>
  The dispatchers of \<^verbatim>\<open>bench/fifo\<close> (one worker, one delivery at a time) and \<^verbatim>\<open>bench/naive\<close> (a pool of
  workers that share the queue). As for the queues, the fields and steps the two have in common are
  defined once.
\<close>

section \<open>State and construction\<close>

record 'q bench =
  b_queue :: "'q queue_scheme"
  b_maxAttempts :: int
  b_baseBackoff :: duration
  b_maxBackoff :: duration
  b_started :: bool
  b_closed :: bool
  b_cancelled :: bool
  b_idSeq :: uint64

type_synonym fifo = "unit bench"

definition bench_generation :: uint64 where "bench_generation = 1"
definition fifo_ownerID :: string where "fifo_ownerID = ''fifo-worker''"

definition or_default :: "int \<Rightarrow> int \<Rightarrow> int" where
  "or_default v dflt = (if v \<le> 0 then dflt else v)"

definition fifo_New :: "int \<Rightarrow> duration \<Rightarrow> duration \<Rightarrow> fifo" where
  "fifo_New tries base cap = \<lparr>b_queue = newQueue, b_maxAttempts = or_default tries DefaultMaxAttempts,
     b_baseBackoff = or_default base DefaultBaseBackoff, b_maxBackoff = or_default cap DefaultMaxBackoff,
     b_started = False, b_closed = False, b_cancelled = False, b_idSeq = 0\<rparr>"

definition bench_Start :: "('q, 'r) bench_scheme \<Rightarrow> fold_error option \<times> ('q, 'r) bench_scheme" where
  "bench_Start d =
     (if b_closed d then (Some FClosed, d)
      else if b_started d then (Some FAlreadyStarted, d)
      else (None, d\<lparr>b_started := True\<rparr>))"

section \<open>Dispatching\<close>

definition bench_nextID :: "string \<Rightarrow> ('q, 'r) bench_scheme \<Rightarrow> string \<times> ('q, 'r) bench_scheme" where
  "bench_nextID pre d = (let n = b_idSeq d + 1 in (pre @ show_nat (unat n), d\<lparr>b_idSeq := n\<rparr>))"

fun bench_rows ::
  "string \<Rightarrow> Event \<Rightarrow> bytes \<Rightarrow> Subscriber list \<Rightarrow> ('q, 'r) bench_scheme \<Rightarrow> delivery list \<times> ('q, 'r) bench_scheme" where
  "bench_rows pre ev payload [] d = ([], d)"
| "bench_rows pre ev payload (s # ss) d =
     (let (tok, d1) = bench_nextID pre d;
          r = \<lparr>ID = tok, EventID = ev_ID ev, SubscriberID = sub_ID s, URL = sub_URL s, PartitionNo = 0, Sequence = 0,
               Payload = Some payload, EventType = ev_Type ev, Secret = copy_bytes (sub_Secret s),
               Status = StatusPending, Attempt = 0, NextAttempt = zero_time, LastError = [],
               Owner = [], Generation = 0, ClaimedAt = zero_time, CreatedAt = zero_time\<rparr>;
          (rs, d2) = bench_rows pre ev payload ss d1
      in (r # rs, d2))"

definition bench_Dispatch ::
  "string \<Rightarrow> (string \<Rightarrow> string \<Rightarrow> bytes \<Rightarrow> string + bytes) \<Rightarrow> env \<Rightarrow> string option \<Rightarrow> Event \<Rightarrow> Subscriber list \<Rightarrow>
   ('q, 'r) bench_scheme \<Rightarrow> fold_error option \<times> ('q, 'r) bench_scheme" where
  "bench_Dispatch pre marshal e ctxerr ev ss d =
     (case ctxerr of
        Some err \<Rightarrow> (Some (FCtx err), d)
      | None \<Rightarrow>
          if b_closed d then (Some FClosed, d)
          else if \<not> b_started d then (Some FNotStarted, d)
          else if ev_ID ev = [] then (Some FEventID, d)
          else if ss = [] then (Some FNoSubscribers, d)
          else case check_subs ss of
                 Some err \<Rightarrow> (Some err, d)
               | None \<Rightarrow>
                   (case encodeOnce marshal ev of
                      Inl err \<Rightarrow> (Some (FEncode err), d)
                    | Inr payload \<Rightarrow>
                        let (rs, d1) = bench_rows pre ev payload ss d;
                            (err, q) = q_Enqueue e rs (b_queue d1)
                        in (map_option FStore err, d1\<lparr>b_queue := q\<rparr>)))"

definition fifo_Dispatch ::
  "(string \<Rightarrow> string \<Rightarrow> bytes \<Rightarrow> string + bytes) \<Rightarrow> env \<Rightarrow> string option \<Rightarrow> Event \<Rightarrow> Subscriber list \<Rightarrow> fifo \<Rightarrow>
   fold_error option \<times> fifo" where
  "fifo_Dispatch marshal e ctxerr ev ss d = bench_Dispatch ''fifo_'' marshal e ctxerr ev ss d"

section \<open>Closing\<close>

definition bench_Close_begin :: "('q, 'r) bench_scheme \<Rightarrow> fold_error option option \<times> ('q, 'r) bench_scheme" where
  "bench_Close_begin d =
     (if b_closed d then (Some None, d)
      else let d1 = d\<lparr>b_closed := True\<rparr> in
        if \<not> b_started d then (Some None, d1) else (None, d1))"

text \<open>One turn of \<^verbatim>\<open>waitDrained\<close>; when the wait is over, either way, the worker's context is cancelled.\<close>

definition bench_waitDrained :: "string option \<Rightarrow> ('q, 'r) bench_scheme \<Rightarrow> fold_error option option \<times> ('q, 'r) bench_scheme" where
  "bench_waitDrained stop d =
     (if q_PendingOrInFlight (b_queue d) = 0 then (Some None, d\<lparr>b_cancelled := True\<rparr>)
      else case stop of
             Some err \<Rightarrow> (Some (Some (FCtx err)), d\<lparr>b_cancelled := True\<rparr>)
           | None \<Rightarrow> (None, d))"

text \<open>The end of \<^verbatim>\<open>Close\<close>, as in the dispatcher itself.\<close>

definition bench_Close_finish :: "fold_error option \<Rightarrow> bool \<Rightarrow> string option \<Rightarrow> fold_error option option" where
  "bench_Close_finish r exited stop = Close_finish r exited stop"

text \<open>
  What ends the \<^verbatim>\<open>select\<close> of \<^verbatim>\<open>waitForWork\<close>, and whether the worker goes on; a notification is consumed.
\<close>

definition bench_waitForWork :: "wake \<Rightarrow> ('q, 'r) bench_scheme \<Rightarrow> bool \<times> ('q, 'r) bench_scheme" where
  "bench_waitForWork wk d =
     (case wk of
        Woke_cancelled \<Rightarrow> (False, d)
      | Woke_notified \<Rightarrow> (True, d\<lparr>b_queue := (b_queue d)\<lparr>q_notify := False\<rparr>\<rparr>)
      | Woke_timer \<Rightarrow> (True, d))"

section \<open>Delivering\<close>

definition bench_deliverOne ::
  "env \<Rightarrow> gotime \<Rightarrow> (int \<Rightarrow> int) \<Rightarrow> string \<Rightarrow> delivery \<Rightarrow> Result \<Rightarrow> ('q, 'r) bench_scheme \<Rightarrow> ('q, 'r) bench_scheme" where
  "bench_deliverOne e now rnd owner del res d =
     (case outcome res of
        OutcomeSuccess \<Rightarrow> d\<lparr>b_queue := snd (q_MarkDelivered e (ID del) owner bench_generation (b_queue d))\<rparr>
      | OutcomePermanent \<Rightarrow>
          d\<lparr>b_queue := snd (q_MarkDeadLetter e (ID del) owner bench_generation (Result_Error res) (b_queue d))\<rparr>
      | OutcomeRetryable \<Rightarrow>
          if Attempt del \<ge> b_maxAttempts d
          then d\<lparr>b_queue := snd (q_MarkDeadLetter e (ID del) owner bench_generation (Result_Error res) (b_queue d))\<rparr>
          else let nxt = time_Add now (Delay rnd (Attempt del) (b_baseBackoff d) (b_maxBackoff d))
               in d\<lparr>b_queue := snd (q_MarkFailed e (ID del) owner bench_generation (Attempt del) nxt (Result_Error res) (b_queue d))\<rparr>)"

text \<open>
  One turn of a worker's loop, and what it comes to: it leaves, sleeps after an error, waits for work,
  or has delivered. The surroundings of a turn: the calls' environments, the clock and the random source
  after the attempt, and what the transport answers.
\<close>

datatype turn = Left | Slept | Waited | Delivered "delivery list"

record turn_env =
  te_claim :: env
  te_mark :: "nat \<Rightarrow> env"
  te_now :: "nat \<Rightarrow> gotime"
  te_rnd :: "int \<Rightarrow> int"
  te_answer :: "delivery \<Rightarrow> Result"

definition fifo_turn :: "turn_env \<Rightarrow> fifo \<Rightarrow> turn \<times> fifo" where
  "fifo_turn w d =
     (if b_cancelled d then (Left, d)
      else case fifo_Claim (te_claim w) fifo_ownerID bench_generation 1 (b_queue d) of
             (Inl err, q) \<Rightarrow> (if ctx_err (te_claim w) \<noteq> None then Left else Slept, d\<lparr>b_queue := q\<rparr>)
           | (Inr [], q) \<Rightarrow> (Waited, d\<lparr>b_queue := q\<rparr>)
           | (Inr (del # _), q) \<Rightarrow>
               (Delivered [del], bench_deliverOne (te_mark w 0) (te_now w 0) (te_rnd w) fifo_ownerID del (te_answer w del)
                  (d\<lparr>b_queue := q\<rparr>)))"

section \<open>The naive pool\<close>

record naive = "unit naive_queue_ext bench" +
  n_workers :: int
  n_spawned :: "string list"
  n_stats :: "(string \<times> int \<times> int) list"

definition naive_claimBatch :: int where "naive_claimBatch = 64"

definition naive_New :: "int \<Rightarrow> int \<Rightarrow> duration \<Rightarrow> duration \<Rightarrow> naive" where
  "naive_New ws tries base cap = \<lparr>b_queue = naive_newQueue, b_maxAttempts = or_default tries DefaultMaxAttempts,
     b_baseBackoff = or_default base DefaultBaseBackoff, b_maxBackoff = or_default cap DefaultMaxBackoff,
     b_started = False, b_closed = False, b_cancelled = False, b_idSeq = 0,
     n_workers = or_default ws 32, n_spawned = [], n_stats = []\<rparr>"

definition naive_owner :: "int \<Rightarrow> string" where
  "naive_owner w = ''naive-worker-'' @ show_int w"

definition naive_Start :: "naive \<Rightarrow> fold_error option \<times> naive" where
  "naive_Start d =
     (if b_closed d then (Some FClosed, d)
      else if b_started d then (Some FAlreadyStarted, d)
      else (None, d\<lparr>b_started := True, n_spawned := map naive_owner [0..n_workers d - 1]\<rparr>))"

definition naive_Dispatch ::
  "(string \<Rightarrow> string \<Rightarrow> bytes \<Rightarrow> string + bytes) \<Rightarrow> env \<Rightarrow> string option \<Rightarrow> Event \<Rightarrow> Subscriber list \<Rightarrow> naive \<Rightarrow>
   fold_error option \<times> naive" where
  "naive_Dispatch marshal e ctxerr ev ss d = bench_Dispatch ''naive_'' marshal e ctxerr ev ss d"

definition naive_workerCounter :: "string \<Rightarrow> naive \<Rightarrow> int \<times> int" where
  "naive_workerCounter owner d = (case map_of (n_stats d) owner of None \<Rightarrow> (0, 0) | Some c \<Rightarrow> c)"

definition naive_count :: "string \<Rightarrow> int \<Rightarrow> duration \<Rightarrow> naive \<Rightarrow> naive" where
  "naive_count owner n dt d =
     (let (m, idle) = naive_workerCounter owner d in d\<lparr>n_stats := AList.update owner (m + n, idle + dt) (n_stats d)\<rparr>)"

definition naive_WorkerStats :: "(string list \<Rightarrow> string list) \<Rightarrow> naive \<Rightarrow> (string \<times> int \<times> int) list" where
  "naive_WorkerStats \<pi> d = sort_key fst (map (\<lambda>owner. (owner, naive_workerCounter owner d)) (\<pi> (map fst (n_stats d))))"

definition naive_ClaimStats :: "naive \<Rightarrow> int \<times> int \<times> int" where
  "naive_ClaimStats d = naive_claimStats (b_queue d)"

definition naive_deliverOne ::
  "env \<Rightarrow> gotime \<Rightarrow> (int \<Rightarrow> int) \<Rightarrow> string \<Rightarrow> delivery \<Rightarrow> Result \<Rightarrow> naive \<Rightarrow> naive" where
  "naive_deliverOne e now rnd owner del res d = bench_deliverOne e now rnd owner del res d"

definition naive_nextID :: "naive \<Rightarrow> string \<times> naive" where
  "naive_nextID d = bench_nextID ''naive_'' d"

definition naive_Close_begin :: "naive \<Rightarrow> fold_error option option \<times> naive" where
  "naive_Close_begin d = bench_Close_begin d"

definition naive_waitDrained :: "string option \<Rightarrow> naive \<Rightarrow> fold_error option option \<times> naive" where
  "naive_waitDrained stop d = bench_waitDrained stop d"

definition naive_Close_finish :: "fold_error option \<Rightarrow> bool \<Rightarrow> string option \<Rightarrow> fold_error option option" where
  "naive_Close_finish r exited stop = Close_finish r exited stop"

definition naive_encodeOnce :: "(string \<Rightarrow> string \<Rightarrow> bytes \<Rightarrow> string + bytes) \<Rightarrow> Event \<Rightarrow> string + bytes" where
  "naive_encodeOnce marshal ev = encodeOnce marshal ev"

definition naive_waitForWork :: "wake \<Rightarrow> duration \<Rightarrow> string \<Rightarrow> naive \<Rightarrow> bool \<times> naive" where
  "naive_waitForWork wk dt owner d = (let (more, d1) = bench_waitForWork wk d in (more, naive_count owner 0 dt d1))"

text \<open>The loop over a batch, the \<open>i\<close>-th row delivered in its own surroundings.\<close>

fun naive_batch :: "turn_env \<Rightarrow> string \<Rightarrow> nat \<Rightarrow> delivery list \<Rightarrow> naive \<Rightarrow> naive" where
  "naive_batch w owner i [] d = d"
| "naive_batch w owner i (del # ds) d =
     (if b_cancelled d then d
      else naive_batch w owner (Suc i) ds
             (naive_count owner 1 0 (naive_deliverOne (te_mark w i) (te_now w i) (te_rnd w) owner del (te_answer w del) d)))"

text \<open>
  \<open>dt\<close>: how long the worker waits when there is nothing to claim. Its counters exist from its first turn.
\<close>

definition naive_turn :: "turn_env \<Rightarrow> string \<Rightarrow> duration \<Rightarrow> naive \<Rightarrow> turn \<times> naive" where
  "naive_turn w owner dt d0 =
     (let d = naive_count owner 0 0 d0 in
      if b_cancelled d then (Left, d)
      else case naive_Claim (te_claim w) owner bench_generation naive_claimBatch (b_queue d) of
             (Inl err, q) \<Rightarrow> (if ctx_err (te_claim w) \<noteq> None then Left else Slept, d\<lparr>b_queue := q\<rparr>)
           | (Inr [], q) \<Rightarrow> (Waited, naive_count owner 0 dt (d\<lparr>b_queue := q\<rparr>))
           | (Inr ds, q) \<Rightarrow> (Delivered ds, naive_batch w owner 0 ds (d\<lparr>b_queue := q\<rparr>)))"

end
