(* ===== verification/BenchRefine.thy ===== *)
theory BenchRefine
  imports BenchDispatch
begin

text \<open>
  The queue of \<^verbatim>\<open>bench/fifo\<close> implements the abstract ordering store: the refinement of each method, and the
  interpretation of \<open>ordering_store\<close>.
\<close>

section \<open>The queue as a database without subscribers\<close>

text \<open>
  Seen as tables, a queue is a database in which nobody is ever suspended; so the abstraction and the step
  lemmas of the Postgres store apply to it.
\<close>

definition as_db :: "'a queue_scheme \<Rightarrow> pgdb" where
  "as_db q = \<lparr>deliveries = q_byID q, subscriber_seq = q_seq q, subscribers = Map.empty, partition_owners = []\<rparr>"

definition q_inv :: "'a queue_scheme \<Rightarrow> bool" where
  "q_inv q \<longleftrightarrow> db_inv (as_db q)"

lemma as_db_simps [simp]:
  "deliveries (as_db q) = q_byID q" "subscriber_seq (as_db q) = q_seq q" "is_suspended (as_db q) x = False"
  "as_db (q_signal q) = as_db q" "(as_db q)\<lparr>deliveries := T\<rparr> = as_db (q\<lparr>q_byID := T\<rparr>)"
  by (simp_all add: as_db_def is_suspended_def q_signal_def)

lemma q_keyed: "q_inv q \<Longrightarrow> keyed (q_byID q)"
  using db_invD(1) by (fastforce simp: q_inv_def)

lemma map_entry_where: "keyed T \<Longrightarrow> AList.map_entry k f T = upd_where (\<lambda>d. ID d = k) f T"
proof (induction T)
  case (Cons p T)
  obtain k' d where p: "p = (k', d)" by fastforce
  have d: "ID d = k'" "k' \<notin> fst ` set T" "keyed T" using Cons.prems by (auto simp: keyed_def p)
  have "upd_where (\<lambda>d. ID d = k) f T = T" if "k \<notin> fst ` set T"
    using that d(3) by (force simp: upd_where_def keyed_def intro!: map_idI)
  then show ?case using Cons.IH [OF d(3)] d by (auto simp: p upd_where_def)
qed (simp add: upd_where_def)

lemma newQueue_inv: "q_inv newQueue"
proof -
  have "pg_view (as_db newQueue) = \<lparr>rows = Map.empty, held = (\<lambda>_. False), last_seq = (\<lambda>_. 0)\<rparr>"
    by (rule pg_view_eqI) (simp_all add: newQueue_def fun_eq_iff)
  then show ?thesis using ainv_empty by (simp add: q_inv_def db_inv_def) (simp add: newQueue_def keyed_def)
qed

subsection \<open>Enqueue and marks\<close>

lemma q_enqueue_row_steps:
  assumes "q_inv q" "q_row q (ID d) = None"
  shows "db_steps (as_db q) (as_db (q\<lparr>q_seq := (q_seq q)(SubscriberID d \<mapsto> q_next_seq q (SubscriberID d)),
     q_byID := q_byID q @ [(ID d, queued_row t (q_next_seq q (SubscriberID d)) d)]\<rparr>)) []"
proof (rule db_steps_one)
  let ?x = "SubscriberID d" and ?n = "q_next_seq q (SubscriberID d)"
  let ?r = "queued_row t ?n d" and ?a = "pg_view (as_db q)"
  let ?q = "q\<lparr>q_seq := (q_seq q)(?x \<mapsto> ?n), q_byID := q_byID q @ [(ID d, ?r)]\<rparr>"
  have no: "map_of (q_byID q) (ID d) = None" using assms(2) by (simp add: q_row_def)
  show "keyed (deliveries (as_db ?q))"
    using keyed_snoc [OF q_keyed [OF assms(1)], of ?r] no by (simp add: queued_row_def)
  have n: "?n = last_seq ?a ?x + 1" by (simp add: q_next_seq_def split: option.split)
  have "astep ?a (AEnqueue ?x ?n) (?a\<lparr>rows := (rows ?a)(ID d \<mapsto> \<lparr>a_sub = ?x, a_seq = ?n, a_st = StatusPending\<rparr>),
      last_seq := (last_seq ?a)(?x := ?n)\<rparr>)"
    using no n by (intro astep.enqueue) simp_all
  moreover have "pg_view (as_db ?q) = ?a\<lparr>rows := (rows ?a)(ID d \<mapsto> \<lparr>a_sub = ?x, a_seq = ?n, a_st = StatusPending\<rparr>),
      last_seq := (last_seq ?a)(?x := ?n)\<rparr>"
    by (rule pg_view_eqI) (simp_all add: map_of_snoc [OF no] fun_eq_iff del: map_of_append, simp_all add: arow_of_def queued_row_def)
  ultimately show "astep ?a (AEnqueue ?x ?n) (pg_view (as_db ?q))" by simp
qed simp

lemma q_steps_inv: "q_inv q \<Longrightarrow> db_steps (as_db q) (as_db q') hs \<Longrightarrow> q_inv q'"
  by (simp add: q_inv_def db_steps_inv)

lemma q_enqueue_loop_steps:
  "q_enqueue_loop t ds q = (r, q') \<Longrightarrow> q_inv q \<Longrightarrow> db_steps (as_db q) (as_db q') []"
proof (induction ds arbitrary: q)
  case Nil
  then show ?case by (simp add: q_inv_def db_steps_refl)
next
  case (Cons d ds)
  let ?q = "q\<lparr>q_seq := (q_seq q)(SubscriberID d \<mapsto> q_next_seq q (SubscriberID d)),
     q_byID := q_byID q @ [(ID d, queued_row t (q_next_seq q (SubscriberID d)) d)]\<rparr>"
  show ?case
  proof (cases "ID d \<noteq> [] \<and> SubscriberID d \<noteq> [] \<and> q_row q (ID d) = None")
    case True
    then have l: "q_enqueue_loop t ds ?q = (r, q')" using Cons.prems(1) by (simp add: Let_def)
    have s: "db_steps (as_db q) (as_db ?q) []" using q_enqueue_row_steps [OF Cons.prems(2)] True by blast
    show ?thesis using db_steps_trans [OF s Cons.IH [OF l q_steps_inv [OF Cons.prems(2) s]]] .
  next
    case False
    then have "q' = q" using Cons.prems(1) by (auto split: if_splits)
    then show ?thesis using Cons.prems(2) by (simp add: q_inv_def db_steps_refl)
  qed
qed

lemma q_Enqueue_steps: "q_inv q \<Longrightarrow> db_steps (as_db q) (as_db (snd (q_Enqueue e ds q))) []"
  using q_enqueue_loop_steps [of "clock e" ds q]
  by (auto simp: q_Enqueue_def q_inv_def db_steps_refl split: option.split prod.split)

text \<open>A mark either changes nothing, or one row in flight under the key.\<close>

lemma q_requireOwner_Inr:
  "q_requireOwner q k owner gen = Inr d \<longleftrightarrow> gen \<noteq> 0 \<and> q_row q k = Some d \<and> Status d = StatusInFlight \<and> Owner d = owner \<and> Generation d = gen"
  by (auto simp: q_requireOwner_def split: option.split)

lemma q_set_where:
  assumes "q_inv q" "q_row q k = Some d" "Status d = StatusInFlight"
  shows "q_set k f q = q\<lparr>q_byID := upd_where (\<lambda>d. ID d = k \<and> Status d = StatusInFlight) f (q_byID q)\<rparr>"
proof -
  note K = q_keyed [OF assms(1)]
  have "upd_where (\<lambda>d. ID d = k) f (q_byID q) = upd_where (\<lambda>d. ID d = k \<and> Status d = StatusInFlight) f (q_byID q)"
    unfolding upd_where_def
  proof (rule map_cong [OF refl])
    fix p assume p: "p \<in> set (q_byID q)"
    obtain k' d' where kd: "p = (k', d')" by fastforce
    have "ID d' = k \<Longrightarrow> d' = d"
      using K p assms(2) by (auto simp: keyed_def kd q_row_def dest!: map_of_SomeD dest: eq_key_imp_eq_value)
    then show "(case p of (ka, da) \<Rightarrow> (ka, if ID da = k then f da else da)) =
        (case p of (ka, da) \<Rightarrow> (ka, if ID da = k \<and> Status da = StatusInFlight then f da else da))"
      using assms(3) by (auto simp: kd)
  qed
  then show ?thesis by (simp add: q_set_def map_entry_where [OF K])
qed

definition any_mark :: pgproc where
  "any_mark = (proc pg_empty)\<lparr>SkipMarkOwnerGenCheck := True\<rparr>"

lemma any_mark_where: "mark_where any_mark k ow g = (\<lambda>d. ID d = k \<and> Status d = StatusInFlight)"
  by (simp add: mark_where_def any_mark_def fun_eq_iff)

lemma q_settle_steps:
  assumes "q_inv q" "q_row q k = Some d" "Status d = StatusInFlight" "\<And>d. ID (f d) = ID d"
    and "finished st \<or> st = StatusPending" "\<And>d. arow_of (f d) = (arow_of d)\<lparr>a_st := st\<rparr>"
  shows "db_steps (as_db q) (as_db (q_set k f q)) []"
proof -
  have i: "db_inv (as_db q)" "map_of (deliveries (as_db q)) k = Some d"
    using assms(1,2) by (simp_all add: q_inv_def q_row_def)
  have w: "mark_where any_mark k [] 0 d"
    using keyedD [OF q_keyed [OF assms(1)]] i(2) assms(3) by (simp add: any_mark_where)
  have eq: "as_db (q_set k f q) = (as_db q)\<lparr>deliveries := upd_where (\<lambda>d. ID d = k \<and> Status d = StatusInFlight) f (deliveries (as_db q))\<rparr>"
    using q_set_where [OF assms(1-3)] by simp
  show ?thesis
  proof (cases "finished st")
    case True
    then show ?thesis
      using settle_one [OF i w, of st f] assms(4,6) unfolding eq by (simp add: any_mark_where)
  next
    case False
    then show ?thesis
      using retry_where [OF i(1), of "\<lambda>d. ID d = k \<and> Status d = StatusInFlight" f] assms(4-6) unfolding eq by simp
  qed
qed

lemma q_markTerminal_steps:
  assumes "q_inv q" "finished st"
  shows "db_steps (as_db q) (as_db (snd (q_markTerminal e k owner gen st msg q))) []"
proof -
  have "db_steps (as_db q) (as_db (q_set k (\<lambda>d. release (d\<lparr>Status := st, LastError := msg\<rparr>)) q)) []"
    if "q_requireOwner q k owner gen = Inr d" for d
    using that assms(2) by (intro q_settle_steps [OF assms(1), of k d]) (simp_all add: q_requireOwner_Inr arow_of_def)
  then show ?thesis
    using assms(1) by (auto simp: q_markTerminal_def q_inv_def db_steps_refl split: option.split sum.split)
qed

lemma q_MarkFailed_steps:
  assumes "q_inv q"
  shows "db_steps (as_db q) (as_db (snd (q_MarkFailed e k owner gen a t msg q))) []"
proof -
  have "db_steps (as_db q) (as_db (q_set k
      (\<lambda>d. release (d\<lparr>Status := StatusPending, Attempt := a, NextAttempt := t, LastError := msg\<rparr>)) q)) []"
    if "q_requireOwner q k owner gen = Inr d" for d
    using that by (intro q_settle_steps [OF assms, of k d]) (simp_all add: q_requireOwner_Inr arow_of_def)
  then show ?thesis
    using assms by (auto simp: q_MarkFailed_def q_inv_def db_steps_refl split: option.split sum.split)
qed

subsection \<open>Claims\<close>

lemma in_map_filter: "y \<in> set (List.map_filter f xs) \<longleftrightarrow> (\<exists>x \<in> set xs. f x = Some y)"
  by (induction xs) (auto split: option.splits)

lemma in_q_visit:
  assumes "keyed (q_byID q)" "fair_env e"
  shows "(k, d) \<in> set (q_visit e l q) \<longleftrightarrow> q_row q k = Some d"
proof -
  have v: "set (visit e l (map fst (q_byID q))) = fst ` set (q_byID q)"
    using assms(2) by (metis fair_env_def list.set_map set_mset_mset)
  have "(k, d) \<in> set (q_visit e l q) \<longleftrightarrow> k \<in> fst ` set (q_byID q) \<and> q_row q k = Some d"
    unfolding q_visit_def in_map_filter v by auto
  moreover have "q_row q k = Some d \<Longrightarrow> k \<in> fst ` set (q_byID q)"
    by (metis map_of_SomeD fst_conv image_eqI q_row_def)
  ultimately show ?thesis by blast
qed

text \<open>The heads: for a subscriber with an unfinished row, the least sequence of one.\<close>

lemma q_heads_least:
  "case q_heads kds h x of
     None \<Rightarrow> h x = None \<and> (\<forall>(k, d) \<in> set kds. SubscriberID d = x \<longrightarrow> \<not> unfinished (Status d))
   | Some m \<Rightarrow> (\<forall>m0. h x = Some m0 \<longrightarrow> m \<le> m0) \<and>
       (\<forall>(k, d) \<in> set kds. SubscriberID d = x \<longrightarrow> unfinished (Status d) \<longrightarrow> m \<le> Sequence d)"
proof (induction kds h rule: q_heads.induct)
  case (2 k d kds head)
  show ?case
  proof (cases "unfinished (Status d)")
    case False
    then have "q_heads ((k, d) # kds) head = q_heads kds head" by (simp add: unfinished_def)
    then show ?thesis using "2.IH"(1) False by (auto simp: unfinished_def split: option.splits)
  next
    case True
    then show ?thesis using "2.IH"(2,3) by (fastforce simp: unfinished_def split: option.splits if_splits)
  qed
qed (simp split: option.split)

lemma head_no_earlier:
  assumes "keyed (q_byID q)" "fair_env e" "q_row q k = Some d" "Status d = StatusPending"
    and "head_of (q_heads (q_visit e l q) Map.empty) (SubscriberID d) = Sequence d"
  shows "no_earlier (q_byID q) d"
proof -
  note V = in_q_visit [OF assms(1,2), where l = l]
  have "(k, d) \<in> set (q_visit e l q)" using V assms(3) by simp
  then obtain m where m: "q_heads (q_visit e l q) Map.empty (SubscriberID d) = Some m"
    using q_heads_least [where kds = "q_visit e l q" and h = Map.empty and x = "SubscriberID d"] assms(4)
    by (cases "q_heads (q_visit e l q) Map.empty (SubscriberID d)") (auto simp: unfinished_def)
  then have "m = Sequence d" using assms(5) by (simp add: head_of_def)
  then have le: "Sequence d \<le> Sequence d'" if "q_row q k' = Some d'" "SubscriberID d' = SubscriberID d" "unfinished (Status d')" for k' d'
    using q_heads_least [where kds = "q_visit e l q" and h = Map.empty and x = "SubscriberID d"] m that V [of k' d'] by auto
  have "map_of (q_byID q) k' = Some d'" if "(k', d') \<in> set (q_byID q)" for k' d'
    using assms(1) that by (simp add: keyed_def)
  then show ?thesis
    using le by (fastforce simp: no_earlier_def list_ex_iff q_row_def unfinished_def)
qed

text \<open>What the loop over the candidates hands out: rows of the table, one for each subscriber at most.\<close>

definition fifo_fit :: "gotime \<Rightarrow> (string \<times> delivery) list \<Rightarrow> (string \<rightharpoonup> int) \<Rightarrow> delivery \<Rightarrow> bool" where
  "fifo_fit t T head d \<longleftrightarrow> map_of T (ID d) = Some d \<and> q_due t d \<and> head_of head (SubscriberID d) = Sequence d"

lemma fifo_take_result:
  assumes "keyed T" "q_byID q = upd_where (\<lambda>d. ID d \<in> set (map ID xs)) (claim_row owner gen t) T"
    "\<forall>x \<in> set xs. fifo_fit t T head x" "distinct (map SubscriberID xs)" "set taken = set (map SubscriberID xs)"
    "\<forall>c \<in> set cs. \<exists>d. ID d = qc_id c \<and> fifo_fit t T head d"
    "fifo_take owner gen t limit head cs q taken (map (\<lambda>x. cloneDelivery (claim_row owner gen t x)) xs) = (q', out)"
  shows "\<exists>zs. out = map (\<lambda>x. cloneDelivery (claim_row owner gen t x)) zs \<and>
    q' = q\<lparr>q_byID := upd_where (\<lambda>d. ID d \<in> set (map ID zs)) (claim_row owner gen t) T\<rparr> \<and>
    (\<forall>x \<in> set zs. fifo_fit t T head x) \<and> distinct (map SubscriberID zs)"
  using assms(2-)
proof (induction cs arbitrary: q xs taken)
  case Nil
  then have "q' = q" "out = map (\<lambda>x. cloneDelivery (claim_row owner gen t x)) xs" by (simp_all add: comp_def)
  then show ?case using Nil by (intro exI [of _ xs]) simp
next
  case (Cons c cs)
  let ?f = "claim_row owner gen t"
  obtain d where d: "ID d = qc_id c" "fifo_fit t T head d" using Cons.prems(5) by auto
  let ?dq = "if ID d \<in> set (map ID xs) then ?f d else d"
  have row: "q_row q (qc_id c) = Some ?dq"
    using d by (simp add: q_row_def Cons.prems(1) map_of_upd_where fifo_fit_def)
  have same: "SubscriberID ?dq = SubscriberID d" "Sequence ?dq = Sequence d" by (simp_all add: claim_row_def)
  consider (stop) "int (length xs) \<ge> limit" | (skip) "int (length xs) < limit" "SubscriberID d \<in> set taken"
    | (take) "int (length xs) < limit" "SubscriberID d \<notin> set taken" by linarith
  then show ?case
  proof cases
    case stop
    then have "q' = q" "out = map (\<lambda>x. cloneDelivery (?f x)) xs" using Cons.prems(6) by (simp_all add: comp_def)
    then show ?thesis using Cons.prems(1-3) by (intro exI [of _ xs]) simp
  next
    case skip
    then have "fifo_take owner gen t limit head cs q taken (map (\<lambda>x. cloneDelivery (?f x)) xs) = (q', out)"
      using Cons.prems(6) row same by (simp split: if_splits)
    from Cons.IH [OF Cons.prems(1-4) _ this] show ?thesis using Cons.prems(5) by auto
  next
    case take
    let ?q = "q_set (qc_id c) ?f q" and ?xs = "xs @ [d]"
    have new: "ID d \<notin> set (map ID xs)"
    proof
      assume "ID d \<in> set (map ID xs)"
      then obtain x where "x \<in> set xs" "ID x = ID d" by auto
      then have "x = d" using Cons.prems(2) d(2) by (auto simp: fifo_fit_def)
      then show False using \<open>x \<in> set xs\<close> take(2) Cons.prems(4) by auto
    qed
    have K: "keyed (q_byID q)" unfolding Cons.prems(1) by (rule keyed_upd_where [OF assms(1)]) (simp add: claim_row_def)
    have "q_byID ?q = upd_where (\<lambda>x. ID x = ID d) ?f (upd_where (\<lambda>d. ID d \<in> set (map ID xs)) ?f T)"
      by (simp add: q_set_def map_entry_where [OF K] d(1)) (simp add: Cons.prems(1))
    also have "\<dots> = upd_where (\<lambda>x. ID x \<in> set (map ID ?xs)) ?f T"
      using new by (auto simp: upd_where_def claim_row_def)
    finally have T: "q_byID ?q = upd_where (\<lambda>x. ID x \<in> set (map ID ?xs)) ?f T" .
    have h: "head_of head (SubscriberID d) = Sequence d" using d(2) by (simp add: fifo_fit_def)
    have run: "fifo_take owner gen t limit head cs ?q (SubscriberID d # taken) (map (\<lambda>x. cloneDelivery (?f x)) ?xs) = (q', out)"
      using Cons.prems(6) row new take h by simp
    obtain zs where zs: "out = map (\<lambda>x. cloneDelivery (?f x)) zs"
      "q' = ?q\<lparr>q_byID := upd_where (\<lambda>d. ID d \<in> set (map ID zs)) ?f T\<rparr>"
      "\<forall>x \<in> set zs. fifo_fit t T head x" "distinct (map SubscriberID zs)"
      using Cons.IH [OF T _ _ _ _ run] Cons.prems(2-5) d(2) take(2) by auto
    then show ?thesis by (intro exI [of _ zs]) (simp add: q_set_def)
  qed
qed

text \<open>A claim, when it is not refused.\<close>

lemma fifo_Claim_result:
  assumes "keyed (q_byID q)" "fair_env e" "fifo_Claim e owner gen limit q = (Inr ds, q')"
  shows "\<exists>zs. ds = map (\<lambda>x. cloneDelivery (claim_row owner gen (clock e) x)) zs \<and>
    q' = q\<lparr>q_byID := upd_where (\<lambda>d. ID d \<in> set (map ID zs)) (claim_row owner gen (clock e)) (q_byID q)\<rparr> \<and>
    (\<forall>x \<in> set zs. map_of (q_byID q) (ID x) = Some x \<and> q_due (clock e) x \<and> no_earlier (q_byID q) x) \<and>
    distinct (map SubscriberID zs)"
proof (cases "limit \<le> 0")
  case True
  then have "ds = []" "q' = q" using assms(3) by (auto simp: fifo_Claim_def split: option.splits if_splits)
  then show ?thesis by (intro exI [of _ "[]"]) (simp add: upd_where_def)
next
  case False
  let ?head = "q_heads (q_visit e LHead q) Map.empty"
  let ?cs = "q_sorted (fifo_candidates (clock e) ?head (q_visit e LCandidates q))"
  have run: "fifo_take owner gen (clock e) limit ?head ?cs q [] (map (\<lambda>x. cloneDelivery (claim_row owner gen (clock e) x)) []) = (q', ds)"
    using assms(3) False by (simp add: fifo_Claim_def Let_def split: option.splits if_splits prod.splits)
  have cands: "\<forall>c \<in> set ?cs. \<exists>d. ID d = qc_id c \<and> fifo_fit (clock e) (q_byID q) ?head d"
  proof
    fix c assume "c \<in> set ?cs"
    then obtain k d where "c = q_cand_of (k, d)" "(k, d) \<in> set (q_visit e LCandidates q)" "q_due (clock e) d"
        "head_of ?head (SubscriberID d) = Sequence d"
      by (auto simp: q_sorted_def fifo_candidates_def)
    then show "\<exists>d. ID d = qc_id c \<and> fifo_fit (clock e) (q_byID q) ?head d"
      using in_q_visit [OF assms(1,2)] keyedD [OF assms(1)]
      by (intro exI [of _ d]) (simp add: q_cand_of_def fifo_fit_def q_row_def)
  qed
  have T: "q_byID q = upd_where (\<lambda>d. ID d \<in> set (map ID [])) (claim_row owner gen (clock e)) (q_byID q)"
    by (simp add: upd_where_def)
  obtain zs where zs: "ds = map (\<lambda>x. cloneDelivery (claim_row owner gen (clock e) x)) zs"
      "q' = q\<lparr>q_byID := upd_where (\<lambda>d. ID d \<in> set (map ID zs)) (claim_row owner gen (clock e)) (q_byID q)\<rparr>"
      "\<forall>x \<in> set zs. fifo_fit (clock e) (q_byID q) ?head x" "distinct (map SubscriberID zs)"
    using fifo_take_result [OF assms(1) T _ _ _ cands run] by auto
  have "no_earlier (q_byID q) x" if "x \<in> set zs" for x
    using zs(3) that by (intro head_no_earlier [OF assms(1,2), where k = "ID x" and l = LHead])
      (auto simp: fifo_fit_def q_row_def q_due_def)
  then show ?thesis using zs by (intro exI [of _ zs]) (auto simp: fifo_fit_def)
qed

lemma fifo_Claim_steps:
  assumes "q_inv q" "fair_env e" "fifo_Claim e owner gen limit q = (r, q')"
  shows "db_steps (as_db q) (as_db q') (case r of Inl err \<Rightarrow> [] | Inr ds \<Rightarrow> map (\<lambda>d. (SubscriberID d, Sequence d)) ds)"
proof (cases r)
  case (Inl err)
  then have "q' = q" using assms(3) by (auto simp: fifo_Claim_def Let_def split: option.splits if_splits prod.splits)
  then show ?thesis using assms(1) by (simp add: Inl q_inv_def db_steps_refl)
next
  case (Inr ds)
  let ?f = "claim_row owner gen (clock e)" and ?T = "q_byID q" and ?a = "pg_view (as_db q)"
  note K = q_keyed [OF assms(1)]
  obtain zs where zs: "ds = map (\<lambda>x. cloneDelivery (?f x)) zs"
      "q' = q\<lparr>q_byID := upd_where (\<lambda>d. ID d \<in> set (map ID zs)) ?f ?T\<rparr>"
      "\<forall>x \<in> set zs. map_of ?T (ID x) = Some x \<and> q_due (clock e) x \<and> no_earlier ?T x" "distinct (map SubscriberID zs)"
    using fifo_Claim_result [OF K assms(2) assms(3) [unfolded Inr]] by blast
  have fit: "claim_fit (as_db q) x" if "x \<in> set zs" for x
    using zs(3) that by (simp add: claim_fit_def q_due_def)
  have i: "db_inv (as_db q)" using assms(1) by (simp add: q_inv_def)
  have "distinct (map ID zs)"
  proof -
    have "inj_on ID (set zs)" using zs(3) by (metis (no_types, lifting) inj_onI option.inject)
    then show ?thesis using zs(4) by (simp add: distinct_map)
  qed
  then obtain ls where ls: "asteps ?a ls (fold (\<lambda>k. set_st k StatusInFlight) (map ID zs) ?a)" "claims ls = map (post_at ?a) (map ID zs)"
    using claim_keys_steps [OF db_invD(2) [OF i], of "map ID zs"] claim_fit_ready [OF i] fit by auto
  have "pg_view ((as_db q)\<lparr>deliveries := upd_where (\<lambda>d. ID d \<in> set (map ID zs)) ?f (deliveries (as_db q))\<rparr>) =
      fold (\<lambda>k. set_st k StatusInFlight) (map ID zs) ?a"
  proof (rule view_upd_where)
    have inT: "\<exists>d. map_of ?T k = Some d" if "k \<in> set (map ID zs)" for k
      using that zs(3) by auto
    show "k \<in> set (map ID zs) \<longleftrightarrow> (\<exists>d. map_of (deliveries (as_db q)) k = Some d \<and> ID d \<in> set (map ID zs))" for k
      using inT [of k] keyedD [OF K, of k] by (simp only: as_db_simps) blast
  qed (simp add: arow_of_def claim_row_def)
  moreover have "map (post_at ?a) (map ID zs) = map (\<lambda>d. (SubscriberID d, Sequence d)) ds"
    using zs(3) by (simp add: zs(1) post_at_def claim_row_def)
  moreover have "keyed (q_byID q')" using keyed_upd_where [OF K] by (simp add: zs(2) claim_row_def)
  ultimately show ?thesis using ls unfolding db_steps_def by (auto simp: Inr zs(2))
qed

subsection \<open>An ordering store\<close>

text \<open>
  The methods of the queue as a store of the interface: it has no partitions and no suspension, so a
  claim ignores the former and the calls for the latter do nothing.
\<close>

definition fifo_store :: "(env, queue) store_ops" where
  "fifo_store = \<lparr>op_Enqueue = q_Enqueue, op_Claim = (\<lambda>e ow g ps n. fifo_Claim e ow g n),
     op_MarkDelivered = q_MarkDelivered, op_MarkFailed = q_MarkFailed, op_MarkDeadLetter = q_MarkDeadLetter,
     op_ExhaustAndSuspend = (\<lambda>e k ow g m q. (None, q)), op_Resume = (\<lambda>e x q. (Inr no_gap, q)),
     op_IsSuspended = (\<lambda>e x q. (Inr False, q)), op_RecoverStale = (\<lambda>e a q. (Inr 0, q)),
     op_PendingOrInFlight = (\<lambda>e q. (Inr (q_PendingOrInFlight q), q))\<rparr>"

lemma fifo_call_steps:
  assumes "q_inv q" "fair_env (call_env c)"
  shows "db_steps (as_db q) (as_db (exec_call fifo_store c q)) (handed_out fifo_store c q)"
proof -
  have refl: "db_steps (as_db q) (as_db q) []" using assms(1) by (simp add: q_inv_def db_steps_refl)
  note t = q_markTerminal_steps [OF assms(1)]
  show ?thesis
  proof (cases c)
    case (Enqueue_call e ds)
    then show ?thesis using q_Enqueue_steps [OF assms(1)] by (simp add: fifo_store_def handed_out_def)
  next
    case (Claim_call e ow g ps n)
    obtain r q' where r: "fifo_Claim e ow g n q = (r, q')" by fastforce
    show ?thesis using fifo_Claim_steps [OF assms(1) _ r] assms(2) by (simp add: Claim_call fifo_store_def handed_out_def r)
  next
    case (MarkDelivered_call e k ow g)
    then show ?thesis using t by (simp add: fifo_store_def handed_out_def q_MarkDelivered_def finished_def)
  next
    case (MarkFailed_call e k ow g a u m)
    then show ?thesis using q_MarkFailed_steps [OF assms(1)] by (simp add: fifo_store_def handed_out_def)
  next
    case (MarkDeadLetter_call e k ow g m)
    then show ?thesis using t by (simp add: fifo_store_def handed_out_def q_MarkDeadLetter_def finished_def)
  qed (use refl in \<open>simp_all add: fifo_store_def handed_out_def\<close>)
qed

interpretation fifo_ordering: ordering_store fifo_store fair_env q_inv "\<lambda>q. pg_view (as_db q)"
proof
  show "ainv (pg_view (as_db q))" if "q_inv q" for q :: queue
    using that by (simp add: q_inv_def db_invD(2))
  show "q_inv (exec_call fifo_store c q) \<and>
      (\<exists>ls. asteps (pg_view (as_db q)) ls (pg_view (as_db (exec_call fifo_store c q))) \<and> claims ls = handed_out fifo_store c q)"
    if "q_inv q" "fair_env (call_env c)" for q c
    using fifo_call_steps [OF that] q_steps_inv [OF that(1)] by (auto simp: db_steps_def)
qed

end
