(* ===== verification/BenchProps.thy ===== *)
theory BenchProps
  imports BenchRefine MemoryProps
begin

text \<open>
  The properties of the two baselines. The fifo queue keeps the order of every subscriber, by the
  interpretation of \<open>ordering_store\<close>, and its worker terminates and drains the queue; the naive queue,
  which claims in global order only, does not keep the order.
\<close>

section \<open>Order\<close>

text \<open>
  The queue of \<^verbatim>\<open>bench/fifo\<close> never inverts: over any history of a fresh queue, whatever the calls
  return and whatever order the runtime visits the map in, the rows handed out for one subscriber have
  non-decreasing sequence numbers.
\<close>

theorem fifo_never_inverts:
  assumes "\<forall>c \<in> set cs. fair_env (call_env c)"
    and "i < j" "j < length (history fifo_store cs newQueue)"
    and "fst (history fifo_store cs newQueue ! i) = fst (history fifo_store cs newQueue ! j)"
  shows "snd (history fifo_store cs newQueue ! i) \<le> snd (history fifo_store cs newQueue ! j)"
  using per_subscriber_order_nth [OF fifo_ordering.history_ordered [OF newQueue_inv assms(1)] assms(2-4)] .

lemma sample_fifo_history:
  "history fifo_store sample_calls newQueue = [(''s'', 1), (''t'', 1), (''s'', 1), (''s'', 2)]"
  by code_simp

theorem fifo_never_inverts_witness:
  "snd (history fifo_store sample_calls newQueue ! 0) \<le> snd (history fifo_store sample_calls newQueue ! 3)"
  by (rule fifo_never_inverts [OF sample_calls_fair]) (simp_all add: sample_fifo_history)

text \<open>The methods of the naive queue as a store of the interface, as for the fifo queue.\<close>

definition naive_store :: "(env, naive_queue) store_ops" where
  "naive_store = \<lparr>op_Enqueue = naive_Enqueue, op_Claim = (\<lambda>e ow g ps n. naive_Claim e ow g n),
     op_MarkDelivered = naive_MarkDelivered, op_MarkFailed = naive_MarkFailed, op_MarkDeadLetter = naive_MarkDeadLetter,
     op_ExhaustAndSuspend = (\<lambda>e k ow g m q. (None, q)), op_Resume = (\<lambda>e x q. (Inr no_gap, q)),
     op_IsSuspended = (\<lambda>e x q. (Inr False, q)), op_RecoverStale = (\<lambda>e a q. (Inr 0, q)),
     op_PendingOrInFlight = (\<lambda>e q. (Inr (naive_PendingOrInFlight q), q))\<rparr>"

text \<open>
  The queue of \<^verbatim>\<open>bench/naive\<close> inverts: it has no head of line, so when the first row of a
  subscriber fails while the second is in flight, the first is handed out again after the second. (The
  fifo queue and the memory store hand the second out only after the first is finished.)
\<close>

theorem naive_inverts:
  "history naive_store sample_calls naive_newQueue = [(''s'', 1), (''t'', 1), (''s'', 2), (''s'', 1)] \<and>
   \<not> per_subscriber_order (history naive_store sample_calls naive_newQueue)"
  by code_simp

section \<open>Concrete turns\<close>

definition sample_fifo :: fifo where
  "sample_fifo = (fifo_New 2 0 0)\<lparr>b_queue := snd (q_Enqueue (live_env 5) [mk_row ''a'' ''s'', mk_row ''b'' ''t'', mk_row ''c'' ''s''] newQueue)\<rparr>"

definition sample_turn :: "Outcome \<Rightarrow> turn_env" where
  "sample_turn r = \<lparr>te_claim = live_env 9, te_mark = (\<lambda>_. live_env 9), te_now = (\<lambda>_. 9), te_rnd = id,
     te_answer = (\<lambda>_. \<lparr>outcome = r, StatusCode = 0, Err = None\<rparr>)\<rparr>"

lemma sample_fifo_inv: "q_inv (b_queue sample_fifo)"
  using q_steps_inv [OF newQueue_inv q_Enqueue_steps [OF newQueue_inv]] by (simp add: sample_fifo_def)

section \<open>The worker of the fifo baseline\<close>

text \<open>
  The worker's loop until it next waits, sleeps or leaves, with what it delivered; \<open>w i\<close> are the
  surroundings of its \<open>i\<close>-th turn. The fuel is the number of turns; \<open>None\<close>: it is still delivering.
\<close>

fun fifo_worker :: "nat \<Rightarrow> (nat \<Rightarrow> turn_env) \<Rightarrow> fifo \<Rightarrow> (delivery list \<times> turn \<times> fifo) option" where
  "fifo_worker 0 w d = None"
| "fifo_worker (Suc n) w d =
     (case fifo_turn (w 0) d of
        (Delivered ds, d1) \<Rightarrow> map_option (\<lambda>(posts, r). (ds @ posts, r)) (fifo_worker n (\<lambda>i. w (Suc i)) d1)
      | (t, d1) \<Rightarrow> Some ([], t, d1))"

subsection \<open>One turn\<close>

lemma fifo_take_length:
  "int (length out) \<le> limit \<Longrightarrow> fifo_take owner gen t limit head cs q taken out = (q', out') \<Longrightarrow> int (length out') \<le> limit"
proof (induction cs arbitrary: q taken out)
  case (Cons c cs)
  have one: "int (length (out @ [x])) \<le> limit" if "\<not> limit \<le> int (length out)" for x using that by simp
  show ?case
    using Cons.prems Cons.IH Cons.IH [OF one] by (cases "q_row q (qc_id c)") (auto split: if_splits)
qed simp

lemma fifo_Claim_length:
  "fifo_Claim e owner gen limit q = (Inr ds, q') \<Longrightarrow> 0 \<le> limit \<Longrightarrow> int (length ds) \<le> limit"
  using fifo_take_length [where out = "[]" and limit = limit]
  by (fastforce simp: fifo_Claim_def Let_def split: option.splits if_splits prod.splits)

definition fifo_claimed :: "turn_env \<Rightarrow> delivery \<Rightarrow> delivery" where
  "fifo_claimed w = claim_row fifo_ownerID bench_generation (clock (te_claim w))"

text \<open>What becomes of a row in the turn that delivers it.\<close>

definition fifo_settled :: "turn_env \<Rightarrow> fifo \<Rightarrow> delivery \<Rightarrow> delivery" where
  "fifo_settled w d x =
     (let x1 = fifo_claimed w x; del = cloneDelivery x1; res = te_answer w del in
      if ctx_err (te_mark w 0) \<noteq> None then x1
      else case outcome res of
             OutcomeSuccess \<Rightarrow> release (x1\<lparr>Status := StatusDelivered, LastError := []\<rparr>)
           | OutcomePermanent \<Rightarrow> release (x1\<lparr>Status := StatusDeadLettered, LastError := Result_Error res\<rparr>)
           | OutcomeRetryable \<Rightarrow>
               if Attempt x + 1 \<ge> b_maxAttempts d
               then release (x1\<lparr>Status := StatusDeadLettered, LastError := Result_Error res\<rparr>)
               else release (x1\<lparr>Status := StatusPending, Attempt := Attempt x + 1,
                      NextAttempt := time_Add (te_now w 0) (Delay (te_rnd w) (Attempt x + 1) (b_baseBackoff d) (b_maxBackoff d)),
                      LastError := Result_Error res\<rparr>))"

definition same_settings :: "fifo \<Rightarrow> fifo \<Rightarrow> bool" where
  "same_settings d d' \<longleftrightarrow> (\<exists>q. d' = d\<lparr>b_queue := q\<rparr>)"

lemma upd_row:
  assumes "keyed T" "map_of T k = Some y"
  shows "upd_where (\<lambda>d. ID d = k) f T = upd_where (\<lambda>d. ID d = k) (\<lambda>_. f y) T"
  unfolding upd_where_def
proof (rule map_cong [OF refl])
  fix p assume p: "p \<in> set T"
  obtain k' d where kd: "p = (k', d)" by fastforce
  have d: "ID d = k'" "distinct (map fst T)" using assms(1) p by (auto simp: keyed_def kd)
  have eq: "d = y" if "ID d = k"
  proof -
    have "(k, d) \<in> set T" using p d(1) that by (simp add: kd)
    then show ?thesis by (rule eq_key_imp_eq_value [OF d(2) _ map_of_SomeD [OF assms(2)]])
  qed
  show "(case p of (k', d) \<Rightarrow> (k', if ID d = k then f d else d)) = (case p of (k', d) \<Rightarrow> (k', if ID d = k then f y else d))"
  proof (cases "ID d = k")
    case True
    show ?thesis unfolding kd eq [OF True] by simp
  qed (simp add: kd)
qed

lemma mark_row:
  assumes "keyed (q_byID q)" "q_row q k = Some d"
  shows "q_byID (q_signal (q_set k f q)) = upd_where (\<lambda>d. ID d = k) (\<lambda>_. f d) (q_byID q)"
  using upd_row [OF assms(1) assms(2) [unfolded q_row_def], of f]
  by (simp add: q_signal_def q_set_def map_entry_where [OF assms(1)])

lemma deliver_byID:
  assumes "keyed (q_byID (b_queue d))" "q_row (b_queue d) (ID x) = Some (fifo_claimed w x)"
  shows "q_byID (b_queue (bench_deliverOne (te_mark w 0) (te_now w 0) (te_rnd w) fifo_ownerID (cloneDelivery (fifo_claimed w x))
      (te_answer w (cloneDelivery (fifo_claimed w x))) d)) =
    upd_where (\<lambda>y. ID y = ID x) (\<lambda>_. fifo_settled w d x) (q_byID (b_queue d))"
proof -
  let ?x = "fifo_claimed w x" and ?q = "b_queue d"
  have req: "q_requireOwner ?q (ID x) fifo_ownerID bench_generation = Inr ?x"
    using assms(2) by (simp add: q_requireOwner_Inr fifo_claimed_def claim_row_def bench_generation_def)
  have at: "ID ?x = ID x" "Attempt ?x = Attempt x + 1" "Attempt (cloneDelivery ?x) = Attempt x + 1"
    by (simp_all add: fifo_claimed_def claim_row_def cloneDelivery_def)
  have none: "upd_where (\<lambda>y. ID y = ID x) (\<lambda>_. ?x) (q_byID ?q) = q_byID ?q"
  proof -
    have "upd_where (\<lambda>y. ID y = ID x) id (q_byID ?q) = q_byID ?q"
      unfolding upd_where_def by (rule map_idI) (simp split: prod.split)
    then show ?thesis using upd_row [OF assms(1), of "ID x" ?x id] assms(2) by (simp add: q_row_def)
  qed
  note m = mark_row [OF assms]
  show ?thesis
  proof (cases "ctx_err (te_mark w 0)")
    case None
    then show ?thesis
      by (cases "outcome (te_answer w (cloneDelivery ?x))")
        (simp_all add: bench_deliverOne_def fifo_settled_def Let_def at req m q_MarkDelivered_def q_MarkDeadLetter_def
          q_markTerminal_def q_MarkFailed_def)
  next
    case (Some err)
    then show ?thesis
      by (cases "outcome (te_answer w (cloneDelivery ?x))")
        (simp_all add: bench_deliverOne_def fifo_settled_def Let_def none q_MarkDelivered_def q_MarkDeadLetter_def
          q_markTerminal_def q_MarkFailed_def)
  qed
qed

lemma deliver_settings: "same_settings d (bench_deliverOne e now rnd owner del res d)"
proof -
  have "same_settings d d" unfolding same_settings_def by (intro exI [of _ "b_queue d"]) simp
  then show ?thesis by (auto simp: bench_deliverOne_def same_settings_def Let_def split: Outcome.split)
qed

text \<open>
  A turn that delivers takes one due row, the first unfinished of its subscriber, and settles it; every
  other turn leaves the rows alone.
\<close>

lemma fifo_turn_cases:
  assumes "q_inv (b_queue d)" "fair_env (te_claim w)"
  obtains (idle) t d' where "fifo_turn w d = (t, d')" "\<forall>ds. t \<noteq> Delivered ds" "q_byID (b_queue d') = q_byID (b_queue d)"
      "same_settings d d'"
  | (delivers) x d' where "fifo_turn w d = (Delivered [cloneDelivery (fifo_claimed w x)], d')"
      "map_of (q_byID (b_queue d)) (ID x) = Some x" "q_due (clock (te_claim w)) x" "no_earlier (q_byID (b_queue d)) x"
      "q_byID (b_queue d') = upd_where (\<lambda>y. ID y = ID x) (\<lambda>_. fifo_settled w d x) (q_byID (b_queue d))"
      "same_settings d d'" "\<not> b_cancelled d"
proof -
  let ?q = "b_queue d"
  note K = q_keyed [OF assms(1)]
  obtain r q1 where c: "fifo_Claim (te_claim w) fifo_ownerID bench_generation 1 ?q = (r, q1)" by fastforce
  have same: "same_settings d d" "same_settings d (d\<lparr>b_queue := q1\<rparr>)"
    unfolding same_settings_def by (intro exI [of _ ?q], simp) blast
  show thesis
  proof (cases "b_cancelled d")
    case True
    then show thesis using idle [of Left d] same by (simp add: fifo_turn_def)
  next
    case live: False
    show thesis
    proof (cases r)
      case (Inl err)
      then have "q1 = ?q" using c by (auto simp: fifo_Claim_def Let_def split: option.splits if_splits prod.splits)
      then show thesis
        using idle [of "if ctx_err (te_claim w) \<noteq> None then Left else Slept" d] same live c Inl by (simp add: fifo_turn_def)
    next
      case (Inr ds)
      obtain zs where zs: "ds = map (\<lambda>x. cloneDelivery (fifo_claimed w x)) zs"
        "q1 = ?q\<lparr>q_byID := upd_where (\<lambda>d. ID d \<in> set (map ID zs)) (fifo_claimed w) (q_byID ?q)\<rparr>"
        "\<forall>x \<in> set zs. map_of (q_byID ?q) (ID x) = Some x \<and> q_due (clock (te_claim w)) x \<and> no_earlier (q_byID ?q) x"
        using fifo_Claim_result [OF K assms(2) c [unfolded Inr]] by (auto simp: fifo_claimed_def)
      have len: "length zs \<le> 1" using fifo_Claim_length [OF c [unfolded Inr]] zs(1) by simp
      show thesis
      proof (cases zs)
        case Nil
        then have "q_byID q1 = q_byID ?q" using zs(2) by (simp add: upd_where_def)
        then show thesis using idle [of Waited "d\<lparr>b_queue := q1\<rparr>"] same live c Inr zs(1) Nil by (simp add: fifo_turn_def)
      next
        case (Cons x xs)
        then have z: "zs = [x]" using len by simp
        have x: "map_of (q_byID ?q) (ID x) = Some x" "q_due (clock (te_claim w)) x" "no_earlier (q_byID ?q) x"
          using zs(3) by (simp_all add: z)
        let ?d1 = "d\<lparr>b_queue := q1\<rparr>"
        let ?d' = "bench_deliverOne (te_mark w 0) (te_now w 0) (te_rnd w) fifo_ownerID (cloneDelivery (fifo_claimed w x))
          (te_answer w (cloneDelivery (fifo_claimed w x))) ?d1"
        have T1: "q_byID q1 = upd_where (\<lambda>y. ID y = ID x) (fifo_claimed w) (q_byID ?q)"
          using zs(2) by (simp add: z)
        have K1: "keyed (q_byID (b_queue ?d1))"
          using keyed_upd_where [OF K] by (simp add: T1 fifo_claimed_def claim_row_def)
        have row: "q_row (b_queue ?d1) (ID x) = Some (fifo_claimed w x)"
          using x(1) by (simp add: q_row_def T1 map_of_upd_where)
        have s: "fifo_settled w ?d1 x = fifo_settled w d x" by (simp add: fifo_settled_def Let_def split: Outcome.split)
        have "q_byID (b_queue ?d') = upd_where (\<lambda>y. ID y = ID x) (\<lambda>_. fifo_settled w d x)
            (upd_where (\<lambda>y. ID y = ID x) (fifo_claimed w) (q_byID ?q))"
          using deliver_byID [OF K1 row] unfolding s by (simp add: T1)
        also have "\<dots> = upd_where (\<lambda>y. ID y = ID x) (\<lambda>_. fifo_settled w d x) (q_byID ?q)"
          by (auto simp: upd_where_def fifo_claimed_def claim_row_def)
        finally have T': "q_byID (b_queue ?d') = upd_where (\<lambda>y. ID y = ID x) (\<lambda>_. fifo_settled w d x) (q_byID ?q)" .
        have "same_settings d ?d'" using deliver_settings [of ?d1] by (auto simp: same_settings_def)
        moreover have "fifo_turn w d = (Delivered [cloneDelivery (fifo_claimed w x)], ?d')"
          using live c Inr zs(1) z by (simp add: fifo_turn_def)
        ultimately show thesis using delivers x T' live by blast
      qed
    qed
  qed
qed

subsection \<open>Termination\<close>

text \<open>
  The attempts a pending row may still cost, with \<open>m\<close> attempts allowed; every delivery uses one up.
\<close>

definition work_row :: "int \<Rightarrow> delivery \<Rightarrow> nat" where
  "work_row m d = (if Status d = StatusPending then max 1 (nat (m - Attempt d)) else 0)"

definition fifo_work :: "fifo \<Rightarrow> nat" where
  "fifo_work d = sum_list (map (work_row (b_maxAttempts d)) (map snd (q_byID (b_queue d))))"

lemma sum_upd_row:
  fixes f :: "delivery \<Rightarrow> nat"
  assumes "keyed T" "map_of T (ID x) = Some x"
  shows "sum_list (map f (map snd (upd_where (\<lambda>y. ID y = ID x) (\<lambda>_. g) T))) + f x = sum_list (map f (map snd T)) + f g"
  using assms
proof (induction T)
  case (Cons p T)
  obtain k d where p: "p = (k, d)" by fastforce
  have d: "ID d = k" "k \<notin> fst ` set T" "keyed T" using Cons.prems(1) by (auto simp: keyed_def p)
  show ?case
  proof (cases "k = ID x")
    case True
    then have dx: "d = x" using Cons.prems(2) by (simp add: p)
    have "upd_where (\<lambda>y. ID y = ID x) (\<lambda>_. g) T = T"
      unfolding upd_where_def by (rule map_idI) (use d True in \<open>force simp: keyed_def\<close>)
    then show ?thesis using dx by (simp add: p) (simp add: upd_where_def)
  next
    case False
    then have "map_of T (ID x) = Some x" using Cons.prems(2) by (simp add: p)
    then show ?thesis using Cons.IH [OF d(3)] False d(1) by (simp add: p upd_where_def)
  qed
qed simp

lemma settled_work:
  assumes "Status x = StatusPending"
  shows "work_row (b_maxAttempts d) (fifo_settled w d x) < work_row (b_maxAttempts d) x"
  using assms by (auto simp: work_row_def fifo_settled_def Let_def fifo_claimed_def claim_row_def release_def split: Outcome.split)

lemma fifo_turn_inv: "q_inv (b_queue d) \<Longrightarrow> fair_env (te_claim w) \<Longrightarrow> q_inv (b_queue (snd (fifo_turn w d)))"
proof -
  assume i: "q_inv (b_queue d)" "fair_env (te_claim w)"
  obtain r q1 where c: "fifo_Claim (te_claim w) fifo_ownerID bench_generation 1 (b_queue d) = (r, q1)" by fastforce
  have q1: "q_inv q1" using q_steps_inv [OF i(1) fifo_Claim_steps [OF i c]] .
  have "q_inv (b_queue (bench_deliverOne e now rnd owner del res (d\<lparr>b_queue := q1\<rparr>)))" for e now rnd owner del res
    using q_steps_inv [OF q1 q_markTerminal_steps [OF q1]] q_steps_inv [OF q1 q_MarkFailed_steps [OF q1]]
    by (simp add: bench_deliverOne_def Let_def q_MarkDelivered_def q_MarkDeadLetter_def finished_def split: Outcome.split)
  then show ?thesis using i(1) q1 c by (auto simp: fifo_turn_def split: sum.split list.split)
qed

lemma fifo_turn_work:
  assumes "q_inv (b_queue d)" "fair_env (te_claim w)" "fifo_turn w d = (Delivered ds, d')"
  shows "length ds = 1 \<and> fifo_work d' < fifo_work d"
proof (rule fifo_turn_cases [OF assms(1,2)])
  fix x d1
  assume x: "fifo_turn w d = (Delivered [cloneDelivery (fifo_claimed w x)], d1)" "map_of (q_byID (b_queue d)) (ID x) = Some x"
    "q_due (clock (te_claim w)) x" "same_settings d d1"
    "q_byID (b_queue d1) = upd_where (\<lambda>y. ID y = ID x) (\<lambda>_. fifo_settled w d x) (q_byID (b_queue d))"
  have "b_maxAttempts d1 = b_maxAttempts d" using x(4) by (auto simp: same_settings_def)
  then have "fifo_work d1 < fifo_work d"
    using sum_upd_row [OF q_keyed [OF assms(1)] x(2), of "work_row (b_maxAttempts d)" "fifo_settled w d x"]
      settled_work [of x d w] x(3) by (simp add: fifo_work_def x(5) q_due_def)
  then show ?thesis using x(1) assms(3) by simp
qed (use assms(3) in simp)

text \<open>
  Claim C24. The worker of the fifo baseline cannot go on delivering for ever: whatever the transport
  answers and however the clock, the backoff's randomness and cancellation go, it comes back to waiting,
  sleeping or leaving after a bounded number of deliveries, namely at most what the pending rows may
  still cost, the maximum number of attempts less those made, and at least one, for each row.
\<close>

theorem fifo_worker_terminates:
  assumes "q_inv (b_queue d)" "\<forall>i. fair_env (te_claim (w i))" "fifo_work d < fuel"
  shows "\<exists>posts t d'. fifo_worker fuel w d = Some (posts, t, d') \<and> (\<forall>ds. t \<noteq> Delivered ds) \<and> length posts \<le> fifo_work d"
  using assms
proof (induction fuel arbitrary: w d)
  case (Suc fuel)
  obtain t d1 where t: "fifo_turn (w 0) d = (t, d1)" by fastforce
  have f: "fair_env (te_claim (w 0))" "\<forall>i. fair_env (te_claim (w (Suc i)))" using Suc.prems(2) by simp_all
  show ?case
  proof (cases "\<exists>ds. t = Delivered ds")
    case True
    then obtain ds where ds: "t = Delivered ds" by blast
    have i: "q_inv (b_queue d1)" using fifo_turn_inv [OF Suc.prems(1) f(1)] t by simp
    have work: "length ds = 1" "fifo_work d1 < fifo_work d" using fifo_turn_work [OF Suc.prems(1) f(1)] t ds by auto
    obtain posts t' d' where "fifo_worker fuel (\<lambda>i. w (Suc i)) d1 = Some (posts, t', d')" "\<forall>ds. t' \<noteq> Delivered ds"
        "length posts \<le> fifo_work d1"
      using Suc.IH [OF i f(2)] work(2) Suc.prems(3) by auto
    then show ?thesis using work by (simp add: t ds)
  next
    case False
    then show ?thesis using t by (cases t) auto
  qed
qed simp

lemma sample_fifo_work: "fifo_work sample_fifo = 6" by code_simp

lemma sample_turn_fair: "fair_env (te_claim (sample_turn r))"
  by (simp add: sample_turn_def)

theorem fifo_worker_terminates_witness:
  "\<exists>posts t d'. fifo_worker 7 (\<lambda>_. sample_turn OutcomeRetryable) sample_fifo = Some (posts, t, d') \<and> length posts \<le> 6"
proof -
  from fifo_worker_terminates [OF sample_fifo_inv, of "\<lambda>_. sample_turn OutcomeRetryable" 7] show ?thesis
    unfolding sample_fifo_work using sample_turn_fair by auto
qed

subsection \<open>Draining\<close>

lemma q_heads_attained:
  "q_heads kds h x = Some m \<Longrightarrow> h x = Some m \<or> (\<exists>(k, d) \<in> set kds. SubscriberID d = x \<and> unfinished (Status d) \<and> Sequence d = m)"
proof (induction kds h rule: q_heads.induct)
  case (2 k d kds head)
  show ?case
  proof (cases "unfinished (Status d)")
    case False
    then have "q_heads ((k, d) # kds) head = q_heads kds head" by (simp add: unfinished_def)
    then show ?thesis using "2.IH"(1) "2.prems" False by (auto simp: unfinished_def)
  next
    case True
    show ?thesis
    proof (cases "head (SubscriberID d)")
      case None
      then have "q_heads kds (head(SubscriberID d \<mapsto> Sequence d)) x = Some m"
        using "2.prems" True by (auto simp: unfinished_def)
      then show ?thesis using "2.IH"(2) None True by (fastforce simp: unfinished_def split: if_splits)
    next
      case (Some cur)
      then have "q_heads kds (if Sequence d < cur then head(SubscriberID d \<mapsto> Sequence d) else head) x = Some m"
        using "2.prems" True by (auto simp: unfinished_def split: if_splits)
      then show ?thesis using "2.IH"(3) Some True by (fastforce simp: unfinished_def split: if_splits)
    qed
  qed
qed simp

lemma first_is_head:
  assumes "keyed (q_byID q)" "fair_env e" "q_row q k = Some d" "Status d = StatusPending" "no_earlier (q_byID q) d"
  shows "head_of (q_heads (q_visit e l q) Map.empty) (SubscriberID d) = Sequence d"
proof -
  note V = in_q_visit [OF assms(1,2), where l = l]
  note L = q_heads_least [where kds = "q_visit e l q" and h = Map.empty and x = "SubscriberID d"]
  have "(k, d) \<in> set (q_visit e l q)" using V assms(3) by simp
  then obtain m where m: "q_heads (q_visit e l q) Map.empty (SubscriberID d) = Some m" "m \<le> Sequence d"
    using L assms(4) by (cases "q_heads (q_visit e l q) Map.empty (SubscriberID d)") (auto simp: unfinished_def)
  then obtain k' d' where "q_row q k' = Some d'" "SubscriberID d' = SubscriberID d" "unfinished (Status d')" "Sequence d' = m"
    using q_heads_attained [OF m(1)] V by auto
  then have "Sequence d \<le> m" using no_earlier_least [OF assms(1,5), of k' d'] by (simp add: q_row_def)
  then show ?thesis using m by (simp add: head_of_def)
qed

lemma fifo_take_grows: "fifo_take owner gen t limit head cs q taken out = (q', out') \<Longrightarrow> length out \<le> length out'"
proof (induction cs arbitrary: q taken out)
  case (Cons c cs)
  show ?case using Cons.prems by (cases "q_row q (qc_id c)") (auto split: if_splits dest: Cons.IH)
qed simp

lemma fifo_take_some:
  assumes "c \<in> set cs" "q_row q (qc_id c) = Some d" "head_of head (SubscriberID d) = Sequence d" "0 < limit"
    "fifo_take owner gen t limit head cs q [] [] = (q', out)"
  shows "out \<noteq> []"
  using assms(1,5)
proof (induction cs)
  case (Cons c' cs)
  show ?case
  proof (cases "\<exists>d'. q_row q (qc_id c') = Some d' \<and> head_of head (SubscriberID d') = Sequence d'")
    case True
    then obtain d' where "q_row q (qc_id c') = Some d'" "head_of head (SubscriberID d') = Sequence d'" by blast
    then have "fifo_take owner gen t limit head cs (q_set (qc_id c') (claim_row owner gen t) q) [SubscriberID d']
        [cloneDelivery (claim_row owner gen t d')] = (q', out)"
      using Cons.prems(2) assms(4) by simp
    from fifo_take_grows [OF this] show ?thesis by auto
  next
    case False
    then have "c' \<noteq> c" using assms(2,3) by auto
    moreover have "fifo_take owner gen t limit head cs q [] [] = (q', out)"
      using Cons.prems(2) False assms(4) by (cases "q_row q (qc_id c')") (auto split: if_splits)
    ultimately show ?thesis using Cons.IH Cons.prems(1) by simp
  qed
qed simp

lemma fifo_Claim_progress:
  assumes "keyed (q_byID q)" "fair_env e" "fifo_Claim e owner gen limit q = (Inr [], q')" "ctx_err e = None" "0 < limit"
    "q_row q k = Some d" "q_due (clock e) d" "owner \<noteq> []" "gen \<noteq> 0"
  shows "\<not> no_earlier (q_byID q) d"
proof
  assume first: "no_earlier (q_byID q) d"
  let ?head = "q_heads (q_visit e LHead q) Map.empty"
  let ?cs = "q_sorted (fifo_candidates (clock e) ?head (q_visit e LCandidates q))"
  have h: "head_of ?head (SubscriberID d) = Sequence d"
    using first_is_head [OF assms(1,2,6) _ first] assms(7) by (simp add: q_due_def)
  have c: "q_cand_of (k, d) \<in> set ?cs"
    using in_q_visit [OF assms(1,2)] assms(6,7) h by (auto simp: q_sorted_def fifo_candidates_def intro!: image_eqI [where x = "(k, d)"])
  have run: "fifo_take owner gen (clock e) limit ?head ?cs q [] [] = (q', [])"
    using assms(3-5,8,9) by (simp add: fifo_Claim_def Let_def split: prod.splits)
  show False using fifo_take_some [OF c _ h assms(5) run] assms(6) by (simp add: q_cand_of_def)
qed

text \<open>The least pending row of a subscriber is first in line when none of its rows is in flight.\<close>

lemma some_first:
  assumes "keyed T" "map_of T k = Some d" "Status d = StatusPending" "\<forall>k d. map_of T k = Some d \<longrightarrow> Status d \<noteq> StatusInFlight"
  shows "\<exists>k' d'. map_of T k' = Some d' \<and> Status d' = StatusPending \<and> no_earlier T d'"
proof -
  let ?P = "{d'. \<exists>k'. map_of T k' = Some d' \<and> Status d' = StatusPending \<and> SubscriberID d' = SubscriberID d}"
  have "finite ?P" by (rule finite_subset [OF _ finite_set [of "map snd T"]]) (force dest: map_of_SomeD)
  moreover have "d \<in> ?P" using assms(2,3) by blast
  ultimately obtain d' where d': "d' \<in> ?P" "\<forall>x \<in> ?P. Sequence d' \<le> Sequence x"
    using ex_min_if_finite [of "Sequence ` ?P"] by (metis (no_types, lifting) arg_min_least empty_iff arg_min_if_finite(1))
  then obtain k' where k': "map_of T k' = Some d'" "Status d' = StatusPending" "SubscriberID d' = SubscriberID d" by blast
  have "no_earlier T d'"
    unfolding no_earlier_def list_ex_iff
  proof (intro notI, clarify)
    fix j x assume x: "(j, x) \<in> set T" "SubscriberID x = SubscriberID d'" "Sequence x < Sequence d'"
      "Status x = StatusPending \<or> Status x = StatusInFlight"
    have "map_of T j = Some x" using assms(1) x(1) by (simp add: keyed_def)
    then have "x \<in> ?P" using assms(4) x(2,4) k'(3) by auto
    then show False using d'(2) x(3) by auto
  qed
  then show ?thesis using k' by blast
qed

definition all_due :: "gotime \<Rightarrow> 'a queue_scheme \<Rightarrow> bool" where
  "all_due t q \<longleftrightarrow> (\<forall>k x. q_row q k = Some x \<longrightarrow> Status x \<noteq> StatusInFlight \<and> (Status x = StatusPending \<longrightarrow> NextAttempt x \<le> t))"

definition pending_ids :: "'a queue_scheme \<Rightarrow> string set" where
  "pending_ids q = {k. \<exists>x. q_row q k = Some x \<and> Status x = StatusPending}"

definition good_turn :: "gotime \<Rightarrow> turn_env \<Rightarrow> bool" where
  "good_turn t w \<longleftrightarrow> fair_env (te_claim w) \<and> ctx_err (te_claim w) = None \<and> t \<le> clock (te_claim w) \<and>
     ctx_err (te_mark w 0) = None \<and> (\<forall>del. outcome (te_answer w del) = OutcomeSuccess)"

lemma good_turn_idle:
  assumes "q_inv (b_queue d)" "\<not> b_cancelled d" "all_due t (b_queue d)" "good_turn t w"
    and "fifo_turn w d = (r, d')" "\<forall>ds. r \<noteq> Delivered ds"
  shows "r = Waited \<and> pending_ids (b_queue d') = {} \<and> q_PendingOrInFlight (b_queue d') = 0"
proof -
  let ?q = "b_queue d"
  note K = q_keyed [OF assms(1)]
  have w: "fair_env (te_claim w)" "ctx_err (te_claim w) = None" "t \<le> clock (te_claim w)" using assms(4) by (simp_all add: good_turn_def)
  obtain c q1 where c: "fifo_Claim (te_claim w) fifo_ownerID bench_generation 1 ?q = (c, q1)" by fastforce
  obtain ds where ds: "c = Inr ds" using c w(2) by (auto simp: fifo_Claim_def fifo_ownerID_def bench_generation_def Let_def split: prod.splits)
  then have nil: "ds = []" using assms(2,5,6) c by (cases ds) (auto simp: fifo_turn_def)
  have r: "r = Waited" using assms(2,5) c ds nil by (simp add: fifo_turn_def)
  have none: "Status x \<noteq> StatusPending" if x: "q_row ?q k = Some x" for k x
  proof
    assume "Status x = StatusPending"
    then obtain k' x' where x': "map_of (q_byID ?q) k' = Some x'" "Status x' = StatusPending" "no_earlier (q_byID ?q) x'"
      using some_first [OF K, of k x] x assms(3) by (auto simp: q_row_def all_due_def)
    have "q_due (clock (te_claim w)) x'"
      using assms(3) x'(1,2) w(3) by (force simp: all_due_def q_row_def q_due_def)
    then show False
      using fifo_Claim_progress [OF K w(1) c [unfolded ds nil] w(2) _ _ _ , of k' x'] x'(1,3)
      by (simp add: q_row_def fifo_ownerID_def bench_generation_def)
  qed
  have T: "q_byID (b_queue d') = q_byID ?q"
    by (rule fifo_turn_cases [OF assms(1) w(1)]) (use assms(5,6) in simp_all)
  have "cnt_where (\<lambda>d. Status d = StatusPending \<or> Status d = StatusInFlight) (q_byID ?q) = 0"
    using none assms(3) by (auto simp: cnt_where_zero [OF K] q_row_def all_due_def)
  then show ?thesis
    using r none by (auto simp: T q_PendingOrInFlight_def pending_ids_def q_row_def)
qed

lemma good_turn_delivers:
  assumes "q_inv (b_queue d)" "all_due t (b_queue d)" "good_turn t w" "fifo_turn w d = (Delivered ds, d')"
  shows "\<exists>x. ds = [x] \<and> ID x \<in> pending_ids (b_queue d) \<and> pending_ids (b_queue d') = pending_ids (b_queue d) - {ID x} \<and>
    all_due t (b_queue d') \<and> b_cancelled d' = b_cancelled d"
proof (rule fifo_turn_cases [of d w])
  show "q_inv (b_queue d)" "fair_env (te_claim w)" using assms(1,3) by (simp_all add: good_turn_def)
next
  fix x d1
  assume x: "fifo_turn w d = (Delivered [cloneDelivery (fifo_claimed w x)], d1)" "map_of (q_byID (b_queue d)) (ID x) = Some x"
    "q_due (clock (te_claim w)) x" "same_settings d d1"
    "q_byID (b_queue d1) = upd_where (\<lambda>y. ID y = ID x) (\<lambda>_. fifo_settled w d x) (q_byID (b_queue d))"
  have st: "Status (fifo_settled w d x) = StatusDelivered"
    using assms(3) by (simp add: fifo_settled_def good_turn_def Let_def)
  have row: "q_row (b_queue d1) k = (if k = ID x then Some (fifo_settled w d x) else q_row (b_queue d) k)" for k
    using x(2) keyedD [OF q_keyed [OF assms(1)], of k]
    by (cases "map_of (q_byID (b_queue d)) k") (auto simp: q_row_def x(5) map_of_upd_where)
  have "pending_ids (b_queue d1) = pending_ids (b_queue d) - {ID x}"
    using st by (auto simp: pending_ids_def row split: if_splits)
  moreover have "all_due t (b_queue d1)" using assms(2) st by (auto simp: all_due_def row)
  moreover have "ID x \<in> pending_ids (b_queue d)" using x(2,3) by (auto simp: pending_ids_def q_row_def q_due_def)
  moreover have "b_cancelled d1 = b_cancelled d" using x(4) by (auto simp: same_settings_def)
  ultimately show ?thesis using x(1) assms(4) by (simp add: fifo_claimed_def claim_row_def)
qed (use assms(4) in simp)

text \<open>
  Claim C23. The worker of the fifo baseline drains its queue: when no row is in flight, the backoff of
  every pending row has run out, nothing is cancelled and every delivery succeeds, the worker delivers
  each pending row exactly once and then waits, with nothing pending or in flight (so that the wait of
  \<^verbatim>\<open>Close\<close> is over).
\<close>

theorem fifo_worker_drains:
  assumes "q_inv (b_queue d)" "\<not> b_cancelled d" "all_due t (b_queue d)" "\<forall>i. good_turn t (w i)" "fifo_work d < fuel"
  shows "\<exists>posts d'. fifo_worker fuel w d = Some (posts, Waited, d') \<and> q_PendingOrInFlight (b_queue d') = 0 \<and>
    distinct (map ID posts) \<and> set (map ID posts) = {k. \<exists>x. q_row (b_queue d) k = Some x \<and> Status x = StatusPending}"
  using assms
proof (induction fuel arbitrary: w d)
  case (Suc fuel)
  obtain r d1 where r: "fifo_turn (w 0) d = (r, d1)" by fastforce
  have g: "good_turn t (w 0)" "\<forall>i. good_turn t (w (Suc i))" using Suc.prems(4) by simp_all
  have f: "fair_env (te_claim (w 0))" using g(1) by (simp add: good_turn_def)
  show ?case
  proof (cases "\<exists>ds. r = Delivered ds")
    case True
    then obtain ds where ds: "fifo_turn (w 0) d = (Delivered ds, d1)" using r by blast
    obtain x where x: "ds = [x]" "ID x \<in> pending_ids (b_queue d)" "pending_ids (b_queue d1) = pending_ids (b_queue d) - {ID x}"
        "all_due t (b_queue d1)" "\<not> b_cancelled d1"
      using good_turn_delivers [OF Suc.prems(1,3) g(1) ds] Suc.prems(2) by blast
    have i: "q_inv (b_queue d1)" using fifo_turn_inv [OF Suc.prems(1) f] ds by simp
    have "fifo_work d1 < fuel" using fifo_turn_work [OF Suc.prems(1) f ds] Suc.prems(5) by simp
    then obtain posts d' where "fifo_worker fuel (\<lambda>i. w (Suc i)) d1 = Some (posts, Waited, d')"
        "q_PendingOrInFlight (b_queue d') = 0" "distinct (map ID posts)" "set (map ID posts) = pending_ids (b_queue d1)"
      using Suc.IH [OF i x(5,4) g(2)] by (auto simp: pending_ids_def)
    then show ?thesis using x(1-3) ds by (auto simp: pending_ids_def)
  next
    case False
    have "fifo_worker (Suc fuel) w d = Some ([], r, d1)" using r False by (cases r) auto
    moreover have "pending_ids (b_queue d1) = pending_ids (b_queue d)"
      by (rule fifo_turn_cases [OF Suc.prems(1) f]) (use r False in \<open>auto simp: pending_ids_def q_row_def\<close>)
    ultimately show ?thesis
      using good_turn_idle [OF Suc.prems(1-3) g(1) r] False by (auto simp: pending_ids_def)
  qed
qed simp

lemma sample_turn_good: "good_turn 9 (sample_turn OutcomeSuccess)"
  by (simp add: sample_turn_def good_turn_def)

lemma sample_due: "all_due 9 (b_queue sample_fifo)"
proof -
  have "list_all (\<lambda>(k, x). Status x = StatusPending \<and> NextAttempt x \<le> 9) (q_byID (b_queue sample_fifo))" by code_simp
  then show ?thesis by (auto simp: all_due_def q_row_def list_all_iff dest!: map_of_SomeD)
qed

theorem fifo_worker_drains_witness:
  "\<exists>posts d'. fifo_worker 7 (\<lambda>_. sample_turn OutcomeSuccess) sample_fifo = Some (posts, Waited, d') \<and>
     q_PendingOrInFlight (b_queue d') = 0 \<and> distinct (map ID posts)"
proof -
  have "\<not> b_cancelled sample_fifo" by code_simp
  from fifo_worker_drains [OF sample_fifo_inv this sample_due, of "\<lambda>_. sample_turn OutcomeSuccess" 7] show ?thesis
    unfolding sample_fifo_work using sample_turn_good by auto
qed

end
