(* ===== verification/Bridge.thy ===== *)
theory Bridge
  imports ClusterProps DeliverProps Assign
begin

text \<open>
  \<^verbatim>\<open>manifold/go/main.go\<close>: a worker node of a fleet. It seeds the owner table, runs a dispatcher on the shared
  database, and serves messages of an Erlang cluster: dispatches, questions about owners, and the two
  steps of a graceful handoff. The Erlang node itself is a library: a message is a value of \<open>erl\<close>, what the
  actors send is collected, and the library's accessor, the JSON codec and the texts of errors are
  parameters.
\<close>

section \<open>Messages\<close>

text \<open>The values Go sees in a message; \<open>'p\<close> are the identifiers of processes.\<close>

datatype 'p erl =
    EAtom string
  | EInt int
  | EInt32 int
  | EInt64 int
  | EUint64 uint64
  | EString string
  | EBinary bytes
  | EPid 'p
  | ETuple "'p erl list"
  | EList "'p erl list"
  | ESlice "'p erl list"
  | EOther string

definition asPid :: "'p erl \<Rightarrow> 'p option" where
  "asPid v = (case v of EPid p \<Rightarrow> Some p | _ \<Rightarrow> None)"

definition asBytes :: "'p erl \<Rightarrow> bytes option" where
  "asBytes v = (case v of EString s \<Rightarrow> Some s | EBinary b \<Rightarrow> Some b | _ \<Rightarrow> None)"

definition asString :: "'p erl \<Rightarrow> string option" where
  "asString v = (case v of EString s \<Rightarrow> Some s | EBinary b \<Rightarrow> Some b | _ \<Rightarrow> None)"

definition asInt :: "'p erl \<Rightarrow> int option" where
  "asInt v = (case v of EInt n \<Rightarrow> Some n | EInt32 n \<Rightarrow> Some n | EInt64 n \<Rightarrow> Some n | EUint64 n \<Rightarrow> Some (sint n) | _ \<Rightarrow> None)"

definition pidList :: "'p erl \<Rightarrow> 'p list" where
  "pidList v = (case v of EList xs \<Rightarrow> List.map_filter asPid xs | ESlice xs \<Rightarrow> List.map_filter asPid xs
     | EPid p \<Rightarrow> [p] | _ \<Rightarrow> [])"

text \<open>The request \<^verbatim>\<open>json.Unmarshal\<close> fills in.\<close>

record wire =
  w_ID :: string
  w_Type :: string
  w_Data :: "bytes option"
  w_Subscribers :: "(string \<times> string) list"

datatype bridge_error =
    BWant string
  | BJson string
  | BNoOwner
  | BHandoff handoff_error
  | BFold fold_error

record 'p bridge_lib =
  element :: "'p erl list \<Rightarrow> nat \<Rightarrow> 'p erl"
  type_name :: "'p erl \<Rightarrow> string"
  unmarshal :: "bytes \<Rightarrow> string + wire"
  marshal_event :: "string \<Rightarrow> string \<Rightarrow> bytes \<Rightarrow> string + bytes"
  text_of :: "bridge_error \<Rightarrow> string"

text \<open>The library numbers the elements of a tuple from 1.\<close>

definition one_based :: "'p bridge_lib \<Rightarrow> bool" where
  "one_based lib \<longleftrightarrow> (\<forall>t i. i < length t \<longrightarrow> element lib t (Suc i) = t ! i)"

section \<open>The node\<close>

record recorded =
  rec_SubscriberID :: string
  rec_EventID :: string
  rec_Sequence :: int
  rec_URL :: string

text \<open>
  The bridge, with its dispatcher, the number of its process in the cluster, its own process identifier,
  what its transport has recorded, and the messages it has sent.
\<close>

record 'p bridge =
  br_dispatcher :: "cluster dispatcher"
  br_proc :: nat
  br_nodeID :: string
  br_nodeIndex :: int
  br_nodeCount :: int
  br_partitions :: int
  br_self :: 'p
  br_record :: "recorded list"
  br_sent :: "('p \<times> 'p erl) list"

abbreviation br_tables :: "'p bridge \<Rightarrow> cluster" where
  "br_tables b \<equiv> d_store (br_dispatcher b)"

text \<open>
  The surroundings of a message: the environment of each call on the store, what other processes did to
  the shared tables before it, and the context, random bytes and clock of the dispatch.
\<close>

record bridge_env =
  be_pg :: "nat \<Rightarrow> pgenv"
  be_other :: "nat \<Rightarrow> cluster_op list"
  be_ctx :: "string option"
  be_rnds :: "nat \<Rightarrow> bytes option"
  be_nows :: "nat \<Rightarrow> gotime"

definition others :: "bridge_env \<Rightarrow> nat \<Rightarrow> 'p bridge \<Rightarrow> 'p bridge" where
  "others w i b = b\<lparr>br_dispatcher := (br_dispatcher b)\<lparr>d_store := exec_ops (be_other w i) (br_tables b)\<rparr>\<rparr>"

definition bridge_call :: "bridge_env \<Rightarrow> nat \<Rightarrow> (pg \<Rightarrow> 'r \<times> pg) \<Rightarrow> 'p bridge \<Rightarrow> 'r \<times> 'p bridge" where
  "bridge_call w i f b0 =
     (let b = others w i b0; (r, s) = on_node (br_proc b) f (br_tables b)
      in (r, b\<lparr>br_dispatcher := (br_dispatcher b)\<lparr>d_store := s\<rparr>\<rparr>))"

definition send :: "'p \<Rightarrow> 'p erl \<Rightarrow> 'p bridge \<Rightarrow> 'p bridge" where
  "send to v b = b\<lparr>br_sent := br_sent b @ [(to, v)]\<rparr>"

definition owner_state_text :: "owner_state \<Rightarrow> string" where
  "owner_state_text st = (case st of PoActive \<Rightarrow> ''active'' | PoDraining \<Rightarrow> ''draining'')"

section \<open>Requests about ownership\<close>

definition handleOwnerOf :: "'p bridge_lib \<Rightarrow> bridge_env \<Rightarrow> 'p erl list \<Rightarrow> 'p bridge \<Rightarrow> 'p bridge" where
  "handleOwnerOf lib w t b =
     (if length t < 3 then b
      else case asInt (element lib t 2) of
        None \<Rightarrow> b
      | Some p \<Rightarrow>
        (case asPid (element lib t 3) of
           None \<Rightarrow> b
         | Some src \<Rightarrow>
             (case bridge_call w 0 (\<lambda>s. (OwnerRow (be_pg w 0) p s, s)) b of
                (None, b1) \<Rightarrow> send src (ETuple [EAtom ''owner_err'', EBinary (text_of lib BNoOwner)]) b1
              | (Some (node, st, nxt, gen), b1) \<Rightarrow>
                  send src (ETuple [EAtom ''owner'', EInt p, EBinary node, EBinary (owner_state_text st), EBinary nxt,
                    EInt64 (sint gen)]) b1)))"

definition reply_handoff :: "'p bridge_lib \<Rightarrow> 'p \<Rightarrow> handoff_error option \<times> 'p bridge \<Rightarrow> 'p bridge" where
  "reply_handoff lib src r =
     (case r of
        (Some err, b) \<Rightarrow> send src (ETuple [EAtom ''handoff_err'', EBinary (text_of lib (BHandoff err))]) b
      | (None, b) \<Rightarrow> send src (EAtom ''handoff_ok'') b)"

definition handleBeginHandoff :: "'p bridge_lib \<Rightarrow> bridge_env \<Rightarrow> 'p erl list \<Rightarrow> 'p bridge \<Rightarrow> 'p bridge" where
  "handleBeginHandoff lib w t b =
     (if length t < 5 then b
      else case (asInt (element lib t 2), asString (element lib t 3), asString (element lib t 4), asPid (element lib t 5)) of
        (Some p, Some fromNode, Some toNode, Some src) \<Rightarrow>
          reply_handoff lib src (bridge_call w 0 (BeginHandoff (be_pg w 0) p fromNode toNode) b)
      | _ \<Rightarrow> b)"

definition handleCompleteHandoff :: "'p bridge_lib \<Rightarrow> bridge_env \<Rightarrow> 'p erl list \<Rightarrow> 'p bridge \<Rightarrow> 'p bridge" where
  "handleCompleteHandoff lib w t b =
     (if length t < 3 then b
      else case (asInt (element lib t 2), asPid (element lib t 3)) of
        (Some p, Some src) \<Rightarrow> reply_handoff lib src (bridge_call w 0 (CompleteHandoff (be_pg w 0) p) b)
      | _ \<Rightarrow> b)"

definition handleInFlightCount :: "'p bridge_lib \<Rightarrow> bridge_env \<Rightarrow> 'p erl list \<Rightarrow> 'p bridge \<Rightarrow> 'p bridge" where
  "handleInFlightCount lib w t b =
     (if length t < 3 then b
      else case (asInt (element lib t 2), asPid (element lib t 3)) of
        (Some p, Some src) \<Rightarrow>
          (case bridge_call w 0 (\<lambda>s. (InFlightCount (be_pg w 0) p s, s)) b of
             (Inl err, b1) \<Rightarrow> send src (ETuple [EAtom ''inflight_err'', EBinary (text_of lib (BHandoff err))]) b1
           | (Inr n, b1) \<Rightarrow> send src (ETuple [EAtom ''inflight'', EInt64 n]) b1)
      | _ \<Rightarrow> b)"

section \<open>Dispatching\<close>

definition replyDispatch :: "'p bridge_lib \<Rightarrow> 'p erl list \<Rightarrow> bridge_error option \<Rightarrow> 'p bridge \<Rightarrow> 'p bridge" where
  "replyDispatch lib t err b =
     (case asPid (element lib t 3) of
        None \<Rightarrow> b
      | Some src \<Rightarrow>
          (case err of
             None \<Rightarrow> send src (EAtom ''dispatch_ok'') b
           | Some er \<Rightarrow> send src (ETuple [EAtom ''dispatch_err'', EBinary (text_of lib er)]) b))"

text \<open>
  The loop that keeps the subscribers whose partition this node owns: \<open>None\<close> when a lookup fails. Call
  \<open>i\<close> of the message is the first lookup.
\<close>

fun owned_subs :: "bridge_env \<Rightarrow> nat \<Rightarrow> Subscriber list \<Rightarrow> Subscriber list \<Rightarrow> 'p bridge \<Rightarrow> Subscriber list option \<times> 'p bridge" where
  "owned_subs w i [] filtered b = (Some filtered, b)"
| "owned_subs w i (s # ss) filtered b =
     (let part = NodeIndex (sub_ID s) (br_partitions b) (br_partitions b) in
      case bridge_call w i (\<lambda>x. (OwnerRow (be_pg w i) part x, x)) b of
        (None, b1) \<Rightarrow> (None, b1)
      | (Some (node, _), b1) \<Rightarrow>
          owned_subs w (Suc i) ss (if node = br_nodeID b1 then filtered @ [s] else filtered) b1)"

definition dispatch_owned :: "'p bridge_lib \<Rightarrow> bridge_env \<Rightarrow> nat \<Rightarrow> Event \<Rightarrow> Subscriber list \<Rightarrow> 'p bridge \<Rightarrow> fold_error option \<times> 'p bridge" where
  "dispatch_owned lib w i ev ss b0 =
     (let b = others w i b0;
          (err, d) = Dispatch cluster_store (marshal_event lib) (br_proc b, be_pg w i) (be_ctx w) (be_rnds w) (be_nows w) ev ss
            (br_dispatcher b)
      in (err, b\<lparr>br_dispatcher := d\<rparr>))"

definition wire_subs :: "wire \<Rightarrow> Subscriber list" where
  "wire_subs x = map (\<lambda>(k, url). \<lparr>sub_ID = k, sub_URL = url, sub_Secret = None\<rparr>) (w_Subscribers x)"

definition wire_event :: "wire \<Rightarrow> Event" where
  "wire_event x = \<lparr>ev_ID = w_ID x, ev_Type = w_Type x, ev_Payload = w_Data x\<rparr>"

definition handleDispatch :: "'p bridge_lib \<Rightarrow> bridge_env \<Rightarrow> 'p erl list \<Rightarrow> 'p bridge \<Rightarrow> 'p bridge" where
  "handleDispatch lib w t b =
     (if length t < 3 then b
      else case asBytes (element lib t 2) of
        None \<Rightarrow> replyDispatch lib t (Some (BWant (type_name lib (element lib t 2)))) b
      | Some raw \<Rightarrow>
        (case unmarshal lib raw of
           Inl msg \<Rightarrow> replyDispatch lib t (Some (BJson msg)) b
         | Inr x \<Rightarrow>
           (case owned_subs w 0 (wire_subs x) [] b of
              (None, b1) \<Rightarrow> replyDispatch lib t (Some BNoOwner) b1
            | (Some [], b1) \<Rightarrow> replyDispatch lib t None b1
            | (Some ss, b1) \<Rightarrow>
                (case dispatch_owned lib w (length (wire_subs x)) (wire_event x) ss b1 of
                   (Some err, b2) \<Rightarrow> replyDispatch lib t (Some (BFold err)) b2
                 | (None, b2) \<Rightarrow> replyDispatch lib t None b2))))"

section \<open>The actors\<close>

definition HandleInfo :: "'p bridge_lib \<Rightarrow> bridge_env \<Rightarrow> 'p erl \<Rightarrow> 'p bridge \<Rightarrow> 'p bridge" where
  "HandleInfo lib w msg b =
     (case msg of
        ETuple t \<Rightarrow>
          if length t < 1 then b
          else (case element lib t 1 of
             EAtom tag \<Rightarrow>
               if tag = ''give_pid'' then
                 if length t < 2 then b
                 else (case asPid (element lib t 2) of
                         None \<Rightarrow> b
                       | Some src \<Rightarrow> send src (ETuple [EAtom ''pid'', EPid (br_self b)]) b)
               else if tag = ''dispatch'' then handleDispatch lib w t b
               else if tag = ''owner_of'' then handleOwnerOf lib w t b
               else if tag = ''begin_handoff'' then handleBeginHandoff lib w t b
               else if tag = ''complete_handoff'' then handleCompleteHandoff lib w t b
               else if tag = ''inflight_count'' then handleInFlightCount lib w t b
               else b
           | _ \<Rightarrow> b)
      | _ \<Rightarrow> b)"

text \<open>The partitioner forwards \<^verbatim>\<open>{send, pids, message}\<close>.\<close>

definition HandleCast :: "'p bridge_lib \<Rightarrow> 'p erl \<Rightarrow> 'p bridge \<Rightarrow> 'p bridge" where
  "HandleCast lib msg b =
     (case msg of
        ETuple t \<Rightarrow>
          if length t \<noteq> 3 then b
          else (case element lib t 1 of
             EAtom tag \<Rightarrow> if tag \<noteq> ''send'' then b else fold (\<lambda>p. send p (element lib t 3)) (pidList (element lib t 2)) b
           | _ \<Rightarrow> b)
      | _ \<Rightarrow> b)"

text \<open>The status page: a status code with the text of the error, or the owner row.\<close>

definition handleOwnershipHTTP ::
  "'p bridge_lib \<Rightarrow> pgenv \<Rightarrow> string \<Rightarrow> 'p bridge \<Rightarrow> int \<times> string + int \<times> string \<times> owner_state \<times> string \<times> uint64" where
  "handleOwnershipHTTP lib e query b =
     (case scan_int query of
        None \<Rightarrow> Inl (400, ''partition query required'')
      | Some p \<Rightarrow>
          (case OwnerRow e p (at_node (br_proc b) (br_tables b)) of
             None \<Rightarrow> Inl (404, text_of lib BNoOwner)
           | Some po \<Rightarrow> Inr (p, po)))"

section \<open>The recording transport\<close>

text \<open>\<open>res\<close>: what the transport inside answers to the row.\<close>

definition recording_Deliver :: "Result \<Rightarrow> delivery \<Rightarrow> 'p bridge \<Rightarrow> Result \<times> 'p bridge" where
  "recording_Deliver res d b =
     (res, if outcome res = OutcomeSuccess
           then b\<lparr>br_record := br_record b @ [\<lparr>rec_SubscriberID = SubscriberID d, rec_EventID = EventID d,
                    rec_Sequence = Sequence d, rec_URL = URL d\<rparr>]\<rparr>
           else b)"

definition snapshot :: "'p bridge \<Rightarrow> recorded list" where
  "snapshot b = br_record b"

section \<open>Starting a node\<close>

datatype start_error =
    SInvalid
  | SOwners handoff_error
  | SNew fold_error
  | SStart fold_error

definition node_config :: "int \<Rightarrow> int \<Rightarrow> int \<Rightarrow> int \<Rightarrow> cluster \<Rightarrow> cluster Config" where
  "node_config idx nodes nparts ws s = \<lparr>cfg_Store = Some s, cfg_Workers = ws, cfg_Partitions = nparts, cfg_MaxAttempts = 0,
     cfg_BaseBackoff = 0, cfg_MaxBackoff = 0, cfg_RetentionMaxCount = 0, cfg_RetentionMaxAge = 0, cfg_OnSuspend = False,
     cfg_OnDeliveryError = False, cfg_IDPrefix = ''n'' @ show_int idx @ ''-'', cfg_OverlapPartitions = False,
     cfg_PartitionsClaim = Some (PartitionsForNode nparts nodes idx), cfg_StaleClaimAge = 0, cfg_NodeID = LogicalNodeID idx\<rparr>"

text \<open>
  \<^verbatim>\<open>main\<close> up to the start of the actors, in process \<open>n\<close> of the cluster: the bridge, or why the process gave up;
  and the tables it leaves.
\<close>

definition bridge_main ::
  "int \<Rightarrow> int \<Rightarrow> int \<Rightarrow> int \<Rightarrow> (nat \<Rightarrow> pgenv) \<Rightarrow> bytes option \<Rightarrow> gotime \<Rightarrow> 'p \<Rightarrow> nat \<Rightarrow> cluster \<Rightarrow>
   (start_error + 'p bridge) \<times> cluster" where
  "bridge_main idx nodes nparts ws e rnd now self n s =
     (if nodes < 1 \<or> idx < 0 \<or> idx \<ge> nodes then (Inl SInvalid, s)
      else case on_node n (EnsureOwnerAssignments (e 0) (OwnerAssignmentsForNodes nparts nodes)) s of
        (Some err, s1) \<Rightarrow> (Inl (SOwners err), s1)
      | (None, s1) \<Rightarrow>
        (case New (cluster_kind n) (node_config idx nodes nparts ws s1) rnd now of
           Inl err \<Rightarrow> (Inl (SNew err), s1)
         | Inr d \<Rightarrow>
           (case Start cluster_store (n, e 1) d of
              (Some err, d1) \<Rightarrow> (Inl (SStart err), d_store d1)
            | (None, d1) \<Rightarrow>
                (Inr \<lparr>br_dispatcher = d1, br_proc = n, br_nodeID = LogicalNodeID idx, br_nodeIndex = idx, br_nodeCount = nodes,
                   br_partitions = nparts, br_self = self, br_record = [], br_sent = []\<rparr>, d_store d1))))"

end
