(* ===== verification/BridgeCalls.thy ===== *)
theory BridgeCalls
  imports Bridge
begin

text \<open>
  Messages of a fleet node as operations of the cluster: what a message does to the tables is a sequence of
  calls, those of other processes and the node's own.
\<close>

section \<open>Messages as calls of the cluster\<close>

text \<open>
  What a message does to the tables: a sequence of operations of the cluster, those of other processes
  and, in its own process, storing rows and the two steps of a handoff.
\<close>

definition own_op :: "bridge_env \<Rightarrow> nat \<Rightarrow> cluster_op \<Rightarrow> bool" where
  "own_op w n x \<longleftrightarrow> (\<exists>i. (\<exists>ds. x = Store_op (Enqueue_call (n, be_pg w i) ds)) \<or>
     (\<exists>p src dst. x = Begin_op (n, be_pg w i) p src dst) \<or> (\<exists>p. x = Complete_op (n, be_pg w i) p))"

definition message_op :: "bridge_env \<Rightarrow> nat \<Rightarrow> cluster_op \<Rightarrow> bool" where
  "message_op w n x \<longleftrightarrow> own_op w n x \<or> (\<exists>i. x \<in> set (be_other w i))"

definition reaches :: "bridge_env \<Rightarrow> 'p bridge \<Rightarrow> 'p bridge \<Rightarrow> bool" where
  "reaches w b b' \<longleftrightarrow> br_proc b' = br_proc b \<and>
     (\<exists>xs. br_tables b' = exec_ops xs (br_tables b) \<and> (\<forall>x \<in> set xs. message_op w (br_proc b) x))"

lemma exec_ops_append: "exec_ops (xs @ ys) s = exec_ops ys (exec_ops xs s)"
  by (induction xs arbitrary: s) simp_all

lemma reaches_refl: "br_proc b' = br_proc b \<Longrightarrow> br_tables b' = br_tables b \<Longrightarrow> reaches w b b'"
  by (auto simp: reaches_def intro: exI [of _ "[]"])

lemma reaches_trans: "reaches w b b1 \<Longrightarrow> reaches w b1 b2 \<Longrightarrow> reaches w b b2"
  unfolding reaches_def
proof (elim conjE exE)
  fix xs ys
  assume "br_proc b1 = br_proc b" "br_tables b1 = exec_ops xs (br_tables b)" "\<forall>x \<in> set xs. message_op w (br_proc b) x"
    "br_proc b2 = br_proc b1" "br_tables b2 = exec_ops ys (br_tables b1)" "\<forall>x \<in> set ys. message_op w (br_proc b1) x"
  then show "br_proc b2 = br_proc b \<and>
      (\<exists>xs. br_tables b2 = exec_ops xs (br_tables b) \<and> (\<forall>x \<in> set xs. message_op w (br_proc b) x))"
    by (intro conjI exI [of _ "xs @ ys"]) (auto simp: exec_ops_append)
qed

lemma send_simps [simp]:
  "br_tables (send p v b) = br_tables b" "br_proc (send p v b) = br_proc b" "br_sent (send p v b) = br_sent b @ [(p, v)]"
  "br_dispatcher (send p v b) = br_dispatcher b" "br_nodeID (send p v b) = br_nodeID b" "br_partitions (send p v b) = br_partitions b"
  by (simp_all add: send_def)

lemma others_simps [simp]:
  "br_tables (others w i b) = exec_ops (be_other w i) (br_tables b)" "br_proc (others w i b) = br_proc b"
  "br_sent (others w i b) = br_sent b" "br_nodeID (others w i b) = br_nodeID b" "br_partitions (others w i b) = br_partitions b"
  by (simp_all add: others_def)

lemma reaches_others: "reaches w b (others w i b)"
  by (auto simp: reaches_def message_op_def intro!: exI [of _ "be_other w i"])

lemma reaches_send: "reaches w b b' \<Longrightarrow> reaches w b (send p v b')"
  by (simp add: reaches_def)

text \<open>A call that reads, and a call that is an operation of the cluster.\<close>

lemma read_call:
  assumes "bridge_call w i (\<lambda>s. (f s, s)) b = (r, b')"
  shows "r = f (at_node (br_proc b) (exec_ops (be_other w i) (br_tables b)))" "b' = others w i b"
  using assms by (simp_all add: bridge_call_def on_node_def Let_def others_def)

lemma reaches_read: "bridge_call w i (\<lambda>s. (f s, s)) b = (r, b') \<Longrightarrow> reaches w b b'"
  using read_call(2) reaches_others by metis

lemma reaches_op:
  assumes "own_op w (br_proc b) x" "\<And>s. exec_op x s = snd (on_node (br_proc b) f s)" "bridge_call w i f b = (r, b')"
  shows "reaches w b b'"
proof -
  let ?s = "exec_ops (be_other w i) (br_tables b)"
  obtain r' s where rs: "on_node (br_proc b) f ?s = (r', s)" by fastforce
  have "br_tables b' = exec_op x ?s" "br_proc b' = br_proc b"
    using assms(3) by (auto simp: bridge_call_def Let_def assms(2) rs simp del: on_node_simps)
  then show ?thesis
    using assms(1) by (auto simp: reaches_def message_op_def exec_ops_append intro!: exI [of _ "be_other w i @ [x]"])
qed

lemma reaches_reply: "reaches w b (snd r) \<Longrightarrow> reaches w b (reply_handoff lib src r)"
  by (cases r; cases "fst r") (simp_all add: reply_handoff_def reaches_send)

lemma reaches_replyDispatch: "reaches w b b' \<Longrightarrow> reaches w b (replyDispatch lib t err b')"
  by (simp add: replyDispatch_def reaches_send split: option.split)

lemma reaches_owned: "owned_subs w i ss fs b = (r, b') \<Longrightarrow> reaches w b b'"
proof (induction ss arbitrary: i fs b)
  case Nil
  then show ?case by (simp add: reaches_refl)
next
  case (Cons s ss)
  obtain q b1 where q: "bridge_call w i (\<lambda>x. (OwnerRow (be_pg w i) (NodeIndex (sub_ID s) (br_partitions b) (br_partitions b)) x, x)) b = (q, b1)"
    by fastforce
  show ?case
  proof (cases q)
    case None
    then show ?thesis using Cons.prems reaches_read [OF q] by (simp add: q)
  next
    case (Some row)
    then show ?thesis
      using Cons.prems reaches_trans [OF reaches_read [OF q] Cons.IH] by (cases row) (simp add: q)
  qed
qed

lemma Dispatch_stores:
  assumes "Dispatch ops marshal e ctxerr rnds nows ev ss d = (r, d')"
  shows "d_store d' = d_store d \<or>
    (\<exists>payload rs. d_store d' = snd (op_Enqueue ops e rs (d_store d)) \<and> list_all2 (row_for ev payload (partitions (d_own d))) ss rs)"
proof (cases "d' = d")
  case False
  have ok: "ctxerr = None \<and> dispatchable d ev ss"
    using False assms Dispatch_cases(1) [of ctxerr d ev ss ops marshal e rnds nows]
    by (cases "ctxerr = None \<and> dispatchable d ev ss") auto
  then obtain payload where p: "encodeOnce marshal ev = Inr payload"
    using False assms Dispatch_cases(2) [of marshal ev _ ops e ctxerr rnds nows ss d] by (cases "encodeOnce marshal ev") auto
  obtain rs d1 where rs: "build_rows rnds nows ev payload 0 ss d = (rs, d1)" by fastforce
  have d1: "d_store d1 = d_store d" using build_rows_frame [OF rs] by auto
  obtain err st where st: "op_Enqueue ops e rs (d_store d) = (err, st)" by fastforce
  have "d_store d' = st" using assms ok by (auto simp: Dispatch_cases(3) [OF conjunct2 [OF ok] p] rs d1 st)
  then show ?thesis using build_rows_each [OF rs] st by (intro disjI2 exI [of _ payload] exI [of _ rs]) simp
qed simp

lemma reaches_dispatch:
  assumes "dispatch_owned lib w i ev ss b = (r, b')"
  shows "reaches w b b'"
proof -
  let ?b = "others w i b"
  obtain err d where d: "Dispatch cluster_store (marshal_event lib) (br_proc b, be_pg w i) (be_ctx w) (be_rnds w) (be_nows w) ev ss
      (br_dispatcher ?b) = (err, d)" by fastforce
  have b': "b' = ?b\<lparr>br_dispatcher := d\<rparr>" using assms by (simp add: dispatch_owned_def Let_def d)
  from Dispatch_stores [OF d] have "reaches w ?b b'"
  proof (elim disjE exE conjE)
    assume "d_store d = br_tables ?b"
    then show ?thesis by (simp add: b' reaches_refl)
  next
    fix rs assume "d_store d = snd (op_Enqueue cluster_store (br_proc b, be_pg w i) rs (br_tables ?b))"
    then have "br_tables b' = exec_ops [Store_op (Enqueue_call (br_proc b, be_pg w i) rs)] (br_tables ?b)" by (simp add: b')
    then show ?thesis unfolding reaches_def
      by (intro conjI exI [of _ "[Store_op (Enqueue_call (br_proc b, be_pg w i) rs)]"])
        (auto simp: b' message_op_def own_op_def)
  qed
  then show ?thesis by (rule reaches_trans [OF reaches_others])
qed

lemma reaches_handoff_calls:
  "reaches w b (snd (bridge_call w 0 (BeginHandoff (be_pg w 0) p src dst) b))"
  "reaches w b (snd (bridge_call w 0 (CompleteHandoff (be_pg w 0) p) b))"
proof -
  have o: "own_op w (br_proc b) (Begin_op (br_proc b, be_pg w 0) p src dst)" "own_op w (br_proc b) (Complete_op (br_proc b, be_pg w 0) p)"
    by (auto simp: own_op_def)
  obtain r1 b1 where c1: "bridge_call w 0 (BeginHandoff (be_pg w 0) p src dst) b = (r1, b1)" by fastforce
  show "reaches w b (snd (bridge_call w 0 (BeginHandoff (be_pg w 0) p src dst) b))"
    using reaches_op [OF o(1) _ c1] by (simp add: c1)
  obtain r2 b2 where c2: "bridge_call w 0 (CompleteHandoff (be_pg w 0) p) b = (r2, b2)" by fastforce
  show "reaches w b (snd (bridge_call w 0 (CompleteHandoff (be_pg w 0) p) b))"
    using reaches_op [OF o(2) _ c2] by (simp add: c2)
qed

lemma reaches_handleDispatch: "reaches w b (handleDispatch lib w t b)"
proof -
  have refl: "reaches w b b" by (simp add: reaches_refl)
  have run: "reaches w b (case owned_subs w 0 ss [] b of
      (None, b1) \<Rightarrow> replyDispatch lib t (Some BNoOwner) b1
    | (Some [], b1) \<Rightarrow> replyDispatch lib t None b1
    | (Some (x # xs), b1) \<Rightarrow>
        (case dispatch_owned lib w n ev (x # xs) b1 of
           (Some err, b2) \<Rightarrow> replyDispatch lib t (Some (BFold err)) b2
         | (None, b2) \<Rightarrow> replyDispatch lib t None b2))" for ss n ev
  proof -
    obtain fs b1 where f: "owned_subs w 0 ss [] b = (fs, b1)" by fastforce
    note r1 = reaches_owned [OF f]
    have "reaches w b b2" if "dispatch_owned lib w n ev xs b1 = (err, b2)" for xs err b2
      using reaches_trans [OF r1 reaches_dispatch [OF that]] .
    then show ?thesis using r1 by (auto simp: f intro!: reaches_replyDispatch split: option.split list.split prod.split)
  qed
  show ?thesis
    unfolding handleDispatch_def
    by (auto simp: refl intro!: reaches_replyDispatch run split: option.split sum.split)
qed

lemma reaches_HandleInfo: "reaches w b (HandleInfo lib w msg b)"
proof -
  have refl: "reaches w b b" by (simp add: reaches_refl)
  have o: "reaches w b (handleOwnerOf lib w t b)" for t
    by (auto simp: handleOwnerOf_def refl intro!: reaches_send split: option.split prod.split dest: reaches_read)
  have n: "reaches w b (handleInFlightCount lib w t b)" for t
    by (auto simp: handleInFlightCount_def refl intro!: reaches_send split: option.split sum.split prod.split dest: reaches_read)
  have h: "reaches w b (handleBeginHandoff lib w t b)" "reaches w b (handleCompleteHandoff lib w t b)" for t
    by (auto simp: handleBeginHandoff_def handleCompleteHandoff_def refl reaches_handoff_calls intro!: reaches_reply split: option.split)
  show ?thesis
    by (auto simp: HandleInfo_def refl o n h reaches_handleDispatch intro!: reaches_send split: erl.split option.split)
qed


subsection \<open>Order\<close>

definition fair_bridge :: "bridge_env \<Rightarrow> bool" where
  "fair_bridge w \<longleftrightarrow> (\<forall>i. fair_pg (be_pg w i) \<and> (\<forall>x \<in> set (be_other w i). fair_node (op_env x)))"

definition serve :: "'p bridge_lib \<Rightarrow> (bridge_env \<times> 'p erl) list \<Rightarrow> 'p bridge \<Rightarrow> 'p bridge" where
  "serve lib ms b = fold (\<lambda>(w, msg). HandleInfo lib w msg) ms b"

lemma message_op_fair: "fair_bridge w \<Longrightarrow> message_op w n x \<Longrightarrow> fair_node (op_env x)"
  by (auto simp: fair_bridge_def message_op_def own_op_def fair_node_def)

lemma own_op_handed: "own_op w n x \<Longrightarrow> op_handed x s = []"
  by (auto simp: own_op_def op_handed_def handed_out_def)

lemma op_history_append: "op_history (xs @ ys) s = op_history xs s @ op_history ys (exec_ops xs s)"
  by (induction xs arbitrary: s) simp_all

lemma quiet_history: "\<forall>x \<in> set xs. \<exists>w n. own_op w n x \<Longrightarrow> op_history xs s = []"
  by (induction xs arbitrary: s) (auto simp: own_op_handed)

definition quiet :: "bridge_env \<Rightarrow> bool" where
  "quiet w \<longleftrightarrow> (\<forall>i. be_other w i = [])"

lemma serve_ops:
  assumes "\<forall>(w, msg) \<in> set ms. fair_bridge w"
  shows "\<exists>xs. br_tables (serve lib ms b) = exec_ops xs (br_tables b) \<and> (\<forall>x \<in> set xs. fair_node (op_env x)) \<and>
    ((\<forall>(w, msg) \<in> set ms. quiet w) \<longrightarrow> op_history xs (br_tables b) = [])"
  using assms
proof (induction ms arbitrary: b)
  case Nil
  then show ?case by (auto simp: serve_def intro: exI [of _ "[]"])
next
  case (Cons m ms)
  obtain w msg where m: "m = (w, msg)" by fastforce
  let ?b = "HandleInfo lib w msg b"
  obtain xs where xs: "br_tables ?b = exec_ops xs (br_tables b)" "\<forall>x \<in> set xs. message_op w (br_proc b) x"
    using reaches_HandleInfo [of w b lib msg] by (auto simp: reaches_def)
  have w: "fair_bridge w" using Cons.prems by (simp add: m)
  obtain ys where ys: "br_tables (serve lib ms ?b) = exec_ops ys (br_tables ?b)" "\<forall>x \<in> set ys. fair_node (op_env x)"
      "(\<forall>(w, msg) \<in> set ms. quiet w) \<longrightarrow> op_history ys (br_tables ?b) = []"
    using Cons.IH [of ?b] Cons.prems by auto
  have q: "op_history xs (br_tables b) = []" if "quiet w"
  proof (rule quiet_history)
    show "\<forall>x \<in> set xs. \<exists>w n. own_op w n x" using xs(2) that by (auto simp: message_op_def quiet_def)
  qed
  have f: "\<forall>x \<in> set xs. fair_node (op_env x)" using xs(2) message_op_fair [OF w] by blast
  have "serve lib (m # ms) b = serve lib ms ?b" by (simp add: serve_def m)
  then show ?case
    using xs(1) ys q f by (intro exI [of _ "xs @ ys"]) (auto simp: exec_ops_append op_history_append m)
qed

end
