(* ===== verification/BridgeRows.thy ===== *)
theory BridgeRows
  imports BridgeCalls
begin

text \<open>
  What a message of a fleet node sends, and which rows a dispatch stores, handler by handler.
\<close>

section \<open>Answers\<close>

text \<open>Who is answered: the sender of a well-formed request.\<close>

definition reply_to :: "'p erl \<Rightarrow> 'p option" where
  "reply_to msg =
     (case msg of
        ETuple (EAtom tag # v # rest) \<Rightarrow>
          if tag = ''give_pid'' then asPid v
          else if tag = ''begin_handoff'' then
            (case rest of
               src # dst # q # _ \<Rightarrow> if asInt v \<noteq> None \<and> asString src \<noteq> None \<and> asString dst \<noteq> None then asPid q else None
             | _ \<Rightarrow> None)
          else
            (case rest of
               q # _ \<Rightarrow> if tag = ''dispatch'' \<or> tag \<in> {''owner_of'', ''complete_handoff'', ''inflight_count''} \<and> asInt v \<noteq> None
                        then asPid q else None
             | [] \<Rightarrow> None)
      | _ \<Rightarrow> None)"

definition answers :: "'p bridge \<Rightarrow> 'p bridge \<Rightarrow> 'p option \<Rightarrow> bool" where
  "answers b b' to \<longleftrightarrow> (case to of None \<Rightarrow> br_sent b' = br_sent b | Some q \<Rightarrow> \<exists>v. br_sent b' = br_sent b @ [(q, v)])"

lemma element_nth:
  assumes "one_based lib"
  shows "element lib (a1 # r1) (Suc 0) = a1" "element lib (a1 # a2 # r2) 2 = a2" "element lib (a1 # a2 # a3 # r3) 3 = a3"
    "element lib (a1 # a2 # a3 # a4 # r4) 4 = a4" "element lib (a1 # a2 # a3 # a4 # a5 # r5) 5 = a5"
  using assms by (simp_all add: one_based_def numeral_eq_Suc)

lemma sent_call: "bridge_call w i f b = (r, b') \<Longrightarrow> br_sent b' = br_sent b"
  by (auto simp: bridge_call_def Let_def split: prod.splits)

lemma sent_owned: "owned_subs w i ss fs b = (r, b') \<Longrightarrow> br_sent b' = br_sent b"
proof (induction ss arbitrary: i fs b)
  case (Cons s ss)
  obtain q b1 where q: "bridge_call w i (\<lambda>x. (OwnerRow (be_pg w i) (NodeIndex (sub_ID s) (br_partitions b) (br_partitions b)) x, x)) b = (q, b1)"
    by fastforce
  show ?case using Cons.prems Cons.IH sent_call [OF q] by (cases q) (auto simp: q)
qed simp

lemma sent_dispatch: "dispatch_owned lib w i ev ss b = (r, b') \<Longrightarrow> br_sent b' = br_sent b"
  by (auto simp: dispatch_owned_def Let_def split: prod.splits)

lemma answers_send: "br_sent b1 = br_sent b \<Longrightarrow> answers b (send q v b1) (Some q)"
  by (simp add: answers_def)

lemma answers_reply: "br_sent b1 = br_sent b \<Longrightarrow> answers b (reply_handoff lib q (r, b1)) (Some q)"
  by (simp add: reply_handoff_def answers_send split: option.split)

lemma answers_replyDispatch:
  "one_based lib \<Longrightarrow> br_sent b1 = br_sent b \<Longrightarrow> answers b (replyDispatch lib (a1 # a2 # q # rest) err b1) (asPid q)"
  by (auto simp: replyDispatch_def element_nth answers_def split: option.split)

lemma answers_none: "answers b b None"
  by (simp add: answers_def)

lemma answers_handleDispatch:
  assumes "one_based lib"
  shows "answers b (handleDispatch lib w (a # v # q # rest) b) (asPid q)"
proof -
  note r = answers_replyDispatch [OF assms]
  have run: "answers b (case owned_subs w 0 ss [] b of
      (None, b1) \<Rightarrow> replyDispatch lib (a # v # q # rest) (Some BNoOwner) b1
    | (Some [], b1) \<Rightarrow> replyDispatch lib (a # v # q # rest) None b1
    | (Some (x # xs), b1) \<Rightarrow>
        (case dispatch_owned lib w n ev (x # xs) b1 of
           (Some err, b2) \<Rightarrow> replyDispatch lib (a # v # q # rest) (Some (BFold err)) b2
         | (None, b2) \<Rightarrow> replyDispatch lib (a # v # q # rest) None b2)) (asPid q)" for ss n ev
  proof -
    obtain fs b1 where f: "owned_subs w 0 ss [] b = (fs, b1)" by fastforce
    have "br_sent b2 = br_sent b" if "dispatch_owned lib w n ev xs b1 = (err, b2)" for xs err b2
      using sent_owned [OF f] sent_dispatch [OF that] by simp
    then show ?thesis using sent_owned [OF f] by (auto simp: f intro!: r split: option.split list.split prod.split)
  qed
  show ?thesis
    by (auto simp: handleDispatch_def element_nth [OF assms] intro!: r run split: option.split sum.split)
qed

lemma answers_handlers:
  assumes "one_based lib"
  shows "answers b (handleOwnerOf lib w (a # v # q # rest) b) (if asInt v \<noteq> None then asPid q else None)"
    "answers b (handleCompleteHandoff lib w (a # v # q # rest) b) (if asInt v \<noteq> None then asPid q else None)"
    "answers b (handleInFlightCount lib w (a # v # q # rest) b) (if asInt v \<noteq> None then asPid q else None)"
    "answers b (handleBeginHandoff lib w (a # v # src # dst # q # rest) b)
       (if asInt v \<noteq> None \<and> asString src \<noteq> None \<and> asString dst \<noteq> None then asPid q else None)"
proof -
  note e = element_nth [OF assms]
  show "answers b (handleOwnerOf lib w (a # v # q # rest) b) (if asInt v \<noteq> None then asPid q else None)"
    by (auto simp: handleOwnerOf_def e answers_none intro!: answers_send split: option.split prod.split dest: sent_call)
  show "answers b (handleInFlightCount lib w (a # v # q # rest) b) (if asInt v \<noteq> None then asPid q else None)"
    by (auto simp: handleInFlightCount_def e answers_none intro!: answers_send split: option.split sum.split prod.split dest: sent_call)
  have h: "answers b (reply_handoff lib x (bridge_call w i f b)) (Some x)" for x i f
    using answers_reply [OF sent_call [of w i f b]] by (cases "bridge_call w i f b") simp
  show "answers b (handleCompleteHandoff lib w (a # v # q # rest) b) (if asInt v \<noteq> None then asPid q else None)"
    by (auto simp: handleCompleteHandoff_def e answers_none h split: option.split)
  show "answers b (handleBeginHandoff lib w (a # v # src # dst # q # rest) b)
       (if asInt v \<noteq> None \<and> asString src \<noteq> None \<and> asString dst \<noteq> None then asPid q else None)"
    by (auto simp: handleBeginHandoff_def e answers_none h split: option.split)
qed

lemma handlers_short:
  "length t < 3 \<Longrightarrow> handleDispatch lib w t b = b" "length t < 3 \<Longrightarrow> handleOwnerOf lib w t b = b"
  "length t < 3 \<Longrightarrow> handleCompleteHandoff lib w t b = b" "length t < 3 \<Longrightarrow> handleInFlightCount lib w t b = b"
  "length t < 5 \<Longrightarrow> handleBeginHandoff lib w t b = b"
  by (simp_all add: handleDispatch_def handleOwnerOf_def handleCompleteHandoff_def handleInFlightCount_def handleBeginHandoff_def)

text \<open>The dispatch on the tag: a handoff, any other tag, and what is not a tagged tuple with an argument.\<close>

lemma answers_begin_handoff:
  assumes "one_based lib"
  shows "answers b (HandleInfo lib w (ETuple (EAtom ''begin_handoff'' # v # rest)) b) (reply_to (ETuple (EAtom ''begin_handoff'' # v # rest)))"
proof (cases "\<exists>src dst q r. rest = src # dst # q # r")
  case True
  then show ?thesis
    using answers_handlers(4) [OF assms, of b w _ v] by (auto simp: HandleInfo_def reply_to_def element_nth [OF assms])
next
  case False
  then have "length rest < 3" by (cases rest; cases "tl rest"; cases "tl (tl rest)") auto
  then show ?thesis using False
    by (auto simp: HandleInfo_def reply_to_def element_nth [OF assms] handlers_short answers_none split: list.split)
qed

lemma answers_tagged:
  assumes "one_based lib" "tag \<noteq> ''begin_handoff''"
  shows "answers b (HandleInfo lib w (ETuple (EAtom tag # v # rest)) b) (reply_to (ETuple (EAtom tag # v # rest)))"
proof (cases rest)
  note e = element_nth [OF assms(1)]
  case Nil
  then show ?thesis using assms(2)
    by (auto simp: HandleInfo_def reply_to_def e handlers_short answers_none intro!: answers_send split: option.split)
next
  note e = element_nth [OF assms(1)] and h = answers_handlers(1-3) [OF assms(1)] answers_handleDispatch [OF assms(1)]
  case (Cons q r)
  consider (pid) "tag = ''give_pid''" | (dispatch) "tag = ''dispatch''" | (owner) "tag = ''owner_of''"
    | (complete) "tag = ''complete_handoff''" | (inflight) "tag = ''inflight_count''"
    | (other) "tag \<noteq> ''give_pid'' \<and> tag \<noteq> ''dispatch'' \<and> tag \<noteq> ''owner_of'' \<and> tag \<noteq> ''complete_handoff'' \<and> tag \<noteq> ''inflight_count''"
    by argo
  then show ?thesis
  proof cases
    case pid
    then show ?thesis by (cases "asPid v") (simp_all add: Cons HandleInfo_def reply_to_def e answers_none answers_send)
  next
    case other
    then show ?thesis using assms(2) by (simp add: Cons HandleInfo_def reply_to_def e answers_none)
  qed (use h [of b w "EAtom tag" v q r] in \<open>cases "asInt v"; simp add: Cons HandleInfo_def reply_to_def e\<close>)+
qed

lemma ignores_other:
  assumes "one_based lib" "\<nexists>tag v rest. msg = ETuple (EAtom tag # v # rest)"
  shows "HandleInfo lib w msg b = b"
proof (cases "\<exists>tag. msg = ETuple [EAtom tag]")
  case True
  then show ?thesis by (auto simp: HandleInfo_def element_nth [OF assms(1)] handlers_short)
next
  case single: False
  show ?thesis
  proof (cases msg)
    case (ETuple t)
    then show ?thesis
    proof (cases t)
      case (Cons a r)
      then have "\<forall>tag. a \<noteq> EAtom tag" using assms(2) single ETuple by (cases r) auto
      then show ?thesis by (simp add: HandleInfo_def ETuple Cons element_nth [OF assms(1)] split: erl.split)
    qed (simp add: HandleInfo_def)
  qed (simp_all add: HandleInfo_def)
qed

section \<open>What a dispatch stores\<close>

lemma set_drop_rows: "set (deliveries (drop_rows x reason ds t)) \<subseteq> set (deliveries t)"
proof (induction ds arbitrary: t)
  case (Cons d ds)
  have "set (deliveries (dropRetainedTx x (ID d) (Sequence d) reason t)) \<subseteq> set (deliveries t)"
    by (auto simp: dropRetainedTx_def Let_def AList.delete_eq)
  then show ?case using Cons.IH by fastforce
qed simp

lemma set_retention: "set (deliveries (fold (\<lambda>x. applyRetentionTx p x t0) xs t)) \<subseteq> set (deliveries t)"
proof (induction xs arbitrary: t)
  case (Cons x xs)
  have "set (deliveries (applyRetentionTx p x t0 t)) \<subseteq> set (deliveries t)"
    unfolding applyRetentionTx_def Let_def by (rule subset_trans [OF set_drop_rows set_drop_rows])
  then show ?case using Cons.IH [of "applyRetentionTx p x t0 t"] by simp
qed simp

definition row_from :: "delivery \<Rightarrow> string \<Rightarrow> delivery \<Rightarrow> bool" where
  "row_from r k d \<longleftrightarrow> k = ID r \<and> SubscriberID d = SubscriberID r \<and> PartitionNo d = PartitionNo r \<and> EventID d = EventID r \<and>
     URL d = URL r \<and> Status d \<in> {StatusPending, StatusRetained}"

lemma enqueue_loop_rows:
  "pg_enqueue_loop skip t0 ds t touched = Inr (t', touched') \<Longrightarrow> (k, d) \<in> set (deliveries t') \<Longrightarrow>
   (k, d) \<in> set (deliveries t) \<or> (\<exists>r \<in> set ds. row_from r k d)"
  by (induction ds arbitrary: t touched) (fastforce simp: Let_def row_from_def pg_stored_row_def split: if_splits)+

lemma pg_Enqueue_rows:
  assumes "(k, d) \<in> set (deliveries (db (snd (pg_Enqueue e ds s))))"
  shows "(k, d) \<in> set (deliveries (db s)) \<or> (\<exists>r \<in> set ds. row_from r k d)"
proof (cases "pe_ctx e = None \<and> ds \<noteq> [] \<and> pe_fault e SMain = None")
  case True
  show ?thesis
  proof (cases "pg_enqueue_loop (pg_SkipSuspendGate (proc s)) (pe_clock e) ds (db s) []")
    case (Inl err)
    then show ?thesis using assms True by (simp add: pg_Enqueue_def)
  next
    case (Inr tt)
    then obtain t touched where tt: "tt = (t, touched)" by fastforce
    have "(k, d) \<in> set (deliveries t)"
      using assms True set_retention [of "proc s" "pe_clock e" "pe_touched e touched" t] by (auto simp: pg_Enqueue_def Inr tt)
    then show ?thesis using enqueue_loop_rows [OF Inr [unfolded tt]] by blast
  qed
next
  case False
  then show ?thesis using assms by (auto simp: pg_Enqueue_def split: option.splits if_splits)
qed

text \<open>The tables before the \<open>j\<close>-th call of a message, when the calls before it only read.\<close>

definition found :: "bridge_env \<Rightarrow> nat \<Rightarrow> cluster \<Rightarrow> cluster" where
  "found w j s = exec_ops (concat (map (be_other w) [0..<Suc j])) s"

definition owned_at :: "bridge_env \<Rightarrow> nat \<Rightarrow> 'p bridge \<Rightarrow> int \<Rightarrow> bool" where
  "owned_at w j b p \<longleftrightarrow> map_option owner_node (owner_of_partition (cl_db (found w j (br_tables b))) p) = Some (br_nodeID b)"

text \<open>The state after \<open>i\<close> reading calls.\<close>

definition after_reads :: "bridge_env \<Rightarrow> nat \<Rightarrow> 'p bridge \<Rightarrow> 'p bridge" where
  "after_reads w i b = b\<lparr>br_dispatcher := (br_dispatcher b)\<lparr>d_store := exec_ops (concat (map (be_other w) [0..<i])) (br_tables b)\<rparr>\<rparr>"

lemma after_reads_0: "after_reads w 0 b = b"
  by (simp add: after_reads_def)

lemma others_after: "others w i (after_reads w i b) = after_reads w (Suc i) b"
  by (simp add: others_def after_reads_def exec_ops_append)

lemma after_reads_simps [simp]:
  "br_nodeID (after_reads w i b) = br_nodeID b" "br_partitions (after_reads w i b) = br_partitions b"
  "br_proc (after_reads w i b) = br_proc b" "d_own (br_dispatcher (after_reads w i b)) = d_own (br_dispatcher b)"
  "br_tables (after_reads w (Suc i) b) = found w i (br_tables b)"
  by (simp_all add: after_reads_def found_def)

lemma owned_subs_result:
  assumes "owned_subs w i ss fs (after_reads w i b) = (r, b')"
  shows "(\<exists>j. i \<le> j \<and> j < i + length ss \<and> r = None \<and> b' = after_reads w (Suc j) b) \<or>
    b' = after_reads w (i + length ss) b \<and> (\<exists>gs. r = Some (fs @ gs) \<and>
      (\<forall>s \<in> set gs. \<exists>j < length ss. ss ! j = s \<and> owned_at w (i + j) b (NodeIndex (sub_ID s) (br_partitions b) (br_partitions b))))"
  using assms
proof (induction ss arbitrary: i fs)
  case Nil
  then show ?case by simp
next
  case (Cons s ss)
  let ?p = "NodeIndex (sub_ID s) (br_partitions b) (br_partitions b)"
  obtain q b1 where q: "bridge_call w i (\<lambda>x. (OwnerRow (be_pg w i) ?p x, x)) (after_reads w i b) = (q, b1)" by fastforce
  have b1: "b1 = after_reads w (Suc i) b" using read_call(2) [OF q] by (simp add: others_after)
  show ?case
  proof (cases q)
    case None
    then show ?thesis using Cons.prems by (intro disjI1 exI [of _ i]) (simp add: q b1)
  next
    case (Some po)
    obtain node rest where po: "po = (node, rest)" by (metis surj_pair)
    have at: "owned_at w i b ?p" if "node = br_nodeID b"
    proof -
      let ?t = "found w i (br_tables b)"
      have "OwnerRow (be_pg w i) ?p (at_node (br_proc b) ?t) = Some (br_nodeID b, rest)"
        using read_call(1) [OF q] that by (simp add: Some po found_def after_reads_def exec_ops_append)
      then show ?thesis
        by (cases "owner_of_partition (cl_db ?t) ?p") (auto simp: OwnerRow_def owned_at_def split: if_splits)
    qed
    have l: "owned_subs w (Suc i) ss (if node = br_nodeID b then fs @ [s] else fs) (after_reads w (Suc i) b) = (r, b')"
      using Cons.prems by (simp add: q Some po b1)
    have shift: "\<exists>j' < length (s # ss). (s # ss) ! j' = x \<and> owned_at w (i + j') b (NodeIndex (sub_ID x) (br_partitions b) (br_partitions b))"
      if "j < length ss" "ss ! j = x" "owned_at w (Suc i + j) b (NodeIndex (sub_ID x) (br_partitions b) (br_partitions b))" for j x
      using that by (intro exI [of _ "Suc j"]) simp
    have zero: "\<exists>j' < length (s # ss). (s # ss) ! j' = s \<and> owned_at w (i + j') b ?p" if "node = br_nodeID b"
      using at [OF that] by (intro exI [of _ 0]) simp
    from Cons.IH [OF l] show ?thesis
    proof (elim disjE)
      assume "\<exists>j. Suc i \<le> j \<and> j < Suc i + length ss \<and> r = None \<and> b' = after_reads w (Suc j) b"
      then obtain j where "Suc i \<le> j" "j < Suc i + length ss" "r = None" "b' = after_reads w (Suc j) b" by blast
      then show ?thesis by (intro disjI1 exI [of _ j]) simp
    next
      assume "b' = after_reads w (Suc i + length ss) b \<and> (\<exists>gs. r = Some ((if node = br_nodeID b then fs @ [s] else fs) @ gs) \<and>
        (\<forall>x \<in> set gs. \<exists>j < length ss. ss ! j = x \<and> owned_at w (Suc i + j) b (NodeIndex (sub_ID x) (br_partitions b) (br_partitions b))))"
      then obtain gs where gs: "b' = after_reads w (i + length (s # ss)) b" "r = Some ((if node = br_nodeID b then fs @ [s] else fs) @ gs)"
        "\<forall>x \<in> set gs. \<exists>j < length ss. ss ! j = x \<and> owned_at w (Suc i + j) b (NodeIndex (sub_ID x) (br_partitions b) (br_partitions b))"
        by auto
      have gs': "\<forall>x \<in> set gs. \<exists>j' < length (s # ss). (s # ss) ! j' = x \<and> owned_at w (i + j') b (NodeIndex (sub_ID x) (br_partitions b) (br_partitions b))"
        using gs(3) shift by blast
      show ?thesis
        using gs(1,2) gs' zero by (intro disjI2 conjI exI [of _ "if node = br_nodeID b then s # gs else gs"]) auto
    qed
  qed
qed

lemma wire_subs_nth:
  "j < length (w_Subscribers x) \<Longrightarrow> w_Subscribers x ! j = (sub_ID (wire_subs x ! j), sub_URL (wire_subs x ! j))"
  by (cases "w_Subscribers x ! j") (simp add: wire_subs_def)

lemma dispatch_rows:
  assumes "dispatch_owned lib w i ev ss (after_reads w i b) = (err, b')" "(k, d) \<in> set (deliveries (cl_db (br_tables b')))"
  shows "(k, d) \<in> set (deliveries (cl_db (found w i (br_tables b)))) \<or>
    (\<exists>s \<in> set ss. SubscriberID d = sub_ID s \<and> URL d = sub_URL s \<and> EventID d = ev_ID ev \<and>
       PartitionNo d = hash_Partition (sub_ID s) (partitions (d_own (br_dispatcher b))) \<and> Status d \<in> {StatusPending, StatusRetained})"
proof -
  let ?b = "after_reads w (Suc i) b" and ?e = "(br_proc b, be_pg w i)"
  obtain r d' where d': "Dispatch cluster_store (marshal_event lib) ?e (be_ctx w) (be_rnds w) (be_nows w) ev ss (br_dispatcher ?b) = (r, d')"
    by fastforce
  have b': "br_tables b' = d_store d'" using assms(1) by (auto simp: dispatch_owned_def Let_def others_after d')
  from Dispatch_stores [OF d'] show ?thesis
  proof (elim disjE exE conjE)
    assume "d_store d' = br_tables ?b"
    then show ?thesis using assms(2) by (simp add: b')
  next
    fix payload rs
    assume st: "d_store d' = snd (op_Enqueue cluster_store ?e rs (br_tables ?b))"
      and rs: "list_all2 (row_for ev payload (partitions (d_own (br_dispatcher ?b)))) ss rs"
    have "(k, d) \<in> set (deliveries (db (snd (pg_Enqueue (be_pg w i) rs (at_node (br_proc b) (br_tables ?b))))))"
      using assms(2) by (simp add: b' st cluster_store_def)
    from pg_Enqueue_rows [OF this] show ?thesis
    proof
      assume "\<exists>r \<in> set rs. row_from r k d"
      then obtain j where j: "j < length rs" "row_from (rs ! j) k d" by (auto simp: in_set_conv_nth)
      then have "row_for ev payload (partitions (d_own (br_dispatcher b))) (ss ! j) (rs ! j)" "ss ! j \<in> set ss"
        using rs by (auto simp: list_all2_conv_all_nth)
      then show ?thesis using j(2) by (intro disjI2 bexI [of _ "ss ! j"]) (simp_all add: row_for_def row_from_def)
    qed simp
  qed
qed

lemma NodeIndex_self:
  assumes "0 < n" "n \<le> max_int64"
  shows "NodeIndex x n n = hash_Partition x n"
  using hash_Partition_range [OF assms(2), of x] assms(1) by (simp add: NodeIndex_def)

end
