(* ===== verification/BridgeProps.thy ===== *)
theory BridgeProps
  imports BridgeRows
begin

text \<open>
  The properties of a fleet node: its messages refine the abstract store, which requests it answers, what a
  dispatch stores, and when a node starts.
\<close>

section \<open>Messages\<close>

text \<open>
  Serving messages implements the abstract ordering store: whatever messages a node of the fleet
  is sent, well formed or not, and whatever the other processes of the cluster do to the tables in
  between its calls, the tables go through a run of abstract steps, stay well formed, and what is handed
  out on the way keeps the order of every subscriber. The messages themselves hand out nothing.
\<close>

theorem bridge_refines_abstract:
  assumes "cluster_inv (br_tables b)" "\<forall>(w, msg) \<in> set ms. fair_bridge w"
  shows "cluster_inv (br_tables (serve lib ms b)) \<and>
    (\<exists>ls. asteps (pg_view (cl_db (br_tables b))) ls (pg_view (cl_db (br_tables (serve lib ms b)))) \<and>
       per_subscriber_order (claims ls) \<and> ((\<forall>(w, msg) \<in> set ms. quiet w) \<longrightarrow> claims ls = []))"
proof -
  obtain xs where xs: "br_tables (serve lib ms b) = exec_ops xs (br_tables b)" "\<forall>x \<in> set xs. fair_node (op_env x)"
      "(\<forall>(w, msg) \<in> set ms. quiet w) \<longrightarrow> op_history xs (br_tables b) = []"
    using serve_ops [OF assms(2)] by blast
  show ?thesis
    using ops_steps [OF assms(1) xs(2)] op_history_ordered [OF assms(1) xs(2)] xs(1,3) by fastforce
qed

text \<open>
  Claim C40. The node answers exactly the well-formed requests, each with one message to its sender:
  asking for its process identifier, dispatching, asking for an owner or the number of rows in flight, and
  the two steps of a handoff. Any other message, one that is no tuple, is too short, has an unknown tag
  or arguments of the wrong type, is answered by nothing.
\<close>

theorem bridge_answers_requests:
  assumes "one_based lib"
  shows "answers b (HandleInfo lib w msg b) (reply_to msg)"
proof (cases "\<exists>tag v rest. msg = ETuple (EAtom tag # v # rest)")
  case True
  then show ?thesis using answers_begin_handoff [OF assms] answers_tagged [OF assms] by metis
next
  case False
  then have "reply_to msg = None" by (auto simp: reply_to_def split: erl.split list.split)
  then show ?thesis using ignores_other [OF assms False] by (simp add: answers_none)
qed

text \<open>
  Claim C21. A node stores only what it owns: every row that appears in the tables while a node serves a
  dispatch, and that was in none of the states the message found them in, is a row for the event and one
  of the subscribers of the message, pending or retained, stored in the partition of the subscriber; and
  that partition belonged to the node when the message looked it up. So a dispatch sent to the wrong
  node, or to every node, stores the rows of a subscriber at its owner only, as long as ownership does
  not move.
\<close>

theorem bridge_stores_owned:
  assumes "one_based lib" "t = EAtom ''dispatch'' # v # q # rest" "asBytes v = Some raw" "unmarshal lib raw = Inr x"
    and "0 < br_partitions b" "br_partitions b \<le> max_int64" "partitions (d_own (br_dispatcher b)) = br_partitions b"
    and new: "(k, d) \<in> set (deliveries (cl_db (br_tables (HandleInfo lib w (ETuple t) b))))"
      "(k, d) \<notin> set (deliveries (cl_db (br_tables b)))"
      "\<forall>j \<le> length (w_Subscribers x). (k, d) \<notin> set (deliveries (cl_db (found w j (br_tables b))))"
  shows "EventID d = w_ID x \<and> Status d \<in> {StatusPending, StatusRetained} \<and>
    PartitionNo d = hash_Partition (SubscriberID d) (br_partitions b) \<and>
    (\<exists>j < length (w_Subscribers x). w_Subscribers x ! j = (SubscriberID d, URL d) \<and> owned_at w j b (PartitionNo d))"
proof -
  let ?ss = "wire_subs x"
  have len: "length ?ss = length (w_Subscribers x)" by (simp add: wire_subs_def)
  obtain r b1 where o: "owned_subs w 0 ?ss [] b = (r, b1)" by fastforce
  have H: "HandleInfo lib w (ETuple t) b = handleDispatch lib w t b"
    using assms(1) by (simp add: HandleInfo_def assms(2) element_nth)
  have D: "br_tables (handleDispatch lib w t b) = (case r of
      Some (s # ss) \<Rightarrow> br_tables (snd (dispatch_owned lib w (length ?ss) (wire_event x) (s # ss) b1)) | _ \<Rightarrow> br_tables b1)"
    using assms(1-4)
    by (auto simp: handleDispatch_def element_nth o replyDispatch_def split: option.split list.split prod.split)
  have no: "(k, d) \<notin> set (deliveries (cl_db (br_tables (after_reads w j b))))" if "j \<le> Suc (length ?ss)" for j
    using new(2,3) that len by (cases j) (simp_all add: after_reads_0)
  have at: "(k, d) \<in> set (deliveries (cl_db (br_tables (handleDispatch lib w t b))))" using new(1) by (simp add: H)
  from owned_subs_result [of w 0 ?ss "[]" b r b1] o
  consider (failed) j where "j < length ?ss" "r = None" "b1 = after_reads w (Suc j) b"
    | (kept) gs where "b1 = after_reads w (length ?ss) b" "r = Some gs"
      "\<forall>s \<in> set gs. \<exists>j < length ?ss. ?ss ! j = s \<and> owned_at w j b (NodeIndex (sub_ID s) (br_partitions b) (br_partitions b))"
    by (auto simp: after_reads_0)
  then show ?thesis
  proof cases
    case failed
    then show ?thesis using at no [of "Suc j"] by (simp add: D)
  next
    case kept
    show ?thesis
    proof (cases gs)
      case Nil
      then show ?thesis using at no [of "length ?ss"] kept(1,2) by (simp add: D)
    next
      case (Cons s ss)
      obtain err b2 where d: "dispatch_owned lib w (length ?ss) (wire_event x) gs (after_reads w (length ?ss) b) = (err, b2)" by fastforce
      have "(k, d) \<in> set (deliveries (cl_db (br_tables b2)))" using at kept(1,2) d Cons by (simp add: D)
      from dispatch_rows [OF d this] obtain s where s: "s \<in> set gs" "SubscriberID d = sub_ID s" "URL d = sub_URL s" "EventID d = w_ID x"
          "PartitionNo d = hash_Partition (sub_ID s) (br_partitions b)" "Status d \<in> {StatusPending, StatusRetained}"
        using no [of "Suc (length ?ss)"] assms(7) by (auto simp: wire_event_def)
      then obtain j where "j < length ?ss" "?ss ! j = s" "owned_at w j b (PartitionNo d)"
        using kept(3) NodeIndex_self [OF assms(5,6)] by auto
      then have "j < length (w_Subscribers x)" "w_Subscribers x ! j = (SubscriberID d, URL d)" "owned_at w j b (PartitionNo d)"
        using s(2,3) wire_subs_nth [of j x] by (auto simp: len)
      then show ?thesis using s by auto
    qed
  qed
qed

section \<open>Starting the fleet\<close>

text \<open>No row of the owner table contradicts the initial assignment; every partition has the node it names.\<close>

definition assignable :: "int \<Rightarrow> int \<Rightarrow> cluster \<Rightarrow> bool" where
  "assignable nodes nparts s \<longleftrightarrow> (\<forall>p po. 0 \<le> p \<and> p < effective_partitions nparts \<and> owner_of_partition (cl_db s) p = Some po \<longrightarrow>
     owner_node po = LogicalNodeID (p mod nodes))"

definition assigned :: "int \<Rightarrow> int \<Rightarrow> cluster \<Rightarrow> bool" where
  "assigned nodes nparts s \<longleftrightarrow> (\<forall>p. 0 \<le> p \<and> p < effective_partitions nparts \<longrightarrow>
     map_option owner_node (owner_of_partition (cl_db s) p) = Some (LogicalNodeID (p mod nodes)))"

lemma effective_partitions_pos: "0 < effective_partitions n"
  by (simp add: effective_partitions_def DefaultPartitions_def)

lemma agrees_assignable:
  assumes "0 < nodes" "distinct (map fst (partition_owners (cl_db s)))"
  shows "agrees (OwnerAssignmentsForNodes nparts nodes) (partition_owners (cl_db s)) \<longleftrightarrow> assignable nodes nparts s"
proof -
  have e: "(p, po) \<in> set (partition_owners (cl_db s)) \<longleftrightarrow> owner_of_partition (cl_db s) p = Some po" for p po
    using assms(2) by (simp add: owner_of_partition_def)
  have l: "int (length (OwnerAssignmentsForNodes nparts nodes)) = effective_partitions nparts"
    using effective_partitions_pos [of nparts] by (simp add: length_OwnerAssignmentsForNodes assms(1))
  show ?thesis
    by (auto simp: agrees_def assignable_def e l OwnerAssignmentsForNodes_nth assms(1))
qed

lemma assigned_Ensure:
  assumes "0 < nodes" "assignable nodes nparts s"
  shows "assigned nodes nparts (s\<lparr>cl_db := (cl_db s)\<lparr>partition_owners :=
     insert_missing 0 (OwnerAssignmentsForNodes nparts nodes) (partition_owners (cl_db s))\<rparr>\<rparr>)"
  using assms effective_partitions_pos [of nparts]
  by (auto simp: assigned_def assignable_def owner_of_partition_def insert_missing_lookup length_OwnerAssignmentsForNodes
      OwnerAssignmentsForNodes_nth new_owner_def split: option.split)

lemma assigned_cong: "partition_owners (cl_db s') = partition_owners (cl_db s) \<Longrightarrow> assigned nodes nparts s' = assigned nodes nparts s"
  by (simp add: assigned_def owner_of_partition_def)

lemma node_New:
  assumes "HasDistributedOwnership (at_node n s)" "0 < nodes"
  obtains d where "New (cluster_kind n) (node_config idx nodes nparts ws s) rnd now = Inr d" "d_store d = s"
    "partitions (d_own d) = effective_partitions nparts"
proof -
  let ?inc = "newIncarnationID rnd now" and ?claim = "Some (PartitionsForNode nparts nodes idx)"
  let ?np = "if nparts \<le> 0 then DefaultPartitions else nparts" and ?ws = "if ws \<le> 0 then 1 else ws"
  have np: "effective_partitions ?np = effective_partitions nparts" by (simp add: effective_partitions_def DefaultPartitions_def)
  have "claim_ok ?np ?claim"
    unfolding claim_ok_def np using in_PartitionsForNode [OF assms(2), of _ nparts idx]
    by (auto simp: PartitionsForNode_def Let_def)
  then obtain o1 where o1: "buildOwnership ?ws ?np False ?claim (LogicalNodeID idx) ?inc = Inr o1"
    using buildOwnership_succeeds by fastforce
  have "\<exists>d. New (cluster_kind n) (node_config idx nodes nparts ws s) rnd now = Inr d \<and> d_store d = s \<and> d_own d = o1"
    using o1 assms(1) LogicalNodeID_no_slash [of idx]
    by (cases "ws \<le> 0"; cases "nparts \<le> 0") (simp_all add: New_def node_config_def cluster_kind_def Let_def)
  then show thesis using that buildOwnershipD(4) [OF o1] np by metis
qed

lemma node_Start:
  assumes "pe_ctx e = None" "\<forall>st. pe_fault e st = None" "New kind cfg rnd now = Inr d"
  obtains d' where "Start cluster_store (n, e) d = (None, d')" "d_own d' = d_own d" "d_started d'"
    "partition_owners (cl_db (d_store d')) = partition_owners (cl_db (d_store d))"
proof -
  note N = New_Inr(3,4) [OF assms(3)]
  obtain r st where r: "(if effectiveStaleAge d > 0 then op_RecoverStale cluster_store (n, e) (effectiveStaleAge d) (d_store d)
      else (Inr 0, d_store d)) = (r, st)" by fastforce
  have "partition_owners (db (snd (pg_RecoverStale e a s))) = partition_owners (db s)" for a s
    using call_owners [of "RecoverStale_call e a" s] by simp
  then have "\<exists>k. r = Inr k" "partition_owners (cl_db st) = partition_owners (cl_db (d_store d))"
    using r assms(1,2) by (auto simp: cluster_store_def on_node_def pg_RecoverStale_def Let_def split: if_splits prod.splits)
  then show thesis using that N r by (auto simp: Start_def Let_def)
qed

text \<open>
  Claim C22. A node of the fleet comes up exactly when the owner table does not contradict the initial
  assignment. On a database that answers, with an index within the fleet: if every partition that has an
  owner row has the owner the assignment names (in particular on an empty table, and after any other node
  of the same fleet has started), the node starts, its dispatcher is running with the fleet's number of
  partitions, and every partition has the owner the assignment names. If a single partition has been
  handed over, the node gives up on the owner table before it claims anything, and changes nothing; so
  after a handoff no node of the fleet can be restarted.
\<close>

theorem bridge_starts:
  assumes "0 \<le> idx" "idx < nodes" "owner_table_ok (cl_db s)" "\<forall>i. pe_ctx (e i) = None \<and> (\<forall>st. pe_fault (e i) st = None)"
    and run: "bridge_main idx nodes nparts ws e rnd now self n s = (r, s')"
  shows "(assignable nodes nparts s \<longrightarrow> assigned nodes nparts s' \<and> owner_table_ok (cl_db s') \<and>
      (\<exists>b. r = Inr b \<and> br_tables b = s' \<and> d_started (br_dispatcher b) \<and> br_nodeID b = LogicalNodeID idx \<and>
         partitions (d_own (br_dispatcher b)) = effective_partitions nparts)) \<and>
    (\<not> assignable nodes nparts s \<longrightarrow> (\<exists>err. r = Inl (SOwners err)) \<and> s' = s)"
proof -
  let ?ns = "OwnerAssignmentsForNodes nparts nodes" and ?s = "at_node n s"
  have pos: "0 < nodes" "\<not> nodes < 1" "\<not> idx < 0" "\<not> nodes \<le> idx" using assms(1,2) by linarith+
  have e: "pe_ctx (e 0) = None" "pe_fault (e 0) SMain = None" "pe_ctx (e 1) = None" "\<forall>st. pe_fault (e 1) st = None"
    using assms(4) by simp_all
  have names: "?ns \<noteq> [] \<and> (\<forall>x \<in> set ?ns. x \<noteq> [] \<and> \<not> has_slash x)"
    using effective_partitions_pos [of nparts] LogicalNodeID_no_slash pos(1)
    by (auto simp: OwnerAssignmentsForNodes_def Let_def has_slash_def)
  have dist: "distinct (map fst (partition_owners (cl_db s)))" using assms(3) by (simp add: owner_table_ok_def)
  have ok: "fst (EnsureOwnerAssignments (e 0) ?ns ?s) = None \<longleftrightarrow> assignable nodes nparts s"
    using Ensure_success(1) [OF e(1,2), of ?ns ?s] names agrees_assignable [OF pos(1) dist] by simp
  obtain err s1 where s1: "on_node n (EnsureOwnerAssignments (e 0) ?ns) s = (err, s1)" by fastforce
  have E: "err = fst (EnsureOwnerAssignments (e 0) ?ns ?s)" "s1 = put_node n (snd (EnsureOwnerAssignments (e 0) ?ns ?s)) s"
    using s1 by (auto simp: on_node_def split: prod.splits)
  show ?thesis
  proof (cases err)
    case (Some er)
    have "s1 = s" using Ensure_success(2) [OF e(1,2), of ?ns ?s] Some by (simp add: E)
    then show ?thesis using run ok pos Some E(1) s1 by (auto simp: bridge_main_def)
  next
    case None
    have db: "snd (EnsureOwnerAssignments (e 0) ?ns ?s) = SetDistributedOwnership True
        (?s\<lparr>db := (db ?s)\<lparr>partition_owners := insert_missing 0 ?ns (partition_owners (db ?s))\<rparr>\<rparr>)"
      using Ensure_success(2) [OF e(1,2), of ?ns ?s] None E(1) by simp
    have own: "HasDistributedOwnership (at_node n s1)" by (simp add: E(2) db HasDistributedOwnership_def SetDistributedOwnership_def)
    have yes: "assignable nodes nparts s" using ok None E(1) by simp
    have a1: "assigned nodes nparts s1"
      using assigned_Ensure [OF pos(1) yes] by (simp add: E(2) db SetDistributedOwnership_def assigned_def)
    have t1: "owner_table_ok (cl_db s1)" using Ensure_owner_table [of ?s "e 0" ?ns] assms(3) by (simp add: E(2))
    obtain d where d: "New (cluster_kind n) (node_config idx nodes nparts ws s1) rnd now = Inr d" "d_store d = s1"
        "partitions (d_own d) = effective_partitions nparts"
      by (rule node_New [OF own pos(1)])
    obtain d' where d': "Start cluster_store (n, e 1) d = (None, d')" "d_own d' = d_own d" "d_started d'"
        "partition_owners (cl_db (d_store d')) = partition_owners (cl_db (d_store d))"
      by (rule node_Start [OF e(3,4) d(1)])
    have "assigned nodes nparts (d_store d')" using a1 assigned_cong [OF d'(4)] d(2) by simp
    moreover have "owner_table_ok (cl_db (d_store d'))" using t1 d'(4) d(2) by (simp add: owner_table_ok_def)
    ultimately show ?thesis using run yes pos None s1 d d' by (auto simp: bridge_main_def)
  qed
qed

definition sample_pg :: "nat \<Rightarrow> pgenv" where
  "sample_pg i = pg_live (3000 + 1000 * int i)"

lemma sample_pg_quiet: "\<forall>i. pe_ctx (sample_pg i) = None \<and> (\<forall>st. pe_fault (sample_pg i) st = None)"
  by (simp add: sample_pg_def)

theorem bridge_starts_witness:
  "\<exists>b s1 b' s2. bridge_main 0 2 4 1 sample_pg (Some ''r'') 0 (7::nat) 0 cluster_empty = (Inr b, s1) \<and>
     bridge_main 1 2 4 1 sample_pg (Some ''q'') 0 (8::nat) 1 s1 = (Inr b', s2) \<and> assigned 2 4 s2"
proof -
  have 0: "owner_table_ok (cl_db cluster_empty)" "assignable 2 4 cluster_empty"
    by (simp_all add: cluster_empty_def fresh_cluster_def pg_empty_def owner_table_ok_def assignable_def owner_of_partition_def)
  obtain r s1 where 1: "bridge_main 0 2 4 1 sample_pg (Some ''r'') 0 (7::nat) 0 cluster_empty = (r, s1)" by fastforce
  have s1: "\<exists>b. r = Inr b" "assigned 2 4 s1" "owner_table_ok (cl_db s1)"
    using bridge_starts [OF _ _ 0(1) sample_pg_quiet 1] 0(2) by auto
  then have a1: "assignable 2 4 s1" by (auto simp: assigned_def assignable_def)
  obtain r' s2 where 2: "bridge_main 1 2 4 1 sample_pg (Some ''q'') 0 (8::nat) 1 s1 = (r', s2)" by fastforce
  have "\<exists>b. r' = Inr b" "assigned 2 4 s2" using bridge_starts [OF _ _ s1(3) sample_pg_quiet 2] a1 by auto
  then show ?thesis using 1 2 s1(1) by auto
qed

section \<open>A concrete node\<close>

text \<open>Node \<open>a\<close> of a cluster in which it owns both partitions, and a library for its messages.\<close>

definition sample_bridge :: "nat bridge" where
  "sample_bridge = \<lparr>br_dispatcher = sy_d (do_start cluster_store (0, pg_live 2000) (sys_init sample_node_d)), br_proc = 0,
     br_nodeID = ''a'', br_nodeIndex = 0, br_nodeCount = 1, br_partitions = 2, br_self = 7, br_record = [], br_sent = []\<rparr>"

definition sample_lib :: "nat bridge_lib" where
  "sample_lib = \<lparr>element = (\<lambda>t i. t ! (i - 1)), type_name = (\<lambda>_. ''x''),
     unmarshal = (\<lambda>raw. Inr \<lparr>w_ID = raw, w_Type = ''t'', w_Data = None, w_Subscribers = [(''a'', ''u''), (''b'', ''u'')]\<rparr>),
     marshal_event = sample_marshal, text_of = (\<lambda>_. ''error'')\<rparr>"

definition sample_surroundings :: bridge_env where
  "sample_surroundings = \<lparr>be_pg = sample_pg, be_other = (\<lambda>_. []), be_ctx = None,
     be_rnds = (\<lambda>i. Some [char_of (65 + i)]), be_nows = (\<lambda>_. 2)\<rparr>"

definition sample_dispatch :: "nat erl" where
  "sample_dispatch = ETuple [EAtom ''dispatch'', EBinary ''e1'', EPid 9]"

lemma sample_one_based: "one_based sample_lib"
  by (simp add: one_based_def sample_lib_def)

lemma sample_bridge_inv: "cluster_inv (br_tables sample_bridge)"
proof -
  have o: "cluster_inv sample_owned"
    unfolding sample_owned_def by (rule conjunct1 [OF ops_steps [OF cluster_empty_inv]]) simp
  have run: "(sys_step cluster_store fair_node sample_marshal True)\<^sup>*\<^sup>* (sys_init sample_node_d)
      (do_start cluster_store (0, pg_live 2000) (sys_init sample_node_d))"
    by (simp add: run_start)
  have "cfg_Store sample_node_config = Some sample_owned" by (simp add: sample_node_config_def)
  note i = cluster_sys_inv [OF New_sample_node this o]
  show ?thesis
    using cluster_fenced.run_explained [OF run i] by (simp add: explained_def sys_inv_def sample_bridge_def)
qed

theorem bridge_refines_abstract_witness:
  "\<exists>ls. asteps (pg_view (cl_db (br_tables sample_bridge))) ls
      (pg_view (cl_db (br_tables (serve sample_lib [(sample_surroundings, sample_dispatch)] sample_bridge)))) \<and> claims ls = []"
proof -
  have "\<forall>(w, msg) \<in> set [(sample_surroundings, sample_dispatch)]. fair_bridge w"
    by (simp add: fair_bridge_def sample_surroundings_def sample_pg_def fair_pg_def pg_live_def)
  from bridge_refines_abstract [OF sample_bridge_inv this] show ?thesis
    by (auto simp: quiet_def sample_surroundings_def)
qed

theorem bridge_answers_requests_witness:
  "answers sample_bridge (HandleInfo sample_lib sample_surroundings sample_dispatch sample_bridge) (Some 9)"
  using bridge_answers_requests [OF sample_one_based, of sample_bridge sample_surroundings sample_dispatch]
  by (simp add: sample_dispatch_def reply_to_def asPid_def)

lemma sample_stored:
  "map (\<lambda>(k, d). (SubscriberID d, PartitionNo d)) (deliveries (cl_db (br_tables sample_bridge))) = []"
  "map (\<lambda>(k, d). (SubscriberID d, PartitionNo d))
     (deliveries (cl_db (br_tables (HandleInfo sample_lib sample_surroundings sample_dispatch sample_bridge)))) = [(''a'', 0), (''b'', 1)]"
  by code_simp+

theorem bridge_stores_owned_witness:
  "\<exists>k d. (k, d) \<in> set (deliveries (cl_db (br_tables (HandleInfo sample_lib sample_surroundings sample_dispatch sample_bridge)))) \<and>
     EventID d = ''e1'' \<and> PartitionNo d = hash_Partition (SubscriberID d) 2"
proof -
  let ?T = "deliveries (cl_db (br_tables (HandleInfo sample_lib sample_surroundings sample_dispatch sample_bridge)))"
  obtain k d where kd: "(k, d) \<in> set ?T" using sample_stored(2) by (cases ?T) auto
  have none: "deliveries (cl_db (br_tables sample_bridge)) = []" using sample_stored(1) by simp
  have found: "found sample_surroundings j s = s" for j s
    by (induction j) (simp_all add: found_def sample_surroundings_def)
  have own: "partitions (d_own (br_dispatcher sample_bridge)) = br_partitions sample_bridge" by code_simp
  let ?x = "\<lparr>w_ID = ''e1'', w_Type = ''t'', w_Data = None, w_Subscribers = [(''a'', ''u''), (''b'', ''u'')]\<rparr>"
  have u: "unmarshal sample_lib ''e1'' = Inr ?x" by (simp add: sample_lib_def)
  have n: "0 < br_partitions sample_bridge" "br_partitions sample_bridge \<le> max_int64" "br_partitions sample_bridge = 2"
    by (simp_all add: sample_bridge_def max_int64_def)
  have v: "asBytes (EBinary ''e1'') = Some ''e1''" by (simp add: asBytes_def)
  from bridge_stores_owned [OF sample_one_based refl v u n(1,2) own, of k d sample_surroundings "EPid 9" "[]"] show ?thesis
    using kd none found n(3) by (auto simp: sample_dispatch_def)
qed

text \<open>
  A node started with \<^verbatim>\<open>-partitions 0\<close> hashes for 256 partitions, but looks every subscriber up under
  partition 0, so the owner it asks about is not the owner of the partition it would store the row in.
\<close>

lemma default_partitions_misrouted:
  "NodeIndex ''a'' 0 0 = 0 \<and> hash_Partition ''a'' (effective_partitions 0) = 140"
  by code_simp

text \<open>
  A dispatch that reaches a node after the partitions of all its subscribers have moved away is answered by
  \<^verbatim>\<open>dispatch_ok\<close>, and nothing is stored anywhere.
\<close>

lemma misrouted_dispatch_acknowledged:
  "br_sent (HandleInfo sample_lib sample_surroundings sample_dispatch (sample_bridge\<lparr>br_nodeID := ''z''\<rparr>)) =
     [(9, EAtom ''dispatch_ok'')] \<and>
   deliveries (cl_db (br_tables (HandleInfo sample_lib sample_surroundings sample_dispatch (sample_bridge\<lparr>br_nodeID := ''z''\<rparr>)))) = []"
  by code_simp

end
