(* ===== verification/PoolProps.thy ===== *)
theory PoolProps
  imports DispatchProps
begin

text \<open>
  Whether the pool of a dispatcher over the memory store gets its work done: every row that may be
  claimed is claimed by a goroutine that is there, and a pool left to itself makes a bounded number of
  attempts. The steps of the pool alone are a part of the steps of the system; the bound is a measure on
  the rows of the store and the rows the goroutines hold. The last section shows what a resize down and
  up again leaves behind.
\<close>

section \<open>The pool on its own\<close>

text \<open>The steps of the goroutines, with nothing else going on: no dispatch, no host call, no other user.\<close>

inductive pool_step :: "('e, 's) store_ops \<Rightarrow> ('e \<Rightarrow> bool) \<Rightarrow> 's system \<Rightarrow> 's system \<Rightarrow> bool" for ops ok where
  pool_claim: "i < length (sy_pool s) \<Longrightarrow> sy_pool s ! i = (tok, WIdle) \<Longrightarrow> ok e \<Longrightarrow>
     claimBatch ops e tok (sy_d s) = (r, d') \<Longrightarrow>
     pool_step ops ok s (s\<lparr>sy_d := d', sy_pool := (sy_pool s)[i := (tok, after_claim r)]\<rparr>)"
| pool_wait: "i < length (sy_pool s) \<Longrightarrow> sy_pool s ! i = (tok, WIdle) \<Longrightarrow> 0 \<le> dt \<Longrightarrow>
     waitForWork w dt tok (sy_d s) = (True, d') \<Longrightarrow>
     pool_step ops ok s (s\<lparr>sy_d := d'\<rparr>)"
| pool_post: "i < length (sy_pool s) \<Longrightarrow> sy_pool s ! i = (tok, WBatch (del # ds)) \<Longrightarrow>
     pool_step ops ok s
       (s\<lparr>sy_pool := (sy_pool s)[i := (tok, WPosting del ds)], sy_posts := sy_posts s @ [del]\<rparr>)"
| pool_mark: "i < length (sy_pool s) \<Longrightarrow> sy_pool s ! i = (tok, WPosting del ds) \<Longrightarrow> ok e \<Longrightarrow>
     pool_step ops ok s
       (s\<lparr>sy_d := count_delivery tok (deliverOne ops e now rnd tok del res (sy_d s)),
          sy_pool := (sy_pool s)[i := (tok, next_phase ds)]\<rparr>)"
| pool_exit: "i < length (sy_pool s) \<Longrightarrow> sy_pool s ! i = (tok, p) \<Longrightarrow> p = WIdle \<or> (\<exists>ds. p = WBatch ds) \<Longrightarrow>
     d_cancelled (sy_d s) \<Longrightarrow>
     pool_step ops ok s (s\<lparr>sy_pool := (sy_pool s)[i := (tok, WExited)]\<rparr>)"

lemma pool_step_sys: "pool_step ops ok s s' \<Longrightarrow> sys_step ops ok marshal counts s s'"
  by (induction rule: pool_step.induct) (blast intro: sys_step.intros)+

lemma pool_run_sys: "(pool_step ops ok)\<^sup>*\<^sup>* s s' \<Longrightarrow> (sys_step ops ok marshal counts)\<^sup>*\<^sup>* s s'"
proof (induction rule: rtranclp_induct)
  case (step s1 s2)
  show ?case using step.IH pool_step_sys [OF step.hyps(2)] by (rule rtranclp.rtrancl_into_rtrancl)
qed simp

section \<open>The attempts the rows may still cost\<close>

text \<open>
  A pending row may be posted until its attempts reach the maximum \<open>m\<close>, and once in any case: a row that
  has them all, claimed again after its claim went stale, is posted once more and then exhausted.
\<close>

definition row_work :: "int \<Rightarrow> delivery \<Rightarrow> nat" where
  "row_work m d = (if Status d = StatusPending then max 1 (nat (m - Attempt d)) else 0)"

definition mem_work :: "int \<Rightarrow> mem \<Rightarrow> nat" where
  "mem_work m st = sum_list (map (\<lambda>(k, d). row_work m d) (byID st))"

text \<open>A row in a batch costs this attempt and its retries, a row being posted its retries only.\<close>

definition held_work :: "int \<Rightarrow> delivery \<Rightarrow> nat" where
  "held_work m d = nat (m - Attempt d)"

fun phase_work :: "int \<Rightarrow> phase \<Rightarrow> nat" where
  "phase_work m WIdle = 0"
| "phase_work m (WBatch ds) = sum_list (map (\<lambda>d. Suc (held_work m d)) ds)"
| "phase_work m (WPosting del ds) = held_work m del + sum_list (map (\<lambda>d. Suc (held_work m d)) ds)"
| "phase_work m WExited = 0"

definition pool_work :: "int \<Rightarrow> (string \<times> phase) list \<Rightarrow> nat" where
  "pool_work m pool = sum_list (map (\<lambda>(tok, p). phase_work m p) pool)"

definition sys_work :: "mem system \<Rightarrow> nat" where
  "sys_work s = mem_work (d_maxAttempts (sy_d s)) (d_store (sy_d s)) + pool_work (d_maxAttempts (sy_d s)) (sy_pool s)"

definition work_at :: "int \<Rightarrow> mem \<Rightarrow> string \<Rightarrow> nat" where
  "work_at m st k = (case row st k of None \<Rightarrow> 0 | Some d \<Rightarrow> row_work m d)"

lemma sum_map_of:
  assumes "distinct (map fst xs)" "finite K" "fst ` set xs \<subseteq> K"
  shows "sum_list (map (\<lambda>(k, d). f d) xs) = (\<Sum>k \<in> K. case map_of xs k of None \<Rightarrow> 0 | Some d \<Rightarrow> (f d :: nat))"
  using assms
proof (induction xs)
  case (Cons x xs)
  obtain k d where x: "x = (k, d)" by fastforce
  have "(\<Sum>j \<in> K - {k}. case map_of (x # xs) j of None \<Rightarrow> 0 | Some d \<Rightarrow> f d) =
      (\<Sum>j \<in> K - {k}. case map_of xs j of None \<Rightarrow> 0 | Some d \<Rightarrow> f d)"
    by (rule sum.cong) (simp_all add: x)
  moreover have "map_of xs k = None" using Cons.prems(1) by (simp add: x map_of_eq_None_iff)
  ultimately show ?case
    using Cons sum.remove [of K k "\<lambda>j. case map_of (x # xs) j of None \<Rightarrow> 0 | Some d \<Rightarrow> f d"]
      sum.remove [of K k "\<lambda>j. case map_of xs j of None \<Rightarrow> 0 | Some d \<Rightarrow> f d"]
    by (simp add: x)
qed simp

lemma mem_work_sum:
  assumes "well_keyed st" "finite K" "\<And>k. row st k \<noteq> None \<Longrightarrow> k \<in> K"
  shows "mem_work m st = (\<Sum>k \<in> K. work_at m st k)"
proof -
  have "fst ` set (byID st) \<subseteq> K" using assms(3) by (auto simp: row_def map_of_eq_None_iff)
  then show ?thesis
    using sum_map_of [of "byID st" K "row_work m"] assms(1,2) by (simp add: mem_work_def well_keyed_def work_at_def row_def)
qed

lemma finite_keys: "finite {k. row st k \<noteq> None}"
  using finite_dom_map_of [of "byID st"] by (simp add: row_def dom_def)

text \<open>A change that makes no row dearer, but for the one under \<open>key\<close>.\<close>

lemma mem_work_le:
  assumes "well_keyed st" "well_keyed st'" "\<And>k. k \<noteq> key \<Longrightarrow> work_at m st' k \<le> work_at m st k"
    "work_at m st' key \<le> work_at m st key + n"
  shows "mem_work m st' \<le> mem_work m st + n"
proof -
  let ?K = "insert key ({k. row st k \<noteq> None} \<union> {k. row st' k \<noteq> None})"
  have f: "finite ?K" by (simp only: finite_insert finite_Un finite_keys)
  have "(\<Sum>k \<in> ?K - {key}. work_at m st' k) \<le> (\<Sum>k \<in> ?K - {key}. work_at m st k)"
    using assms(3) by (intro sum_mono) simp
  then have "(\<Sum>k \<in> ?K. work_at m st' k) \<le> (\<Sum>k \<in> ?K. work_at m st k) + n"
    using sum.remove [OF f, of key "work_at m st"] sum.remove [OF f, of key "work_at m st'"] assms(4) by simp
  then show ?thesis
    using mem_work_sum [OF assms(1) f, of m] mem_work_sum [OF assms(2) f, of m] by simp
qed

lemma mem_work_take:
  assumes "well_keyed st" "well_keyed st'" "distinct ks"
    "\<And>k. work_at m st' k = (if k \<in> set ks then 0 else work_at m st k)"
  shows "mem_work m st' + sum_list (map (work_at m st) ks) = mem_work m st"
proof -
  let ?K = "set ks \<union> ({k. row st k \<noteq> None} \<union> {k. row st' k \<noteq> None})"
  have f: "finite ?K" by (simp only: finite_set finite_Un finite_keys)
  have "(\<Sum>k \<in> ?K. work_at m st k) = (\<Sum>k \<in> ?K - set ks. work_at m st k) + (\<Sum>k \<in> set ks. work_at m st k)"
    using sum.subset_diff [of "set ks" ?K "work_at m st"] f by simp
  moreover have "(\<Sum>k \<in> ?K. work_at m st' k) = (\<Sum>k \<in> ?K - set ks. work_at m st' k) + (\<Sum>k \<in> set ks. work_at m st' k)"
    using sum.subset_diff [of "set ks" ?K "work_at m st'"] f by simp
  moreover have "(\<Sum>k \<in> ?K - set ks. work_at m st' k) = (\<Sum>k \<in> ?K - set ks. work_at m st k)"
    by (rule sum.cong) (simp_all add: assms(4))
  moreover have "(\<Sum>k \<in> set ks. work_at m st' k) = 0" by (simp add: assms(4))
  moreover have "(\<Sum>k \<in> set ks. work_at m st k) = sum_list (map (work_at m st) ks)"
    using assms(3) by (simp add: sum_list_distinct_conv_sum_set)
  ultimately show ?thesis
    using mem_work_sum [OF assms(1) f, of m] mem_work_sum [OF assms(2) f, of m] by simp
qed

section \<open>What the steps do to it\<close>

lemma Claim_work:
  assumes "mem_inv st" "fair_env e" "Claim e owner gen parts limit st = (Inr ds, st')"
  shows "mem_work m st' + sum_list (map (\<lambda>d. Suc (held_work m d)) ds) = mem_work m st"
proof -
  let ?f = "claim_row owner gen (clock e)"
  obtain cs where cs: "distinct (map c_id cs)"
      "\<forall>c \<in> set cs. row st (c_id c) = Some (cand_row st c) \<and> Status (cand_row st c) = StatusPending"
      "ds = map (\<lambda>c. cloneDelivery (?f (cand_row st c))) cs"
      "\<forall>k. row st' k = (if k \<in> c_id ` set cs then map_option ?f (row st k) else row st k)"
    using Claim_rows [OF assms] by (elim exE conjE)
  have "mem_inv st'"
    using refines_inv [OF assms(1) refines_Claim [OF assms(1,2), of owner gen parts limit]] assms(3) by simp
  have at': "work_at m st' k = (if k \<in> set (map c_id cs) then 0 else work_at m st k)" for k
    using cs(4) by (auto simp: work_at_def row_work_def claim_row_def split: option.split)
  have paid: "Suc (held_work m (cloneDelivery (?f (cand_row st c)))) = work_at m st (c_id c)" if "c \<in> set cs" for c
  proof -
    have "Suc (nat (m - (a + 1))) = max 1 (nat (m - a))" for a by simp
    then show ?thesis using cs(2) that by (simp add: held_work_def work_at_def row_work_def claim_row_def cloneDelivery_def)
  qed
  have "map (\<lambda>d. Suc (held_work m d)) ds = map (work_at m st) (map c_id cs)"
    unfolding cs(3) map_map using paid by (intro map_cong) simp_all
  then show ?thesis
    using mem_work_take [OF mem_invD(1) [OF assms(1)] mem_invD(1) [OF \<open>mem_inv st'\<close>] cs(1) at'] by simp
qed

lemma Claim_error_work: "Claim e owner gen parts limit st = (Inl err, st') \<Longrightarrow> st' = st"
  by (auto simp: Claim_def Let_def split: option.splits if_splits prod.splits)

lemma work_at_set_row:
  "row st k = Some d \<Longrightarrow> work_at m (set_row k f st) k' = (if k' = k then row_work m (f d) else work_at m st k')"
  by (simp add: work_at_def store_simps)

lemma work_at_signal: "work_at m (signal st) k = work_at m st k" "mem_work m (signal st) = mem_work m st"
  by (simp_all add: work_at_def mem_work_def store_simps)

lemma set_row_work:
  assumes "mem_inv st" "row st k = Some d" "ID (f d) = ID d"
  shows "mem_work m (signal (set_row k f st)) \<le> mem_work m st + row_work m (f d)"
proof -
  have wk: "well_keyed (set_row k f st)"
    using mem_invD(1) [OF assms(1)] assms(2,3) by (intro well_keyed_updates(1)) simp_all
  show ?thesis unfolding work_at_signal
    by (rule mem_work_le [OF mem_invD(1) [OF assms(1)] wk, where key = k])
      (simp_all add: work_at_set_row [of st k d m f, OF assms(2)])
qed

lemma markTerminal_work:
  "mem_inv st \<Longrightarrow> st_new \<noteq> StatusPending \<Longrightarrow> mem_work m (snd (markTerminal e k owner gen st_new msg st)) \<le> mem_work m st"
  using set_row_work [of st k _ "\<lambda>d. release (d\<lparr>Status := st_new, LastError := msg\<rparr>)" m]
  by (fastforce simp: markTerminal_def requireOwner_Inr row_work_def split: option.split sum.split)

lemma MarkFailed_work:
  "mem_inv st \<Longrightarrow> mem_work m (snd (MarkFailed e k owner gen a t msg st)) \<le> mem_work m st + max 1 (nat (m - a))"
  using set_row_work [of st k _ "\<lambda>d. release (d\<lparr>Status := StatusPending, Attempt := a, NextAttempt := t, LastError := msg\<rparr>)" m]
  by (fastforce simp: MarkFailed_def requireOwner_Inr row_work_def release_def split: option.split sum.split)

lemma ExhaustAndSuspend_work:
  assumes "mem_inv st" "fair_env e"
  shows "mem_work m (snd (ExhaustAndSuspend e k owner gen msg st)) \<le> mem_work m st"
proof (cases "\<exists>d. ctx_err e = None \<and> requireOwner st k owner gen = Inr d")
  case True
  then obtain d where d: "ctx_err e = None" "requireOwner st k owner gen = Inr d" by blast
  let ?s1 = "suspend_rows k (SubscriberID d) msg st"
  let ?s2 = "applyRetentionLocked e (SubscriberID d) (clock e) ?s1"
  have i1: "mem_inv ?s1"
    using refines_inv [OF assms(1) refines_suspend_rows [OF assms(1)]] d(2) by (simp add: requireOwner_Inr)
  have i2: "mem_inv ?s2" using refines_inv [OF i1 refines_retention [OF i1 assms(2)]] .
  have "work_at m ?s2 j \<le> work_at m st j" for j
    by (auto simp: work_at_def retention_rows [OF i1 assms(2)] suspend_rows_frame retain_row_def row_work_def release_def
        split: option.split)
  then have "mem_work m ?s2 \<le> mem_work m st"
    using mem_work_le [OF mem_invD(1) [OF assms(1)] mem_invD(1) [OF i2], of k m 0] by simp
  then show ?thesis by (simp add: ExhaustAndSuspend_Inr [OF d] work_at_signal)
next
  case False
  then show ?thesis by (auto simp: ExhaustAndSuspend_def split: option.split sum.split)
qed

text \<open>Settling a row leaves at most its retries to be paid again.\<close>

lemma exhaust_work:
  assumes "mem_inv (d_store d)" "fair_env e"
  shows "mem_work m (d_store (exhaust memory_store e tok del msg d)) \<le> mem_work m (d_store d)"
    "d_maxAttempts (exhaust memory_store e tok del msg d) = d_maxAttempts d"
  using ExhaustAndSuspend_work [OF assms, of m "ID del" tok "Generation del" msg]
  by (auto simp: exhaust_def Let_def reportDeliveryError_def split: prod.split option.split)

lemma deliverOne_work:
  assumes "mem_inv (d_store d)" "fair_env e"
  shows "mem_work (d_maxAttempts d) (d_store (deliverOne memory_store e now rnd tok del res d)) \<le>
      mem_work (d_maxAttempts d) (d_store d) + held_work (d_maxAttempts d) del \<and>
    d_maxAttempts (deliverOne memory_store e now rnd tok del res d) = d_maxAttempts d"
proof (cases "outcome res = OutcomeRetryable \<and> Attempt del < d_maxAttempts d")
  case True
  then have "max 1 (nat (d_maxAttempts d - Attempt del)) = held_work (d_maxAttempts d) del"
    by (auto simp: held_work_def max_def)
  then show ?thesis
    using MarkFailed_work [OF assms(1), of "d_maxAttempts d" e "ID del" tok "Generation del" "Attempt del"
        "time_Add now (Delay rnd (Attempt del) (d_baseBackoff d) (d_maxBackoff d))" "Result_Error res"] True
    by (auto simp: deliverOne_def Let_def reportDeliveryError_def split: prod.split option.split)
next
  case False
  show ?thesis
  proof (cases "outcome res = OutcomeSuccess")
    case True
    then show ?thesis
      using markTerminal_work [OF assms(1), of StatusDelivered "d_maxAttempts d" e "ID del" tok "Generation del" "[]"]
      by (auto simp: deliverOne_def MarkDelivered_def reportDeliveryError_def split: prod.split option.split)
  next
    case other: False
    then have "deliverOne memory_store e now rnd tok del res d = exhaust memory_store e tok del (Result_Error res) d"
      using False by (cases "outcome res") (auto simp: deliverOne_def)
    then show ?thesis using exhaust_work(1) [OF assms, of "d_maxAttempts d" tok del "Result_Error res"] exhaust_work(2) [OF assms, of tok del "Result_Error res"] by simp
  qed
qed

lemma claimBatch_work:
  assumes "mem_inv (d_store d)" "fair_env e" "claimBatch memory_store e tok d = (r, d')"
  shows "mem_work m (d_store d') + phase_work m (after_claim r) = mem_work m (d_store d) \<and> d_maxAttempts d' = d_maxAttempts d"
proof (cases r)
  case None
  then show ?thesis using assms(3) by (auto simp: claimBatch_def split: option.splits if_splits prod.splits)
next
  case (Some q)
  obtain st where c: "Claim e tok (d_generation d) (partitionsFor (d_own d) tok) claimBatch_size (d_store d) = (q, st)"
      "d' = d\<lparr>d_store := st\<rparr>"
    using assms(3) Some by (auto simp: claimBatch_def split: option.splits if_splits prod.splits)
  show ?thesis
  proof (cases q)
    case (Inl err)
    then have "st = d_store d" using Claim_error_work c(1) by blast
    then show ?thesis using c(2) by (simp add: Some Inl)
  next
    case (Inr ds)
    then show ?thesis using Claim_work [OF assms(1,2), of tok "d_generation d" _ claimBatch_size ds st m] c by (cases ds) (simp_all add: Some Inr)
  qed
qed

lemma pool_work_update:
  assumes "i < length pool" "pool ! i = (tok, p)"
  shows "pool_work m (pool[i := (tok, p')]) + phase_work m p = pool_work m pool + phase_work m p'"
proof -
  have "pool = take i pool @ (tok, p) # drop (Suc i) pool" using id_take_nth_drop [OF assms(1)] assms(2) by simp
  then have "pool_work m pool = pool_work m (take i pool) + phase_work m p + pool_work m (drop (Suc i) pool)"
    by (metis (no_types, lifting) pool_work_def map_append sum_list_append list.simps(9) sum_list.Cons case_prod_conv add.assoc)
  moreover have "pool_work m (pool[i := (tok, p')]) = pool_work m (take i pool) + phase_work m p' + pool_work m (drop (Suc i) pool)"
    using assms(1) by (simp add: upd_conv_take_nth_drop pool_work_def)
  ultimately show ?thesis by simp
qed

lemma next_phase_work: "phase_work m (next_phase ds) = sum_list (map (\<lambda>d. Suc (held_work m d)) ds)"
  by (simp add: next_phase_def)

lemma pool_step_work:
  assumes "pool_step memory_store fair_env s s'" "mem_inv (d_store (sy_d s))"
  shows "length (sy_posts s') + sys_work s' \<le> length (sy_posts s) + sys_work s"
  using assms
proof (cases rule: pool_step.cases)
  case (pool_claim i tok e r d')
  then show ?thesis
    using claimBatch_work [OF assms(2) pool_claim(4,5), of "d_maxAttempts (sy_d s)"]
      pool_work_update [OF pool_claim(2,3), of "d_maxAttempts (sy_d s)" "after_claim r"]
    by (simp add: sys_work_def)
next
  case (pool_wait i tok dt w d')
  then show ?thesis by (simp add: waitForWorkD [OF pool_wait(5)] sys_work_def count_idle_def split: prod.split)
next
  case (pool_post i tok del ds)
  then show ?thesis
    using pool_work_update [OF pool_post(2,3), of "d_maxAttempts (sy_d s)" "WPosting del ds"] by (simp add: sys_work_def)
next
  case (pool_mark i tok del ds e now rnd res)
  have "d_maxAttempts (count_delivery tok d) = d_maxAttempts d" for d :: "mem dispatcher"
    by (simp add: count_delivery_def split: prod.split)
  then show ?thesis
    using deliverOne_work [OF assms(2) pool_mark(4), of now rnd tok del res] pool_mark(1)
      pool_work_update [OF pool_mark(2,3), of "d_maxAttempts (sy_d s)" "next_phase ds"]
    by (simp add: sys_work_def next_phase_work)
next
  case (pool_exit i tok p)
  then show ?thesis
    using pool_work_update [OF pool_exit(2,3), of "d_maxAttempts (sy_d s)" WExited] by (simp add: sys_work_def)
qed

lemma pool_run_work:
  assumes "(pool_step memory_store fair_env)\<^sup>*\<^sup>* s s'" "sys_inv mem_inv mem_holds s"
  shows "length (sy_posts s') + sys_work s' \<le> length (sy_posts s) + sys_work s"
  using assms
proof (induction rule: rtranclp_induct)
  case (step s1 s2)
  have "sys_inv mem_inv mem_holds s1"
    using mem_fenced.run_explained [OF pool_run_sys [OF step.hyps(1)] step.prems] by (simp add: explained_def)
  then have "mem_inv (d_store (sy_d s1))" by (simp add: sys_inv_def)
  then show ?case using pool_step_work [OF step.hyps(2)] step.IH [OF step.prems] by simp
qed simp

section \<open>The goroutines that are there\<close>

text \<open>
  As long as the dispatcher is not closed, each index of the pool has a goroutine that has not left: one
  leaves only when its index is not in the pool, and growing the pool spawns the indices that are new.
\<close>

definition manned :: "'s system \<Rightarrow> bool" where
  "manned s \<longleftrightarrow> (d_started (sy_d s) \<and> \<not> d_cancelled (sy_d s) \<longrightarrow>
     (\<forall>w. 0 \<le> w \<and> w < d_workers (sy_d s) \<and> int64 w \<longrightarrow>
       (\<exists>i p. i < length (sy_pool s) \<and> p \<noteq> WExited \<and>
          sy_pool s ! i = (claimOwnerID (d_nodeID (sy_d s)) (d_incarnationID (sy_d s)) w, p))))"

lemma manned_pool:
  assumes "manned s" "d_conf (sy_d s') = d_conf (sy_d s)" "\<not> d_cancelled (sy_d s') \<Longrightarrow> \<not> d_cancelled (sy_d s)"
    "i < length (sy_pool s)" "sy_pool s ! i = (tok, q)" "sy_pool s' = (sy_pool s)[i := (tok, q')]"
    "q' = WExited \<Longrightarrow> \<not> d_cancelled (sy_d s') \<Longrightarrow>
       (\<forall>w. 0 \<le> w \<and> w < d_workers (sy_d s) \<and> int64 w \<longrightarrow> tok \<noteq> claimOwnerID (d_nodeID (sy_d s)) (d_incarnationID (sy_d s)) w)"
  shows "manned s'"
  unfolding manned_def
proof (intro impI allI, elim conjE)
  fix w assume a: "d_started (sy_d s')" "\<not> d_cancelled (sy_d s')" "0 \<le> w" "w < d_workers (sy_d s')" "int64 w"
  let ?t = "claimOwnerID (d_nodeID (sy_d s)) (d_incarnationID (sy_d s)) w"
  have c: "d_workers (sy_d s') = d_workers (sy_d s)" "d_nodeID (sy_d s') = d_nodeID (sy_d s)"
    "d_incarnationID (sy_d s') = d_incarnationID (sy_d s)" "d_started (sy_d s') = d_started (sy_d s)"
    using assms(2) by (simp_all add: d_conf_def)
  obtain j p where j: "j < length (sy_pool s)" "p \<noteq> WExited" "sy_pool s ! j = (?t, p)"
    using assms(1,3) a by (auto simp: manned_def c)
  show "\<exists>i p. i < length (sy_pool s') \<and> p \<noteq> WExited \<and>
      sy_pool s' ! i = (claimOwnerID (d_nodeID (sy_d s')) (d_incarnationID (sy_d s')) w, p)"
  proof (cases "j = i")
    case True
    then have "tok = ?t" using j(3) assms(5) by simp
    then have "q' \<noteq> WExited" using assms(7) a by (auto simp: c)
    then show ?thesis using j(1) True \<open>tok = ?t\<close> by (intro exI [of _ i] exI [of _ q']) (simp add: assms(6) c)
  next
    case False
    then show ?thesis using j by (intro exI [of _ j] exI [of _ p]) (simp add: assms(6) c)
  qed
qed

lemma manned_same:
  assumes "manned s" "d_conf d' = d_conf (sy_d s)" "\<not> d_cancelled d' \<Longrightarrow> \<not> d_cancelled (sy_d s)"
  shows "manned (s\<lparr>sy_d := d'\<rparr>)"
  using assms by (auto simp: manned_def d_conf_def)

text \<open>New goroutines come in the order of their indices, after the ones that are there.\<close>

lemma manned_grow:
  assumes "manned s" "map fst (sy_pool s) = d_spawned (sy_d s)"
    "\<not> d_started (sy_d s) \<Longrightarrow> lo \<le> 0" "d_started (sy_d s) \<Longrightarrow> lo = d_workers (sy_d s)"
    "d_nodeID d' = d_nodeID (sy_d s)" "d_incarnationID d' = d_incarnationID (sy_d s)" "d_workers d' = hi"
    "\<not> d_cancelled d' \<Longrightarrow> \<not> d_cancelled (sy_d s)"
    "d_spawned d' = d_spawned (sy_d s) @ map (claimOwnerID (d_nodeID (sy_d s)) (d_incarnationID (sy_d s))) [lo..hi - 1]"
  shows "manned (s\<lparr>sy_d := d', sy_pool := grow_pool d' (sy_pool s)\<rparr>)"
  unfolding manned_def
proof (intro impI allI, elim conjE)
  let ?s = "s\<lparr>sy_d := d', sy_pool := grow_pool d' (sy_pool s)\<rparr>" and ?tok = "claimOwnerID (d_nodeID (sy_d s)) (d_incarnationID (sy_d s))"
  fix w assume a: "d_started (sy_d ?s)" "\<not> d_cancelled (sy_d ?s)" "0 \<le> w" "w < d_workers (sy_d ?s)" "int64 w"
  have len: "length (sy_pool s) = length (d_spawned (sy_d s))" using arg_cong [OF assms(2), of length] by simp
  have pool: "grow_pool d' (sy_pool s) = sy_pool s @ map (\<lambda>w. (?tok w, WIdle)) [lo..hi - 1]"
    using len by (simp add: grow_pool_def assms(9) comp_def)
  have "\<exists>i p. i < length (sy_pool ?s) \<and> p \<noteq> WExited \<and> sy_pool ?s ! i = (?tok w, p)"
  proof (cases "lo \<le> w")
    case True
    then have "(?tok w, WIdle) \<in> set (map (\<lambda>w. (?tok w, WIdle)) [lo..hi - 1])" using a(4) assms(7) by simp
    then have "(?tok w, WIdle) \<in> set (sy_pool ?s)" by (simp only: pool set_append) simp
    then obtain i where "i < length (sy_pool ?s)" "sy_pool ?s ! i = (?tok w, WIdle)" by (meson in_set_conv_nth)
    then show ?thesis by blast
  next
    case False
    then have st: "d_started (sy_d s)" "w < d_workers (sy_d s)" using a(3) assms(3,4) by force+
    then obtain i p where "i < length (sy_pool s)" "p \<noteq> WExited" "sy_pool s ! i = (?tok w, p)"
      using assms(1,8) a by (auto simp: manned_def)
    then show ?thesis by (intro exI [of _ i] exI [of _ p]) (simp add: pool nth_append)
  qed
  then show "\<exists>i p. i < length (sy_pool ?s) \<and> p \<noteq> WExited \<and>
      sy_pool ?s ! i = (claimOwnerID (d_nodeID (sy_d ?s)) (d_incarnationID (sy_d ?s)) w, p)"
    by (simp add: assms(5,6))
qed

lemma cancelled_stays:
  "claimBatch ops e tok d = (r, d') \<Longrightarrow> d_cancelled d' = d_cancelled d"
  "d_cancelled (deliverOne ops e now rnd tok del res d) = d_cancelled d"
  "Dispatch ops marshal e ctxerr rnds nows ev ss d = (r2, d') \<Longrightarrow> d_cancelled d' = d_cancelled d"
  "Suspended ops e x d = (r3, d') \<Longrightarrow> d_cancelled d' = d_cancelled d"
  "Dispatcher_Resume ops e x d = (r4, d') \<Longrightarrow> d_cancelled d' = d_cancelled d"
  "Close_begin d = (r5, d') \<Longrightarrow> d_cancelled d' = d_cancelled d"
  "Close_poll ops counts e stop d = (r6, d') \<Longrightarrow> \<not> d_cancelled d' \<Longrightarrow> \<not> d_cancelled d"
proof -
  show "d_cancelled (deliverOne ops e now rnd tok del res d) = d_cancelled d"
    by (auto simp: deliverOne_def exhaust_def reportDeliveryError_def Let_def split: Outcome.split prod.split option.split)
  show "Dispatch ops marshal e ctxerr rnds nows ev ss d = (r2, d') \<Longrightarrow> d_cancelled d' = d_cancelled d"
    by (auto simp: Dispatch_def split: option.splits if_splits sum.splits prod.splits dest!: build_rows_frame)
qed (auto simp: claimBatch_def Suspended_def Dispatcher_Resume_def Close_begin_def Close_poll_def pendingCount_def Let_def
    split: option.splits if_splits sum.splits prod.splits)

lemma spawn_range_cancelled [simp]: "d_cancelled (spawn_range lo hi d) = d_cancelled d"
proof -
  have "d_cancelled (fold (\<lambda>w. spawnWorkerLocked (f w)) is d) = d_cancelled d" for f :: "int \<Rightarrow> string" and "is" and d :: "'a dispatcher"
    by (induction "is" arbitrary: d) (simp_all add: spawnWorkerLocked_def)
  then show ?thesis by (simp add: spawn_range_def)
qed

lemma count_cancelled [simp]:
  "d_cancelled (count_delivery tok d) = d_cancelled d" "d_cancelled (count_idle tok dt d) = d_cancelled d"
  by (simp_all add: count_delivery_def count_idle_def split: prod.split)

lemma claimBatch_quits:
  assumes "claimBatch ops e tok d = (None, d')" "0 \<le> w" "w < d_workers d" "int64 w"
  shows "tok \<noteq> claimOwnerID (d_nodeID d) (d_incarnationID d) w"
  using assms(1-3) by (auto simp: claimBatch_def parse_claimOwnerID [OF assms(4)] split: prod.splits)

lemma step_manned:
  assumes "sys_step ops ok marshal counts s s'" "manned s" "map fst (sy_pool s) = d_spawned (sy_d s)"
    "\<not> d_started (sy_d s) \<Longrightarrow> sy_pool s = []"
  shows "manned s'"
  using assms(1)
proof (cases rule: sys_step.cases)
  case (worker_claim i tok e r d')
  have conf: "d_conf d' = d_conf (sy_d s)" using one_call_conf [OF claimBatch_call [where ok = ok, OF worker_claim(5,4)]] .
  show ?thesis
  proof (rule manned_pool [OF assms(2) _ _ worker_claim(2,3)])
    assume "after_claim r = WExited"
    then have "r = None" by (cases r rule: after_claim.cases) (auto split: if_splits)
    then show "\<forall>w. 0 \<le> w \<and> w < d_workers (sy_d s) \<and> int64 w \<longrightarrow> tok \<noteq> claimOwnerID (d_nodeID (sy_d s)) (d_incarnationID (sy_d s)) w"
      using claimBatch_quits [of ops e tok "sy_d s" d'] worker_claim(5) by simp
  qed (use conf cancelled_stays(1) [OF worker_claim(5)] in \<open>simp_all add: worker_claim(1)\<close>)
next
  case (worker_wait i tok dt w d')
  show ?thesis unfolding worker_wait(1) waitForWorkD [OF worker_wait(5)] by (rule manned_same [OF assms(2)]) simp_all
next
  case (worker_post i tok del ds)
  show ?thesis by (rule manned_pool [OF assms(2) _ _ worker_post(2,3), of _ "WPosting del ds"]) (simp_all add: worker_post(1))
next
  case (worker_mark i tok del ds e now rnd res)
  show ?thesis
    using one_call_conf [OF deliverOne_call [where ok = ok and ops = ops and del = del and d = "sy_d s" and
        tok = tok and now = now and rnd = rnd and res = res, OF worker_mark(4)]]
    by (intro manned_pool [OF assms(2) _ _ worker_mark(2,3), of _ "next_phase ds"])
      (simp_all add: worker_mark(1) cancelled_stays next_phase_def split: if_splits)
next
  case (worker_exit i tok p)
  show ?thesis by (rule manned_pool [OF assms(2) _ _ worker_exit(2,3), of _ WExited]) (simp_all add: worker_exit(1,5))
next
  case (host_start e r d')
  have same: "grow_pool (sy_d s) (sy_pool s) = sy_pool s"
    using arg_cong [OF assms(3), of length] by (simp add: grow_pool_def)
  show ?thesis
  proof (cases "d_started d' \<and> \<not> d_started (sy_d s)")
    case True
    then have "d_nodeID d' = d_nodeID (sy_d s)" "d_incarnationID d' = d_incarnationID (sy_d s)" "d_workers d' = d_workers (sy_d s)"
      "\<not> d_cancelled d' \<Longrightarrow> \<not> d_cancelled (sy_d s)"
      "d_spawned d' = d_spawned (sy_d s) @ map (claimOwnerID (d_nodeID (sy_d s)) (d_incarnationID (sy_d s))) [0..d_workers (sy_d s) - 1]"
      using host_start(3) by (auto simp: Start_def Let_def split: prod.splits if_splits sum.splits)
    then show ?thesis unfolding host_start(1)
      using True by (intro manned_grow [OF assms(2,3), of 0 _ "d_workers (sy_d s)"]) simp_all
  next
    case False
    then have "\<not> d_started d' \<or> d' = sy_d s"
      using host_start(3) by (auto simp: Start_def Let_def split: prod.splits if_splits sum.splits)
    then show ?thesis unfolding host_start(1) using assms(2) same by (auto simp: manned_def)
  qed
next
  case (host_resize ctxerr ws r d')
  have same: "grow_pool (sy_d s) (sy_pool s) = sy_pool s"
    using arg_cong [OF assms(3), of length] by (simp add: grow_pool_def)
  show ?thesis
  proof (cases "d' = sy_d s")
    case True
    then show ?thesis unfolding host_resize(1) using assms(2) same by (simp add: manned_def)
  next
    case False
    then have "d_started (sy_d s)" "d_nodeID d' = d_nodeID (sy_d s)" "d_incarnationID d' = d_incarnationID (sy_d s)"
      "d_workers d' = ws" "\<not> d_cancelled d' \<Longrightarrow> \<not> d_cancelled (sy_d s)"
      "d_spawned d' = d_spawned (sy_d s) @ map (claimOwnerID (d_nodeID (sy_d s)) (d_incarnationID (sy_d s))) [d_workers (sy_d s)..ws - 1]"
      using host_resize(2) by (auto simp: Resize_def split: option.splits if_splits sum.splits)
    then show ?thesis unfolding host_resize(1)
      by (intro manned_grow [OF assms(2,3), of "d_workers (sy_d s)" _ ws]) simp_all
  qed
next
  case (host_dispatch e ctxerr rnds nows ev ss r d')
  then show ?thesis using one_call_conf [OF Dispatch_call [where ok = ok, OF host_dispatch(3,2)]] cancelled_stays(3)
    by (fastforce intro: manned_same [OF assms(2)])
next
  case (host_suspended e x r' d')
  then show ?thesis using one_call_conf [OF Suspended_call [where ok = ok, OF host_suspended(3,2)]] cancelled_stays(4)
    by (fastforce intro: manned_same [OF assms(2)])
next
  case (host_resume e x r'' d')
  then show ?thesis using one_call_conf [OF Dispatcher_Resume_call [where ok = ok, OF host_resume(3,2)]] cancelled_stays(5)
    by (fastforce intro: manned_same [OF assms(2)])
next
  case (host_close r3 d')
  then have "d_conf d' = d_conf (sy_d s)" by (auto simp: Close_begin_def Let_def split: if_splits)
  then show ?thesis using host_close cancelled_stays(6) by (fastforce intro: manned_same [OF assms(2)])
next
  case (host_drain e stop r4 d')
  then show ?thesis using one_call_conf [OF Close_poll_call [where ok = ok, OF host_drain(4,3)]] cancelled_stays(7)
    by (fastforce intro: manned_same [OF assms(2)])
next
  case (foreign c)
  show ?thesis unfolding foreign(1) by (rule manned_same [OF assms(2)]) simp_all
qed

lemma run_manned:
  assumes "(sys_step memory_store fair_env marshal counts)\<^sup>*\<^sup>* (sys_init d) s" "sys_inv mem_inv mem_holds (sys_init d)"
    "\<not> d_started d"
  shows "manned s \<and> sys_inv mem_inv mem_holds s"
  using assms(1)
proof (induction rule: rtranclp_induct)
  case base
  then show ?case using assms(2,3) by (simp add: manned_def sys_init_def)
next
  case (step s1 s2)
  have "sys_inv mem_inv mem_holds s2"
    using mem_fenced.step_explained [OF step.hyps(2)] step.IH by (simp add: explained_def)
  then show ?case using step_manned [OF step.hyps(2)] step.IH by (simp add: sys_inv_def)
qed

section \<open>Progress\<close>

text \<open>A claim serves a row that may be claimed unless the limit is used up by subscribers before it.\<close>

lemma Claim_serves:
  assumes "mem_inv s" "fair_env e" "ctx_err e = None" "owner \<noteq> []" "gen \<noteq> 0" "0 < limit"
    and "row s k = Some x" "claimable (clock e) parts s x"
  shows "\<exists>ds. fst (Claim e owner gen parts limit s) = Inr ds \<and>
    (k \<in> ID ` set ds \<or> int (length ds) = limit \<and> (\<forall>y \<in> set ds. SubscriberID y < SubscriberID x))"
proof -
  let ?ls = "line_up e parts s" and ?n = "nat limit"
  note lp = line_up_props [OF assms(1,2), where parts = parts]
  have parts: "parts \<noteq> []" using assms(8) by (auto simp: claimable_def)
  note C = Claim_eq(1) [OF assms(1-6) parts]
  have "x \<in> claimable_rows (clock e) parts s" using assms(7,8) by (auto simp: claimable_rows_def)
  then have "x \<in> cand_row s ` set ?ls" unfolding lp(5) .
  then obtain c where c: "c \<in> set ?ls" "x = cand_row s c" by blast
  have key: "ID (cand_row s c') = c_id c'" if "c' \<in> set ?ls" for c'
    using lp(4) [OF that] well_keyedD [OF mem_invD(1) [OF assms(1)]] by blast
  have k: "c_id c = k" using key [OF c(1)] well_keyedD [OF mem_invD(1) [OF assms(1)] assms(7)] c(2) by simp
  show ?thesis
  proof (cases "c \<in> set (take ?n ?ls)")
    case True
    then have "k \<in> ID ` set (map (\<lambda>c. cloneDelivery (claim_row owner gen (clock e) (cand_row s c))) (take ?n ?ls))"
      using key [OF c(1)] k by (force simp: image_image)
    then show ?thesis unfolding C by blast
  next
    case False
    obtain j where j: "j < length ?ls" "?ls ! j = c" using c(1) by (auto simp: in_set_conv_nth)
    have n: "?n \<le> j" using False j nth_mem [of j "take ?n ?ls"] by (cases "j < ?n") auto
    have "c_sub c' < c_sub c" if c': "c' \<in> set (take ?n ?ls)" for c'
    proof -
      obtain i where i: "i < ?n" "i < length ?ls" "?ls ! i = c'" using c' by (auto simp: in_set_conv_nth)
      have "c_sub c' \<le> c_sub c"
        using sorted_nth_mono [OF lp(3), of i j] i j n by simp
      moreover have "c_sub c' \<noteq> c_sub c"
        using nth_eq_iff_index_eq [OF lp(2), of i j] i j n by simp
      ultimately show ?thesis by simp
    qed
    moreover have "SubscriberID (cand_row s c') = c_sub c'" if "c' \<in> set ?ls" for c' using lp(4) [OF that] by blast
    ultimately have "\<forall>c' \<in> set (take ?n ?ls). SubscriberID (cand_row s c') < SubscriberID x"
      using c in_set_takeD by metis
    moreover have "int (length (take ?n ?ls)) = limit" using n j(1) assms(6) by simp
    ultimately show ?thesis unfolding C by simp
  qed
qed

lemma waiting_row_served:
  assumes "New memory_kind cfg rnd now = Inr d" "sound_config cfg"
    "\<not> cfg_OverlapPartitions cfg" "cfg_PartitionsClaim cfg = None" "partitions (d_own d) \<le> max_int64"
    "(sys_step memory_store fair_env marshal counts)\<^sup>*\<^sup>* (sys_init d) s"
    "d_started (sy_d s)" "\<not> d_cancelled (sy_d s)" "d_generation (sy_d s) \<noteq> 0" "d_workers (sy_d s) \<le> max_int64"
    "row (d_store (sy_d s)) k = Some x" "Status x = StatusPending" "\<not> held_in (d_store (sy_d s)) (SubscriberID x)"
    "first_in_line (d_store (sy_d s)) x" "PartitionNo x = hash_Partition (SubscriberID x) (partitions (d_own (sy_d s)))"
  shows "\<exists>i tok p. i < length (sy_pool s) \<and> sy_pool s ! i = (tok, p) \<and> p \<noteq> WExited \<and>
    (\<forall>e. fair_env e \<and> ctx_err e = None \<and> due (clock e) x \<longrightarrow>
      (\<exists>ds. fst (claimBatch memory_store e tok (sy_d s)) = Some (Inr ds) \<and>
         (k \<in> ID ` set ds \<or> int (length ds) = claimBatch_size \<and> (\<forall>y \<in> set ds. SubscriberID y < SubscriberID x))))"
proof -
  let ?d = "sy_d s"
  let ?tok = "claimOwnerID (d_nodeID ?d) (d_incarnationID ?d)"
  have r: "routed (partitions (d_own d)) ?d"
    using run_routed [OF assms(6)] New_routed [OF assms(1,3,4)] by (simp add: sys_init_def)
  then have n: "partitions (d_own ?d) = partitions (d_own d)" by (simp add: routed_def)
  obtain w where w: "0 \<le> w" "w < d_workers ?d" "PartitionNo x \<in> set (partitionsFor (d_own ?d) (?tok w))"
    using routed_worker [OF r assms(5), of "SubscriberID x"] assms(15) n by auto
  then have w64: "int64 w" using assms(10) by (simp add: int64_def min_int64_def)
  have m: "manned s" "mem_inv (d_store ?d)"
    using run_manned [OF assms(6) sys_inv_init [OF assms(1,2)] New_Inr(3) [OF assms(1)]] by (simp_all add: sys_inv_def)
  obtain i p where i: "i < length (sy_pool s)" "sy_pool s ! i = (?tok w, p)" "p \<noteq> WExited"
    using m(1) assms(7,8) w w64 by (auto simp: manned_def)
  have "\<exists>ds. fst (claimBatch memory_store e (?tok w) ?d) = Some (Inr ds) \<and>
         (k \<in> ID ` set ds \<or> int (length ds) = claimBatch_size \<and> (\<forall>y \<in> set ds. SubscriberID y < SubscriberID x))"
    if e: "fair_env e" "ctx_err e = None" "due (clock e) x" for e
  proof -
    have "claimable (clock e) (partitionsFor (d_own ?d) (?tok w)) (d_store ?d) x"
      using e assms(12-14) w(3) by (simp add: claimable_def)
    from Claim_serves [OF m(2) e(1,2) _ assms(9) _ assms(11) this, of "?tok w" claimBatch_size] show ?thesis
      using w by (auto simp: claimBatch_def parse_claimOwnerID [OF w64] claimBatch_size_def split: prod.split)
  qed
  then show ?thesis using i by blast
qed

text \<open>
  Claim C13. No row is forgotten: as long as a dispatcher over all partitions without overlap (no
  PartitionsClaim) is started and not closed, and whatever has
  happened before, resizes included, the pool has a goroutine, not left, that serves the partition of
  any row that is pending and first in line for a subscriber that is not suspended. When that goroutine
  claims, at any time the row is due and whatever the order the store visits its rows in, it gets the
  row, unless the claim is full with the rows of 64 subscribers that come before it in the order of
  their names.
\<close>

theorem pool_progress:
  assumes "New memory_kind cfg rnd now = Inr d" "sound_config cfg"
    "\<not> cfg_OverlapPartitions cfg" "cfg_PartitionsClaim cfg = None" "partitions (d_own d) \<le> max_int64"
    "(sys_step memory_store fair_env marshal counts)\<^sup>*\<^sup>* (sys_init d) s"
    "d_started (sy_d s)" "\<not> d_cancelled (sy_d s)" "d_generation (sy_d s) \<noteq> 0" "d_workers (sy_d s) \<le> max_int64"
    "row (d_store (sy_d s)) k = Some x" "Status x = StatusPending" "\<not> held_in (d_store (sy_d s)) (SubscriberID x)"
    "first_in_line (d_store (sy_d s)) x" "PartitionNo x = hash_Partition (SubscriberID x) (partitions (d_own (sy_d s)))"
  shows "\<exists>i tok p. i < length (sy_pool s) \<and> sy_pool s ! i = (tok, p) \<and> p \<noteq> WExited \<and>
    (\<forall>e. fair_env e \<and> ctx_err e = None \<and> due (clock e) x \<longrightarrow>
      (\<exists>ds. fst (claimBatch memory_store e tok (sy_d s)) = Some (Inr ds) \<and>
         (k \<in> ID ` set ds \<or> int (length ds) = claimBatch_size \<and> (\<forall>y \<in> set ds. SubscriberID y < SubscriberID x))))"
  by (rule waiting_row_served [OF assms])

definition sample_ready :: "mem system" where
  "sample_ready = do_dispatch memory_store (live_env 2) 65 ''e1'' [''a''] (do_start memory_store (live_env 1) (sys_init sample_d))"

lemma sample_ready_run: "mem_run (sys_init sample_d) sample_ready"
  unfolding sample_ready_def by (simp add: run_dispatch run_start)

definition ready_row :: delivery where
  "ready_row = the (row (d_store (sy_d sample_ready)) ''x41'')"

lemma ready_row:
  "row (d_store (sy_d sample_ready)) ''x41'' = Some ready_row" "SubscriberID ready_row = ''a''"
  "Status ready_row = StatusPending" "\<not> held_in (d_store (sy_d sample_ready)) ''a''" "due 9 ready_row"
  "PartitionNo ready_row = hash_Partition ''a'' (partitions (d_own (sy_d sample_ready)))"
  "d_started (sy_d sample_ready)" "\<not> d_cancelled (sy_d sample_ready)" "d_generation (sy_d sample_ready) = 1"
  "d_workers (sy_d sample_ready) = 2" "partitions (d_own sample_d) = 2"
proof -
  have "row (d_store (sy_d sample_ready)) ''x41'' \<noteq> None" by code_simp
  then show "row (d_store (sy_d sample_ready)) ''x41'' = Some ready_row" by (auto simp: ready_row_def)
qed code_simp+

lemma ready_first: "first_in_line (d_store (sy_d sample_ready)) ready_row"
proof -
  have "head_of (claim_heads (live_env 9) (d_store (sy_d sample_ready))) ''a'' = Sequence ready_row"
    "\<not> DisableHOL (d_store (sy_d sample_ready))" by code_simp+
  then show ?thesis
    using head_of_claim_heads [of "live_env 9" "d_store (sy_d sample_ready)" "''x41''" ready_row] ready_row(1,2,3) by simp
qed

theorem pool_progress_witness:
  "\<exists>i tok p ds. i < length (sy_pool sample_ready) \<and> sy_pool sample_ready ! i = (tok, p) \<and> p \<noteq> WExited \<and>
     fst (claimBatch memory_store (live_env 9) tok (sy_d sample_ready)) = Some (Inr ds) \<and>
     (''x41'' \<in> ID ` set ds \<or> int (length ds) = claimBatch_size \<and> (\<forall>y \<in> set ds. SubscriberID y < ''a''))"
proof -
  have c: "\<not> cfg_OverlapPartitions sample_config" "cfg_PartitionsClaim sample_config = None" "partitions (d_own sample_d) \<le> max_int64"
    "d_workers (sy_d sample_ready) \<le> max_int64"
    using ready_row by (simp_all add: sample_config_def max_int64_def)
  have g: "d_generation (sy_d sample_ready) \<noteq> 0" "\<not> held_in (d_store (sy_d sample_ready)) (SubscriberID ready_row)"
    "PartitionNo ready_row = hash_Partition (SubscriberID ready_row) (partitions (d_own (sy_d sample_ready)))"
    using ready_row by simp_all
  have e: "fair_env (live_env 9)" "ctx_err (live_env 9) = None" "due (clock (live_env 9)) ready_row" using ready_row(5) by simp_all
  obtain i tok p where i: "i < length (sy_pool sample_ready)" "sy_pool sample_ready ! i = (tok, p)" "p \<noteq> WExited"
    and h: "\<forall>e. fair_env e \<and> ctx_err e = None \<and> due (clock e) ready_row \<longrightarrow>
      (\<exists>ds. fst (claimBatch memory_store e tok (sy_d sample_ready)) = Some (Inr ds) \<and>
         (''x41'' \<in> ID ` set ds \<or> int (length ds) = claimBatch_size \<and> (\<forall>y \<in> set ds. SubscriberID y < SubscriberID ready_row)))"
    using pool_progress [OF New_sample sample_sound c(1-3) sample_ready_run ready_row(7,8) g(1) c(4) ready_row(1,3) g(2) ready_first g(3)]
    by (elim exE conjE) rule
  obtain ds where "fst (claimBatch memory_store (live_env 9) tok (sy_d sample_ready)) = Some (Inr ds)"
      "''x41'' \<in> ID ` set ds \<or> int (length ds) = claimBatch_size \<and> (\<forall>y \<in> set ds. SubscriberID y < ''a'')"
    using h [THEN spec, of "live_env 9"] e unfolding ready_row(2) by blast
  then show ?thesis using i by blast
qed

section \<open>Termination\<close>

text \<open>
  Claim C11. A pool left to itself stops posting: from any state the dispatcher can be in, however its
  goroutines interleave, whatever the transport answers and however clocks, jitter and cancellation go,
  every attempt is paid for by the work that was left, and what it leaves is still enough for the
  attempts to come. So a pool makes at most as many attempts as its rows have left before the maximum,
  one at least for each.
\<close>

theorem pool_terminates:
  assumes "New memory_kind cfg rnd now = Inr d" "sound_config cfg"
    "(sys_step memory_store fair_env marshal counts)\<^sup>*\<^sup>* (sys_init d) s"
    "(pool_step memory_store fair_env)\<^sup>*\<^sup>* s s'"
  shows "length (sy_posts s') + sys_work s' \<le> length (sy_posts s) + sys_work s"
proof -
  have "sys_inv mem_inv mem_holds s"
    using mem_fenced.run_explained [OF assms(3) sys_inv_init [OF assms(1,2)]] by (simp add: explained_def)
  then show ?thesis by (rule pool_run_work [OF assms(4)])
qed

definition sample_posted :: "mem system" where
  "sample_posted = do_post 0 (do_claim memory_store (live_env 3) 0 sample_ready)"

lemma sample_posted_run: "(pool_step memory_store fair_env)\<^sup>*\<^sup>* sample_ready sample_posted"
proof -
  let ?s1 = "do_claim memory_store (live_env 3) 0 sample_ready"
  obtain tok r d' where p: "at_index 0 (sy_pool sample_ready) = (tok, WIdle)"
    and c: "claimBatch memory_store (live_env 3) tok (sy_d sample_ready) = (r, d')"
  proof -
    have "snd (at_index 0 (sy_pool sample_ready)) = WIdle" by code_simp
    then show thesis
      using that [of "fst (at_index 0 (sy_pool sample_ready))"] by (metis prod.collapse)
  qed
  have "pool_step memory_store fair_env sample_ready ?s1"
    using pool_step.pool_claim [of 0 sample_ready tok fair_env "live_env 3"] at_indexD [OF p] c by (simp add: do_claim_def p)
  moreover have "?s1 = sample_posted \<or> pool_step memory_store fair_env ?s1 sample_posted"
    by (auto simp: sample_posted_def do_post_def split: prod.split phase.split list.split intro: pool_step.pool_post dest: at_indexD)
  ultimately show ?thesis by (metis r_into_rtranclp rtranclp.rtrancl_into_rtrancl)
qed

theorem pool_terminates_witness:
  "length (sy_posts sample_posted) = 1 \<and> length (sy_posts sample_posted) + sys_work sample_posted \<le> 8"
proof -
  have "length (sy_posts sample_ready) + sys_work sample_ready = 8" "length (sy_posts sample_posted) = 1" by code_simp+
  then show ?thesis using pool_terminates [OF New_sample sample_sound sample_ready_run sample_posted_run] by simp
qed

section \<open>A resize down and up again\<close>

text \<open>
  \<^verbatim>\<open>Resize\<close> leaves the goroutines whose index is gone to leave by themselves at their next claim. One
  that is in a delivery when the pool shrinks, and grows again before it is done, finds its index in the
  pool and stays, beside the goroutine that growing has spawned for the same index.
\<close>

definition do_resize :: "int \<Rightarrow> 's system \<Rightarrow> 's system" where
  "do_resize n s = (let d' = snd (Resize None n (sy_d s)) in s\<lparr>sy_d := d', sy_pool := grow_pool d' (sy_pool s)\<rparr>)"

lemma run_resize:
  "(sys_step ops ok sample_marshal c)\<^sup>*\<^sup>* s0 s \<Longrightarrow> (sys_step ops ok sample_marshal c)\<^sup>*\<^sup>* s0 (do_resize n s)"
proof -
  obtain r d' where d: "Resize None n (sy_d s) = (r, d')" by fastforce
  show "(sys_step ops ok sample_marshal c)\<^sup>*\<^sup>* s0 s \<Longrightarrow> ?thesis"
    using run_trans [OF sys_step.host_resize [OF d]] by (simp add: do_resize_def d)
qed

definition sample_regrown :: "mem system" where
  "sample_regrown = do_post 2 (do_claim memory_store (live_env 5) 2 (do_post 0 (do_claim memory_store (live_env 5) 0
     (do_dispatch memory_store (live_env 4) 98 ''e2'' [''a'', ''d''] (do_resize 2 (do_resize 1
       (do_post 1 (do_claim memory_store (live_env 3) 1
         (do_dispatch memory_store (live_env 2) 65 ''e1'' [''b''] (do_start memory_store (live_env 1) (sys_init sample_d)))))))))))"

lemma sample_regrown_run: "mem_run (sys_init sample_d) sample_regrown"
  unfolding sample_regrown_def by (simp add: run_post run_claim run_dispatch run_start run_resize)

text \<open>What the \<open>i\<close>-th goroutine is posting.\<close>

definition posting_at :: "nat \<Rightarrow> 's system \<Rightarrow> (string \<times> delivery) option" where
  "posting_at i s = (case at_index i (sy_pool s) of (tok, WPosting x ds) \<Rightarrow> Some (tok, x) | _ \<Rightarrow> None)"

text \<open>
  A pool of two workers with three attempts open at once, two of them by goroutines that go by the same
  token and serve the same partition.
\<close>

lemma resize_keeps_old_worker:
  "\<exists>s x y z. mem_run (sys_init sample_d) s \<and> d_workers (sy_d s) = 2 \<and>
     posting_at 0 s = Some (''worker-0'', x) \<and> posting_at 1 s = Some (''worker-1'', y) \<and>
     posting_at 2 s = Some (''worker-1'', z) \<and> PartitionNo y = PartitionNo z"
proof -
  have "map_option fst (posting_at 0 sample_regrown) = Some ''worker-0''"
    "map_option fst (posting_at 1 sample_regrown) = Some ''worker-1''"
    "map_option fst (posting_at 2 sample_regrown) = Some ''worker-1''"
    "map_option (PartitionNo \<circ> snd) (posting_at 1 sample_regrown) = map_option (PartitionNo \<circ> snd) (posting_at 2 sample_regrown)"
    and w: "d_workers (sy_d sample_regrown) = 2"
    by code_simp+
  then obtain x y z where "posting_at 0 sample_regrown = Some (''worker-0'', x)"
      "posting_at 1 sample_regrown = Some (''worker-1'', y)" "posting_at 2 sample_regrown = Some (''worker-1'', z)"
      "PartitionNo y = PartitionNo z"
    by auto
  then show ?thesis using w sample_regrown_run by blast
qed

text \<open>The attempt that was open when the pool was resized is completed under the generation of its claim.\<close>

lemma resize_old_claim_completes:
  "\<exists>s y. mem_run (sys_init sample_d) s \<and> posting_at 1 s = Some (''worker-1'', y) \<and> Generation y < d_generation (sy_d s) \<and>
     map_option Status (row (d_store (sy_d (do_mark memory_store (live_env 6) 1 ok_result s))) (ID y)) = Some StatusDelivered"
proof -
  have f: "map_option (\<lambda>(tok, y). (tok, ID y, Generation y)) (posting_at 1 sample_regrown) = Some (''worker-1'', ''x41'', 1)"
    "d_generation (sy_d sample_regrown) = 3"
    "map_option Status (row (d_store (sy_d (do_mark memory_store (live_env 6) 1 ok_result sample_regrown))) ''x41'') = Some StatusDelivered"
    by code_simp+
  obtain y where "posting_at 1 sample_regrown = Some (''worker-1'', y)" "ID y = ''x41''" "Generation y = 1" using f(1) by auto
  then show ?thesis using f(2,3) sample_regrown_run by (intro exI [of _ sample_regrown] exI [of _ y]) simp
qed

end
