(* ===== verification/PoolDrained.thy ===== *)
theory PoolDrained
  imports PoolProps
begin

text \<open>
  Termination and progress together: a pool left to itself makes finitely many attempts
  (\<open>pool_terminates\<close>), and when its goroutines find nothing more to claim, nothing is left to do.
\<close>

text \<open>The oldest open row of a subscriber with a pending row, when none is in flight.\<close>

lemma oldest_pending:
  assumes "row s k = Some x" "Status x = StatusPending" "\<forall>j y. row s j = Some y \<longrightarrow> Status y \<noteq> StatusInFlight"
  shows "\<exists>j y. row s j = Some y \<and> Status y = StatusPending \<and> first_in_line s y"
proof -
  define S where "S = {y. \<exists>j. row s j = Some y \<and> SubscriberID y = SubscriberID x \<and> Status y = StatusPending}"
  have "S \<subseteq> snd ` set (byID s)" by (force simp: S_def row_def dest: map_of_SomeD)
  then have fin: "finite (Sequence ` S)" by (rule finite_imageI [OF finite_subset]) simp
  have "x \<in> S" using assms(1,2) by (auto simp: S_def)
  then obtain y where y: "y \<in> S" "Sequence y = Min (Sequence ` S)" using Min_in [OF fin] by (metis empty_iff image_iff)
  then obtain j where j: "row s j = Some y" "SubscriberID y = SubscriberID x" "Status y = StatusPending" by (auto simp: S_def)
  have "Sequence y \<le> Sequence z" if "row s i = Some z" "SubscriberID z = SubscriberID y" "unfinished (Status z)" for i z
  proof -
    have "z \<in> S" using that assms(3) j(2) by (auto simp: S_def unfinished_def)
    then show ?thesis using y(2) Min_le [OF fin, of "Sequence z"] by simp
  qed
  then have "first_in_line s y" by (auto simp: first_in_line_def)
  then show ?thesis using j by blast
qed

text \<open>
  Claim C12. When the pool finds nothing, nothing is left. Take a dispatcher over all partitions without
  overlap (no PartitionsClaim), and any state it can reach started and not closed, in which no row is in
  flight and every row is due and stored in the partition its subscriber hashes to. If each goroutine that has not left
  gets an empty batch when it claims, then no row of the store is pending: each is delivered,
  dead-lettered, or retained for a suspended subscriber, and the count on which \<^verbatim>\<open>Close\<close> waits is zero.
\<close>

theorem quiet_pool_drained:
  assumes "New memory_kind cfg rnd now = Inr d" "sound_config cfg"
    "\<not> cfg_OverlapPartitions cfg" "cfg_PartitionsClaim cfg = None" "partitions (d_own d) \<le> max_int64"
    "(sys_step memory_store fair_env marshal counts)\<^sup>*\<^sup>* (sys_init d) s"
    "d_started (sy_d s)" "\<not> d_cancelled (sy_d s)" "d_generation (sy_d s) \<noteq> 0" "d_workers (sy_d s) \<le> max_int64"
    "\<forall>k x. row (d_store (sy_d s)) k = Some x \<longrightarrow> Status x \<noteq> StatusInFlight \<and> due (clock e) x \<and>
       PartitionNo x = hash_Partition (SubscriberID x) (partitions (d_own (sy_d s)))"
    "fair_env e" "ctx_err e = None"
    "\<forall>(tok, p) \<in> set (sy_pool s). p \<noteq> WExited \<longrightarrow> fst (claimBatch memory_store e tok (sy_d s)) = Some (Inr [])"
  shows "fst (PendingOrInFlight e (d_store (sy_d s))) = Inr 0 \<and>
    (\<forall>k x. row (d_store (sy_d s)) k = Some x \<longrightarrow>
       Status x = StatusDelivered \<or> Status x = StatusDeadLettered \<or>
       Status x = StatusRetained \<and> held_in (d_store (sy_d s)) (SubscriberID x))"
proof -
  let ?m = "d_store (sy_d s)"
  have inv: "mem_inv ?m"
    using mem_fenced.run_explained [OF assms(6) sys_inv_init [OF assms(1,2)]] by (simp add: explained_def sys_inv_def)
  then have hold: "hold_inv (mem_view ?m)" using mem_invD(3) by (auto simp: ainv_def)
  have none: "Status x \<noteq> StatusPending" if x: "row ?m k = Some x" for k x
  proof
    assume "Status x = StatusPending"
    then obtain j y where y: "row ?m j = Some y" "Status y = StatusPending" "first_in_line ?m y"
      using oldest_pending [OF x] assms(11) by blast
    have "\<not> held_in ?m (SubscriberID y)"
      using hold_invD(1) [OF hold, of j "arow_of y"] y(1,2) by (auto simp: unfinished_def)
    then obtain i tok p where i: "i < length (sy_pool s)" "sy_pool s ! i = (tok, p)" "p \<noteq> WExited"
      and served: "\<exists>ds. fst (claimBatch memory_store e tok (sy_d s)) = Some (Inr ds) \<and>
        (j \<in> ID ` set ds \<or> int (length ds) = claimBatch_size \<and> (\<forall>z \<in> set ds. SubscriberID z < SubscriberID y))"
      using waiting_row_served [OF assms(1-10) y(1,2) _ y(3)] assms(11-13) y(1) by blast
    have "fst (claimBatch memory_store e tok (sy_d s)) = Some (Inr [])"
      using assms(14) i nth_mem [OF i(1)] by auto
    then show False using served by (simp add: claimBatch_size_def)
  qed
  have "Status x = StatusDelivered \<or> Status x = StatusDeadLettered \<or> Status x = StatusRetained \<and> held_in ?m (SubscriberID x)"
    if x: "row ?m k = Some x" for k x
    using none [OF x] assms(11) x hold_invD(2) [OF hold, of k "arow_of x"] by (cases "Status x") auto
  moreover have "count_rows (\<lambda>x. Status x = StatusPending \<or> Status x = StatusInFlight) ?m = 0"
    using inv none assms(11) by (force simp: count_rows_def filter_empty_conv row_def mem_inv_def well_keyed_def)
  ultimately show ?thesis by (simp add: PendingOrInFlight_def assms(13))
qed

definition sample_settled :: "mem system" where
  "sample_settled = do_mark memory_store (live_env 4) 0 ok_result sample_posted"

lemma sample_settled_run: "mem_run (sys_init sample_d) sample_settled"
  unfolding sample_settled_def
  by (rule run_mark [OF _ rtranclp_trans [OF sample_ready_run pool_run_sys [OF sample_posted_run]]]) simp

lemma rows_all: "list_all (\<lambda>(k, x). P x) (byID m) \<Longrightarrow> row m k = Some x \<Longrightarrow> P x"
  by (auto simp: row_def list_all_iff dest!: map_of_SomeD)

lemma sample_settled_facts:
  "d_started (sy_d sample_settled)" "\<not> d_cancelled (sy_d sample_settled)" "d_generation (sy_d sample_settled) = 1"
  "d_workers (sy_d sample_settled) = 2"
  "list_all (\<lambda>(k, x). Status x \<noteq> StatusInFlight \<and> due 9 x \<and>
       PartitionNo x = hash_Partition (SubscriberID x) (partitions (d_own (sy_d sample_settled)))) (byID (d_store (sy_d sample_settled)))"
  "list_all (\<lambda>(tok, p). fst (claimBatch memory_store (live_env 9) tok (sy_d sample_settled)) = Some (Inr [])) (sy_pool sample_settled)"
  "byID (d_store (sy_d sample_settled)) \<noteq> []"
  by code_simp+

theorem quiet_pool_drained_witness:
  "byID (d_store (sy_d sample_settled)) \<noteq> [] \<and> fst (PendingOrInFlight (live_env 9) (d_store (sy_d sample_settled))) = Inr 0"
proof -
  have c: "\<not> cfg_OverlapPartitions sample_config" "cfg_PartitionsClaim sample_config = None" "partitions (d_own sample_d) \<le> max_int64"
    "d_workers (sy_d sample_settled) \<le> max_int64" "d_generation (sy_d sample_settled) \<noteq> 0"
    using ready_row(11) sample_settled_facts by (simp_all add: sample_config_def max_int64_def)
  have rows: "\<forall>k x. row (d_store (sy_d sample_settled)) k = Some x \<longrightarrow> Status x \<noteq> StatusInFlight \<and> due (clock (live_env 9)) x \<and>
       PartitionNo x = hash_Partition (SubscriberID x) (partitions (d_own (sy_d sample_settled)))"
    using rows_all [OF sample_settled_facts(5)] by simp
  have quiet: "\<forall>(tok, p) \<in> set (sy_pool sample_settled). p \<noteq> WExited \<longrightarrow>
      fst (claimBatch memory_store (live_env 9) tok (sy_d sample_settled)) = Some (Inr [])"
    using sample_settled_facts(6) by (auto simp: list_all_iff)
  show ?thesis
    using quiet_pool_drained [OF New_sample sample_sound c(1-3) sample_settled_run sample_settled_facts(1,2) c(5,4) rows _ _ quiet]
      sample_settled_facts(7) by simp
qed

end
