(* ===== verification/StoresRows.thy ===== *)
theory StoresRows
  imports PostgresRefine MemoryAdmit
begin

text \<open>
  The memory store (store/memory/memory.go) and the Postgres store (store/postgres/postgres.go) are two
  implementations of one interface. \<open>stores_agree m s\<close>: they hold the same rows, up to the nil payload that
  a NOT NULL column cannot store, the same gap records and the same next sequence numbers, and the
  Postgres store is not distributed. This theory has the relation and the retention pass, which keeps it:
  memory.go sorts what is retained and walks it, postgres.go runs two DELETEs, and both remove \<open>removed\<close>.
\<close>

section \<open>Rows\<close>

definition norm :: "delivery \<Rightarrow> delivery" where
  "norm d = d\<lparr>Payload := not_null (Payload d), Secret := not_null (Secret d)\<rparr>"

lemma norm_eqD:
  assumes "norm d = norm d'"
  shows "ID d = ID d'" "EventID d = EventID d'" "SubscriberID d = SubscriberID d'" "URL d = URL d'" "PartitionNo d = PartitionNo d'"
    "Sequence d = Sequence d'" "EventType d = EventType d'" "Status d = Status d'" "Attempt d = Attempt d'"
    "NextAttempt d = NextAttempt d'" "LastError d = LastError d'" "Owner d = Owner d'" "Generation d = Generation d'"
    "ClaimedAt d = ClaimedAt d'" "CreatedAt d = CreatedAt d'"
    "not_null (Payload d) = not_null (Payload d')" "not_null (Secret d) = not_null (Secret d')"
  using assms by (cases d; cases d'; simp add: norm_def)+

lemma norm_simps [simp]:
  "ID (norm d) = ID d" "SubscriberID (norm d) = SubscriberID d" "PartitionNo (norm d) = PartitionNo d"
  "Sequence (norm d) = Sequence d" "Status (norm d) = Status d" "NextAttempt (norm d) = NextAttempt d"
  "Owner (norm d) = Owner d" "Generation (norm d) = Generation d" "ClaimedAt (norm d) = ClaimedAt d"
  "CreatedAt (norm d) = CreatedAt d" "retained_of x (norm d) = retained_of x d"
  by (simp_all add: norm_def retained_of_def)

lemma norm_commutes:
  "norm (claim_row ow g t d) = claim_row ow g t (norm d)" "norm (release d) = release (norm d)"
  "norm (requeue_row t d) = requeue_row t (norm d)" "norm (d\<lparr>Status := st\<rparr>) = norm d\<lparr>Status := st\<rparr>"
  "norm (d\<lparr>LastError := e\<rparr>) = norm d\<lparr>LastError := e\<rparr>" "norm (d\<lparr>Attempt := a\<rparr>) = norm d\<lparr>Attempt := a\<rparr>"
  "norm (d\<lparr>NextAttempt := t\<rparr>) = norm d\<lparr>NextAttempt := t\<rparr>"
  by (cases d, simp add: norm_def claim_row_def release_def requeue_row_def)+

lemma norm_clone [simp]: "norm (cloneDelivery d) = norm d"
  by (cases d) (simp add: norm_def cloneDelivery_def copy_bytes_def not_null_def split: option.split)

definition rows_alike :: "mem \<Rightarrow> pgdb \<Rightarrow> bool" where
  "rows_alike m t \<longleftrightarrow> (\<forall>k. map_option norm (row m k) = map_option norm (map_of (deliveries t) k))"

lemma rows_alikeD:
  assumes "rows_alike m t"
  shows "row m k = Some d \<Longrightarrow> \<exists>d'. map_of (deliveries t) k = Some d' \<and> norm d = norm d'"
    "map_of (deliveries t) k = Some d' \<Longrightarrow> \<exists>d. row m k = Some d \<and> norm d = norm d'"
    "row m k = None \<longleftrightarrow> map_of (deliveries t) k = None"
proof -
  have a: "map_option norm (row m k) = map_option norm (map_of (deliveries t) k)" using assms by (simp add: rows_alike_def)
  show "row m k = Some d \<Longrightarrow> \<exists>d'. map_of (deliveries t) k = Some d' \<and> norm d = norm d'"
    using a by (cases "map_of (deliveries t) k") simp_all
  show "map_of (deliveries t) k = Some d' \<Longrightarrow> \<exists>d. row m k = Some d \<and> norm d = norm d'"
    using a by (cases "row m k") simp_all
  show "row m k = None \<longleftrightarrow> map_of (deliveries t) k = None"
    using a by (cases "row m k"; cases "map_of (deliveries t) k") simp_all
qed

lemma rows_alikeI:
  assumes "\<And>k. row m k = None \<Longrightarrow> map_of (deliveries t) k = None"
    "\<And>k d. row m k = Some d \<Longrightarrow> \<exists>d'. map_of (deliveries t) k = Some d' \<and> norm d = norm d'"
  shows "rows_alike m t"
  unfolding rows_alike_def
proof
  fix k show "map_option norm (row m k) = map_option norm (map_of (deliveries t) k)"
    using assms [of k] by (cases "row m k") auto
qed

text \<open>The same change on both sides.\<close>

lemma rows_alike_upd:
  assumes "rows_alike m t" "\<And>k. row m' k = map_option (f k) (row m k)"
    "\<And>k. map_of (deliveries t') k = map_option (g k) (map_of (deliveries t) k)"
    "\<And>k d d'. row m k = Some d \<Longrightarrow> map_of (deliveries t) k = Some d' \<Longrightarrow> norm d = norm d' \<Longrightarrow> norm (f k d) = norm (g k d')"
  shows "rows_alike m' t'"
proof (rule rows_alikeI)
  fix k assume "row m' k = None"
  then show "map_of (deliveries t') k = None" using rows_alikeD(3) [OF assms(1), of k] by (simp add: assms(2,3))
next
  fix k d assume "row m' k = Some d"
  then obtain d0 where d0: "row m k = Some d0" "d = f k d0" by (auto simp: assms(2))
  then show "\<exists>d'. map_of (deliveries t') k = Some d' \<and> norm d = norm d'"
    using rows_alikeD(1) [OF assms(1) d0(1)] assms(4) [OF d0(1)] by (auto simp: assms(3))
qed

section \<open>Subscribers\<close>

definition pg_meta :: "pgdb \<Rightarrow> string \<Rightarrow> subMeta" where
  "pg_meta t x = (case subscribers t x of None \<Rightarrow> new_meta | Some m \<Rightarrow> m)"

definition core :: "subMeta \<Rightarrow> bool \<times> bool \<times> int" where
  "core m = (suspended m, gap m, dropped m)"

definition last_of :: "(string \<rightharpoonup> int) \<Rightarrow> string \<Rightarrow> int" where
  "last_of q x = (case q x of None \<Rightarrow> 0 | Some n \<Rightarrow> n)"

definition stores_agree :: "mem \<Rightarrow> pg \<Rightarrow> bool" where
  "stores_agree m s \<longleftrightarrow> rows_alike m (db s) \<and> (\<forall>x. core (meta_of x m) = core (pg_meta (db s) x)) \<and>
     last_of (seq m) = last_of (subscriber_seq (db s)) \<and>
     retentionCount m = pg_retentionCount (proc s) \<and> retentionAge m = pg_retentionAge (proc s) \<and>
     neg_duration (retentionAge m) mod 1000 = 0 \<and> (\<forall>k d. row m k = Some d \<longrightarrow> CreatedAt d \<noteq> 0) \<and>
     partition_owners (db s) = [] \<and> \<not> distributedOwnership (proc s) \<and> \<not> SkipMarkOwnerGenCheck (proc s)"

text \<open>One moment of the two stores.\<close>

definition alike_env :: "env \<Rightarrow> pgenv \<Rightarrow> bool" where
  "alike_env e e' \<longleftrightarrow> fair_env e \<and> fair_pg e' \<and> pe_ctx e' = ctx_err e \<and> pe_clock e' = clock e \<and> pe_now e' = clock e \<and>
     0 < clock e \<and> clock e mod 1000 = 0 \<and> (\<forall>st. pe_fault e' st = None) \<and> (\<forall>k. \<not> pe_locked e' k)"

lemma held_core: "held_in m x = fst (core (meta_of x m))" "is_suspended t x = fst (core (pg_meta t x))"
  by (simp_all add: core_def is_suspended_def pg_meta_def new_meta_def split: option.split)

lemma agree_held: "stores_agree m s \<Longrightarrow> is_suspended (db s) x = held_in m x"
  unfolding stores_agree_def held_core by metis

section \<open>Retention\<close>

text \<open>The keys of the rows retention removes, for a store given by its look-up function.\<close>

definition removed :: "gotime \<Rightarrow> int \<Rightarrow> string \<Rightarrow> (string \<rightharpoonup> delivery) \<Rightarrow> string set" where
  "removed cutoff n x look = {k. \<exists>d. look k = Some d \<and> retained_of x d \<and> (CreatedAt d < cutoff \<or>
     nat n \<le> card {k'. \<exists>d'. look k' = Some d' \<and> retained_of x d' \<and> \<not> CreatedAt d' < cutoff \<and> Sequence d < Sequence d'})}"

definition without :: "string set \<Rightarrow> (string \<rightharpoonup> delivery) \<Rightarrow> (string \<rightharpoonup> delivery)" where
  "without R look = (\<lambda>k. if k \<in> R then None else look k)"

lemma ex_norm:
  "(\<And>d. Q (norm d) = Q d) \<Longrightarrow> map_option norm r = map_option norm r' \<Longrightarrow>
   (\<exists>d. r = Some d \<and> Q d) = (\<exists>d. r' = Some d \<and> Q d)"
  by (cases r; cases r') (simp_all, metis)

lemma removed_alike:
  assumes "\<And>k. map_option norm (look k) = map_option norm (look' k)"
  shows "removed c n x look = removed c n x look'"
proof -
  have newer: "{k'. \<exists>d'. look k' = Some d' \<and> retained_of x d' \<and> \<not> CreatedAt d' < c \<and> i < Sequence d'} =
      {k'. \<exists>d'. look' k' = Some d' \<and> retained_of x d' \<and> \<not> CreatedAt d' < c \<and> i < Sequence d'}" for i
    by (intro Collect_cong ex_norm assms) simp
  show ?thesis unfolding removed_def newer by (intro Collect_cong ex_norm assms) simp
qed

text \<open>A pass over \<open>x\<close>: the rows under \<open>R\<close> go, and the subscriber's record counts them.\<close>

definition counted :: "string set \<Rightarrow> subMeta \<Rightarrow> bool \<times> bool \<times> int" where
  "counted R m = (suspended m, gap m \<or> R \<noteq> {}, dropped m + int (card R))"

lemma counted_core: "core m = core m' \<Longrightarrow> counted R m = counted R m'"
  by (simp add: core_def counted_def)

lemma meta_of_drop_other: "SubscriberID d \<noteq> y \<Longrightarrow> meta_of y (dropRetainedLocked d r s) = meta_of y s"
  by (auto simp: dropRetainedLocked_def Let_def get_meta_def frame_simps split: prod.split option.splits)

lemma drop_all_other: "\<forall>(d, r) \<in> set ds. SubscriberID d \<noteq> y \<Longrightarrow> meta_of y (drop_all ds s) = meta_of y s"
  by (induction ds arbitrary: s) (auto simp: meta_of_drop_other)

lemma drop_all_settings:
  "retentionCount (drop_all ds s) = retentionCount s" "retentionAge (drop_all ds s) = retentionAge s"
proof -
  have one: "RetentionMaxCount (dropRetainedLocked d r s) = RetentionMaxCount s \<and> RetentionMaxAge (dropRetainedLocked d r s) = RetentionMaxAge s"
    for d r and s :: mem
    by (auto simp: dropRetainedLocked_def Let_def get_meta_def del_row_def put_meta_def split: prod.split option.split)
  have "RetentionMaxCount (drop_all ds s) = RetentionMaxCount s \<and> RetentionMaxAge (drop_all ds s) = RetentionMaxAge s"
    using one by (induction ds arbitrary: s) auto
  then show "retentionCount (drop_all ds s) = retentionCount s" "retentionAge (drop_all ds s) = retentionAge s"
    by (simp_all add: retentionCount_def retentionAge_def)
qed

lemma mem_retention:
  assumes "mem_inv m" "fair_env e" "\<forall>k d. row m k = Some d \<longrightarrow> CreatedAt d \<noteq> 0"
    "R = removed (age_cutoff m t) (retentionCount m) x (row m)"
  shows "row (applyRetentionLocked e x t m) = (\<lambda>k. if k \<in> R then None else row m k)"
    "core (meta_of y (applyRetentionLocked e x t m)) = (if y = x then counted R (meta_of x m) else core (meta_of y m))"
    "seq (applyRetentionLocked e x t m) = seq m"
    "retentionCount (applyRetentionLocked e x t m) = retentionCount m"
    "retentionAge (applyRetentionLocked e x t m) = retentionAge m"
proof -
  note wk = mem_invD(1) [OF assms(1)]
  let ?ds = "dropped_rows e x t m" and ?m = "applyRetentionLocked e x t m"
  have m': "?m = drop_all ?ds m" by (rule applyRetention_eq [OF assms(2) wk])
  have aged: "aged (age_cutoff m t) d \<longleftrightarrow> CreatedAt d < age_cutoff m t" if "row m k = Some d" for k d
    using assms(3) that by (simp add: aged_def IsZero_def zero_time_def)
  have newer: "newer_retained t x d m =
      {k'. \<exists>d'. row m k' = Some d' \<and> retained_of x d' \<and> \<not> CreatedAt d' < age_cutoff m t \<and> Sequence d < Sequence d'}" for d
    unfolding newer_retained_def using aged by (intro Collect_cong) metis
  have rows: "row ?m k = (if k \<in> R then None else row m k)" for k
    using aged [of k] unfolding retention_rows [OF assms(1,2)] newer assms(4) removed_def by (auto split: option.split)
  then show "row ?m = (\<lambda>k. if k \<in> R then None else row m k)" by blast
  have sub: "\<forall>(d, r) \<in> set ?ds. row m (ID d) = Some d \<and> SubscriberID d = x"
    using dropped_rows_stored [OF assms(1,2), of x t] by (auto simp: retained_of_def)
  have R: "R = (\<lambda>(d, r). ID d) ` set ?ds"
  proof (intro equalityI subsetI)
    fix k assume "k \<in> R"
    then have "row m k \<noteq> None" "row ?m k = None" using rows [of k] by (auto simp: assms(4) removed_def)
    then show "k \<in> (\<lambda>(d, r). ID d) ` set ?ds" unfolding m' by (simp add: drop_all_frame split: if_splits)
  next
    fix k assume k: "k \<in> (\<lambda>(d, r). ID d) ` set ?ds"
    then have "row ?m k = None" "row m k \<noteq> None" using sub unfolding m' by (auto simp: drop_all_frame)
    then show "k \<in> R" using rows [of k] by (simp split: if_splits)
  qed
  have n: "card R = length ?ds"
    unfolding R using distinct_card [OF distinct_dropped_rows [OF assms(2) wk]] by simp
  have E: "R \<noteq> {} \<longleftrightarrow> ?ds \<noteq> []" by (simp add: R)
  have sus: "suspended (meta_of x ?m) = suspended (meta_of x m)" using get_meta_simps(7) by (simp add: m' drop_all_frame)
  have x: "\<forall>(d, r) \<in> set ?ds. SubscriberID d = x" using sub by auto
  show "core (meta_of y ?m) = (if y = x then counted R (meta_of x m) else core (meta_of y m))"
  proof (cases "y = x")
    case True
    then show ?thesis
      using meta_of_drop_all(1,2) [OF x, of m] sus by (simp add: core_def counted_def E n m')
  next
    case False
    then have "\<forall>(d, r) \<in> set ?ds. SubscriberID d \<noteq> y" using x by auto
    from drop_all_other [OF this] show ?thesis using False by (simp add: m')
  qed
  show "seq ?m = seq m" by (simp add: m' drop_all_frame)
  show "retentionCount ?m = retentionCount m" "retentionAge ?m = retentionAge m" by (simp_all add: m' drop_all_settings)
qed

lemma drop_rows_meta:
  "is_suspended t x \<Longrightarrow> core (pg_meta (drop_rows x r ds t) y) =
     (if y = x then (True, gap (pg_meta t x) \<or> ds \<noteq> [], dropped (pg_meta t x) + int (length ds)) else core (pg_meta t y))"
proof (induction ds arbitrary: t)
  case Nil
  then show ?case by (auto simp: core_def is_suspended_def pg_meta_def split: option.split option.splits)
next
  case (Cons d ds)
  let ?t = "dropRetainedTx x (ID d) (Sequence d) r t"
  obtain m where m: "subscribers t x = Some m" "suspended m" using Cons.prems by (auto simp: is_suspended_def split: option.splits)
  have "is_suspended ?t x" by (simp add: dropRetainedTx_frame(3) [OF Cons.prems] Cons.prems)
  note IH = Cons.IH [OF this]
  have "gap (pg_meta ?t x)" "dropped (pg_meta ?t x) = dropped (pg_meta t x) + 1" "y \<noteq> x \<Longrightarrow> pg_meta ?t y = pg_meta t y"
    using m by (simp_all add: pg_meta_def dropRetainedTx_def Let_def)
  then show ?case unfolding drop_rows.simps IH by (cases "y = x") simp_all
qed

lemma retained_seq_strict:
  assumes "db_inv t"
  shows "sorted_wrt (\<lambda>d d'. Sequence d < Sequence d') (retained_by_seq p x t)"
proof -
  note r = retained_by_seq_props [OF db_invD(1) [OF assms], where p = p and x = x]
  have "distinct (map Sequence (retained_by_seq p x t))"
  proof -
    have "distinct (retained_by_seq p x t)" using r(1) by (simp add: distinct_map)
    moreover have "inj_on Sequence (set (retained_by_seq p x t))"
    proof (rule inj_onI)
      fix d d' assume d: "d \<in> set (retained_by_seq p x t)" "d' \<in> set (retained_by_seq p x t)" "Sequence d = Sequence d'"
      then have k: "map_of (deliveries t) (ID d) = Some d" "map_of (deliveries t) (ID d') = Some d'" "SubscriberID d = SubscriberID d'"
        using r(2) [of d] r(2) [of d'] by simp_all
      have "seq_inv (pg_view t)" using db_invD(2) [OF assms] by (simp add: ainv_def)
      from seq_invD(3) [OF this, of "ID d" "arow_of d" "ID d'" "arow_of d'"] have "ID d = ID d'"
        unfolding pg_view_simps k(1,2) option.map arow_of_simps using k(3) d(3) by blast
      then show "d = d'" using k(1,2) by (metis option.inject)
    qed
    ultimately show ?thesis by (simp add: distinct_map)
  qed
  with r(3) show ?thesis by (rule take_map_strict)
qed

lemma card_by_key:
  assumes "keyed T" "set xs = {d. map_of T (ID d) = Some d \<and> P d}"
  shows "card {y \<in> set xs. Q y} = card {k. \<exists>d. map_of T k = Some d \<and> P d \<and> Q d}"
proof -
  have "{k. \<exists>d. map_of T k = Some d \<and> P d \<and> Q d} = ID ` {y \<in> set xs. Q y}"
  proof (intro equalityI subsetI)
    fix k assume "k \<in> {k. \<exists>d. map_of T k = Some d \<and> P d \<and> Q d}"
    then obtain d where d: "map_of T k = Some d" "P d" "Q d" by blast
    have "ID d = k" using keyedD [OF assms(1) d(1)] .
    then show "k \<in> ID ` {y \<in> set xs. Q y}" using d by (intro image_eqI [of _ _ d]) (simp_all add: assms(2))
  qed (auto simp: assms(2))
  moreover have "inj_on ID {y \<in> set xs. Q y}"
    by (rule inj_onI) (use assms(2) in \<open>metis (mono_tags, lifting) mem_Collect_eq option.inject\<close>)
  ultimately show ?thesis by (simp add: card_image)
qed

text \<open>The two lists of a pass: \<open>old\<close> beyond the age, \<open>L\<close> what the first leaves, \<open>new\<close> the part of \<open>L\<close> over the count.\<close>

lemma aged_out_rows:
  assumes "keyed (deliveries t)"
  shows "d \<in> set (retained_by_seq (\<lambda>d. CreatedAt d < c) x t) \<longleftrightarrow>
      map_of (deliveries t) (ID d) = Some d \<and> retained_of x d \<and> CreatedAt d < c"
    "distinct (map ID (retained_by_seq p x t))"
    "d \<in> set (retained_by_seq (\<lambda>d. True) x t) \<longleftrightarrow> map_of (deliveries t) (ID d) = Some d \<and> retained_of x d"
  using retained_by_seq_props [OF assms] by (simp_all add: retained_of_def)

lemma rest_rows:
  assumes "\<And>d. d \<in> set old \<longleftrightarrow> look (ID d) = Some d \<and> retained_of x d \<and> CreatedAt d < c"
  shows "without (ID ` set old) look (ID d) = Some d \<and> retained_of x d \<longleftrightarrow>
    look (ID d) = Some d \<and> retained_of x d \<and> \<not> CreatedAt d < c"
proof (cases "look (ID d) = Some d \<and> retained_of x d")
  case True
  have "ID d \<in> ID ` set old \<longleftrightarrow> CreatedAt d < c"
  proof
    assume "ID d \<in> ID ` set old"
    then obtain d' where d': "d' \<in> set old" "ID d = ID d'" by blast
    then have "d' = d" using assms [of d'] True by (metis option.inject)
    then show "CreatedAt d < c" using assms [of d'] d'(1) by simp
  next
    assume "CreatedAt d < c"
    then show "ID d \<in> ID ` set old" using assms [of d] True by blast
  qed
  then show ?thesis using True by (simp add: without_def)
qed (auto simp: without_def)

lemma removed_lists:
  assumes "keyed T" "\<And>d. d \<in> set old \<longleftrightarrow> map_of T (ID d) = Some d \<and> retained_of x d \<and> CreatedAt d < c"
    "\<And>d. d \<in> set L \<longleftrightarrow> map_of T (ID d) = Some d \<and> (retained_of x d \<and> \<not> CreatedAt d < c)"
    "\<And>d. d \<in> set new \<longleftrightarrow> d \<in> set L \<and> nat n \<le> card {y \<in> set L. Sequence d < Sequence y}"
  shows "removed c n x (map_of T) = ID ` set old \<union> ID ` set new" "ID ` set old \<inter> ID ` set new = {}"
proof -
  have setL: "set L = {d. map_of T (ID d) = Some d \<and> (retained_of x d \<and> \<not> CreatedAt d < c)}" using assms(3) by blast
  have newer: "card {y \<in> set L. i < Sequence y} =
      card {k'. \<exists>d'. map_of T k' = Some d' \<and> retained_of x d' \<and> \<not> CreatedAt d' < c \<and> i < Sequence d'}" for i
    unfolding card_by_key [OF assms(1) setL] by simp
  show "removed c n x (map_of T) = ID ` set old \<union> ID ` set new"
  proof (intro equalityI subsetI)
    fix j assume "j \<in> removed c n x (map_of T)"
    then obtain d where d: "map_of T j = Some d" "retained_of x d"
        "CreatedAt d < c \<or> nat n \<le> card {y \<in> set L. Sequence d < Sequence y}"
      unfolding removed_def newer by blast
    have j: "j = ID d" using keyedD [OF assms(1) d(1)] by simp
    then have "d \<in> set old \<or> d \<in> set new" using assms(2-4) d by blast
    then show "j \<in> ID ` set old \<union> ID ` set new" using j by blast
  next
    fix j assume "j \<in> ID ` set old \<union> ID ` set new"
    then obtain d where d: "j = ID d" "d \<in> set old \<or> d \<in> set new" by blast
    then have "map_of T (ID d) = Some d \<and> retained_of x d \<and>
        (CreatedAt d < c \<or> nat n \<le> card {y \<in> set L. Sequence d < Sequence y})"
      using assms(2-4) by blast
    then show "j \<in> removed c n x (map_of T)" unfolding removed_def newer [symmetric] using d(1) by blast
  qed
  show "ID ` set old \<inter> ID ` set new = {}"
  proof (rule equals0I)
    fix j assume "j \<in> ID ` set old \<inter> ID ` set new"
    then obtain d d' where "d \<in> set old" "d' \<in> set new" "ID d = ID d'" by blast
    then show False using assms(2) [of d] assms(3,4) [of d'] by (metis option.inject)
  qed
qed

lemma pg_retention:
  assumes "db_inv t" "R = removed (micros (time_Add t0 (neg_duration (pg_retentionAge p)))) (pg_retentionCount p) x (map_of (deliveries t))"
  shows "map_of (deliveries (applyRetentionTx p x t0 t)) = (\<lambda>k. if k \<in> R then None else map_of (deliveries t) k)"
    "core (pg_meta (applyRetentionTx p x t0 t) y) = (if y = x then counted R (pg_meta t x) else core (pg_meta t y))"
    "subscriber_seq (applyRetentionTx p x t0 t) = subscriber_seq t"
    "partition_owners (applyRetentionTx p x t0 t) = partition_owners t"
proof -
  define c where "c = micros (time_Add t0 (neg_duration (pg_retentionAge p)))"
  define old where "old = retained_by_seq (\<lambda>d. CreatedAt d < c) x t"
  define t1 where "t1 = drop_rows x ''age'' old t"
  define L where "L = retained_by_seq (\<lambda>d. True) x t1"
  define new where "new = take (length L - nat (pg_retentionCount p)) L"
  have eq: "applyRetentionTx p x t0 t = drop_rows x ''count'' new t1"
    by (simp add: applyRetentionTx_def Let_def c_def old_def t1_def L_def new_def)
  show "subscriber_seq (applyRetentionTx p x t0 t) = subscriber_seq t"
    "partition_owners (applyRetentionTx p x t0 t) = partition_owners t"
    by (simp_all add: eq t1_def drop_rows_frame(4,5))
  note k = db_invD(1) [OF assms(1)]
  note old = aged_out_rows(1) [OF k, where x = x and c = c, folded old_def]
  have old_ids: "distinct (map ID old)" using aged_out_rows(2) [OF k] by (simp add: old_def)
  have i1: "db_inv t1"
    unfolding t1_def using old old_ids
    by (intro db_steps_inv [OF assms(1) drop_rows_steps [OF assms(1)]]) (auto simp: retained_of_def)
  note k1 = db_invD(1) [OF i1]
  note L = aged_out_rows(3) [OF k1, where x = x, folded L_def]
  show "map_of (deliveries (applyRetentionTx p x t0 t)) = (\<lambda>k. if k \<in> R then None else map_of (deliveries t) k)"
    "core (pg_meta (applyRetentionTx p x t0 t) y) = (if y = x then counted R (pg_meta t x) else core (pg_meta t y))"
  proof (atomize (full), cases "is_suspended t x")
    case False
    then have no: "\<not> retained_of x d" if "map_of (deliveries t) j = Some d" for j d
      using hold_invD(2) [of "pg_view t" j "arow_of d"] db_invD(2) [OF assms(1)] that by (auto simp: ainv_def retained_of_def)
    then have "old = []" using old by (metis list.set_intros(1) neq_Nil_conv)
    then have t1: "t1 = t" by (simp add: t1_def)
    have "L = []" using L no unfolding t1 by (metis list.set_intros(1) neq_Nil_conv)
    then have "applyRetentionTx p x t0 t = t" by (simp add: eq t1 new_def)
    moreover have "R = {}" using no by (auto simp: assms(2) removed_def)
    ultimately show "map_of (deliveries (applyRetentionTx p x t0 t)) = (\<lambda>k. if k \<in> R then None else map_of (deliveries t) k) \<and>
      core (pg_meta (applyRetentionTx p x t0 t) y) = (if y = x then counted R (pg_meta t x) else core (pg_meta t y))"
      by (simp add: counted_def core_def)
  next
    case True
    have look1: "map_of (deliveries t1) = without (ID ` set old) (map_of (deliveries t))" and sus1: "is_suspended t1 x"
      unfolding t1_def without_def using drop_rows_frame(1,3) [OF True] True by simp_all
    have inL: "d \<in> set L \<longleftrightarrow> map_of (deliveries t) (ID d) = Some d \<and> (retained_of x d \<and> \<not> CreatedAt d < c)" for d
      unfolding L look1 by (rule rest_rows [OF old])
    have new: "d \<in> set new \<longleftrightarrow> d \<in> set L \<and> nat (pg_retentionCount p) \<le> card {y \<in> set L. Sequence d < Sequence y}" for d
      using take_prefix_iff [OF retained_seq_strict [OF i1, of "\<lambda>d. True" x, folded L_def], of d]
      by (cases "d \<in> set L") (auto simp: new_def dest: in_set_takeD)
    note R = removed_lists [OF k old inL new, folded assms(2) [folded c_def]]
    have new_ids: "distinct (map ID new)" using aged_out_rows(2) [OF k1] by (simp add: new_def L_def distinct_take flip: take_map)
    have look: "map_of (deliveries (applyRetentionTx p x t0 t)) = (\<lambda>k. if k \<in> R then None else map_of (deliveries t) k)"
      unfolding eq drop_rows_frame(1) [OF sus1] look1 R(1) without_def by auto
    have n: "card R = length old + length new"
      unfolding R(1) using R(2) distinct_card [OF old_ids] distinct_card [OF new_ids] by (simp add: card_Un_disjoint)
    have "gap (pg_meta t1 x) = (gap (pg_meta t x) \<or> old \<noteq> [])" "dropped (pg_meta t1 x) = dropped (pg_meta t x) + int (length old)"
      "y \<noteq> x \<Longrightarrow> core (pg_meta t1 y) = core (pg_meta t y)"
      using drop_rows_meta [OF True, of "''age''" old x] drop_rows_meta [OF True, of "''age''" old y] by (simp_all add: t1_def core_def)
    moreover have "suspended (pg_meta t x)" using True by (simp add: held_core core_def)
    moreover have "R = {} \<longleftrightarrow> old = [] \<and> new = []" by (simp add: R(1))
    ultimately have "core (pg_meta (applyRetentionTx p x t0 t) y) = (if y = x then counted R (pg_meta t x) else core (pg_meta t y))"
      unfolding eq drop_rows_meta [OF sus1] by (cases "y = x") (simp_all add: counted_def n)
    then show "map_of (deliveries (applyRetentionTx p x t0 t)) = (\<lambda>k. if k \<in> R then None else map_of (deliveries t) k) \<and>
      core (pg_meta (applyRetentionTx p x t0 t) y) = (if y = x then counted R (pg_meta t x) else core (pg_meta t y))"
      using look by blast
  qed
qed

text \<open>What a call that goes through must keep.\<close>

lemma agreeI:
  assumes "stores_agree m s" "rows_alike m' (db s')" "\<And>x. core (meta_of x m') = core (pg_meta (db s') x)"
    "last_of (seq m') = last_of (subscriber_seq (db s'))" "\<And>k d. row m' k = Some d \<Longrightarrow> CreatedAt d \<noteq> 0"
    "retentionCount m' = retentionCount m" "retentionAge m' = retentionAge m"
    "partition_owners (db s') = partition_owners (db s)" "proc s' = proc s \<or> proc s' = (proc s)\<lparr>pg_notify := True\<rparr>"
  shows "stores_agree m' s'"
  using assms by (auto simp: stores_agree_def pg_retentionCount_def pg_retentionAge_def)

lemma agreeD:
  assumes "stores_agree m s"
  shows "rows_alike m (db s)" "core (meta_of x m) = core (pg_meta (db s) x)" "last_of (seq m) = last_of (subscriber_seq (db s))"
    "retentionCount m = pg_retentionCount (proc s)" "retentionAge m = pg_retentionAge (proc s)"
    "neg_duration (retentionAge m) mod 1000 = 0" "row m k = Some d \<Longrightarrow> CreatedAt d \<noteq> 0"
    "partition_owners (db s) = []" "\<not> distributedOwnership (proc s)" "\<not> SkipMarkOwnerGenCheck (proc s)"
  using assms unfolding stores_agree_def by blast+

lemma meta_of_signal: "meta_of x (signal m) = meta_of x m"
  by (simp add: get_meta_def frame_simps split: option.split)

lemma agree_signal [simp]:
  "stores_agree (signal m) s = stores_agree m s" "stores_agree m (pg_signal s) = stores_agree m s"
proof -
  have "retentionCount (signal m) = retentionCount m" "retentionAge (signal m) = retentionAge m"
    by (simp_all add: signal_def retentionCount_def retentionAge_def)
  moreover have "rows_alike (signal m) (db s) = rows_alike m (db s)" by (simp add: rows_alike_def store_simps)
  ultimately show "stores_agree (signal m) s = stores_agree m s"
    by (simp add: stores_agree_def meta_of_signal frame_simps store_simps)
  show "stores_agree m (pg_signal s) = stores_agree m s"
    by (simp add: stores_agree_def pg_signal_def pg_retentionCount_def pg_retentionAge_def)
qed

lemma micros_aligned: "t mod 1000 = 0 \<Longrightarrow> micros t = t"
  by (simp add: micros_def)

lemma agree_retention:
  assumes "stores_agree m s" "mem_inv m" "db_inv (db s)" "fair_env e" "t mod 1000 = 0"
  shows "stores_agree (applyRetentionLocked e x t m) (s\<lparr>db := applyRetentionTx (proc s) x t (db s)\<rparr>)"
proof -
  note a = agreeD [OF assms(1)]
  have c: "micros (time_Add t (neg_duration (pg_retentionAge (proc s)))) = age_cutoff m t"
    using assms(5) a(5,6) by (intro trans [OF micros_aligned]) (auto simp: time_Add_def age_cutoff_def)
  define R where "R = removed (age_cutoff m t) (retentionCount m) x (row m)"
  have R': "R = removed (micros (time_Add t (neg_duration (pg_retentionAge (proc s))))) (pg_retentionCount (proc s)) x (map_of (deliveries (db s)))"
    unfolding R_def c a(4) using a(1) by (intro removed_alike) (simp add: rows_alike_def)
  have created: "\<forall>k d. row m k = Some d \<longrightarrow> CreatedAt d \<noteq> 0" using a(7) by blast
  note M = mem_retention [OF assms(2,4) created R_def] and P = pg_retention [OF assms(3) R']
  show ?thesis
  proof (rule agreeI [OF assms(1)])
    show "rows_alike (applyRetentionLocked e x t m) (db (s\<lparr>db := applyRetentionTx (proc s) x t (db s)\<rparr>))"
      using a(1) M(1) P(1) by (auto simp: rows_alike_def)
    show "core (meta_of y (applyRetentionLocked e x t m)) = core (pg_meta (db (s\<lparr>db := applyRetentionTx (proc s) x t (db s)\<rparr>)) y)" for y
      using M(2) P(2) a(2) counted_core [OF a(2) [of x], of R] by simp
    show "CreatedAt d \<noteq> 0" if "row (applyRetentionLocked e x t m) k = Some d" for k d
      using that a(7) by (auto simp: M(1) split: if_splits)
  qed (use M(3-5) P(3,4) a(3) in simp_all)
qed

end
