(* ===== verification/StoresAgree.thy ===== *)
theory StoresAgree
  imports StoresRows
begin

text \<open>
  Marks, suspension, resumption and admission keep the two stores in agreement and answer alike.
\<close>

section \<open>Marks\<close>

lemma same_holder:
  assumes "stores_agree m s" "keyed (deliveries (db s))" "ow \<noteq> []"
  shows "(\<exists>d. requireOwner m k ow g = Inr d) \<longleftrightarrow>
    g \<noteq> 0 \<and> (\<exists>d'. map_of (deliveries (db s)) k = Some d' \<and> mark_where (proc s) k ow g d')"
proof
  assume "\<exists>d. requireOwner m k ow g = Inr d"
  then obtain d where d: "g \<noteq> 0" "row m k = Some d" "Status d = StatusInFlight" "Owner d = ow" "Generation d = g"
    by (auto simp: requireOwner_def split: if_splits option.splits)
  then obtain d' where d': "map_of (deliveries (db s)) k = Some d'" "norm d = norm d'"
    using rows_alikeD(1) [OF agreeD(1) [OF assms(1)]] by blast
  show "g \<noteq> 0 \<and> (\<exists>d'. map_of (deliveries (db s)) k = Some d' \<and> mark_where (proc s) k ow g d')"
    using d d' norm_eqD [OF d'(2)] keyedD [OF assms(2) d'(1)] assms(3) by (simp add: mark_where_def)
next
  assume "g \<noteq> 0 \<and> (\<exists>d'. map_of (deliveries (db s)) k = Some d' \<and> mark_where (proc s) k ow g d')"
  then obtain d' where d': "g \<noteq> 0" "map_of (deliveries (db s)) k = Some d'" "mark_where (proc s) k ow g d'" by blast
  then obtain d where d: "row m k = Some d" "norm d = norm d'"
    using rows_alikeD(2) [OF agreeD(1) [OF assms(1)]] by blast
  show "\<exists>d. requireOwner m k ow g = Inr d"
    using d d' norm_eqD [OF d(2)] agreeD(10) [OF assms(1)] by (simp add: requireOwner_def mark_where_def)
qed

lemma agree_mark_rows:
  assumes "stores_agree m s" "keyed (deliveries (db s))" "map_of (deliveries (db s)) k = Some d1" "mark_where (proc s) k ow g d1"
    "\<And>d. norm (f d) = f (norm d)"
  shows "rows_alike (set_row k f m) ((db s)\<lparr>deliveries := upd_where (mark_where (proc s) k ow g) f (deliveries (db s))\<rparr>)"
proof (rule rows_alike_upd [OF agreeD(1) [OF assms(1)]])
  show "row (set_row k f m) j = map_option (if j = k then f else id) (row m j)" for j
    by (simp add: store_simps option.map_id)
  show "map_of (deliveries ((db s)\<lparr>deliveries := upd_where (mark_where (proc s) k ow g) f (deliveries (db s))\<rparr>)) j =
      map_option (\<lambda>d. if mark_where (proc s) k ow g d then f d else d) (map_of (deliveries (db s)) j)" for j
    by (simp add: store_simps)
  fix j d d' assume d: "map_of (deliveries (db s)) j = Some d'" "norm d = norm d'"
  have "mark_where (proc s) k ow g d' \<longleftrightarrow> j = k"
  proof
    assume "mark_where (proc s) k ow g d'"
    then show "j = k" using keyedD [OF assms(2) d(1)] by (simp add: mark_where_def)
  qed (use assms(3,4) d(1) in simp)
  then show "norm ((if j = k then f else id) d) = norm (if mark_where (proc s) k ow g d' then f d' else d')"
    using d(2) assms(5) by simp
qed

lemma alike_envD:
  assumes "alike_env e e'"
  shows "fair_env e" "fair_pg e'" "pe_ctx e' = ctx_err e" "pe_clock e' = clock e" "pe_now e' = clock e" "0 < clock e"
    "clock e mod 1000 = 0" "pe_fault e' st = None" "\<not> pe_locked e' k" "micros (clock e) = clock e"
  using assms by (simp_all add: alike_env_def micros_def)

lemma meta_of_updates:
  "meta_of y (all_rows f m) = meta_of y m" "meta_of y (set_row k f m) = meta_of y m"
  "meta_of y (put_meta x r m) = (if y = x then r else meta_of y m)" "meta_of y (snd (get_meta x m)) = meta_of y m"
  by (auto simp: get_meta_def frame_simps split: option.split)

lemma settings_updates:
  "retentionCount (all_rows f m) = retentionCount m" "retentionCount (set_row k f m) = retentionCount m"
  "retentionCount (put_meta x r m) = retentionCount m" "retentionCount (snd (get_meta x m)) = retentionCount m"
  "retentionAge (all_rows f m) = retentionAge m" "retentionAge (set_row k f m) = retentionAge m"
  "retentionAge (put_meta x r m) = retentionAge m" "retentionAge (snd (get_meta x m)) = retentionAge m"
  by (simp_all add: retentionCount_def retentionAge_def all_rows_def set_row_def put_meta_def get_meta_def split: option.split)

lemma agree_mark:
  assumes "stores_agree m s" "keyed (deliveries (db s))" "alike_env e e'" "ow \<noteq> []"
    "\<And>d. norm (f d) = f (norm d)" "\<And>d. CreatedAt (f d) = CreatedAt d"
    "mm = (case ctx_err e of Some err \<Rightarrow> (Some (ECtx err), m) | None \<Rightarrow>
       (case requireOwner m k ow g of Inl err \<Rightarrow> (Some err, m) | Inr _ \<Rightarrow> (None, signal (set_row k (\<lambda>d. release (f d)) m))))"
  shows "(fst mm = None \<longleftrightarrow> fst (pg_mark e' k ow g f s) = None) \<and> stores_agree (snd mm) (snd (pg_mark e' k ow g f s))"
proof (cases "ctx_err e")
  case (Some err)
  then show ?thesis using assms(1,7) alike_envD(3) [OF assms(3)] by (simp add: pg_mark_def)
next
  case None
  note env = alike_envD [OF assms(3)]
  let ?w = "mark_where (proc s) k ow g" and ?T = "deliveries (db s)"
  show ?thesis
  proof (cases "requireOwner m k ow g")
    case (Inl err)
    then have "g = 0 \<or> cnt_where ?w ?T = 0"
      using same_holder [OF assms(1,2,4), of k g] cnt_where_zero [OF assms(2), of ?w] keyedD [OF assms(2)]
      by (fastforce simp: mark_where_def)
    then show ?thesis using assms(1) None Inl env(3,8) by (auto simp: pg_mark_def assms(7))
  next
    case (Inr d)
    then obtain d1 where d1: "g \<noteq> 0" "map_of ?T k = Some d1" "?w d1" using same_holder [OF assms(1,2,4), of k g] by blast
    then have "cnt_where ?w ?T \<noteq> 0" using cnt_where_zero [OF assms(2), of ?w] by blast
    then have pg: "pg_mark e' k ow g f s = (None, pg_signal (s\<lparr>db := (db s)\<lparr>deliveries := upd_where ?w (\<lambda>d. release (f d)) ?T\<rparr>\<rparr>))"
      using d1(1) None env(3,8) by (simp add: pg_mark_def comp_def)
    have "stores_agree (set_row k (\<lambda>d. release (f d)) m) (s\<lparr>db := (db s)\<lparr>deliveries := upd_where ?w (\<lambda>d. release (f d)) ?T\<rparr>\<rparr>)"
    proof (rule agreeI [OF assms(1)])
      show "rows_alike (set_row k (\<lambda>d. release (f d)) m) (db (s\<lparr>db := (db s)\<lparr>deliveries := upd_where ?w (\<lambda>d. release (f d)) ?T\<rparr>\<rparr>))"
        using agree_mark_rows [OF assms(1,2) d1(2,3), of "\<lambda>d. release (f d)"] assms(5) by (simp add: norm_commutes)
      show "CreatedAt d' \<noteq> 0" if "row (set_row k (\<lambda>d. release (f d)) m) j = Some d'" for j d'
        using that agreeD(7) [OF assms(1)] assms(6) by (auto simp: store_simps split: if_splits)
      show "core (meta_of x (set_row k (\<lambda>d. release (f d)) m)) =
          core (pg_meta (db (s\<lparr>db := (db s)\<lparr>deliveries := upd_where ?w (\<lambda>d. release (f d)) ?T\<rparr>\<rparr>)) x)" for x
        using agreeD(2) [OF assms(1), of x] meta_of_byID [of "set_row k (\<lambda>d. release (f d)) m" m x]
        by (simp add: frame_simps pg_meta_def)
    qed (use agreeD(3) [OF assms(1)] in \<open>simp_all add: frame_simps settings_updates\<close>)
    then show ?thesis using None Inr by (simp add: assms(7) pg)
  qed
qed

lemma agree_markTerminal:
  assumes "stores_agree m s" "keyed (deliveries (db s))" "alike_env e e'" "ow \<noteq> []"
  shows "(fst (markTerminal e k ow g st msg m) = None \<longleftrightarrow> fst (pg_markTerminal e' k ow g st msg s) = None) \<and>
    stores_agree (snd (markTerminal e k ow g st msg m)) (snd (pg_markTerminal e' k ow g st msg s))"
  unfolding pg_markTerminal_def
  by (rule agree_mark [OF assms]) (simp_all add: markTerminal_def norm_commutes)

lemma agree_MarkFailed:
  assumes "stores_agree m s" "keyed (deliveries (db s))" "alike_env e e'" "ow \<noteq> []" "nxt mod 1000 = 0"
  shows "(fst (MarkFailed e k ow g a nxt msg m) = None \<longleftrightarrow> fst (pg_MarkFailed e' k ow g a nxt msg s) = None) \<and>
    stores_agree (snd (MarkFailed e k ow g a nxt msg m)) (snd (pg_MarkFailed e' k ow g a nxt msg s))"
  unfolding pg_MarkFailed_def micros_aligned [OF assms(5)]
  by (rule agree_mark [OF assms(1-4)]) (simp_all add: MarkFailed_def norm_commutes)

section \<open>Suspension\<close>

lemma suspend_rows_meta:
  "core (meta_of y (suspend_rows k x msg m)) =
     (if y = x then (True, gap (meta_of x m), dropped (meta_of x m)) else core (meta_of y m))"
  "retentionCount (suspend_rows k x msg m) = retentionCount m" "retentionAge (suspend_rows k x msg m) = retentionAge m"
proof -
  let ?s1 = "set_row k (\<lambda>d. release (d\<lparr>Status := StatusDeadLettered, LastError := msg\<rparr>)) m"
  have eq: "suspend_rows k x msg m = all_rows (retain_row x) (put_meta x ((meta_of x ?s1)\<lparr>suspended := True\<rparr>) (snd (get_meta x ?s1)))"
    by (simp add: suspend_rows_def Let_def split: prod.split)
  show "core (meta_of y (suspend_rows k x msg m)) =
     (if y = x then (True, gap (meta_of x m), dropped (meta_of x m)) else core (meta_of y m))"
    "retentionCount (suspend_rows k x msg m) = retentionCount m" "retentionAge (suspend_rows k x msg m) = retentionAge m"
    unfolding eq by (simp_all add: meta_of_updates settings_updates core_def)
qed

lemma pg_suspend_meta:
  "core (pg_meta (pg_suspend x t) y) = (if y = x then (True, gap (pg_meta t x), dropped (pg_meta t x)) else core (pg_meta t y))"
  by (simp add: pg_suspend_def pg_meta_def core_def new_meta_def split: option.split)

lemma agree_suspend_rows:
  assumes "stores_agree m s" "keyed (deliveries (db s))" "map_of (deliveries (db s)) k = Some d1" "mark_where (proc s) k ow g d1"
  shows "stores_agree (suspend_rows k x msg m) (s\<lparr>db := pg_exhaust_rows (proc s) k ow g msg x (db s)\<rparr>)"
proof -
  let ?f = "\<lambda>d. release (d\<lparr>Status := StatusDeadLettered, LastError := msg\<rparr>)"
  let ?t = "(db s)\<lparr>deliveries := upd_where (mark_where (proc s) k ow g) ?f (deliveries (db s))\<rparr>"
  let ?p = "\<lambda>d. SubscriberID d = x \<and> Status d = StatusPending"
  have one: "rows_alike (set_row k ?f m) ?t"
    using agree_mark_rows [OF assms, of ?f] by (simp add: norm_commutes)
  have row: "row (suspend_rows k x msg m) j = map_option (retain_row x) (row (set_row k ?f m) j)" for j
    by (simp add: suspend_rows_frame(1) store_simps)
  show ?thesis
  proof (rule agreeI [OF assms(1)])
    show "rows_alike (suspend_rows k x msg m) (db (s\<lparr>db := pg_exhaust_rows (proc s) k ow g msg x (db s)\<rparr>))"
    proof (rule rows_alike_upd [OF one row])
      show "map_of (deliveries (db (s\<lparr>db := pg_exhaust_rows (proc s) k ow g msg x (db s)\<rparr>))) j =
          map_option (\<lambda>d. if ?p d then release (d\<lparr>Status := StatusRetained\<rparr>) else d) (map_of (deliveries ?t) j)" for j
        by (simp add: pg_exhaust_rows_def Let_def map_of_upd_where)
      show "norm (retain_row x d) = norm (if ?p d' then release (d'\<lparr>Status := StatusRetained\<rparr>) else d')"
        if "norm d = norm d'" for d d'
        using that norm_eqD(3,8) [OF that] by (simp add: retain_row_def norm_commutes)
    qed
    show "CreatedAt d \<noteq> 0" if "row (suspend_rows k x msg m) j = Some d" for j d
      using that agreeD(7) [OF assms(1)] by (auto simp: row store_simps retain_row_def split: if_splits)
    show "core (meta_of y (suspend_rows k x msg m)) = core (pg_meta (db (s\<lparr>db := pg_exhaust_rows (proc s) k ow g msg x (db s)\<rparr>)) y)" for y
    proof -
      have t: "pg_meta (t\<lparr>deliveries := T\<rparr>) z = pg_meta t z" for t T z by (simp add: pg_meta_def)
      have g: "gap (meta_of x m) = gap (pg_meta (db s) x)" "dropped (meta_of x m) = dropped (pg_meta (db s) x)"
        using agreeD(2) [OF assms(1), of x] by (simp_all add: core_def)
      show ?thesis
        using agreeD(2) [OF assms(1), of y] by (simp add: suspend_rows_meta pg_exhaust_rows_def Let_def t pg_suspend_meta g)
    qed
  qed (use agreeD(3) [OF assms(1)] in \<open>simp_all add: suspend_rows_frame(3) suspend_rows_meta pg_exhaust_rows_def Let_def\<close>)
qed

lemma agree_ExhaustAndSuspend:
  assumes "stores_agree m s" "mem_inv m" "pg_inv s" "alike_env e e'" "ow \<noteq> []"
  shows "(fst (ExhaustAndSuspend e k ow g msg m) = None \<longleftrightarrow> fst (pg_ExhaustAndSuspend e' k ow g msg s) = None) \<and>
    stores_agree (snd (ExhaustAndSuspend e k ow g msg m)) (snd (pg_ExhaustAndSuspend e' k ow g msg s))"
proof -
  have i: "db_inv (db s)" "keyed (deliveries (db s))" using assms(3) db_invD(1) by (auto simp: pg_inv_def)
  note env = alike_envD [OF assms(4)]
  show ?thesis
  proof (cases "\<exists>d. ctx_err e = None \<and> requireOwner m k ow g = Inr d")
    case False
    then have m: "fst (ExhaustAndSuspend e k ow g msg m) \<noteq> None" "snd (ExhaustAndSuspend e k ow g msg m) = m"
      by (auto simp: ExhaustAndSuspend_def split: option.split sum.split)
    have "\<not> (pe_ctx e' = None \<and> g \<noteq> 0 \<and> (\<exists>d. map_of (deliveries (db s)) k = Some d \<and> mark_where (proc s) k ow g d))"
      using False same_holder [OF assms(1) i(2) assms(5), of k g] env(3) by auto
    then show ?thesis using pg_ExhaustAndSuspend_cases [OF i(2), of e' k ow g msg] m assms(1) by auto
  next
    case True
    then obtain d where d: "ctx_err e = None" "requireOwner m k ow g = Inr d" by blast
    obtain d1 where d1: "g \<noteq> 0" "map_of (deliveries (db s)) k = Some d1" "mark_where (proc s) k ow g d1"
      using same_holder [OF assms(1) i(2) assms(5), of k g] d(2) by blast
    have "row m k = Some d" "Status d = StatusInFlight" using d(2) by (auto simp: requireOwner_def split: if_splits option.splits)
    then obtain d' where "map_of (deliveries (db s)) k = Some d'" "norm d = norm d'"
      using rows_alikeD(1) [OF agreeD(1) [OF assms(1)]] by blast
    then have sub: "SubscriberID d1 = SubscriberID d" using d1(2) norm_eqD(3) by (metis option.inject)
    let ?m = "suspend_rows k (SubscriberID d) msg m" and ?t = "pg_exhaust_rows (proc s) k ow g msg (SubscriberID d) (db s)"
    have pg: "pg_ExhaustAndSuspend e' k ow g msg s = (None, pg_signal (s\<lparr>db := applyRetentionTx (proc s) (SubscriberID d) (clock e) ?t\<rparr>))"
    proof -
      have "fst (pg_ExhaustAndSuspend e' k ow g msg s) = None"
      proof (cases "sel_where (mark_where (proc s) k ow g) (deliveries (db s))")
        case Nil
        have "d1 \<in> set (sel_where (mark_where (proc s) k ow g) (deliveries (db s)))"
          unfolding in_sel_where [OF i(2)] using d1(2,3) keyedD [OF i(2) d1(2)] by blast
        then show ?thesis using Nil by simp
      qed (use d1(1) d(1) env(3,8) in \<open>simp add: pg_ExhaustAndSuspend_def Let_def\<close>)
      then show ?thesis using pg_ExhaustAndSuspend_cases [OF i(2), of e' k ow g msg] d1(2) sub env(4) by auto
    qed
    have "mem_inv ?m"
      using refines_inv [OF assms(2) refines_suspend_rows [OF assms(2) \<open>row m k = Some d\<close> \<open>Status d = StatusInFlight\<close>]] .
    moreover have "db_inv ?t" using db_steps_inv [OF i(1) pg_exhaust_steps [OF i(1) d1(2,3) sub [symmetric], of msg]] .
    ultimately have "stores_agree (applyRetentionLocked e (SubscriberID d) (clock e) ?m)
        (s\<lparr>db := applyRetentionTx (proc s) (SubscriberID d) (clock e) ?t\<rparr>)"
      using agree_retention [OF agree_suspend_rows [OF assms(1) i(2) d1(2,3)], of _ _ e] env(1,7) by simp
    then show ?thesis by (simp add: ExhaustAndSuspend_Inr [OF d] pg)
  qed
qed

section \<open>Resumption\<close>

lemma resume_rows_meta:
  "core (meta_of y (resume_rows e x m)) = (if y = x then (False, False, 0) else core (meta_of y m))"
  "retentionCount (resume_rows e x m) = retentionCount m" "retentionAge (resume_rows e x m) = retentionAge m"
proof -
  have f: "meta_of z (fold (\<lambda>(k, d). set_row k f) ps s) = meta_of z s \<and> retentionCount (fold (\<lambda>(k, d). set_row k f) ps s) = retentionCount s \<and>
      retentionAge (fold (\<lambda>(k, d). set_row k f) ps s) = retentionAge s" for z f ps and s :: mem
    by (induction ps arbitrary: s) (auto simp: meta_of_updates settings_updates)
  define ps where "ps = sort_key (\<lambda>(k, d). Sequence d) (retained_keys x (snd (get_meta x m)) (row_keys e LResume (snd (get_meta x m))))"
  have eq: "resume_rows e x m = put_meta x ((meta_of x m)\<lparr>suspended := False, gap := False, dropped := 0, marker := []\<rparr>)
      (fold (\<lambda>(k, d). set_row k (requeue_row (clock e))) ps (snd (get_meta x m)))"
    unfolding resume_rows_def Let_def ps_def by (cases "get_meta x m") simp
  show "core (meta_of y (resume_rows e x m)) = (if y = x then (False, False, 0) else core (meta_of y m))"
    by (cases "y = x") (simp_all add: eq meta_of_updates f, simp add: core_def)
  show "retentionCount (resume_rows e x m) = retentionCount m" "retentionAge (resume_rows e x m) = retentionAge m"
    by (simp_all add: eq settings_updates f)
qed

lemma agree_resume_rows:
  assumes "stores_agree m s" "well_keyed m" "alike_env e e'"
  shows "stores_agree (resume_rows e x m) (s\<lparr>db := pg_resume_rows (micros (clock e)) x r (db s)\<rparr>)"
proof (rule agreeI [OF assms(1)])
  note f = resume_rows_frame [OF alike_envD(1) [OF assms(3)] assms(2), of x]
  let ?p = "\<lambda>d. SubscriberID d = x \<and> Status d = StatusRetained"
  show "rows_alike (resume_rows e x m) (db (s\<lparr>db := pg_resume_rows (micros (clock e)) x r (db s)\<rparr>))"
  proof (rule rows_alike_upd [OF agreeD(1) [OF assms(1)] f(1)])
    show "map_of (deliveries (db (s\<lparr>db := pg_resume_rows (micros (clock e)) x r (db s)\<rparr>))) j =
        map_option (\<lambda>d. if ?p d then requeue_row (clock e) d else d) (map_of (deliveries (db s)) j)" for j
      using alike_envD(10) [OF assms(3)] by (simp add: pg_resume_rows_def map_of_upd_where)
    show "norm (if ?p d then requeue_row (clock e) d else d) = norm (if ?p d' then requeue_row (clock e) d' else d')"
      if "norm d = norm d'" for d d'
      using that norm_eqD(3,8) [OF that] by (simp add: norm_commutes)
  qed
  show "CreatedAt d \<noteq> 0" if "row (resume_rows e x m) j = Some d" for j d
    using that agreeD(7) [OF assms(1)] by (auto simp: f(1) requeue_row_def split: if_splits)
  show "core (meta_of y (resume_rows e x m)) = core (pg_meta (db (s\<lparr>db := pg_resume_rows (micros (clock e)) x r (db s)\<rparr>)) y)" for y
    using agreeD(2) [OF assms(1), of y] by (simp add: resume_rows_meta pg_resume_rows_def pg_meta_def) (simp add: core_def)
  show "last_of (seq (resume_rows e x m)) = last_of (subscriber_seq (db (s\<lparr>db := pg_resume_rows (micros (clock e)) x r (db s)\<rparr>)))"
    using agreeD(3) [OF assms(1)] by (simp add: f(3) pg_resume_rows_def)
qed (simp_all add: resume_rows_meta pg_resume_rows_def)

text \<open>The table need not know the subscriber: then it has nothing retained.\<close>

lemma agree_resume_unknown:
  assumes "stores_agree m s" "well_keyed m" "alike_env e e'" "db_inv (db s)" "subscribers (db s) x = None"
  shows "stores_agree (resume_rows e x m) s"
proof (rule agreeI [OF assms(1)])
  note f = resume_rows_frame [OF alike_envD(1) [OF assms(3)] assms(2), of x]
  have sus: "\<not> is_suspended (db s) x" using assms(5) by (simp add: is_suspended_def)
  have no: "\<not> (SubscriberID d = x \<and> Status d = StatusRetained)" if d: "row m j = Some d" for j d
  proof -
    obtain d' where d': "map_of (deliveries (db s)) j = Some d'" "norm d = norm d'"
      using rows_alikeD(1) [OF agreeD(1) [OF assms(1)] d] by blast
    then show ?thesis
      using hold_invD(2) [of "pg_view (db s)" j "arow_of d'"] db_invD(2) [OF assms(4)] sus norm_eqD(3,8) [OF d'(2)]
      by (auto simp: ainv_def)
  qed
  have row: "row (resume_rows e x m) j = row m j" for j
    using no [of j] by (cases "row m j") (auto simp: f(1))
  show "rows_alike (resume_rows e x m) (db s)" using agreeD(1) [OF assms(1)] by (simp add: rows_alike_def row)
  show "core (meta_of y (resume_rows e x m)) = core (pg_meta (db s) y)" for y
    using agreeD(2) [OF assms(1), of y] assms(5) by (simp add: resume_rows_meta) (simp add: pg_meta_def core_def new_meta_def)
  show "CreatedAt d \<noteq> 0" if "row (resume_rows e x m) j = Some d" for j d using that agreeD(7) [OF assms(1)] by (simp add: row)
  show "last_of (seq (resume_rows e x m)) = last_of (subscriber_seq (db s))" using agreeD(3) [OF assms(1)] by (simp add: f(3))
qed (simp_all add: resume_rows_meta)

fun same_gap :: "store_error + GapInfo \<Rightarrow> store_error + GapInfo \<Rightarrow> bool" where
  "same_gap (Inr g) (Inr g') = (Occurred g = Occurred g' \<and> Dropped g = Dropped g')"
| "same_gap (Inl _) (Inl _) = True"
| "same_gap _ _ = False"

lemma agree_Resume:
  assumes "stores_agree m s" "mem_inv m" "pg_inv s" "alike_env e e'"
  shows "same_gap (fst (Resume e x m)) (fst (pg_Resume e' x s)) \<and> stores_agree (snd (Resume e x m)) (snd (pg_Resume e' x s))"
proof (cases "ctx_err e = None \<and> x \<noteq> []")
  case False
  then show ?thesis using assms(1) alike_envD(3) [OF assms(4)] by (auto simp: Resume_def pg_Resume_def split: option.split)
next
  case True
  note env = alike_envD [OF assms(4)]
  have i: "db_inv (db s)" using assms(3) by (simp add: pg_inv_def)
  let ?m1 = "applyRetentionLocked e x (clock e) m" and ?t1 = "applyRetentionTx (proc s) x (clock e) (db s)"
  have a1: "stores_agree ?m1 (s\<lparr>db := ?t1\<rparr>)" by (rule agree_retention [OF assms(1,2) i env(1,7)])
  have i1: "mem_inv ?m1" "db_inv ?t1"
    using refines_inv [OF assms(2) refines_retention [OF assms(2) env(1)]] db_steps_inv [OF i retention_steps [OF i]] by blast+
  have core: "core (meta_of x ?m1) = core (pg_meta ?t1 x)" using agreeD(2) [OF a1, of x] by simp
  have mem: "fst (Resume e x m) = Inr \<lparr>Occurred = gap (meta_of x ?m1), Dropped = dropped (meta_of x ?m1), Marker = marker (meta_of x ?m1)\<rparr>"
    using Resume_result [of e x m] True by (simp add: Let_def)
  note pg = pg_Resume_eq [of e' x s, unfolded env(3,4) Let_def]
  show ?thesis
  proof (cases "subscribers ?t1 x")
    case None
    have "stores_agree (resume_rows e x ?m1) (s\<lparr>db := ?t1\<rparr>)"
      using agree_resume_unknown [OF a1 mem_invD(1) [OF i1(1)] assms(4), of x] i1(2) None by simp
    then show ?thesis using core None True env(8) pg
      by (simp add: mem Resume_Inr no_gap_def pg_meta_def core_def new_meta_def)
  next
    case (Some r)
    have "stores_agree (resume_rows e x ?m1) (s\<lparr>db := pg_resume_rows (micros (clock e)) x r ?t1\<rparr>)"
      using agree_resume_rows [OF a1 mem_invD(1) [OF i1(1)] assms(4), of x r] by simp
    then show ?thesis using core Some True env(8) pg
      by (simp add: mem Resume_Inr pg_meta_def core_def)
  qed
qed

section \<open>Admission\<close>

lemma norm_stored:
  assumes "t mod 1000 = 0"
  shows "norm (stored_row t n b d) = norm (pg_stored_row t n b d)"
proof -
  have "not_null (copy_bytes z) = not_null z" "not_null (not_null z) = not_null z" for z
    by (auto simp: not_null_def copy_bytes_def split: option.split)
  then show ?thesis
    by (cases d) (simp add: norm_def stored_row_def pg_stored_row_def micros_aligned [OF assms])
qed

lemma stored_not_taken:
  assumes "db_inv t" "map_of (deliveries t) (ID d) = None"
  shows "\<not> key_taken (pg_stored_row t0 (pg_next_seq t (SubscriberID d)) b d) (deliveries t)"
proof
  let ?x = "SubscriberID d"
  assume "key_taken (pg_stored_row t0 (pg_next_seq t ?x) b d) (deliveries t)"
  then obtain k d' where d': "(k, d') \<in> set (deliveries t)" "k = ID d \<or> SubscriberID d' = ?x \<and> Sequence d' = pg_next_seq t ?x"
    by (auto simp: key_taken_def list_ex_iff)
  have look: "map_of (deliveries t) k = Some d'"
    using d'(1) db_invD(1) [OF assms(1)] by (simp add: keyed_def)
  then have "Sequence d' \<le> last_seq (pg_view t) (SubscriberID d')"
    using seq_invD(2) [of "pg_view t" k "arow_of d'"] db_invD(2) [OF assms(1)] by (simp add: ainv_def)
  then show False using look d'(2) assms(2) by (auto simp: pg_next_seq_def split: option.splits)
qed

lemma suspend_gate_meta:
  "meta_of y (snd (suspend_gate x s)) = meta_of y s" "retentionCount (snd (suspend_gate x s)) = retentionCount s"
  "retentionAge (snd (suspend_gate x s)) = retentionAge s"
  using meta_of_updates(4) [of y x s] settings_updates(4,8) [of x s] by (auto simp: suspend_gate_def split: prod.split)

lemma enqueue_row_meta:
  "core (meta_of y (enqueue_row t d m)) = core (meta_of y m)"
  "retentionCount (enqueue_row t d m) = retentionCount m" "retentionAge (enqueue_row t d m) = retentionAge m"
proof -
  have p: "meta_of y (put_row k r s) = meta_of y s" "retentionCount (put_row k r s) = retentionCount s"
    "retentionAge (put_row k r s) = retentionAge s" for k r and s :: mem
    by (simp_all add: get_meta_def put_row_def retentionCount_def retentionAge_def split: option.split)
  have q: "meta_of y (s\<lparr>seq := q\<rparr>) = meta_of y s" "retentionCount (s\<lparr>seq := q\<rparr>) = retentionCount s"
    "retentionAge (s\<lparr>seq := q\<rparr>) = retentionAge s" for q and s :: mem
    by (simp_all add: get_meta_def retentionCount_def retentionAge_def split: option.split)
  have eq: "enqueue_row t d m = put_row (ID d) (stored_row t (next_seq m (SubscriberID d))
        (fst (suspend_gate (SubscriberID d) (m\<lparr>seq := (seq m)(SubscriberID d \<mapsto> next_seq m (SubscriberID d))\<rparr>))) d)
      (snd (suspend_gate (SubscriberID d) (m\<lparr>seq := (seq m)(SubscriberID d \<mapsto> next_seq m (SubscriberID d))\<rparr>)))"
    by (simp add: enqueue_row_def Let_def split: prod.split)
  show "core (meta_of y (enqueue_row t d m)) = core (meta_of y m)"
    "retentionCount (enqueue_row t d m) = retentionCount m" "retentionAge (enqueue_row t d m) = retentionAge m"
    by (simp_all only: eq p suspend_gate_meta q)
qed

lemma agree_enqueue_row:
  assumes "stores_agree m s" "gates_on m" "row m (ID d) = None" "0 < t" "t mod 1000 = 0"
  shows "stores_agree (enqueue_row t d m) (s\<lparr>db := pg_enqueue_row t d (db s)\<rparr>)"
proof (rule agreeI [OF assms(1)])
  let ?x = "SubscriberID d"
  note f = enqueue_row_frame [OF assms(2), of t d]
  have look: "map_of (deliveries (db s)) (ID d) = None" using rows_alikeD(3) [OF agreeD(1) [OF assms(1)]] assms(3) by simp
  have last: "last_of (seq m) x = last_of (subscriber_seq (db s)) x" for x using agreeD(3) [OF assms(1)] by simp
  have n: "next_seq m ?x = pg_next_seq (db s) ?x"
    using last [of ?x] by (auto simp: next_seq_def pg_next_seq_def last_of_def split: option.splits)
  have new: "deliveries (pg_enqueue_row t d (db s)) =
      deliveries (db s) @ [(ID d, pg_stored_row t (next_seq m ?x) (held_in m ?x) d)]"
    by (simp add: pg_enqueue_row_def n agree_held [OF assms(1)])
  show "rows_alike (enqueue_row t d m) (db (s\<lparr>db := pg_enqueue_row t d (db s)\<rparr>))"
    using agreeD(1) [OF assms(1)] norm_stored [OF assms(5)]
    by (simp add: rows_alike_def f(1) new map_of_snoc [OF look] del: map_of_append)
  show "CreatedAt r \<noteq> 0" if "row (enqueue_row t d m) k = Some r" for k r
    using that agreeD(7) [OF assms(1)] assms(4) by (auto simp: f(1) stored_row_def split: if_splits)
  show "last_of (seq (enqueue_row t d m)) = last_of (subscriber_seq (db (s\<lparr>db := pg_enqueue_row t d (db s)\<rparr>)))"
    using last n by (auto simp: f(4) pg_enqueue_row_def last_of_def fun_eq_iff)
  show "core (meta_of y (enqueue_row t d m)) = core (pg_meta (db (s\<lparr>db := pg_enqueue_row t d (db s)\<rparr>)) y)" for y
    using agreeD(2) [OF assms(1), of y] by (simp add: enqueue_row_meta pg_enqueue_row_def pg_meta_def)
qed (simp_all add: enqueue_row_meta pg_enqueue_row_def)

lemma agree_enqueue_loop:
  assumes "stores_agree m s" "mem_inv m" "db_inv (db s)" "admissible m ds" "0 < t" "t mod 1000 = 0"
  shows "\<exists>m' t' touched'. enqueue_loop t ds m touched = (None, m', touched') \<and>
    pg_enqueue_loop False t ds (db s) touched = Inr (t', touched') \<and>
    stores_agree m' (s\<lparr>db := t'\<rparr>) \<and> mem_inv m' \<and> db_inv t'"
  using assms
proof (induction ds arbitrary: m s touched)
  case Nil
  then show ?case by simp
next
  case (Cons d ds)
  note g = mem_invD(2) [OF Cons.prems(2)]
  have d: "ID d \<noteq> []" "SubscriberID d \<noteq> []" "row m (ID d) = None" "admissible (enqueue_row t d m) ds"
    using Cons.prems(4) unfolding admissible_Cons [OF g, of d ds t] by blast+
  have look: "map_of (deliveries (db s)) (ID d) = None" using rows_alikeD(3) [OF agreeD(1) [OF Cons.prems(1)]] d(3) by simp
  let ?s = "s\<lparr>db := pg_enqueue_row t d (db s)\<rparr>"
  let ?touched = "if held_in m (SubscriberID d) then List.insert (SubscriberID d) touched else touched"
  have pg: "pg_enqueue_loop False t (d # ds) (db s) touched = pg_enqueue_loop False t ds (pg_enqueue_row t d (db s)) ?touched"
    using d(1,2) stored_not_taken [OF Cons.prems(3) look] agree_held [OF Cons.prems(1)]
    by (simp add: Let_def pg_enqueue_row_def)
  have "\<exists>m' t' touched'. enqueue_loop t ds (enqueue_row t d m) ?touched = (None, m', touched') \<and>
    pg_enqueue_loop False t ds (db ?s) ?touched = Inr (t', touched') \<and> stores_agree m' (?s\<lparr>db := t'\<rparr>) \<and> mem_inv m' \<and> db_inv t'"
    using agree_enqueue_row [OF Cons.prems(1) g d(3) Cons.prems(5,6)] refines_inv [OF Cons.prems(2) refines_enqueue_row [OF Cons.prems(2) d(3)]]
      db_steps_inv [OF Cons.prems(3) pg_enqueue_row_steps [OF Cons.prems(3) look]] d(4) Cons.prems(5,6)
    by (intro Cons.IH) simp_all
  then show ?case unfolding enqueue_loop_step [OF g d(1-3)] pg by simp
qed

text \<open>Retention over several subscribers, in any order and with repetitions.\<close>

definition removed_all :: "gotime \<Rightarrow> int \<Rightarrow> string list \<Rightarrow> (string \<rightharpoonup> delivery) \<Rightarrow> string set" where
  "removed_all c n xs look = (\<Union>x \<in> set xs. removed c n x look)"

lemma removed_once:
  assumes "finite {k. look k \<noteq> None}"
  shows "removed c n y (without (removed c n x look) look) = (if y = x then {} else removed c n y look)"
proof (cases "y = x")
  case True
  define l where "l = without (removed c n x look) look"
  have l: "l k = Some d \<longleftrightarrow> k \<notin> removed c n x look \<and> look k = Some d" for k d by (simp add: l_def without_def)
  have "\<not> k \<in> removed c n x l" for k
  proof
    let ?new = "\<lambda>l i. {k'. \<exists>d'. l k' = Some d' \<and> retained_of x d' \<and> \<not> CreatedAt d' < c \<and> i < Sequence d'}"
    assume "k \<in> removed c n x l"
    then obtain d where "l k = Some d" and d: "retained_of x d" "CreatedAt d < c \<or> nat n \<le> card (?new l (Sequence d))"
      unfolding removed_def [of c n x l] by blast
    then have k: "k \<notin> removed c n x look" "look k = Some d" by (simp_all add: l)
    have "card (?new l (Sequence d)) \<le> card (?new look (Sequence d))"
      by (rule card_mono, rule finite_subset [OF _ assms]) (auto simp: l)
    then have "CreatedAt d < c \<or> nat n \<le> card (?new look (Sequence d))" using d(2) by linarith
    then show False using k d(1) unfolding removed_def by blast
  qed
  then have "removed c n x (without (removed c n x look) look) = {}" by (auto simp: l_def)
  then show ?thesis using True by simp
next
  case False
  have "(without (removed c n x look) look) k = Some d \<and> retained_of y d \<longleftrightarrow> look k = Some d \<and> retained_of y d" for k d
    using False by (auto simp: without_def removed_def retained_of_def)
  then have "removed c n y (without (removed c n x look) look) = removed c n y look"
    unfolding removed_def by (simp only: conj_assoc [symmetric])
  then show ?thesis using False by simp
qed

lemma removed_all_Cons:
  assumes "finite {k. look k \<noteq> None}"
  shows "without (removed_all c n xs (without (removed c n x look) look)) (without (removed c n x look) look) =
    without (removed_all c n (x # xs) look) look"
proof -
  have "removed_all c n xs (without (removed c n x look) look) = (\<Union>y \<in> set xs. if y = x then {} else removed c n y look)"
    by (simp add: removed_all_def removed_once [OF assms])
  moreover have "(\<Union>y \<in> set (x # xs). removed c n y look) =
      removed c n x look \<union> (\<Union>y \<in> set xs. if y = x then {} else removed c n y look)"
    by (auto split: if_splits)
  ultimately show ?thesis by (simp add: without_def removed_all_def fun_eq_iff)
qed

lemma mem_retention_all:
  assumes "mem_inv m" "fair_env e" "\<forall>k d. row m k = Some d \<longrightarrow> CreatedAt d \<noteq> 0"
    "m' = fold (\<lambda>x. applyRetentionLocked e x t) xs m" "c = age_cutoff m t" "n = retentionCount m"
  shows "row m' = without (removed_all c n xs (row m)) (row m) \<and>
    (\<forall>y. core (meta_of y m') = (if y \<in> set xs then counted (removed c n y (row m)) (meta_of y m) else core (meta_of y m))) \<and>
    seq m' = seq m \<and> retentionCount m' = retentionCount m \<and> retentionAge m' = retentionAge m"
  using assms
proof (induction xs arbitrary: m)
  case Nil
  then show ?case by (simp add: without_def removed_all_def)
next
  case (Cons x xs)
  let ?m = "applyRetentionLocked e x t m"
  note M = mem_retention [OF Cons.prems(1-3) refl, where t = t and x = x, folded Cons.prems(5,6) without_def]
  have fin: "finite {k. row m k \<noteq> None}" using finite_dom_map_of [of "byID m"] by (simp add: row_def dom_def)
  have c: "c = age_cutoff ?m t" "n = retentionCount ?m" using Cons.prems(5,6) M(4,5) by (simp_all add: age_cutoff_def)
  have created: "\<forall>k d. row ?m k = Some d \<longrightarrow> CreatedAt d \<noteq> 0"
    using Cons.prems(3) by (simp add: M(1) without_def)
  have IH: "row m' = without (removed_all c n xs (row ?m)) (row ?m) \<and>
      (\<forall>y. core (meta_of y m') = (if y \<in> set xs then counted (removed c n y (row ?m)) (meta_of y ?m) else core (meta_of y ?m))) \<and>
      seq m' = seq ?m \<and> retentionCount m' = retentionCount ?m \<and> retentionAge m' = retentionAge ?m"
    using refines_inv [OF Cons.prems(1) refines_retention [OF Cons.prems(1,2)]] created c Cons.prems(2,4)
    by (intro Cons.IH) simp_all
  have "core (meta_of y m') = (if y \<in> set (x # xs) then counted (removed c n y (row m)) (meta_of y m) else core (meta_of y m))" for y
  proof -
    have "core (meta_of y m') = (if y \<in> set xs then counted (removed c n y (row ?m)) (meta_of y ?m) else core (meta_of y ?m))"
      using IH by blast
    then show ?thesis using M(2) [where y = y] removed_once [OF fin, of c n y x]
      by (cases "y = x"; cases "y \<in> set xs") (auto simp: M(1) counted_def core_def)
  qed
  moreover have "row m' = without (removed_all c n (x # xs) (row m)) (row m)"
    using IH removed_all_Cons [OF fin, of c n xs x] by (simp add: M(1))
  ultimately show ?case using IH M(3-5) Cons.prems(6) by simp
qed

lemma pg_retention_all:
  assumes "db_inv t" "t' = fold (\<lambda>x. applyRetentionTx p x t0) xs t"
    "c = micros (time_Add t0 (neg_duration (pg_retentionAge p)))" "n = pg_retentionCount p" "look = map_of (deliveries t)"
  shows "map_of (deliveries t') = without (removed_all c n xs look) look \<and>
    (\<forall>y. core (pg_meta t' y) = (if y \<in> set xs then counted (removed c n y look) (pg_meta t y) else core (pg_meta t y))) \<and>
    subscriber_seq t' = subscriber_seq t \<and> partition_owners t' = partition_owners t"
  using assms
proof (induction xs arbitrary: t look)
  case Nil
  then show ?case by (simp add: without_def removed_all_def)
next
  case (Cons x xs)
  let ?t = "applyRetentionTx p x t0 t" and ?look = "without (removed c n x look) look"
  have R: "removed c n x look = removed (micros (time_Add t0 (neg_duration (pg_retentionAge p)))) (pg_retentionCount p) x (map_of (deliveries t))"
    by (simp only: Cons.prems(3-5))
  note P = pg_retention [OF Cons.prems(1) R, folded Cons.prems(5) without_def]
  have fin: "finite {k. look k \<noteq> None}"
    using finite_dom_map_of [of "deliveries t"] by (simp add: Cons.prems(5) dom_def)
  have IH: "map_of (deliveries t') = without (removed_all c n xs ?look) ?look \<and>
    (\<forall>y. core (pg_meta t' y) = (if y \<in> set xs then counted (removed c n y ?look) (pg_meta ?t y) else core (pg_meta ?t y))) \<and>
    subscriber_seq t' = subscriber_seq ?t \<and> partition_owners t' = partition_owners ?t"
    using db_steps_inv [OF Cons.prems(1) retention_steps [OF Cons.prems(1)]] P(1) Cons.prems
    by (intro Cons.IH) simp_all
  have "core (pg_meta t' y) = (if y \<in> set (x # xs) then counted (removed c n y look) (pg_meta t y) else core (pg_meta t y))" for y
  proof -
    have "core (pg_meta t' y) = (if y \<in> set xs then counted (removed c n y ?look) (pg_meta ?t y) else core (pg_meta ?t y))"
      using IH by blast
    then show ?thesis using P(2) [where y = y] removed_once [OF fin, of c n y x]
      by (cases "y = x"; cases "y \<in> set xs") (auto simp: counted_def core_def)
  qed
  moreover have "map_of (deliveries t') = without (removed_all c n (x # xs) look) look"
    using IH removed_all_Cons [OF fin, of c n xs x] by simp
  ultimately show ?case using IH P(3,4) by simp
qed

lemma agree_retention_all:
  assumes "stores_agree m s" "mem_inv m" "db_inv (db s)" "fair_env e" "t mod 1000 = 0" "set xs = set ys"
  shows "stores_agree (fold (\<lambda>x. applyRetentionLocked e x t) xs m)
    (s\<lparr>db := fold (\<lambda>x. applyRetentionTx (proc s) x t) ys (db s)\<rparr>)"
proof -
  note a = agreeD [OF assms(1)]
  define c where "c = age_cutoff m t"
  have c: "c = micros (time_Add t (neg_duration (pg_retentionAge (proc s))))"
    unfolding c_def using assms(5) a(5,6) by (intro trans [OF _ micros_aligned [symmetric]]) (auto simp: time_Add_def age_cutoff_def)
  have created: "\<forall>k d. row m k = Some d \<longrightarrow> CreatedAt d \<noteq> 0" using a(7) by blast
  note M = mem_retention_all [OF assms(2,4) created refl c_def refl, of xs]
  note P = pg_retention_all [OF assms(3) refl c refl refl, of ys]
  have alike: "map_option norm (row m k) = map_option norm (map_of (deliveries (db s)) k)" for k
    using a(1) by (simp add: rows_alike_def)
  have R: "removed c n x (row m) = removed c n x (map_of (deliveries (db s)))" for n x by (rule removed_alike [OF alike])
  then have RA: "removed_all c n xs (row m) = removed_all c n ys (map_of (deliveries (db s)))" for n
    by (simp add: removed_all_def assms(6))
  show ?thesis
  proof (rule agreeI [OF assms(1)])
    show "rows_alike (fold (\<lambda>x. applyRetentionLocked e x t) xs m) (db (s\<lparr>db := fold (\<lambda>x. applyRetentionTx (proc s) x t) ys (db s)\<rparr>))"
      using M P alike RA by (simp add: rows_alike_def without_def a(4))
    show "core (meta_of y (fold (\<lambda>x. applyRetentionLocked e x t) xs m)) =
        core (pg_meta (db (s\<lparr>db := fold (\<lambda>x. applyRetentionTx (proc s) x t) ys (db s)\<rparr>)) y)" for y
      using M P a(2) [of y] counted_core [OF a(2) [of y]] by (simp add: R a(4) assms(6))
    show "CreatedAt d \<noteq> 0" if "row (fold (\<lambda>x. applyRetentionLocked e x t) xs m) k = Some d" for k d
      using that M a(7) by (auto simp: without_def split: if_splits)
  qed (use M P a(3) in simp_all)
qed

lemma agree_Enqueue:
  assumes "stores_agree m s" "mem_inv m" "pg_inv s" "alike_env e e'" "ctx_err e = None \<Longrightarrow> admissible m ds"
  shows "(fst (Enqueue e ds m) = None \<longleftrightarrow> fst (pg_Enqueue e' ds s) = None) \<and>
    stores_agree (snd (Enqueue e ds m)) (snd (pg_Enqueue e' ds s))"
proof (cases "ctx_err e")
  case (Some err)
  then show ?thesis using assms(1) alike_envD(3) [OF assms(4)] by (simp add: Enqueue_def pg_Enqueue_def)
next
  case None
  note env = alike_envD [OF assms(4)]
  have i: "db_inv (db s)" "\<not> pg_SkipSuspendGate (proc s)" using assms(3) by (simp_all add: pg_inv_def pg_gates_def)
  obtain m1 t1 touched where l: "enqueue_loop (clock e) ds m [] = (None, m1, touched)"
      "pg_enqueue_loop False (clock e) ds (db s) [] = Inr (t1, touched)"
      "stores_agree m1 (s\<lparr>db := t1\<rparr>)" "mem_inv m1" "db_inv t1"
    using agree_enqueue_loop [OF assms(1,2) i(1) assms(5) [OF None] env(6,7), of "[]"] by blast
  have set: "set (visit e LTouched touched) = set (pe_touched e' touched)"
    using fair_env_visit(1) [OF env(1)] env(2) by (simp add: fair_pg_def)
  have mem: "Enqueue e ds m = (None, signal (fold (\<lambda>x. applyRetentionLocked e x (clock e)) (visit e LTouched touched) m1))"
    using None l(1) by (simp add: Enqueue_def)
  have ag: "stores_agree (fold (\<lambda>x. applyRetentionLocked e x (clock e)) (visit e LTouched touched) m1)
      (s\<lparr>db := fold (\<lambda>x. applyRetentionTx (proc s) x (clock e)) (pe_touched e' touched) t1\<rparr>)"
    using agree_retention_all [OF l(3,4) _ env(1,7) set] l(5) by simp
  show ?thesis
  proof (cases "ds = []")
    case True
    then have "touched = []" "t1 = db s" using l(2) by simp_all
    moreover have "pe_touched e' [] = []" using env(2) by (simp add: fair_pg_def flip: set_empty)
    ultimately show ?thesis using ag None True env(3) by (simp add: mem [unfolded True] pg_Enqueue_def)
  next
    case False
    then show ?thesis using ag None l(2) i(2) env(3,4,8) by (simp add: mem pg_Enqueue_def)
  qed
qed

end
