(* ===== verification/StoresClaim.thy ===== *)
theory StoresClaim
  imports StoresAgree
begin

text \<open>
  A claim on either store takes the claimable rows of its partitions: memory.go finds the head of each
  subscriber's line in a scan, postgres.go asks with a NOT EXISTS. When the limit covers them all the
  two stores hand out the same rows and stay in agreement. (Under a tighter limit they may take
  different rows: memory.go orders the candidates by subscriber, postgres.go by partition first.)
\<close>

section \<open>Claim\<close>

definition claim_keys :: "gotime \<Rightarrow> int list \<Rightarrow> mem \<Rightarrow> string set" where
  "claim_keys t parts m = {k. \<exists>d. row m k = Some d \<and> claimable t parts m d}"

lemma claim_keys_alike:
  assumes "stores_agree m s" "db_inv (db s)" "pg_gates (proc s)" "alike_env e e'"
  shows "set (map ID (sel_where (\<lambda>d. Status d = StatusPending \<and> NextAttempt d \<le> pe_now e' \<and> PartitionNo d \<in> set parts \<and>
      (pg_SkipSuspendGate (proc s) \<or> \<not> is_suspended (db s) (SubscriberID d)) \<and>
      (pg_DisableHOL (proc s) \<or> no_earlier (deliveries (db s)) d)) (deliveries (db s)))) = claim_keys (clock e) parts m"
proof -
  note k = db_invD(1) [OF assms(2)] and env = alike_envD [OF assms(4)] and alike = agreeD(1) [OF assms(1)]
  have first: "first_in_line m d \<longleftrightarrow> no_earlier (deliveries (db s)) d'" if n: "norm d = norm d'" for d d'
  proof
    assume f: "first_in_line m d"
    show "no_earlier (deliveries (db s)) d'"
      unfolding no_earlier_def list_ex_iff
    proof clarify
      fix j r assume r: "(j, r) \<in> set (deliveries (db s))" "SubscriberID r = SubscriberID d'" "Sequence r < Sequence d'"
        "Status r = StatusPending \<or> Status r = StatusInFlight"
      then have "map_of (deliveries (db s)) j = Some r" using k by (simp add: keyed_def)
      then obtain r' where "row m j = Some r'" "norm r' = norm r" using rows_alikeD(2) [OF alike] by blast
      then have "unfinished (Status r')" "SubscriberID r' = SubscriberID d" "Sequence r' < Sequence d"
        using r norm_eqD(3,6) [OF n] norm_eqD(3,6,8) [of r' r] by (simp_all add: unfinished_def)
      then show False using f \<open>row m j = Some r'\<close> unfolding first_in_line_def by fastforce
    qed
  next
    assume f: "no_earlier (deliveries (db s)) d'"
    show "first_in_line m d"
      unfolding first_in_line_def
    proof (intro allI impI, elim conjE)
      fix j r assume r: "row m j = Some r" "SubscriberID r = SubscriberID d" "unfinished (Status r)"
      then obtain r' where r': "map_of (deliveries (db s)) j = Some r'" "norm r = norm r'" using rows_alikeD(1) [OF alike] by blast
      have "Sequence d' \<le> Sequence r'"
        by (rule no_earlier_least [OF k f r'(1)]) (use r norm_eqD(3) [OF n] norm_eqD(3,8) [OF r'(2)] in simp_all)
      then show "Sequence d \<le> Sequence r" using norm_eqD(6) [OF n] norm_eqD(6) [OF r'(2)] by simp
    qed
  qed
  have same: "claimable (clock e) parts m d \<longleftrightarrow> Status d' = StatusPending \<and> NextAttempt d' \<le> pe_now e' \<and> PartitionNo d' \<in> set parts \<and>
      (pg_SkipSuspendGate (proc s) \<or> \<not> is_suspended (db s) (SubscriberID d')) \<and>
      (pg_DisableHOL (proc s) \<or> no_earlier (deliveries (db s)) d')" if n: "norm d = norm d'" for d d'
    using first [OF n] norm_eqD(3,5,8,10) [OF n] assms(3) env(5,6) agree_held [OF assms(1)]
    by (auto simp: claimable_def due_def pg_gates_def IsZero_def zero_time_def)
  show ?thesis
  proof (intro set_eqI)
    fix j
    show "j \<in> set (map ID (sel_where (\<lambda>d. Status d = StatusPending \<and> NextAttempt d \<le> pe_now e' \<and> PartitionNo d \<in> set parts \<and>
      (pg_SkipSuspendGate (proc s) \<or> \<not> is_suspended (db s) (SubscriberID d)) \<and>
      (pg_DisableHOL (proc s) \<or> no_earlier (deliveries (db s)) d)) (deliveries (db s)))) \<longleftrightarrow> j \<in> claim_keys (clock e) parts m"
      unfolding keys_where(2) [OF k] claim_keys_def mem_Collect_eq
      using rows_alikeD(1,2) [OF alike, of j] same by blast
  qed
qed

lemma Claim_meta:
  "meta_of y (snd (Claim e ow g parts n m)) = meta_of y m \<and> retentionCount (snd (Claim e ow g parts n m)) = retentionCount m \<and>
   retentionAge (snd (Claim e ow g parts n m)) = retentionAge m"
proof -
  define same :: "mem \<Rightarrow> mem \<Rightarrow> bool" where "same s s' \<longleftrightarrow> meta_of y s' = meta_of y s \<and> retentionCount s' = retentionCount s \<and> retentionAge s' = retentionAge s" for s s'
  have trans: "same s s1 \<Longrightarrow> same s1 s2 \<Longrightarrow> same s s2" for s s1 s2 by (simp add: same_def)
  have refl: "same s s" for s by (simp add: same_def)
  have gate: "same s (snd (suspend_gate x s))" for x s by (simp add: same_def suspend_gate_meta)
  have cands: "same s (fst (claim_candidates t parts head ks s cs))" for t head ks cs s
  proof (induction ks arbitrary: s cs)
    case (Cons k ks)
    show ?case
    proof (cases "\<exists>d. row s k = Some d \<and> Status d = StatusPending")
      case True
      then obtain d held s1 where d: "row s k = Some d" "Status d = StatusPending" "suspend_gate (SubscriberID d) s = (held, s1)" by fastforce
      have "same s s1" using gate [of s "SubscriberID d"] d(3) by simp
      then show ?thesis using d trans [OF _ Cons.IH] by (simp add: Let_def)
    next
      case False
      then show ?thesis using Cons.IH by (auto split: option.split)
    qed
  qed (simp add: same_def)
  have take: "same s (fst (claim_take ow g t n head cs s taken out))" for t head cs s taken out
  proof (induction cs arbitrary: s taken out)
    case (Cons c cs)
    have "same s (set_row k f s)" for k f by (simp add: same_def meta_of_updates settings_updates)
    from trans [OF this Cons.IH] show ?case
      using Cons.IH by (cases "row s (c_id c)") (simp_all add: refl)
  qed (simp add: refl)
  have counters: "same s (s\<lparr>ClaimCalls := a\<rparr>)" "same s (s\<lparr>ClaimRows := a\<rparr>)" "same s (s\<lparr>ClaimNonEmpty := a\<rparr>)" for s a
    by (simp_all add: same_def get_meta_def retentionCount_def retentionAge_def split: option.split)
  have "same m (snd (Claim e ow g parts n m))"
  proof (cases "ctx_err e = None \<and> ow \<noteq> [] \<and> g \<noteq> 0 \<and> 0 < n \<and> parts \<noteq> []")
    case True
    let ?s1 = "m\<lparr>ClaimCalls := ClaimCalls m + 1\<rparr>"
    obtain s2 cs where c: "claim_candidates (clock e) parts (claim_heads e ?s1) (row_keys e LCandidates ?s1) ?s1 [] = (s2, cs)" by fastforce
    obtain s3 out where k: "claim_take ow g (clock e) n (claim_heads e ?s1) (sort_key (\<lambda>c. (c_sub c, c_seq c)) cs) s2 [] [] = (s3, out)" by fastforce
    have "same m s3" using trans [OF counters(1) trans] cands take c k by (metis fst_conv)
    then have "same m s3" "same m (s3\<lparr>ClaimRows := a\<rparr>)" "same m (s3\<lparr>ClaimRows := a, ClaimNonEmpty := b\<rparr>)" for a b
      using trans counters by blast+
    then show ?thesis using True c k by (simp add: Claim_def Let_def)
  next
    case False
    have "same m m" by (simp add: same_def)
    then show ?thesis using False counters(1) by (auto simp: Claim_def Let_def split: option.split)
  qed
  then show ?thesis by (simp add: same_def)
qed

text \<open>Every claimable row is taken when the limit allows it.\<close>

lemma mem_claim_all:
  assumes "mem_inv m" "fair_env e" "ctx_err e = None" "ow \<noteq> []" "g \<noteq> 0" "0 < n" "parts \<noteq> []"
    "int (card (claim_keys (clock e) parts m)) \<le> n"
  shows "\<exists>ds m'. Claim e ow g parts n m = (Inr ds, m') \<and> length ds = card (claim_keys (clock e) parts m) \<and>
    norm ` set ds = (\<lambda>k. norm (claim_row ow g (clock e) (the (row m k)))) ` claim_keys (clock e) parts m \<and>
    (\<forall>k. row m' k = (if k \<in> claim_keys (clock e) parts m then map_option (claim_row ow g (clock e)) (row m k) else row m k)) \<and>
    (\<forall>y. meta_of y m' = meta_of y m) \<and> retentionCount m' = retentionCount m \<and> retentionAge m' = retentionAge m \<and> seq m' = seq m"
proof -
  let ?ls = "line_up e parts m" and ?f = "claim_row ow g (clock e)" and ?K = "claim_keys (clock e) parts m"
  note lp = line_up_props [OF assms(1,2), where parts = parts]
  have K: "c_id ` set ?ls = ?K"
  proof (intro equalityI subsetI)
    fix k assume "k \<in> c_id ` set ?ls"
    then show "k \<in> ?K" using lp(4) by (auto simp: claim_keys_def)
  next
    fix k assume "k \<in> ?K"
    then obtain d where d: "row m k = Some d" "claimable (clock e) parts m d" by (auto simp: claim_keys_def)
    then have "d \<in> claimable_rows (clock e) parts m" by (auto simp: claimable_rows_def)
    then obtain c where c: "c \<in> set ?ls" "d = cand_row m c" unfolding lp(5) [symmetric] by blast
    then have "c_id c = k" using lp(4) [OF c(1)] d(1) well_keyedD [OF mem_invD(1) [OF assms(1)]] by metis
    then show "k \<in> c_id ` set ?ls" using c(1) by blast
  qed
  have len: "length ?ls = card ?K" unfolding K [symmetric] using distinct_card [OF lp(1)] by simp
  then have all: "take (nat n) ?ls = ?ls" using assms(8) by simp
  note C = Claim_eq [OF assms(1-7), unfolded all]
  define ds where "ds = map (\<lambda>c. cloneDelivery (?f (cand_row m c))) ?ls"
  define m' where "m' = snd (Claim e ow g parts n m)"
  obtain s1 where s1: "same_rows m s1" "same_rows (fold (\<lambda>c. set_row (c_id c) ?f) ?ls s1) m'"
    using C(2) unfolding m'_def by blast
  have "row m' k = (if k \<in> ?K then map_option ?f (row m k) else row m k)" for k
    using same_rows_row [OF s1(2), of k] same_rows_row [OF s1(1), of k] by (simp add: fold_set_row [OF lp(1)] K)
  moreover have "norm ` set ds = (\<lambda>k. norm (?f (the (row m k)))) ` ?K"
    unfolding K [symmetric] ds_def by (simp add: image_image cand_row_def)
  moreover have "Claim e ow g parts n m = (Inr ds, m')" using C(1) by (simp add: ds_def m'_def prod_eq_iff)
  moreover have "seq m' = seq m" using s1 by (simp add: same_rows_def fold_set_row_frame)
  moreover have "meta_of y m' = meta_of y m" "retentionCount m' = retentionCount m" "retentionAge m' = retentionAge m" for y
    using Claim_meta [of y e ow g parts n m] by (simp_all add: m'_def)
  ultimately show ?thesis using len by (intro exI [of _ ds] exI [of _ m']) (simp add: ds_def)
qed

lemma pg_claim_all:
  assumes "db_inv (db s)" "fair_pg e" "distinct (map ID cands)" "set (map ID cands) = K" "\<forall>d \<in> set cands. map_of (deliveries (db s)) (ID d) = Some d"
  shows "\<exists>ds s'. pg_claim_update e ow (\<lambda>_. g) cands s = (Inr ds, s') \<and> length ds = card K \<and>
    set ds = (\<lambda>k. claim_row ow g (pe_now e) (the (map_of (deliveries (db s)) k))) ` K \<and>
    s' = s\<lparr>db := (db s)\<lparr>deliveries := upd_where (\<lambda>d. ID d \<in> K) (claim_row ow g (pe_now e)) (deliveries (db s))\<rparr>\<rparr>"
proof -
  let ?f = "claim_row ow g (pe_now e)"
  define ds where "ds = pe_arrange e (map ?f cands)"
  have m: "mset ds = mset (map ?f cands)" using assms(2) by (simp add: ds_def fair_pg_def)
  have "length ds = length cands" using arg_cong [OF m, of size] by simp
  moreover have "length cands = card K" using distinct_card [OF assms(3)] assms(4) by simp
  moreover have "set ds = (\<lambda>k. ?f (the (map_of (deliveries (db s)) k))) ` K"
    using mset_eq_setD [OF m] assms(5) unfolding assms(4) [symmetric] by (simp add: image_image cong: image_cong)
  moreover have "pg_claim_update e ow (\<lambda>_. g) cands s = (Inr ds,
      s\<lparr>db := (db s)\<lparr>deliveries := upd_where (\<lambda>d. ID d \<in> K) ?f (deliveries (db s))\<rparr>\<rparr>)"
    unfolding assms(4) [symmetric] by (simp add: pg_claim_update_def Let_def ds_def)
  ultimately show ?thesis by auto
qed

text \<open>When the limit covers the candidates and none is locked, all of them are taken.\<close>

lemma pg_candidates_all:
  assumes "keyed (deliveries t)" "\<And>k. \<not> pe_locked e k"
    "S = sel_where (\<lambda>d. Status d = StatusPending \<and> NextAttempt d \<le> pe_now e \<and> owned d \<and>
              (pg_SkipSuspendGate p \<or> \<not> is_suspended t (SubscriberID d)) \<and>
              (pg_DisableHOL p \<or> no_earlier (deliveries t) d)) (deliveries t)"
    "int (card (set (map ID S))) \<le> n"
  shows "distinct (map ID (pg_candidates e p owned n t))" "set (map ID (pg_candidates e p owned n t)) = set (map ID S)"
    "\<forall>d \<in> set (pg_candidates e p owned n t). map_of (deliveries t) (ID d) = Some d"
proof -
  let ?key = "\<lambda>d. (PartitionNo d, pe_collate e (SubscriberID d), Sequence d)"
  have "card (set (map ID S)) = length S" using distinct_card [OF distinct_sel_where [OF assms(1)]] by (simp add: assms(3))
  then have "length (sort_key ?key S) \<le> nat n" using assms(4) by simp
  then have eq: "pg_candidates e p owned n t = sort_key ?key S" by (simp add: pg_candidates_def assms(2,3))
  have "mset (map ID (sort_key ?key S)) = mset (map ID S)" by simp
  then show "distinct (map ID (pg_candidates e p owned n t))"
    unfolding eq using distinct_sel_where [OF assms(1)] mset_eq_imp_distinct_iff assms(3) by blast
  show "set (map ID (pg_candidates e p owned n t)) = set (map ID S)" by (simp add: eq)
  show "\<forall>d \<in> set (pg_candidates e p owned n t). map_of (deliveries t) (ID d) = Some d"
    unfolding eq set_sort assms(3) in_sel_where [OF assms(1)] by (simp add: in_sel_where [OF assms(1)])
qed

fun same_rows_returned :: "store_error + delivery list \<Rightarrow> store_error + delivery list \<Rightarrow> bool" where
  "same_rows_returned (Inr ds) (Inr ds') = (length ds = length ds' \<and> norm ` set ds = norm ` set ds')"
| "same_rows_returned (Inl _) (Inl _) = True"
| "same_rows_returned _ _ = False"

text \<open>The counters a claim keeps are not part of the agreement.\<close>

lemma agree_same:
  assumes "stores_agree m s" "\<And>k. row m' k = row m k" "\<And>x. meta_of x m' = meta_of x m" "seq m' = seq m"
    "retentionCount m' = retentionCount m" "retentionAge m' = retentionAge m"
  shows "stores_agree m' s"
  using assms unfolding stores_agree_def rows_alike_def by metis

lemma agree_claimed_rows:
  assumes "stores_agree m s" "db_inv (db s)" "f = claim_row ow g t"
    "\<And>k. row m' k = (if k \<in> K then map_option f (row m k) else row m k)"
    "\<And>y. meta_of y m' = meta_of y m" "retentionCount m' = retentionCount m" "retentionAge m' = retentionAge m" "seq m' = seq m"
  shows "stores_agree m' (s\<lparr>db := (db s)\<lparr>deliveries := upd_where (\<lambda>d. ID d \<in> K) f (deliveries (db s))\<rparr>\<rparr>)"
proof -
  note a = agreeD [OF assms(1)] and keyed = db_invD(1) [OF assms(2)]
  have n: "norm (f d) = f (norm d)" for d by (simp add: assms(3) norm_commutes)
  have look: "map_of (upd_where (\<lambda>d. ID d \<in> K) f (deliveries (db s))) k =
      map_option (if k \<in> K then f else id) (map_of (deliveries (db s)) k)" for k
    using keyedD [OF keyed, of k] by (cases "map_of (deliveries (db s)) k") (auto simp: store_simps)
  show ?thesis
  proof (rule agreeI [OF assms(1)])
    show "rows_alike m' (db (s\<lparr>db := (db s)\<lparr>deliveries := upd_where (\<lambda>d. ID d \<in> K) f (deliveries (db s))\<rparr>\<rparr>))"
    proof (rule rows_alike_upd [OF a(1)])
      show "row m' k = map_option (if k \<in> K then f else id) (row m k)" for k by (simp add: assms(4) option.map_id)
    qed (use look n in auto)
    show "CreatedAt d \<noteq> 0" if "row m' k = Some d" for k d
      using that a(7) by (auto simp: assms(3,4) claim_row_def split: if_splits)
    show "core (meta_of y m') = core (pg_meta (db (s\<lparr>db := (db s)\<lparr>deliveries := upd_where (\<lambda>d. ID d \<in> K) f (deliveries (db s))\<rparr>\<rparr>)) y)" for y
      using a(2) by (simp add: assms(5) pg_meta_def)
  qed (use a assms in simp_all)
qed

lemma agree_Claim:
  assumes "stores_agree m s" "mem_inv m" "pg_inv s" "alike_env e e'" "int (card (claim_keys (clock e) parts m)) \<le> n"
  shows "same_rows_returned (fst (Claim e ow g parts n m)) (fst (pg_Claim e' ow g parts n s)) \<and>
    stores_agree (snd (Claim e ow g parts n m)) (snd (pg_Claim e' ow g parts n s))"
proof -
  note env = alike_envD [OF assms(4)] and a = agreeD [OF assms(1)]
  have i: "db_inv (db s)" "pg_gates (proc s)" using assms(3) by (simp_all add: pg_inv_def)
  have refresh: "refreshDistributedOwnership e' s = (None, s)" using env(8) a(8) by (simp add: refreshDistributedOwnership_def)
  show ?thesis
  proof (cases "ctx_err e = None \<and> ow \<noteq> [] \<and> g \<noteq> 0 \<and> 0 < n \<and> parts \<noteq> []")
    case False
    have "stores_agree (m\<lparr>ClaimCalls := c\<rparr>) s" for c
      by (rule agree_same [OF assms(1)]) (simp_all add: row_def get_meta_def retentionCount_def retentionAge_def split: option.split)
    then show ?thesis using False assms(1) env(3) a(9)
      by (auto simp: Claim_def pg_Claim_def Let_def refresh split: option.split)
  next
    case True
    let ?K = "claim_keys (clock e) parts m" and ?f = "claim_row ow g (clock e)"
    let ?cands = "pg_candidates e' (proc s) (\<lambda>d. PartitionNo d \<in> set parts) n (db s)"
    note K = claim_keys_alike [OF assms(1) i assms(4), of parts]
    note C = pg_candidates_all [OF db_invD(1) [OF i(1)] env(9) refl, where owned = "\<lambda>d. PartitionNo d \<in> set parts" and p = "proc s" and n = n, unfolded K, OF assms(5)]
    from True have h: "ctx_err e = None" "ow \<noteq> []" "g \<noteq> 0" "0 < n" "parts \<noteq> []" by simp_all
    obtain ds m' where M: "Claim e ow g parts n m = (Inr ds, m')" "length ds = card ?K"
        "norm ` set ds = (\<lambda>k. norm (?f (the (row m k)))) ` ?K"
        "\<And>k. row m' k = (if k \<in> ?K then map_option ?f (row m k) else row m k)"
        "\<And>y. meta_of y m' = meta_of y m" "retentionCount m' = retentionCount m" "retentionAge m' = retentionAge m" "seq m' = seq m"
      using mem_claim_all [OF assms(2) env(1) h assms(5)] by (elim exE conjE) simp
    obtain ds' s' where P: "pg_claim_update e' ow (\<lambda>_. g) ?cands s = (Inr ds', s')" "length ds' = card ?K"
        "set ds' = (\<lambda>k. ?f (the (map_of (deliveries (db s)) k))) ` ?K"
        "s' = s\<lparr>db := (db s)\<lparr>deliveries := upd_where (\<lambda>d. ID d \<in> ?K) ?f (deliveries (db s))\<rparr>\<rparr>"
      using pg_claim_all [OF i(1) env(2) C] unfolding env(5) by blast
    have pg: "pg_Claim e' ow g parts n s = (Inr ds', s')"
      using True a(9) env(3,8) P(1) by (simp add: pg_Claim_def refresh Let_def)
    have "norm (?f (the (row m k))) = norm (?f (the (map_of (deliveries (db s)) k)))" if k: "k \<in> ?K" for k
    proof -
      obtain d where "row m k = Some d" using k by (auto simp: claim_keys_def)
      then show ?thesis using rows_alikeD(1) [OF a(1)] by (fastforce simp: norm_commutes)
    qed
    then have "norm ` set ds = norm ` set ds'" unfolding M(3) P(3) image_image by simp
    then show ?thesis
      using agree_claimed_rows [OF assms(1) i(1) refl M(4-8)] by (simp add: M(1,2) pg P(2,4))
  qed
qed

end
