(* ===== verification/StoresSame.thy ===== *)
theory StoresSame
  imports StoresClaim MemoryProps PostgresProps
begin

text \<open>
  The memory store and the Postgres store are interchangeable behind store.Store: the remaining calls,
  what it means to answer alike, and histories of calls made on both.
\<close>

section \<open>Counting and recovering\<close>

lemma count_keys:
  "well_keyed m \<Longrightarrow> count_rows p m = int (card {k. \<exists>d. row m k = Some d \<and> p d})"
  "keyed T \<Longrightarrow> cnt_where p T = int (card {k. \<exists>d. map_of T k = Some d \<and> p d})"
proof -
  assume w: "well_keyed m"
  let ?L = "filter (\<lambda>(k, d). p d) (byID m)"
  have "distinct (map fst ?L)" using w by (auto simp: well_keyed_def intro: distinct_map_filter)
  then have "length ?L = card (set (map fst ?L))" using distinct_card by fastforce
  moreover have "set (map fst ?L) = {k. \<exists>d. row m k = Some d \<and> p d}"
    using w by (force simp: well_keyed_def row_def)
  ultimately show "count_rows p m = int (card {k. \<exists>d. row m k = Some d \<and> p d})" by (simp add: count_rows_def)
next
  assume k: "keyed T"
  have "length (sel_where p T) = card (set (map ID (sel_where p T)))"
    using distinct_card [OF keys_where(1) [OF k, of p]] by simp
  moreover have "set (map ID (sel_where p T)) = {k. \<exists>d. map_of T k = Some d \<and> p d}"
    using keys_where(2) [OF k] by (intro set_eqI) simp
  ultimately show "cnt_where p T = int (card {k. \<exists>d. map_of T k = Some d \<and> p d})" by (simp add: cnt_where_def)
qed

lemma count_alike:
  assumes "stores_agree m s" "well_keyed m" "keyed (deliveries (db s))"
    "\<And>k d d'. row m k = Some d \<Longrightarrow> norm d = norm d' \<Longrightarrow> p d = q d'"
  shows "count_rows p m = cnt_where q (deliveries (db s))"
proof -
  have "(\<exists>d. row m k = Some d \<and> p d) = (\<exists>d. map_of (deliveries (db s)) k = Some d \<and> q d)" for k
    using rows_alikeD(1,2) [OF agreeD(1) [OF assms(1)], of k] assms(4) [of k] by blast
  then show ?thesis by (simp only: count_keys(1) [OF assms(2)] count_keys(2) [OF assms(3)])
qed

lemma agree_PendingOrInFlight:
  assumes "stores_agree m s" "well_keyed m" "keyed (deliveries (db s))" "alike_env e e'"
  shows "fst (PendingOrInFlight e m) = fst (pg_PendingOrInFlight e' s) \<and>
    snd (PendingOrInFlight e m) = m \<and> snd (pg_PendingOrInFlight e' s) = s"
proof -
  let ?p = "\<lambda>d. Status d = StatusPending \<or> Status d = StatusInFlight"
  have "count_rows ?p m = cnt_where ?p (deliveries (db s))"
    by (rule count_alike [OF assms(1-3)]) (drule norm_eqD(8), simp)
  then show ?thesis
    using alike_envD(3,8) [OF assms(4)] by (simp add: PendingOrInFlight_def pg_PendingOrInFlight_def split: option.split)
qed

lemma agree_IsSuspended:
  assumes "stores_agree m s" "alike_env e e'"
  shows "fst (IsSuspended e x m) = fst (pg_IsSuspended e' x s) \<and>
    snd (IsSuspended e x m) = m \<and> snd (pg_IsSuspended e' x s) = s"
  using agree_held [OF assms(1), of x] alike_envD(3,8) [OF assms(2)]
  by (auto simp: IsSuspended_def pg_IsSuspended_def held_in_def split: option.split)

text \<open>memory.go takes back a row exactly as old as the cutoff, postgres.go does not; off that instant they agree.\<close>

definition off_cutoff :: "gotime \<Rightarrow> mem \<Rightarrow> bool" where
  "off_cutoff c m \<longleftrightarrow> c mod 1000 = 0 \<and> (\<forall>(k, d) \<in> set (byID m). Status d = StatusInFlight \<longrightarrow> ClaimedAt d \<noteq> c)"

lemma agree_RecoverStale:
  assumes "stores_agree m s" "well_keyed m" "keyed (deliveries (db s))" "alike_env e e'"
    "off_cutoff (time_Add (clock e) (neg_duration a)) m"
  shows "fst (RecoverStale e a m) = fst (pg_RecoverStale e' a s) \<and>
    stores_agree (snd (RecoverStale e a m)) (snd (pg_RecoverStale e' a s))"
proof (cases "ctx_err e")
  case (Some err)
  then show ?thesis using assms(1) alike_envD(3) [OF assms(4)] by (simp add: RecoverStale_def pg_RecoverStale_def)
next
  case None
  note env = alike_envD [OF assms(4)]
  define c where "c = time_Add (clock e) (neg_duration a)"
  have c: "micros c = c" using assms(5) by (simp add: off_cutoff_def c_def micros_def)
  have stale: "stale c d = pg_stale c d'" if "row m k = Some d" "norm d = norm d'" for k d d'
  proof -
    have "(k, d) \<in> set (byID m)" using that(1) by (simp add: row_def map_of_SomeD)
    then have "Status d = StatusInFlight \<longrightarrow> ClaimedAt d \<noteq> c" using assms(5) by (auto simp: off_cutoff_def c_def)
    then show ?thesis using norm_eqD(8,14) [OF that(2)] by (auto simp: stale_def pg_stale_def)
  qed
  have n: "count_rows (stale c) m = cnt_where (pg_stale c) (deliveries (db s))"
    by (rule count_alike [OF assms(1-3)]) (rule stale)
  let ?f = "\<lambda>d. release (d\<lparr>Status := StatusPending\<rparr>)"
  let ?s = "s\<lparr>db := (db s)\<lparr>deliveries := upd_where (pg_stale c) ?f (deliveries (db s))\<rparr>\<rparr>"
  have row: "row (all_rows (recover_row c) m) k = map_option (recover_row c) (row m k)" for k by (simp add: store_simps)
  have "stores_agree (all_rows (recover_row c) m) ?s"
  proof (rule agreeI [OF assms(1)])
    show "rows_alike (all_rows (recover_row c) m) (db ?s)"
    proof (rule rows_alike_upd [OF agreeD(1) [OF assms(1)] row])
      show "map_of (deliveries (db ?s)) k = map_option (\<lambda>d. if pg_stale c d then ?f d else d) (map_of (deliveries (db s)) k)" for k
        by (simp add: store_simps)
      show "norm (recover_row c d) = norm (if pg_stale c d' then ?f d' else d')" if "row m k = Some d" "norm d = norm d'" for k d d'
        using stale [OF that] that(2) by (simp add: recover_row_def norm_commutes)
    qed
    show "CreatedAt d \<noteq> 0" if "row (all_rows (recover_row c) m) k = Some d" for k d
      using that agreeD(7) [OF assms(1)] by (auto simp: row recover_row_def release_def split: if_splits)
    have same: "subs (all_rows f m) = subs m" "seq (all_rows f m) = seq m" "retentionCount (all_rows f m) = retentionCount m"
      "retentionAge (all_rows f m) = retentionAge m" for f
      by (simp_all add: all_rows_def retentionCount_def retentionAge_def)
    show "core (meta_of x (all_rows (recover_row c) m)) = core (pg_meta (db ?s) x)" for x
      using agreeD(2) [OF assms(1), of x] by (simp add: get_meta_def same pg_meta_def split: option.splits)
    show "last_of (seq (all_rows (recover_row c) m)) = last_of (subscriber_seq (db ?s))" using agreeD(3) [OF assms(1)] by (simp add: same)
    show "retentionCount (all_rows (recover_row c) m) = retentionCount m" "retentionAge (all_rows (recover_row c) m) = retentionAge m"
      by (simp_all add: same)
  qed simp_all
  then show ?thesis
    using None env(3,4,8) n c by (simp add: RecoverStale_def pg_RecoverStale_def Let_def c_def)
qed

section \<open>Histories\<close>

text \<open>A call at one moment of both stores.\<close>

type_synonym twin_call = "(env \<times> pgenv) call"

abbreviation mem_call :: "twin_call \<Rightarrow> env call" where "mem_call \<equiv> map_call fst"
abbreviation pg_call :: "twin_call \<Rightarrow> pgenv call" where "pg_call \<equiv> map_call snd"

text \<open>
  The calls on which the two implementations are meant to answer alike. What is left out is where they
  differ: a batch with a bad delivery (memory.go stores what comes before it), a claim that leaves
  claimable rows behind (they order candidates differently), a mark with no owner, a retry time
  TIMESTAMPTZ would round, and a row exactly as old as the cutoff of a recovery.
\<close>

fun plain_call :: "twin_call \<Rightarrow> mem \<Rightarrow> bool" where
  "plain_call (Enqueue_call e ds) m = (ctx_err (fst e) = None \<longrightarrow> admissible m ds)"
| "plain_call (Claim_call e ow g ps n) m = (int (card (claim_keys (clock (fst e)) ps m)) \<le> n)"
| "plain_call (MarkDelivered_call e k ow g) m = (ow \<noteq> [])"
| "plain_call (MarkFailed_call e k ow g a t msg) m = (ow \<noteq> [] \<and> t mod 1000 = 0)"
| "plain_call (MarkDeadLetter_call e k ow g msg) m = (ow \<noteq> [])"
| "plain_call (ExhaustAndSuspend_call e k ow g msg) m = (ow \<noteq> [])"
| "plain_call (RecoverStale_call e a) m = off_cutoff (time_Add (clock (fst e)) (neg_duration a)) m"
| "plain_call _ m = True"

text \<open>The same answer, the texts of errors and the order of a batch apart.\<close>

fun same_answer :: "twin_call \<Rightarrow> mem \<Rightarrow> pg \<Rightarrow> bool" where
  "same_answer (Enqueue_call e ds) m s = (fst (Enqueue (fst e) ds m) = None \<longleftrightarrow> fst (pg_Enqueue (snd e) ds s) = None)"
| "same_answer (Claim_call e ow g ps n) m s = same_rows_returned (fst (Claim (fst e) ow g ps n m)) (fst (pg_Claim (snd e) ow g ps n s))"
| "same_answer (MarkDelivered_call e k ow g) m s =
     (fst (MarkDelivered (fst e) k ow g m) = None \<longleftrightarrow> fst (pg_MarkDelivered (snd e) k ow g s) = None)"
| "same_answer (MarkFailed_call e k ow g a t msg) m s =
     (fst (MarkFailed (fst e) k ow g a t msg m) = None \<longleftrightarrow> fst (pg_MarkFailed (snd e) k ow g a t msg s) = None)"
| "same_answer (MarkDeadLetter_call e k ow g msg) m s =
     (fst (MarkDeadLetter (fst e) k ow g msg m) = None \<longleftrightarrow> fst (pg_MarkDeadLetter (snd e) k ow g msg s) = None)"
| "same_answer (ExhaustAndSuspend_call e k ow g msg) m s =
     (fst (ExhaustAndSuspend (fst e) k ow g msg m) = None \<longleftrightarrow> fst (pg_ExhaustAndSuspend (snd e) k ow g msg s) = None)"
| "same_answer (Resume_call e x) m s = same_gap (fst (Resume (fst e) x m)) (fst (pg_Resume (snd e) x s))"
| "same_answer (IsSuspended_call e x) m s = (fst (IsSuspended (fst e) x m) = fst (pg_IsSuspended (snd e) x s))"
| "same_answer (RecoverStale_call e a) m s = (fst (RecoverStale (fst e) a m) = fst (pg_RecoverStale (snd e) a s))"
| "same_answer (PendingOrInFlight_call e) m s = (fst (PendingOrInFlight (fst e) m) = fst (pg_PendingOrInFlight (snd e) s))"

fun plain_run :: "twin_call list \<Rightarrow> mem \<Rightarrow> bool" where
  "plain_run [] m = True"
| "plain_run (c # cs) m = (alike_env (fst (call_env c)) (snd (call_env c)) \<and> plain_call c m \<and>
     plain_run cs (exec_call memory_store (mem_call c) m))"

fun same_answers :: "twin_call list \<Rightarrow> mem \<Rightarrow> pg \<Rightarrow> bool" where
  "same_answers [] m s = True"
| "same_answers (c # cs) m s = (same_answer c m s \<and>
     same_answers cs (exec_call memory_store (mem_call c) m) (exec_call pg_store (pg_call c) s))"

lemma agree_call:
  assumes "stores_agree m s" "mem_inv m" "pg_inv s" "alike_env (fst (call_env c)) (snd (call_env c))" "plain_call c m"
  shows "same_answer c m s \<and> stores_agree (exec_call memory_store (mem_call c) m) (exec_call pg_store (pg_call c) s)"
proof -
  note a = assms(1)
  have k: "well_keyed m" "keyed (deliveries (db s))"
    using mem_invD(1) [OF assms(2)] assms(3) db_invD(1) by (auto simp: pg_inv_def)
  show ?thesis
  proof (cases c)
    case (Enqueue_call e ds)
    then show ?thesis using agree_Enqueue [OF assms(1-3), of "fst e" "snd e" ds] assms(4,5) by simp
  next
    case (Claim_call e ow g ps n)
    then show ?thesis using agree_Claim [OF assms(1-3), of "fst e" "snd e" ps n] assms(4,5) by simp
  next
    case (MarkDelivered_call e x ow g)
    then show ?thesis using agree_markTerminal [OF a k(2), of "fst e" "snd e" ow] assms(4,5)
      by (simp add: MarkDelivered_def pg_MarkDelivered_def)
  next
    case (MarkFailed_call e x ow g at t msg)
    then show ?thesis using agree_MarkFailed [OF a k(2), of "fst e" "snd e" ow t] assms(4,5) by simp
  next
    case (MarkDeadLetter_call e x ow g msg)
    then show ?thesis using agree_markTerminal [OF a k(2), of "fst e" "snd e" ow] assms(4,5)
      by (simp add: MarkDeadLetter_def pg_MarkDeadLetter_def)
  next
    case (ExhaustAndSuspend_call e x ow g msg)
    then show ?thesis using agree_ExhaustAndSuspend [OF assms(1-3), of "fst e" "snd e" ow] assms(4,5) by simp
  next
    case (Resume_call e x)
    then show ?thesis using agree_Resume [OF assms(1-3), of "fst e" "snd e" x] assms(4) by simp
  next
    case (IsSuspended_call e x)
    then show ?thesis using agree_IsSuspended [OF a, of "fst e" "snd e" x] a assms(4) by simp
  next
    case (RecoverStale_call e t)
    then show ?thesis using agree_RecoverStale [OF a k, of "fst e" "snd e" t] assms(4,5) by simp
  next
    case (PendingOrInFlight_call e)
    then show ?thesis using agree_PendingOrInFlight [OF a k, of "fst e" "snd e"] a assms(4) by simp
  qed
qed

lemma call_env_map: "call_env (map_call f c) = f (call_env c)"
  by (cases c) simp_all

lemma call_keeps_invs:
  assumes "mem_inv m" "pg_inv s" "alike_env (fst (call_env c)) (snd (call_env c))"
  shows "mem_inv (exec_call memory_store (mem_call c) m)" "pg_inv (exec_call pg_store (pg_call c) s)"
proof -
  have e: "fair_env (call_env (mem_call c))" "fair_pg (call_env (pg_call c))"
    using alike_envD(1,2) [OF assms(3)] by (simp_all add: call_env_map)
  show "mem_inv (exec_call memory_store (mem_call c) m)"
    by (rule refines_inv [OF assms(1) memory_call_refines [OF assms(1) e(1)]])
  show "pg_inv (exec_call pg_store (pg_call c) s)"
    using pg_call_steps [OF assms(2) e(2)] db_steps_inv assms(2) by (auto simp: pg_inv_def)
qed

text \<open>
  Claim C10. The two stores are interchangeable: over any sequence of plain calls of store.Store, made
  on a memory store and on a Postgres store that agree, the two give the same answers, an error where
  the other gives one, the same batches, the same gap reports, the same counts, and they agree again
  at the end. (Of a gap report, that it occurred and how many rows were dropped; the text of its marker
  names the last row dropped and differs, the memory store dropping in map order.)
\<close>

theorem stores_interchangeable:
  assumes "stores_agree m s" "mem_inv m" "pg_inv s" "plain_run cs m"
  shows "same_answers cs m s \<and>
    stores_agree (exec_calls memory_store (map mem_call cs) m) (exec_calls pg_store (map pg_call cs) s)"
  using assms
proof (induction cs arbitrary: m s)
  case (Cons c cs)
  have c: "alike_env (fst (call_env c)) (snd (call_env c))" "plain_call c m" using Cons.prems(4) by simp_all
  note step = agree_call [OF Cons.prems(1-3) c]
  then show ?case
    using Cons.IH [OF conjunct2 [OF step] call_keeps_invs [OF Cons.prems(2,3) c(1)]] Cons.prems(4) by simp
qed simp

text \<open>A run: a suspension, events retained over the bound, a resumption.\<close>

definition twin :: "gotime \<Rightarrow> env \<times> pgenv" where
  "twin t = (live_env (1000 * t), pg_live (1000 * t))"

lemma alike_twin: "0 < t \<Longrightarrow> alike_env (fst (twin t)) (snd (twin t))"
  by (simp add: twin_def alike_env_def pg_live_def fair_pg_def)

definition twin_calls :: "twin_call list" where
  "twin_calls =
     [Enqueue_call (twin 5) [mk_row ''a'' ''s'', mk_row ''b'' ''t'', mk_row ''c'' ''s''],
      Claim_call (twin 6) ''w'' 1 [0] 64,
      ExhaustAndSuspend_call (twin 7) ''a'' ''w'' 1 ''gone'',
      Enqueue_call (twin 8) [mk_row ''d'' ''s'', mk_row ''e'' ''s''],
      MarkDelivered_call (twin 9) ''b'' ''w'' 1,
      Resume_call (twin 10) ''s'',
      Claim_call (twin 11) ''w'' 1 [0] 64,
      PendingOrInFlight_call (twin 12)]"

lemma claim_room: "int (length (byID m)) \<le> n \<Longrightarrow> int (card (claim_keys t ps m)) \<le> n"
proof -
  assume n: "int (length (byID m)) \<le> n"
  have "claim_keys t ps m \<subseteq> set (map fst (byID m))"
    by (force simp: claim_keys_def row_def dest!: map_of_SomeD)
  then have "card (claim_keys t ps m) \<le> card (set (map fst (byID m)))" by (intro card_mono) simp_all
  also have "\<dots> \<le> length (byID m)" using card_length [of "map fst (byID m)"] by simp
  finally show ?thesis using n by linarith
qed

definition two_kept :: pg where
  "two_kept = pg_empty\<lparr>proc := (proc pg_empty)\<lparr>pg_RetentionMaxCount := 2\<rparr>\<rparr>"

lemma twin_fresh: "stores_agree (configured 2 0) two_kept \<and> mem_inv (configured 2 0) \<and> pg_inv two_kept"
proof -
  have "db two_kept = cl_db cluster_empty" by (simp add: two_kept_def cluster_empty_def fresh_cluster_def)
  then have "pg_inv two_kept"
    using cluster_empty_inv by (simp add: cluster_inv_def pg_inv_def) (simp add: two_kept_def pg_gates_def pg_empty_def)
  moreover have "stores_agree (configured 2 0) two_kept"
    by (simp add: stores_agree_def rows_alike_def configured_def two_kept_def mem_New_def pg_empty_def row_def core_def
        get_meta_def pg_meta_def last_of_def fun_eq_iff retentionCount_def pg_retentionCount_def retentionAge_def pg_retentionAge_def
        neg_duration_def DefaultRetentionMaxAge_def pg_DefaultRetentionMaxAge_def duration_defs wrap64_def)
  ultimately show ?thesis using mem_inv_configured by blast
qed

text \<open>A run with room for every row in its claims, tested by evaluation.\<close>

fun roomy :: "twin_call \<Rightarrow> mem \<Rightarrow> bool" where
  "roomy (Enqueue_call e ds) m = admissible m ds"
| "roomy (Claim_call e ow g ps n) m = (int (length (byID m)) \<le> n)"
| "roomy (MarkDelivered_call e k ow g) m = (ow \<noteq> [])"
| "roomy (ExhaustAndSuspend_call e k ow g msg) m = (ow \<noteq> [])"
| "roomy (Resume_call e x) m = True"
| "roomy (PendingOrInFlight_call e) m = True"
| "roomy _ m = False"

fun roomy_run :: "twin_call list \<Rightarrow> mem \<Rightarrow> bool" where
  "roomy_run [] m = True"
| "roomy_run (c # cs) m = (roomy c m \<and> roomy_run cs (exec_call memory_store (mem_call c) m))"

lemma roomy_plain: "roomy c m \<Longrightarrow> plain_call c m"
  using claim_room by (cases c) auto

lemma roomy_run_plain:
  "roomy_run cs m \<Longrightarrow> \<forall>c \<in> set cs. alike_env (fst (call_env c)) (snd (call_env c)) \<Longrightarrow> plain_run cs m"
  by (induction cs arbitrary: m) (auto simp: roomy_plain)

lemma twin_roomy: "roomy_run twin_calls (configured 2 0)"
  by code_simp

lemma twin_gap:
  "case fst (Resume (fst (twin 10)) ''s'' (exec_calls memory_store (map mem_call (take 5 twin_calls)) (configured 2 0))) of
     Inr g \<Rightarrow> Occurred g \<and> Dropped g = 1 | Inl _ \<Rightarrow> False"
  by code_simp

theorem stores_interchangeable_witness:
  "same_answers twin_calls (configured 2 0) two_kept \<and>
   (case fst (Resume (fst (twin 10)) ''s'' (exec_calls memory_store (map mem_call (take 5 twin_calls)) (configured 2 0))) of
     Inr g \<Rightarrow> Occurred g \<and> Dropped g = 1 | Inl _ \<Rightarrow> False)"
proof -
  have "plain_run twin_calls (configured 2 0)"
    by (rule roomy_run_plain [OF twin_roomy]) (simp add: twin_calls_def alike_twin)
  then have "same_answers twin_calls (configured 2 0) two_kept"
    using stores_interchangeable twin_fresh by blast
  then show ?thesis using twin_gap by blast
qed

end
