(* ===== verification/PostgresAdmit.thy ===== *)
theory PostgresAdmit
  imports StoresAgree PostgresProps
begin

text \<open>
  Enqueue of postgres.go is one transaction: it admits a whole batch, numbered without gaps, or nothing.
\<close>

definition pg_admissible :: "pgdb \<Rightarrow> delivery list \<Rightarrow> bool" where
  "pg_admissible t ds \<longleftrightarrow> distinct (map ID ds) \<and>
     (\<forall>d \<in> set ds. ID d \<noteq> [] \<and> SubscriberID d \<noteq> [] \<and> map_of (deliveries t) (ID d) = None)"

lemma pg_enqueue_row_frame:
  assumes "map_of (deliveries t) (ID d) = None"
  shows "map_of (deliveries (pg_enqueue_row t0 d t)) k =
      (if k = ID d then Some (pg_stored_row t0 (pg_next_seq t (SubscriberID d)) (is_suspended t (SubscriberID d)) d)
       else map_of (deliveries t) k)"
    "is_suspended (pg_enqueue_row t0 d t) = is_suspended t"
    "pg_next_seq (pg_enqueue_row t0 d t) x = pg_next_seq t x + (if SubscriberID d = x then 1 else 0)"
  by (simp_all add: pg_enqueue_row_def map_of_snoc [OF assms] is_suspended_def pg_next_seq_def fun_eq_iff del: map_of_append)

lemma pg_admissible_Cons:
  "pg_admissible t (d # ds) \<longleftrightarrow> ID d \<noteq> [] \<and> SubscriberID d \<noteq> [] \<and> map_of (deliveries t) (ID d) = None \<and>
     pg_admissible (pg_enqueue_row t0 d t) ds"
proof (cases "map_of (deliveries t) (ID d) = None")
  case True
  have "(\<forall>r \<in> set ds. ID r \<noteq> [] \<and> SubscriberID r \<noteq> [] \<and> map_of (deliveries (pg_enqueue_row t0 d t)) (ID r) = None) \<longleftrightarrow>
      ID d \<notin> ID ` set ds \<and> (\<forall>r \<in> set ds. ID r \<noteq> [] \<and> SubscriberID r \<noteq> [] \<and> map_of (deliveries t) (ID r) = None)"
    unfolding pg_enqueue_row_frame(1) [OF True] by (auto split: if_splits) (metis image_eqI)
  then show ?thesis using True by (simp add: pg_admissible_def) blast
qed (auto simp: pg_admissible_def)

lemma taken_by_id: "map_of (deliveries t) (ID d) \<noteq> None \<Longrightarrow> key_taken (pg_stored_row t0 n b d) (deliveries t)"
  by (force simp: key_taken_def list_ex_iff pg_stored_row_def dest: map_of_SomeD)

lemma pg_enqueue_loop_ok:
  assumes "db_inv t"
  shows "(\<exists>y. pg_enqueue_loop False t0 ds t touched = Inr y) = pg_admissible t ds \<and>
    (pg_admissible t ds \<longrightarrow> (\<exists>touched'. pg_enqueue_loop False t0 ds t touched = Inr (fold (pg_enqueue_row t0) ds t, touched'))) \<and>
    (pg_admissible t ds \<longrightarrow> db_inv (fold (pg_enqueue_row t0) ds t))"
  using assms
proof (induction ds arbitrary: t touched)
  case Nil
  then show ?case by (simp add: pg_admissible_def)
next
  case (Cons d ds)
  let ?x = "SubscriberID d"
  show ?case
  proof (cases "ID d \<noteq> [] \<and> ?x \<noteq> [] \<and> map_of (deliveries t) (ID d) = None")
    case True
    let ?touched = "if is_suspended t ?x then List.insert ?x touched else touched"
    have look: "map_of (deliveries t) (ID d) = None" using True by blast
    have i: "db_inv (pg_enqueue_row t0 d t)" by (rule db_steps_inv [OF Cons.prems pg_enqueue_row_steps [OF Cons.prems look]])
    have "pg_enqueue_loop False t0 (d # ds) t touched = pg_enqueue_loop False t0 ds (pg_enqueue_row t0 d t) ?touched"
      using True stored_not_taken [OF Cons.prems look] by (simp add: Let_def pg_enqueue_row_def is_suspended_def)
    then show ?thesis using Cons.IH [OF i, of ?touched] True pg_admissible_Cons [of t d ds t0] by simp
  next
    case False
    then have "\<nexists>y. pg_enqueue_loop False t0 (d # ds) t touched = Inr y"
      using taken_by_id [of "t\<lparr>subscriber_seq := q\<rparr>" d for q] by (auto simp: Let_def)
    then show ?thesis using False pg_admissible_Cons [of t d ds t0] by blast
  qed
qed

lemma pg_fold_rows:
  "pg_admissible t ds \<Longrightarrow> is_suspended (fold (pg_enqueue_row t0) ds t) = is_suspended t \<and>
   (\<forall>k. k \<notin> ID ` set ds \<longrightarrow> map_of (deliveries (fold (pg_enqueue_row t0) ds t)) k = map_of (deliveries t) k) \<and>
   (\<forall>i < length ds. map_of (deliveries (fold (pg_enqueue_row t0) ds t)) (ID (ds ! i)) =
     Some (pg_stored_row t0 (pg_next_seq t (SubscriberID (ds ! i)) + earlier_of (ds ! i) (take i ds))
       (is_suspended t (SubscriberID (ds ! i))) (ds ! i)))"
proof (induction ds arbitrary: t)
  case (Cons d ds)
  have ok: "map_of (deliveries t) (ID d) = None" "pg_admissible (pg_enqueue_row t0 d t) ds"
    using Cons.prems pg_admissible_Cons [of t d ds t0] by blast+
  have fresh: "ID d \<notin> ID ` set ds" using Cons.prems by (auto simp: pg_admissible_def)
  note f = pg_enqueue_row_frame [OF ok(1)] and IH = Cons.IH [OF ok(2)]
  let ?T = "fold (pg_enqueue_row t0) (d # ds) t"
  have "map_of (deliveries ?T) (ID ((d # ds) ! i)) =
      Some (pg_stored_row t0 (pg_next_seq t (SubscriberID ((d # ds) ! i)) + earlier_of ((d # ds) ! i) (take i (d # ds)))
       (is_suspended t (SubscriberID ((d # ds) ! i))) ((d # ds) ! i))" if "i < length (d # ds)" for i
  proof (cases i)
    case 0
    then show ?thesis using IH fresh by (simp add: f earlier_of_def)
  next
    case (Suc j)
    then have "map_of (deliveries ?T) (ID (ds ! j)) = Some (pg_stored_row t0
        (pg_next_seq (pg_enqueue_row t0 d t) (SubscriberID (ds ! j)) + earlier_of (ds ! j) (take j ds))
        (is_suspended t (SubscriberID (ds ! j))) (ds ! j))" using IH that by (simp add: f(2))
    then show ?thesis using Suc by (simp add: f(3) earlier_of_def add.assoc)
  qed
  then show ?case using IH by (simp add: f)
qed simp

lemma pg_retention_keeps:
  assumes "db_inv t" "map_of (deliveries t) k = Some d"
  shows "map_of (deliveries (fold (\<lambda>x. applyRetentionTx p x t0) xs t)) k = Some d \<or>
    Status d = StatusRetained \<and> map_of (deliveries (fold (\<lambda>x. applyRetentionTx p x t0) xs t)) k = None"
proof -
  note P = pg_retention_all [OF assms(1) refl refl refl refl, of p t0 xs]
  have "k \<in> removed_all c n xs (map_of (deliveries t)) \<Longrightarrow> Status d = StatusRetained" for c n
    using assms(2) by (auto simp: removed_all_def removed_def retained_of_def)
  then show ?thesis using conjunct1 [OF P] assms(2) by (auto simp: without_def)
qed

text \<open>
  Claim C28. \<^verbatim>\<open>Enqueue\<close> of the Postgres store is all or nothing. Unless the context is done or the
  database refuses, it succeeds exactly on a batch whose deliveries have distinct, new, non-empty
  identifiers and a subscriber. When it returns an error the store is unchanged: no row of the batch
  and no sequence number is left behind. When it returns none, every delivery of a subscriber that is
  not suspended is stored pending, numbered by its subscriber's next sequence number plus the number
  of that subscriber's deliveries before it in the batch; one of a suspended subscriber is stored
  retained, if retention keeps it; and no row but a retained one changes.
\<close>

theorem pg_enqueue_all_or_nothing:
  assumes "pg_inv s" "(err, s') = pg_Enqueue e ds s"
  shows "(err = None \<longleftrightarrow> pe_ctx e = None \<and> (ds = [] \<or> pe_fault e SMain = None \<and> pg_admissible (db s) ds)) \<and>
    (err \<noteq> None \<longrightarrow> s' = s) \<and>
    (err = None \<longrightarrow>
       (\<forall>i < length ds. let d = ds ! i; x = SubscriberID d;
            stored = pg_stored_row (pe_clock e) (pg_next_seq (db s) x + earlier_of d (take i ds)) (is_suspended (db s) x) d in
          map_of (deliveries (db s')) (ID d) = Some stored \<or>
          is_suspended (db s) x \<and> map_of (deliveries (db s')) (ID d) = None) \<and>
       (\<forall>k d. k \<notin> ID ` set ds \<longrightarrow> map_of (deliveries (db s)) k = Some d \<longrightarrow> Status d \<noteq> StatusRetained \<longrightarrow>
          map_of (deliveries (db s')) k = Some d))"
proof (cases "pe_ctx e = None \<and> ds \<noteq> [] \<and> pe_fault e SMain = None \<and> pg_admissible (db s) ds")
  case False
  have gate: "\<not> pg_SkipSuspendGate (proc s)" and i: "db_inv (db s)" using assms(1) by (simp_all add: pg_inv_def pg_gates_def)
  have bad: "\<exists>er. pg_enqueue_loop False (pe_clock e) ds (db s) [] = Inl er" if "\<not> pg_admissible (db s) ds"
    using pg_enqueue_loop_ok [OF i, of "pe_clock e" ds "[]"] that
    by (cases "pg_enqueue_loop False (pe_clock e) ds (db s) []") auto
  show ?thesis
  proof (cases "pe_ctx e = None \<and> ds = []")
    case True
    then show ?thesis using assms(2) by (simp add: pg_Enqueue_def)
  next
    case no: False
    then have "err \<noteq> None \<and> s' = s"
      using assms(2) gate bad False by (auto simp: pg_Enqueue_def split: option.splits)
    then show ?thesis using no False by auto
  qed
next
  case True
  have gate: "\<not> pg_SkipSuspendGate (proc s)" and i: "db_inv (db s)" using assms(1) by (simp_all add: pg_inv_def pg_gates_def)
  define t1 where "t1 = fold (pg_enqueue_row (pe_clock e)) ds (db s)"
  obtain touched where l: "pg_enqueue_loop False (pe_clock e) ds (db s) [] = Inr (t1, touched)" and i1: "db_inv t1"
    using pg_enqueue_loop_ok [OF i, of "pe_clock e" ds "[]"] True by (auto simp: t1_def)
  have s': "err = None" "db s' = fold (\<lambda>x. applyRetentionTx (proc s) x (pe_clock e)) (pe_touched e touched) t1"
    using assms(2) True gate l by (simp_all add: pg_Enqueue_def pg_signal_def)
  have F: "is_suspended t1 = is_suspended (db s)"
      "\<And>k. k \<notin> ID ` set ds \<Longrightarrow> map_of (deliveries t1) k = map_of (deliveries (db s)) k"
      "\<And>i. i < length ds \<Longrightarrow> map_of (deliveries t1) (ID (ds ! i)) =
        Some (pg_stored_row (pe_clock e) (pg_next_seq (db s) (SubscriberID (ds ! i)) + earlier_of (ds ! i) (take i ds))
         (is_suspended (db s) (SubscriberID (ds ! i))) (ds ! i))"
    using pg_fold_rows [of "db s" ds "pe_clock e"] True by (simp_all add: t1_def)
  note keeps = pg_retention_keeps [OF i1, of _ _ "proc s" "pe_clock e" "pe_touched e touched", folded s'(2)]
  have "map_of (deliveries (db s')) (ID d) = Some stored \<or> is_suspended (db s) x \<and> map_of (deliveries (db s')) (ID d) = None"
    if "i < length ds" "d = ds ! i" "x = SubscriberID d"
      "stored = pg_stored_row (pe_clock e) (pg_next_seq (db s) x + earlier_of d (take i ds)) (is_suspended (db s) x) d" for i d x stored
    using keeps [of "ID d" stored] F(3) [OF that(1)] that by (auto simp: pg_stored_row_def split: if_splits)
  moreover have "map_of (deliveries (db s')) k = Some d"
    if "k \<notin> ID ` set ds" "map_of (deliveries (db s)) k = Some d" "Status d \<noteq> StatusRetained" for k d
    using keeps [of k d] F(2) [OF that(1)] that by simp
  ultimately show ?thesis using True s'(1) by (auto simp: Let_def)
qed

text \<open>The duplicate at the end of a batch undoes the batch.\<close>

definition pg_batch :: "delivery list" where
  "pg_batch = [pg_row ''p'' ''u'', pg_row ''q'' ''s'', pg_row ''r'' ''u'']"

theorem pg_enqueue_all_or_nothing_witness:
  "snd (pg_Enqueue (pg_live 5000) (pg_batch @ [pg_row ''p'' ''u'']) pg_empty) = pg_empty \<and>
   fst (pg_Enqueue (pg_live 5000) (pg_batch @ [pg_row ''p'' ''u'']) pg_empty) \<noteq> None \<and>
   map_of (deliveries (db (snd (pg_Enqueue (pg_live 5000) pg_batch pg_empty)))) ''r'' =
     Some (pg_stored_row 5000 2 False (pg_row ''r'' ''u''))"
proof -
  have i: "pg_inv pg_empty"
    using cluster_empty_inv by (simp add: cluster_empty_def fresh_cluster_def cluster_inv_def pg_inv_def pg_gates_def) (simp add: pg_empty_def)
  let ?bad = "pg_batch @ [pg_row ''p'' ''u'']"
  have bad: "\<not> pg_admissible (db pg_empty) ?bad" by (simp add: pg_admissible_def pg_batch_def)
  have ok: "pg_admissible (db pg_empty) pg_batch" by (simp add: pg_admissible_def pg_batch_def pg_row_def pg_empty_def)
  have clock: "pe_clock (pg_live t) = t" for t by (simp add: pg_live_def)
  have nth: "pg_batch ! 2 = pg_row ''r'' ''u''" "2 < length pg_batch" "?bad \<noteq> []" by (simp_all add: pg_batch_def)
  have vals: "pg_next_seq (db pg_empty) ''u'' + earlier_of (pg_row ''r'' ''u'') (take 2 pg_batch) = 2"
      "\<not> is_suspended (db pg_empty) ''u''" "SubscriberID (pg_row ''r'' ''u'') = ''u''" "ID (pg_row ''r'' ''u'') = ''r''"
    by code_simp+
  note main = pg_enqueue_all_or_nothing [OF i surjective_pairing [symmetric], where e = "pg_live 5000"]
  have "fst (pg_Enqueue (pg_live 5000) ?bad pg_empty) \<noteq> None" using main [of ?bad] bad nth(3) by simp
  moreover have "snd (pg_Enqueue (pg_live 5000) ?bad pg_empty) = pg_empty" using main [of ?bad] calculation by blast
  moreover have "fst (pg_Enqueue (pg_live 5000) pg_batch pg_empty) = None" using main [of pg_batch] ok by simp
  with main [of pg_batch] nth vals have "map_of (deliveries (db (snd (pg_Enqueue (pg_live 5000) pg_batch pg_empty)))) ''r'' =
     Some (pg_stored_row 5000 2 False (pg_row ''r'' ''u''))"
    by (auto simp: Let_def clock dest!: spec [of _ 2])
  ultimately show ?thesis by blast
qed

end
