(* ===== verification/Columns.thy ===== *)
theory Columns
  imports Postgres
begin

text \<open>
  The columns of fold_deliveries (store/postgres/schema.sql) and the code that crosses between them and a
  Delivery: the values of an INSERT, the SET list of a claim and of a mark, and \<^verbatim>\<open>scanDelivery\<close>. The
  Postgres model keeps a table of deliveries; the theorem says that this loses nothing: reading back
  the columns a statement writes gives the row the model stores.
\<close>

section \<open>A row of the table\<close>

record columns =
  c_id :: string
  c_event_id :: string
  c_subscriber_id :: string
  c_url :: string
  c_partition :: int
  c_sequence :: int
  c_payload :: bytes
  c_event_type :: string
  c_status :: string
  c_attempt :: int
  c_next_attempt_at :: gotime
  c_last_error :: string
  c_owner :: "string option"
  c_generation :: int
  c_claimed_at :: "gotime option"
  c_created_at :: gotime
  c_secret :: bytes

text \<open>A status the package does not know cannot be read as one (nothing writes it).\<close>

definition status_of :: "string \<Rightarrow> status option" where
  "status_of w = find (\<lambda>st. status_text st = w)
     [StatusPending, StatusInFlight, StatusDelivered, StatusDeadLettered, StatusRetained]"

definition scanDelivery :: "columns \<Rightarrow> delivery option" where
  "scanDelivery c = map_option (\<lambda>st.
     \<lparr>ID = c_id c, EventID = c_event_id c, SubscriberID = c_subscriber_id c, URL = c_url c,
      PartitionNo = c_partition c, Sequence = c_sequence c, Payload = Some (c_payload c),
      EventType = c_event_type c, Secret = Some (c_secret c), Status = st, Attempt = c_attempt c,
      NextAttempt = c_next_attempt_at c, LastError = c_last_error c,
      Owner = (case c_owner c of None \<Rightarrow> [] | Some ow \<Rightarrow> ow), Generation = word_of_int (c_generation c),
      ClaimedAt = (case c_claimed_at c of None \<Rightarrow> zero_time | Some t \<Rightarrow> t), CreatedAt = c_created_at c\<rparr>)
     (status_of (c_status c))"

section \<open>What the statements write\<close>

definition empty_if_nil :: "bytes option \<Rightarrow> bytes" where
  "empty_if_nil b = (case b of None \<Rightarrow> [] | Some bs \<Rightarrow> bs)"

definition insert_columns :: "gotime \<Rightarrow> int \<Rightarrow> bool \<Rightarrow> delivery \<Rightarrow> columns" where
  "insert_columns now n retained d =
     \<lparr>c_id = ID d, c_event_id = EventID d, c_subscriber_id = SubscriberID d, c_url = URL d,
      c_partition = PartitionNo d, c_sequence = n, c_payload = empty_if_nil (Payload d),
      c_event_type = EventType d, c_status = status_text (if retained then StatusRetained else StatusPending),
      c_attempt = 0, c_next_attempt_at = micros now, c_last_error = [], c_owner = None, c_generation = 0,
      c_claimed_at = None, c_created_at = micros now, c_secret = empty_if_nil (Secret d)\<rparr>"

text \<open>\<open>own_gen\<close>: \<^verbatim>\<open>int64(generation)\<close>, or the generation of the partition's owner row.\<close>

definition claim_columns :: "string \<Rightarrow> int \<Rightarrow> gotime \<Rightarrow> columns \<Rightarrow> columns" where
  "claim_columns owner own_gen now c = c\<lparr>c_status := ''in_flight'', c_owner := Some owner, c_generation := own_gen,
     c_claimed_at := Some now, c_attempt := c_attempt c + 1\<rparr>"

definition failed_columns :: "int \<Rightarrow> gotime \<Rightarrow> string \<Rightarrow> columns \<Rightarrow> columns" where
  "failed_columns attempt nxt msg c = c\<lparr>c_status := ''pending'', c_attempt := attempt, c_next_attempt_at := micros nxt,
     c_last_error := msg, c_owner := None, c_generation := 0, c_claimed_at := None\<rparr>"

definition terminal_columns :: "status \<Rightarrow> string \<Rightarrow> columns \<Rightarrow> columns" where
  "terminal_columns st msg c = c\<lparr>c_status := status_text st, c_last_error := msg,
     c_owner := None, c_generation := 0, c_claimed_at := None\<rparr>"

text \<open>\<^verbatim>\<open>WHERE id = $1 AND status = 'in_flight' AND owner = $2 AND generation = $3\<close>; NULL equals nothing.\<close>

definition mark_columns :: "string \<Rightarrow> string \<Rightarrow> uint64 \<Rightarrow> columns \<Rightarrow> bool" where
  "mark_columns k owner gen c \<longleftrightarrow> c_id c = k \<and> c_status c = ''in_flight'' \<and> c_owner c = Some owner \<and> c_generation c = sint gen"

lemma status_of_text [simp]: "status_of (status_text st) = Some st"
  by (cases st) (simp_all add: status_of_def)

lemma status_literals: "status_of ''in_flight'' = Some StatusInFlight" "status_of ''pending'' = Some StatusPending"
  using status_of_text [of StatusInFlight] status_of_text [of StatusPending] by simp_all

lemma status_of_in_flight: "status_of w = Some st \<Longrightarrow> w = ''in_flight'' \<longleftrightarrow> st = StatusInFlight"
  by (cases st) (auto simp: status_of_def split: if_splits)

lemma bigint_generation: "int64 n \<Longrightarrow> word_of_int n = (g :: uint64) \<longleftrightarrow> n = sint g"
  by (auto simp: int64_def min_int64_def max_int64_def int_word_sint)

text \<open>
  Claim C31. The columns carry the whole row. Scanning what an INSERT wrote gives the row the model
  stores; on a row that scans as \<open>d\<close> the SET list of a claim or a mark gives a row that scans as the
  claimed or marked \<open>d\<close>, and the WHERE clause of a mark holds exactly of the claim that is marked. The
  status survives its text, a NULL owner or claim time reads as none, and a 64-bit generation
  survives the signed BIGINT, also from 2 ^ 63 on.
\<close>

theorem columns_roundtrip:
  assumes "scanDelivery c = Some d" "int64 (c_generation c)" "ow \<noteq> []"
  shows "scanDelivery (insert_columns now n b r) = Some (pg_stored_row now n b r) \<and>
    scanDelivery (claim_columns ow (sint g) now c) = Some (claim_row ow g now d) \<and>
    scanDelivery (failed_columns a nxt msg c) =
      Some (release (d\<lparr>Status := StatusPending, Attempt := a, NextAttempt := micros nxt, LastError := msg\<rparr>)) \<and>
    scanDelivery (terminal_columns st msg c) = Some (release (d\<lparr>Status := st, LastError := msg\<rparr>)) \<and>
    (\<not> SkipMarkOwnerGenCheck p \<longrightarrow> (mark_columns k ow g c \<longleftrightarrow> mark_where p k ow g d))"
proof -
  obtain st' where st': "status_of (c_status c) = Some st'" using assms(1) by (auto simp: scanDelivery_def)
  note in_flight = status_of_in_flight [OF st']
  have d: "d = \<lparr>ID = c_id c, EventID = c_event_id c, SubscriberID = c_subscriber_id c, URL = c_url c,
      PartitionNo = c_partition c, Sequence = c_sequence c, Payload = Some (c_payload c),
      EventType = c_event_type c, Secret = Some (c_secret c), Status = st', Attempt = c_attempt c,
      NextAttempt = c_next_attempt_at c, LastError = c_last_error c,
      Owner = (case c_owner c of None \<Rightarrow> [] | Some ow \<Rightarrow> ow), Generation = word_of_int (c_generation c),
      ClaimedAt = (case c_claimed_at c of None \<Rightarrow> zero_time | Some t \<Rightarrow> t), CreatedAt = c_created_at c\<rparr>"
    using assms(1) by (simp add: scanDelivery_def st')
  have "scanDelivery (insert_columns now n b r) = Some (pg_stored_row now n b r)"
    by (cases r) (simp add: scanDelivery_def insert_columns_def pg_stored_row_def empty_if_nil_def not_null_def zero_time_def)
  moreover have "scanDelivery (claim_columns ow (sint g) now c) = Some (claim_row ow g now d)"
    by (simp add: d scanDelivery_def claim_columns_def status_literals claim_row_def)
  moreover have "scanDelivery (failed_columns a nxt msg c) =
      Some (release (d\<lparr>Status := StatusPending, Attempt := a, NextAttempt := micros nxt, LastError := msg\<rparr>))"
    by (simp add: d scanDelivery_def failed_columns_def status_literals release_def)
  moreover have "scanDelivery (terminal_columns st msg c) = Some (release (d\<lparr>Status := st, LastError := msg\<rparr>))"
    by (simp add: d scanDelivery_def terminal_columns_def release_def)
  moreover have "mark_columns k ow g c \<longleftrightarrow> mark_where p k ow g d" if "\<not> SkipMarkOwnerGenCheck p"
    using that assms(3) bigint_generation [OF assms(2), of g]
    by (auto simp: d mark_columns_def mark_where_def in_flight split: option.splits)
  ultimately show ?thesis by blast
qed

definition sample_columns :: columns where
  "sample_columns = claim_columns ''w'' (- 1) 9000 (insert_columns 5000 1 False \<lparr>ID = ''a'', EventID = ''e'', SubscriberID = ''s'',
     URL = ''u'', PartitionNo = 0, Sequence = 0, Payload = None, EventType = ''t'', Secret = None, Status = StatusPending,
     Attempt = 0, NextAttempt = 0, LastError = [], Owner = [], Generation = 0, ClaimedAt = 0, CreatedAt = 0\<rparr>)"

text \<open>The largest generation is stored as -1 and still fences.\<close>

theorem columns_roundtrip_witness:
  "mark_where (proc pg_empty) ''a'' ''w'' (- 1) (the (scanDelivery sample_columns)) \<and>
   Owner (the (scanDelivery (terminal_columns StatusDelivered [] sample_columns))) = []"
proof -
  obtain d where d: "scanDelivery sample_columns = Some d"
    by (auto simp: sample_columns_def claim_columns_def scanDelivery_def status_literals)
  have "int64 (c_generation sample_columns)" by (simp add: sample_columns_def claim_columns_def int64_def min_int64_def max_int64_def)
  note main = columns_roundtrip [OF d this, where ow = "''w''" and g = "- 1" and k = "''a''" and p = "proc pg_empty" and st = StatusDelivered and msg = "[]"]
  have "mark_columns ''a'' ''w'' (- 1) sample_columns"
    by (simp add: sample_columns_def mark_columns_def claim_columns_def insert_columns_def)
  moreover have "\<not> SkipMarkOwnerGenCheck (proc pg_empty)" by (simp add: pg_empty_def)
  ultimately show ?thesis using main d by (simp add: release_def)
qed

end
