(* ===== verification/Spikes.thy ===== *)
theory Spikes
  imports Bridge
begin

text \<open>
  The small programs beside the library: the two trials of an Erlang node in Go (\<^verbatim>\<open>spike/dist-handshake\<close>,
  \<^verbatim>\<open>spike/manifold-bridge\<close>), of which the handlers are modelled, and the static check of the worker path
  (\<^verbatim>\<open>scripts/checkserialize\<close>). What an actor sends for a message is a list; logging is left out, and so is
  a failed send, after which each of them goes on.
\<close>

section \<open>The trial nodes\<close>

definition echo_HandleInfo :: "'p bridge_lib \<Rightarrow> 'p erl \<Rightarrow> ('p \<times> 'p erl) list" where
  "echo_HandleInfo lib msg =
     (case msg of
        ETuple t \<Rightarrow>
          if length t \<noteq> 2 then []
          else (case element lib t 1 of
                  EAtom a \<Rightarrow>
                    if a \<noteq> ''hello_from_elixir'' then []
                    else (case element lib t 2 of
                            EPid from \<Rightarrow> [(from, EAtom ''hello_from_go'')]
                          | _ \<Rightarrow> [])
                | _ \<Rightarrow> [])
      | _ \<Rightarrow> [])"

definition spike_pidList :: "'p erl \<Rightarrow> 'p list" where
  "spike_pidList v = (case v of EList xs \<Rightarrow> List.map_filter asPid xs | ESlice xs \<Rightarrow> List.map_filter asPid xs
     | EPid p \<Rightarrow> [p] | _ \<Rightarrow> [])"

definition partitioner_HandleCast :: "'p bridge_lib \<Rightarrow> 'p erl \<Rightarrow> ('p \<times> 'p erl) list" where
  "partitioner_HandleCast lib msg =
     (case msg of
        ETuple t \<Rightarrow>
          if length t \<noteq> 3 then []
          else (case element lib t 1 of
                  EAtom a \<Rightarrow>
                    if a \<noteq> ''send'' then []
                    else map (\<lambda>p. (p, element lib t 3)) (spike_pidList (element lib t 2))
                | _ \<Rightarrow> [])
      | _ \<Rightarrow> [])"

text \<open>\<open>self\<close>: the receiver's own process. A request for it is answered before the proof is looked for.\<close>

definition give_pid :: "'p bridge_lib \<Rightarrow> 'p \<Rightarrow> 'p erl list \<Rightarrow> ('p \<times> 'p erl) list" where
  "give_pid lib self t =
     (case element lib t 2 of EPid from \<Rightarrow> [(from, ETuple [EAtom ''pid'', EPid self])] | _ \<Rightarrow> [])"

definition receiver_HandleInfo :: "'p bridge_lib \<Rightarrow> 'p \<Rightarrow> 'p erl \<Rightarrow> ('p \<times> 'p erl) list" where
  "receiver_HandleInfo lib self msg =
     (case msg of
        ETuple t \<Rightarrow>
          if length t = 2 \<and> element lib t 1 = EAtom ''give_pid'' then give_pid lib self t
          else if 1 \<le> length t \<and> element lib t 1 = EAtom ''manifold_proof'' \<and> 2 \<le> length t
          then (case element lib t 2 of EPid from \<Rightarrow> [(from, EAtom ''proof_ok'')] | _ \<Rightarrow> [])
          else []
      | _ \<Rightarrow> [])"

section \<open>The static check\<close>

text \<open>
  What the parser yields for a file: the paths it imports, without their quotes, and its selector
  expressions, each with the identifier selected from, if it is one.
\<close>

record go_file =
  imports_of :: "string list"
  selectors_of :: "(string option \<times> string) list"

definition json_calls :: "string list" where
  "json_calls = [''Marshal'', ''MarshalIndent'', ''NewEncoder'', ''NewDecoder'', ''Unmarshal'']"

definition check_file :: "go_file option \<Rightarrow> bool" where
  "check_file f =
     (case f of
        None \<Rightarrow> False
      | Some g \<Rightarrow>
          \<not> list_ex (\<lambda>path. path = ''encoding/json'') (imports_of g) \<and>
          \<not> list_ex (\<lambda>(pkg, sel). pkg = Some ''json'' \<and> List.member json_calls sel) (selectors_of g))"

definition checkserialize_main :: "(string \<Rightarrow> go_file option) \<Rightarrow> string list \<Rightarrow> int" where
  "checkserialize_main parse paths =
     (if paths = [] then 2
      else if list_all (\<lambda>p. check_file (parse p)) paths then 0 else 1)"

section \<open>The trial and the fleet node\<close>

text \<open>
  The partitioner of a fleet node forwards what the trial showed to work: for any message it sends exactly
  what the trial's partitioner sends, in the same order, and changes nothing else of the node; and that
  is, for a well-formed cast, the payload to each process listed, in order.
\<close>

lemma fold_send: "fold (\<lambda>p. send p v) ps b = b\<lparr>br_sent := br_sent b @ map (\<lambda>p. (p, v)) ps\<rparr>"
  by (induction ps arbitrary: b) (simp_all add: send_def)

lemma partitioner_as_tried: "HandleCast lib msg b = b\<lparr>br_sent := br_sent b @ partitioner_HandleCast lib msg\<rparr>"
proof -
  have "spike_pidList v = pidList v" for v :: "'a erl" by (simp add: spike_pidList_def pidList_def split: erl.split)
  then show ?thesis
    by (simp add: HandleCast_def partitioner_HandleCast_def fold_send split: erl.split)
qed

lemma partitioner_forwards_all:
  assumes "one_based lib"
  shows "partitioner_HandleCast lib (ETuple [EAtom ''send'', EList (map EPid ps), v]) = map (\<lambda>p. (p, v)) ps"
proof -
  let ?t = "[EAtom ''send'', EList (map EPid ps), v]"
  have "i < length ?t \<Longrightarrow> element lib ?t (Suc i) = ?t ! i" for i using assms unfolding one_based_def by blast
  from this [of 0] this [of 1] this [of 2]
  have e: "element lib ?t 1 = EAtom ''send''" "element lib ?t 2 = EList (map EPid ps)" "element lib ?t 3 = v"
    by (simp_all add: numeral_2_eq_2 numeral_3_eq_3)
  have "List.map_filter asPid (map EPid qs) = qs" for qs :: "'a list"
    by (induction qs) (simp_all add: asPid_def List.map_filter_simps)
  then show ?thesis by (simp add: partitioner_HandleCast_def e e(1) [unfolded One_nat_def] spike_pidList_def)
qed

end
