(* ===== verification/SplitClaim.thy ===== *)
theory SplitClaim
  imports PostgresProps
begin

text \<open>
  A claim in two steps. At READ COMMITTED the statement of \<^verbatim>\<open>Claim\<close> chooses its rows, with their generations, from the
  snapshot at its start and locks them (\<^verbatim>\<open>FOR UPDATE OF d SKIP LOCKED\<close>); the rows become in flight for everyone else
  when it commits. In between other sessions run, but none changes a row the claim has locked: it would
  wait. The owner row is not locked. This is the setting in which a graceful handoff is judged here; the
  one-step \<open>pg_Claim\<close> of the other theories is the two steps with nothing in between (\<open>claim_in_two_steps\<close>). Choosing and
  locking the rows count as one step.
\<close>

section \<open>The two steps\<close>

text \<open>The rows chosen, by ID, each with the generation it will be stamped with.\<close>

definition claim_snapshot ::
  "pgenv \<Rightarrow> string \<Rightarrow> uint64 \<Rightarrow> int list \<Rightarrow> int \<Rightarrow> pg \<Rightarrow> (store_error + (string \<times> uint64) list) \<times> pg" where
  "claim_snapshot e owner gen parts limit s =
     (case pe_ctx e of
        Some err \<Rightarrow> (Inl (ECtx err), s)
      | None \<Rightarrow>
          if owner = [] then (Inl EClaimOwner, s)
          else if gen = 0 then (Inl EClaimGeneration, s)
          else if limit \<le> 0 then (Inr [], s)
          else case refreshDistributedOwnership e s of
            (Some err, s1) \<Rightarrow> (Inl err, s1)
          | (None, s1) \<Rightarrow>
              let p = proc s1; t = db s1 in
              if \<not> distributedOwnership p then
                if parts = [] then (Inr [], s1)
                else (case pe_fault e SMain of
                        Some m \<Rightarrow> (Inl (EDatabase m), s1)
                      | None \<Rightarrow> (Inr (map (\<lambda>d. (ID d, gen))
                                 (pg_candidates e p (\<lambda>d. PartitionNo d \<in> set parts) limit t)), s1))
              else case parseDistributedOwner owner of
                     None \<Rightarrow> (Inl (EDistributedOwner owner), s1)
                   | Some node \<Rightarrow>
                       (case checkOwnershipMetadata e t of
                          Some err \<Rightarrow> (Inl err, s1)
                        | None \<Rightarrow>
                            (case pe_fault e SMain of
                               Some m \<Rightarrow> (Inl (EDatabase m), s1)
                             | None \<Rightarrow> (Inr (map (\<lambda>d. (ID d, partition_stamp t d))
                                        (pg_candidates e p (node_owns p node t) limit t)), s1))))"

definition commit_row :: "string \<Rightarrow> gotime \<Rightarrow> (string \<times> uint64) list \<Rightarrow> delivery \<Rightarrow> delivery" where
  "commit_row owner t0 xs d = (case map_of xs (ID d) of None \<Rightarrow> d | Some g \<Rightarrow> claim_row owner g t0 d)"

definition claim_commit :: "pgenv \<Rightarrow> string \<Rightarrow> (string \<times> uint64) list \<Rightarrow> pg \<Rightarrow> delivery list \<times> pg" where
  "claim_commit e owner xs s =
     (let f = commit_row owner (pe_now e) xs
      in (pe_arrange e (map f (List.map_filter (\<lambda>(k, g). map_of (deliveries (db s)) k) xs)),
          s\<lparr>db := (db s)\<lparr>deliveries := upd_where (\<lambda>d. ID d \<in> fst ` set xs) f (deliveries (db s))\<rparr>\<rparr>))"

text \<open>With nothing in between the two steps are the call.\<close>

lemma commit_row_stamped:
  assumes "distinct (map ID ds)" "d \<in> set ds"
  shows "commit_row owner t0 (map (\<lambda>d. (ID d, stamp d)) ds) d = claim_row owner (stamp d) t0 d"
proof -
  have "map_of (map (\<lambda>d. (ID d, stamp d)) ds) (ID d) = Some (stamp d)"
    using assms by (induction ds) (auto simp: rev_image_eqI)
  then show ?thesis by (simp add: commit_row_def)
qed

lemma keyed_row:
  assumes "keyed T" "(k, d) \<in> set T"
  shows "map_of T (ID d) = Some d"
proof -
  have "ID d = k" "distinct (map fst T)" using assms unfolding keyed_def by blast+
  then show ?thesis using assms(2) by simp
qed

lemma commit_is_update:
  assumes "keyed (deliveries (db s))" "distinct (map ID ds)" "\<forall>d \<in> set ds. map_of (deliveries (db s)) (ID d) = Some d"
  shows "(case claim_commit e owner (map (\<lambda>d. (ID d, stamp d)) ds) s of (rs, s') \<Rightarrow> (Inr rs, s')) = pg_claim_update e owner stamp ds s"
proof -
  let ?xs = "map (\<lambda>d. (ID d, stamp d)) ds" and ?f = "\<lambda>d. claim_row owner (stamp d) (pe_now e) d"
  have keys: "fst ` (\<lambda>d. (ID d, stamp d)) ` set ds = ID ` set ds" by (simp add: image_image)
  have rows: "List.map_filter (\<lambda>(k, g). map_of (deliveries (db s)) k) ?xs = ds"
    using assms(3) by (induction ds) (auto simp: List.map_filter_def)
  have "upd_where (\<lambda>d. ID d \<in> ID ` set ds) (commit_row owner (pe_now e) ?xs) (deliveries (db s)) =
      upd_where (\<lambda>d. ID d \<in> ID ` set ds) ?f (deliveries (db s))"
  proof -
    have "commit_row owner (pe_now e) ?xs d = ?f d" if d: "(k, d) \<in> set (deliveries (db s))" "ID d \<in> ID ` set ds" for k d
    proof -
      obtain d' where d': "d' \<in> set ds" "ID d' = ID d" using d(2) unfolding image_iff by metis
      have "map_of (deliveries (db s)) (ID d) = Some d"  by (rule keyed_row [OF assms(1) d(1)])
      then have "d = d'" using bspec [OF assms(3) d'(1)] d'(2) by simp
      then show ?thesis using commit_row_stamped [OF assms(2)] d'(1) by simp
    qed
    then show ?thesis by (auto simp: upd_where_def)
  qed
  moreover have "map (commit_row owner (pe_now e) ?xs) ds = map ?f ds"
    using commit_row_stamped [OF assms(2)] by simp
  ultimately show ?thesis
    unfolding claim_commit_def pg_claim_update_def Let_def rows set_map keys prod.case by (simp only:)
qed

lemma commit_nothing: "fair_pg e \<Longrightarrow> claim_commit e owner [] s = ([], s)"
proof -
  assume "fair_pg e"
  then have "mset (pe_arrange e []) = {#}" by (simp add: fair_pg_def)
  moreover have "upd_where (\<lambda>d. False) f T = T" for f T by (induction T) (auto simp: upd_where_def)
  ultimately show ?thesis by (simp add: claim_commit_def List.map_filter_def)
qed

lemma candidates_stored:
  assumes "keyed (deliveries t)"
  shows "distinct (map ID (pg_candidates e p owned limit t))"
    "\<forall>d \<in> set (pg_candidates e p owned limit t). map_of (deliveries t) (ID d) = Some d"
proof -
  have s: "distinct (map ID (filter q (sort_key f (sel_where w (deliveries t)))))" for q f w
    by (intro distinct_map_filter) (simp add: distinct_map distinct_sel_where [OF assms, unfolded distinct_map])
  show "distinct (map ID (pg_candidates e p owned limit t))"
    unfolding pg_candidates_def by (subst take_map [symmetric]) (rule distinct_take, rule s)
  show "\<forall>d \<in> set (pg_candidates e p owned limit t). map_of (deliveries t) (ID d) = Some d"
    by (auto simp: pg_candidates_def in_sel_where [OF assms] dest!: in_set_takeD)
qed

theorem claim_in_two_steps:
  assumes "keyed (deliveries (db s))" "fair_pg e"
  shows "pg_Claim e owner gen parts limit s =
    (case claim_snapshot e owner gen parts limit s of
       (Inl err, s1) \<Rightarrow> (Inl err, s1)
     | (Inr xs, s1) \<Rightarrow> (case claim_commit e owner xs s1 of (rs, s2) \<Rightarrow> (Inr rs, s2)))"
proof -
  obtain r s1 where r: "refreshDistributedOwnership e s = (r, s1)" by fastforce
  note db1 = refresh_simps(1) [OF r]
  have u: "pg_claim_update e owner stamp (pg_candidates e p owned limit (db s1)) s1 =
      (case claim_commit e owner (map (\<lambda>d. (ID d, stamp d)) (pg_candidates e p owned limit (db s1))) s1 of
         (rs, s') \<Rightarrow> (Inr rs, s'))" for p owned stamp
    using commit_is_update [of s1 "pg_candidates e p owned limit (db s1)" e owner stamp] candidates_stored assms(1)
    by (simp add: db1)
  show ?thesis
    by (simp add: pg_Claim_def claim_snapshot_def r Let_def commit_nothing [OF assms(2)] u split: option.split)
qed

section \<open>A cluster with claims in progress\<close>

record open_claim =
  oc_env :: node_env
  oc_owner :: string
  oc_rows :: "(string \<times> uint64) list"

record sessions =
  sp_cluster :: cluster
  sp_open :: "open_claim list"

datatype split_op =
    Atomic_op cluster_op
  | Snapshot_op node_env string uint64 "int list" int
  | Commit_op nat
  | Abort_op nat

fun exec_split :: "split_op \<Rightarrow> sessions \<Rightarrow> sessions" where
  "exec_split (Atomic_op x) S = S\<lparr>sp_cluster := exec_op x (sp_cluster S)\<rparr>"
| "exec_split (Snapshot_op e owner gen parts limit) S =
     (case claim_snapshot (snd e) owner gen parts limit (at_node (fst e) (sp_cluster S)) of
        (Inl err, s1) \<Rightarrow> S\<lparr>sp_cluster := put_node (fst e) s1 (sp_cluster S)\<rparr>
      | (Inr xs, s1) \<Rightarrow> \<lparr>sp_cluster = put_node (fst e) s1 (sp_cluster S),
          sp_open = sp_open S @ [\<lparr>oc_env = e, oc_owner = owner, oc_rows = xs\<rparr>]\<rparr>)"
| "exec_split (Commit_op i) S =
     (if i < length (sp_open S)
      then let oc = sp_open S ! i;
               (ds, s1) = claim_commit (snd (oc_env oc)) (oc_owner oc) (oc_rows oc) (at_node (fst (oc_env oc)) (sp_cluster S))
           in \<lparr>sp_cluster = put_node (fst (oc_env oc)) s1 (sp_cluster S), sp_open = take i (sp_open S) @ drop (Suc i) (sp_open S)\<rparr>
      else S)"
| "exec_split (Abort_op i) S = S\<lparr>sp_open := take i (sp_open S) @ drop (Suc i) (sp_open S)\<rparr>"

definition locked_rows :: "sessions \<Rightarrow> string set" where
  "locked_rows S = (\<Union>oc \<in> set (sp_open S). fst ` set (oc_rows oc))"

text \<open>
  A call that would change a locked row waits for the commit; it is not a step now. A claim skips locked rows.
\<close>

fun allowed :: "split_op \<Rightarrow> sessions \<Rightarrow> bool" where
  "allowed (Atomic_op x) S \<longleftrightarrow> fair_node (op_env x) \<and>
     (\<forall>k \<in> locked_rows S. map_of (deliveries (cl_db (exec_op x (sp_cluster S)))) k = map_of (deliveries (cl_db (sp_cluster S))) k)"
| "allowed (Snapshot_op e owner gen parts limit) S \<longleftrightarrow> fair_node e \<and> (\<forall>k \<in> locked_rows S. pe_locked (snd e) k)"
| "allowed (Commit_op i) S \<longleftrightarrow> True"
| "allowed (Abort_op i) S \<longleftrightarrow> True"

inductive split_run :: "sessions \<Rightarrow> sessions \<Rightarrow> bool" for S where
  split_start: "split_run S S"
| split_step: "split_run S T \<Longrightarrow> allowed x T \<Longrightarrow> split_run S (exec_split x T)"

section \<open>The tables stay keyed, whatever is interleaved\<close>

lemma keyed_drop_rows: "keyed (deliveries t) \<Longrightarrow> keyed (deliveries (drop_rows x reason ds t))"
  by (induction ds arbitrary: t) (simp_all add: dropRetainedTx_def Let_def keyed_delete)

lemma keyed_retention: "keyed (deliveries t) \<Longrightarrow> keyed (deliveries (applyRetentionTx p x t0 t))"
  by (simp add: applyRetentionTx_def Let_def keyed_drop_rows)

lemma keyed_retention_fold: "keyed (deliveries t) \<Longrightarrow> keyed (deliveries (fold (\<lambda>x. applyRetentionTx p x t0) xs t))"
  by (induction xs arbitrary: t) (simp_all add: keyed_retention)

lemma keyed_enqueue_loop:
  "pg_enqueue_loop skip t0 ds t touched = Inr (t', touched') \<Longrightarrow> keyed (deliveries t) \<Longrightarrow> keyed (deliveries t')"
proof (induction ds arbitrary: t touched)
  case (Cons d ds)
  let ?r = "pg_stored_row t0 (pg_next_seq t (SubscriberID d)) (\<not> skip \<and> is_suspended t (SubscriberID d)) d"
  have n: "map_of (deliveries t) (ID ?r) = None" and i: "ID ?r = ID d"
    using Cons.prems(1) not_key_taken by (force simp: Let_def pg_stored_row_def is_suspended_def split: if_splits)+
  show ?case
    using Cons.prems(1) Cons.IH keyed_snoc [OF Cons.prems(2) n] i
    by (auto simp: Let_def is_suspended_def split: if_splits)
qed simp

lemma keyed_call:
  assumes "keyed (deliveries (db s))"
  shows "keyed (deliveries (db (exec_call pg_store c s)))"
proof -
  have claim: "keyed (deliveries (db (snd (pg_Claim e ow g ps n s))))" for e ow g ps n
  proof -
    obtain r s1 where r: "refreshDistributedOwnership e s = (r, s1)" by fastforce
    show ?thesis using refresh_simps(1) [OF r] assms
      by (auto simp: pg_Claim_def r pg_claim_update_def Let_def keyed_upd_where claim_row_def split: option.split)
  qed
  show ?thesis
    using assms claim keyed_enqueue_loop keyed_retention_fold
    by (cases c) (auto simp: pg_MarkDelivered_def pg_MarkDeadLetter_def pg_MarkFailed_def pg_markTerminal_def pg_mark_def
        pg_IsSuspended_def pg_PendingOrInFlight_def pg_RecoverStale_def pg_Enqueue_def pg_Resume_def pg_ExhaustAndSuspend_def
        Let_def keyed_upd_where release_def requeue_row_def pg_suspend_def
        intro!: keyed_retention keyed_upd_where split: option.split sum.split list.split)
qed

lemma call_gates: "pg_gates (proc (exec_call pg_store c s)) = pg_gates (proc s)"
proof -
  have claim: "pg_gates (proc (snd (pg_Claim e ow g ps n s))) = pg_gates (proc s)" for e ow g ps n
  proof -
    obtain r s1 where r: "refreshDistributedOwnership e s = (r, s1)" by fastforce
    show ?thesis using refresh_simps(2) [OF r]
      by (auto simp: pg_Claim_def r pg_claim_update_def Let_def split: option.split)
  qed
  show ?thesis
    by (cases c) (auto simp: claim pg_MarkDelivered_def pg_MarkDeadLetter_def pg_MarkFailed_def pg_markTerminal_def pg_mark_def
        pg_IsSuspended_def pg_PendingOrInFlight_def pg_RecoverStale_def pg_Enqueue_def pg_Resume_def pg_ExhaustAndSuspend_def
        Let_def split: option.split sum.split list.split)
qed

definition tables_sound :: "cluster \<Rightarrow> bool" where
  "tables_sound s \<longleftrightarrow> keyed (deliveries (cl_db s)) \<and> (\<forall>n. sound_proc (cl_proc s n))"

lemma tables_sound_inv: "cluster_inv s \<Longrightarrow> tables_sound s"
  by (simp add: tables_sound_def cluster_inv_def db_invD)

lemma moves_sound:
  assumes "moves b p (at_node n s) s'" "tables_sound s"
  shows "tables_sound (put_node n s' s)"
proof -
  have "keyed (deliveries (db s'))"
    using assms by (auto simp: moves_def owners_only_def force_reset_def tables_sound_def keyed_upd_where release_def)
  then show ?thesis using assms by (simp add: moves_def same_toggles_def tables_sound_def)
qed

lemma op_sound:
  assumes "tables_sound s"
  shows "tables_sound (exec_op x s)"
proof (cases x)
  case (Store_op c)
  have "sound_proc (proc (exec_call pg_store (local_call c) (at_node (fst (call_env c)) s)))"
    using assms call_toggles call_gates by (simp add: tables_sound_def sound_proc_def)
  then show ?thesis
    using Store_op assms keyed_call by (simp add: exec_cluster tables_sound_def)
next
  case (Ensure_op e ns)
  then show ?thesis using moves_sound [OF Ensure_moves assms] by simp
next
  case (Begin_op e p src dst)
  then show ?thesis using moves_sound [OF Begin_moves assms] by simp
next
  case (Complete_op e p)
  then show ?thesis using moves_sound [OF Complete_moves assms] by simp
next
  case (Force_op e p dst g)
  then show ?thesis using moves_sound [OF Force_moves assms] by simp
qed


section \<open>The fence\<close>

lemma snapshot_cases:
  assumes "claim_snapshot e owner gen parts limit s = (r, s')" "keyed (deliveries (db s))"
  shows "db s' = db s \<and> sound_proc (proc s') = sound_proc (proc s) \<and>
    (\<forall>xs. r = Inr xs \<longrightarrow> xs = [] \<or> partition_owners (db s) = [] \<or>
       (\<forall>(k, g) \<in> set xs. \<exists>d. map_of (deliveries (db s)) k = Some d \<and> g = partition_stamp (db s) d))"
proof -
  obtain err s1 where ref: "refreshDistributedOwnership e s = (err, s1)" by fastforce
  note f = refresh_simps(1) [OF ref] refresh_toggles [OF ref]
  have none: "err = None \<Longrightarrow> \<not> distributedOwnership (proc s1) \<Longrightarrow> partition_owners (db s) = []"
    using ref by (auto simp: refreshDistributedOwnership_def SetDistributedOwnership_def split: option.splits if_splits)
  have c: "(k, g) \<in> set (map (\<lambda>d. (ID d, partition_stamp (db s) d)) (pg_candidates e q owned l (db s))) \<Longrightarrow>
      \<exists>d. map_of (deliveries (db s)) k = Some d \<and> g = partition_stamp (db s) d" for k g q owned l
    using candidates_stored(2) [OF assms(2), of e q owned l] by auto
  show ?thesis
    using assms(1) f none c unfolding claim_snapshot_def ref
    by (auto simp: Let_def split: option.splits if_splits)
qed

lemma commit_lookup:
  "map_of (deliveries (db (snd (claim_commit e owner xs s)))) k =
     map_option (commit_row owner (pe_now e) xs) (map_of (deliveries (db s)) k)"
proof -
  have "commit_row owner (pe_now e) xs d = d" if "ID d \<notin> fst ` set xs" for d
  proof -
    have "map_of xs (ID d) = None" using that by (simp add: map_of_eq_None_iff)
    then show ?thesis by (simp add: commit_row_def)
  qed
  then show ?thesis by (cases "map_of (deliveries (db s)) k") (simp_all add: claim_commit_def Let_def store_simps)
qed

lemma commit_frame:
  "partition_owners (db (snd (claim_commit e owner xs s))) = partition_owners (db s)"
  "proc (snd (claim_commit e owner xs s)) = proc s"
  "PartitionNo (commit_row owner t0 xs d) = PartitionNo d" "ID (commit_row owner t0 xs d) = ID d"
  by (simp_all add: claim_commit_def commit_row_def claim_row_def Let_def split: option.split)

definition no_stamp :: "int \<Rightarrow> int \<Rightarrow> pgdb \<Rightarrow> open_claim set \<Rightarrow> bool" where
  "no_stamp p g t ocs \<longleftrightarrow> (\<forall>oc \<in> ocs. \<forall>k st d. (k, st) \<in> set (oc_rows oc) \<longrightarrow>
     map_of (deliveries t) k = Some d \<longrightarrow> PartitionNo d = p \<longrightarrow> st \<noteq> word_of_int g)"

lemma no_stamp_mono: "no_stamp p g t ocs \<Longrightarrow> ocs' \<subseteq> ocs \<Longrightarrow> no_stamp p g t ocs'"
  unfolding no_stamp_def by blast

lemma no_stampD:
  "no_stamp p g t ocs \<Longrightarrow> oc \<in> ocs \<Longrightarrow> (k, st) \<in> set (oc_rows oc) \<Longrightarrow> map_of (deliveries t) k = Some d \<Longrightarrow>
    PartitionNo d = p \<Longrightarrow> st \<noteq> word_of_int g"
  unfolding no_stamp_def by blast

definition split_fence :: "int \<Rightarrow> int \<Rightarrow> sessions \<Rightarrow> bool" where
  "split_fence p g S \<longleftrightarrow> tables_sound (sp_cluster S) \<and> fence p g (cl_db (sp_cluster S)) \<and>
     no_stamp p g (cl_db (sp_cluster S)) (set (sp_open S))"

lemma split_fenceD:
  assumes "split_fence p g S"
  shows "tables_sound (sp_cluster S)" "fence p g (cl_db (sp_cluster S))"
    "no_stamp p g (cl_db (sp_cluster S)) (set (sp_open S))"
  using assms by (simp_all add: split_fence_def)

lemma split_fence_atomic:
  assumes "split_fence p g S" "allowed (Atomic_op x) S"
  shows "split_fence p g (exec_split (Atomic_op x) S)"
proof -
  let ?s = "sp_cluster S"
  note a = split_fenceD [OF assms(1)]
  have "fence p g (cl_db (exec_op x ?s))"
    using fence_op [OF _ a(2)] a(1) by (simp add: tables_sound_def)
  moreover have "no_stamp p g (cl_db (exec_op x ?s)) (set (sp_open S))"
    unfolding no_stamp_def
  proof (intro ballI allI impI)
    fix oc k st d
    assume r: "oc \<in> set (sp_open S)" "(k, st) \<in> set (oc_rows oc)"
      "map_of (deliveries (cl_db (exec_op x ?s))) k = Some d" "PartitionNo d = p"
    have "k \<in> locked_rows S" using r(1,2) unfolding locked_rows_def by force
    then have "map_of (deliveries (cl_db ?s)) k = Some d" using assms(2) r(3) by simp
    then show "st \<noteq> word_of_int g" using no_stampD [OF a(3) r(1,2)] r(4) by blast
  qed
  ultimately show ?thesis using op_sound [OF a(1)] by (simp add: split_fence_def)
qed

lemma split_fence_snapshot:
  assumes "split_fence p g S"
  shows "split_fence p g (exec_split (Snapshot_op e owner gen parts limit) S)"
proof -
  let ?s = "sp_cluster S"
  obtain r s1 where r: "claim_snapshot (snd e) owner gen parts limit (at_node (fst e) ?s) = (r, s1)" by fastforce
  note a = split_fenceD [OF assms(1)]
  obtain po where po: "owner_of_partition (cl_db ?s) p = Some po" "g < po_generation po" "po_generation po \<le> max_int64" "0 \<le> g"
    using a(2) by (auto simp: fence_def)
  then have some: "partition_owners (cl_db ?s) \<noteq> []" by (auto simp: owner_of_partition_def)
  have k: "keyed (deliveries (db (at_node (fst e) ?s)))" using a(1) by (simp add: tables_sound_def)
  note c = snapshot_cases [OF r k]
  have new: "st \<noteq> word_of_int g"
    if "r = Inr xs" "(k, st) \<in> set xs" "map_of (deliveries (cl_db ?s)) k = Some d" "PartitionNo d = p" for xs k st d
  proof -
    have "st = partition_stamp (cl_db ?s) d" using c that some by fastforce
    then show ?thesis using stamps_differ [OF po(4,2,3)] that(4) po(1) by (simp add: partition_stamp_def)
  qed
  have s1: "db s1 = cl_db ?s" "sound_proc (proc s1) = sound_proc (cl_proc ?s (fst e))" using c by simp_all
  then have t: "tables_sound (put_node (fst e) s1 ?s)" using a(1) by (simp add: tables_sound_def)
  have "no_stamp p g (cl_db ?s) {\<lparr>oc_env = e, oc_owner = owner, oc_rows = xs\<rparr>}" if "r = Inr xs" for xs
    using new [OF that] unfolding no_stamp_def by simp
  then show ?thesis
    using a(2,3) t s1(1) unfolding split_fence_def by (cases r) (auto simp: r no_stamp_def)
qed

lemma removed_open: "set (take i xs @ drop (Suc i) xs) \<subseteq> set xs"
  using set_take_subset set_drop_subset by (metis le_sup_iff set_append)

lemma commit_keeps_fence:
  assumes "claim_commit e owner xs s = (ds, s')" "keyed (deliveries (db s))" "fence p g (db s)"
    and "\<And>k st d. (k, st) \<in> set xs \<Longrightarrow> map_of (deliveries (db s)) k = Some d \<Longrightarrow> PartitionNo d = p \<Longrightarrow> st \<noteq> word_of_int g"
  shows "fence p g (db s')" "keyed (deliveries (db s'))" "proc s' = proc s"
    "no_stamp p g (db s) ocs \<Longrightarrow> no_stamp p g (db s') ocs"
proof -
  let ?f = "commit_row owner (pe_now e) xs"
  have rows: "map_of (deliveries (db s')) k = map_option ?f (map_of (deliveries (db s)) k)" for k
    using commit_lookup [of e owner xs s k] by (simp add: assms(1))
  note fr = commit_frame(1,2) [of e owner xs s, unfolded assms(1) snd_conv]
  show "proc s' = proc s" by (rule fr(2))
  show "keyed (deliveries (db s'))"
    using assms(1,2) commit_frame(4) by (auto simp: claim_commit_def Let_def intro!: keyed_upd_where)
  show "no_stamp p g (db s') ocs" if "no_stamp p g (db s) ocs"
    unfolding no_stamp_def
  proof (intro ballI allI impI)
    fix oc k st d
    assume r: "oc \<in> ocs" "(k, st) \<in> set (oc_rows oc)" "map_of (deliveries (db s')) k = Some d" "PartitionNo d = p"
    obtain d0 where "map_of (deliveries (db s)) k = Some d0" "d = ?f d0" using r(3) by (auto simp: rows)
    then show "st \<noteq> word_of_int g" using no_stampD [OF that r(1,2)] r(4) by (simp add: commit_frame(3))
  qed
  have stamped: "Generation (?f d) \<noteq> word_of_int g"
    if d: "map_of (deliveries (db s)) k = Some d" "PartitionNo d = p" "Status (?f d) = StatusInFlight" for k d
  proof (cases "map_of xs (ID d)")
    case None
    then show ?thesis using d assms(3) unfolding fence_def by (simp add: commit_row_def)
  next
    case (Some st)
    have "(k, st) \<in> set xs" using map_of_SomeD [OF Some] keyedD [OF assms(2) d(1)] by simp
    then show ?thesis using assms(4) d(1,2) by (simp add: commit_row_def Some claim_row_def)
  qed
  show "fence p g (db s')"
    using assms(3) stamped unfolding fence_def owner_of_partition_def fr(1) by (auto simp: rows commit_frame(3))
qed

lemma split_fence_commit:
  assumes "split_fence p g S"
  shows "split_fence p g (exec_split (Commit_op i) S)"
proof (cases "i < length (sp_open S)")
  case True
  let ?s = "sp_cluster S" and ?oc = "sp_open S ! i"
  let ?n = "fst (oc_env ?oc)" and ?e = "snd (oc_env ?oc)"
  obtain ds s1 where s1: "claim_commit ?e (oc_owner ?oc) (oc_rows ?oc) (at_node ?n ?s) = (ds, s1)" by fastforce
  note a = split_fenceD [OF assms]
  have k: "keyed (deliveries (db (at_node ?n ?s)))" using a(1) by (simp add: tables_sound_def)
  note c = commit_keeps_fence [OF s1 k, of p g, unfolded on_node_simps, OF a(2) no_stampD [OF a(3) nth_mem [OF True]]]
  have "tables_sound (put_node ?n s1 ?s)" using a(1) c(2,3) by (simp add: tables_sound_def)
  then show ?thesis
    using True c(1,4) no_stamp_mono [OF a(3) removed_open] by (simp add: s1 split_fence_def)
qed (use assms in simp)

lemma split_fence_step: "split_fence p g S \<Longrightarrow> allowed x S \<Longrightarrow> split_fence p g (exec_split x S)"
proof (cases x)
  case (Abort_op i)
  assume "split_fence p g S"
  then show ?thesis using no_stamp_mono [OF _ removed_open] by (simp add: Abort_op split_fence_def)
qed (simp_all only: split_fence_atomic split_fence_snapshot split_fence_commit)

lemma split_fence_run:
  assumes "split_run S T" "split_fence p g S"
  shows "split_fence p g T"
  using assms by (induction rule: split_run.induct) (simp_all add: split_fence_step)

lemma split_fence_refuses:
  assumes "split_fence p g S" "g = sint w"
    and "\<forall>d. map_of (deliveries (cl_db (sp_cluster S))) k = Some d \<longrightarrow> PartitionNo d = p"
  shows "marks_refused e k ow w (sp_cluster S)"
  using fence_refuses [OF _ _ _ assms(3)] assms(1,2) by (simp add: split_fence_def tables_sound_def)

section \<open>A graceful handoff\<close>

text \<open>
  Claim C4. A graceful handoff is safe as long as no claim is half way. \<open>CompleteHandoff\<close> succeeds only for a
  partition that is draining towards a node and has no row in flight; it then gives the partition to
  exactly that node, active at the next generation, and changes no row and no other partition. If, when it
  runs, no claim in progress anywhere has chosen a row of the partition, then from then on, whatever the
  processes do, claims taking their two steps with anything a lock permits in between, every mark that
  carries the old generation is refused. \<open>handoff_race\<close> below shows that the condition is needed.
\<close>

theorem complete_handoff_drained:
  assumes "tables_sound (sp_cluster S)" "on_node n (CompleteHandoff e p) (sp_cluster S) = (None, s1)"
  shows "\<exists>po dst. owner_of_partition (cl_db (sp_cluster S)) p = Some po \<and> po_state po = PoDraining \<and> next_owner po = Some dst \<and>
    deliveries (cl_db s1) = deliveries (cl_db (sp_cluster S)) \<and>
    (\<forall>k d. map_of (deliveries (cl_db s1)) k = Some d \<longrightarrow> PartitionNo d = p \<longrightarrow> Status d \<noteq> StatusInFlight) \<and>
    owner_of_partition (cl_db s1) = (owner_of_partition (cl_db (sp_cluster S)))(p \<mapsto>
      \<lparr>owner_node = dst, po_generation = po_generation po + 1, po_state = PoActive, next_owner = None\<rparr>) \<and>
    (0 \<le> po_generation po \<and> po_generation po \<le> max_int64 \<and>
     (\<forall>k \<in> locked_rows S. \<forall>d. map_of (deliveries (cl_db s1)) k = Some d \<longrightarrow> PartitionNo d \<noteq> p) \<longrightarrow>
       (\<forall>T k e' ow. split_run (S\<lparr>sp_cluster := s1\<rparr>) T \<longrightarrow>
          (\<forall>d. map_of (deliveries (cl_db (sp_cluster T))) k = Some d \<longrightarrow> PartitionNo d = p) \<longrightarrow>
          marks_refused e' k ow (word_of_int (po_generation po)) (sp_cluster T)))"
proof -
  let ?s = "sp_cluster S"
  obtain s' where f: "CompleteHandoff e p (at_node n ?s) = (None, s')" and s1: "cl_db s1 = db s'"
    using assms(2) by (auto simp: on_node_def split: prod.splits)
  have i: "tables_sound s1" using op_sound [OF assms(1), of "Complete_op (n, e) p"] assms(2) by (simp flip: on_node_simps(2))
  obtain po dst where po: "owner_of_partition (cl_db ?s) p = Some po" "po_state po = PoDraining" "next_owner po = Some dst"
      "po_generation po \<noteq> max_int64" "deliveries (cl_db s1) = deliveries (cl_db ?s)"
      "\<forall>k d. map_of (deliveries (cl_db s1)) k = Some d \<longrightarrow> PartitionNo d = p \<longrightarrow> Status d \<noteq> StatusInFlight"
      "owner_of_partition (cl_db s1) = (owner_of_partition (cl_db ?s))(p \<mapsto>
        \<lparr>owner_node = dst, po_generation = po_generation po + 1, po_state = PoActive, next_owner = None\<rparr>)"
    using complete_effect [OF f] by (auto simp: s1)
  have "marks_refused e' k ow (word_of_int (po_generation po)) (sp_cluster T)"
    if c: "0 \<le> po_generation po" "po_generation po \<le> max_int64"
      "\<forall>k \<in> locked_rows S. \<forall>d. map_of (deliveries (cl_db s1)) k = Some d \<longrightarrow> PartitionNo d \<noteq> p"
      "split_run (S\<lparr>sp_cluster := s1\<rparr>) T" "\<forall>d. map_of (deliveries (cl_db (sp_cluster T))) k = Some d \<longrightarrow> PartitionNo d = p" for T k e' ow
  proof -
    have g: "sint (word_of_int (po_generation po) :: uint64) = po_generation po"
      using c(1,2) by (simp add: sint_sbintrunc' signed_take_bit_int_eq_self_iff max_int64_def)
    have "fence p (po_generation po) (cl_db s1)" using c(1,2) po(4-7) by (auto simp: fence_def)
    moreover have "no_stamp p (po_generation po) (cl_db s1) (set (sp_open S))"
      using c(3) unfolding no_stamp_def locked_rows_def by force
    ultimately have "split_fence p (po_generation po) T"
      using split_fence_run [OF c(4)] i by (simp add: split_fence_def)
    then show ?thesis using split_fence_refuses [OF _ g [symmetric] c(5)] by blast
  qed
  with po show ?thesis by blast
qed

text \<open>
  Node 0 (\<open>a\<close>) has delivered its row and the partition drains; node 1 (\<open>b\<close>) takes it over gracefully
  and claims the second row. A mark of \<open>a\<close> is refused.
\<close>

definition sample_drained :: sessions where
  "sample_drained = \<lparr>sp_cluster = exec_ops [Begin_op (0, pg_live 4000) 0 ''a'' ''b'',
     Store_op (MarkDelivered_call (1, pg_live 5000) ''r1'' ''a/i/worker-0'' 1)] sample_before, sp_open = []\<rparr>"

definition sample_moved :: cluster where
  "sample_moved = snd (on_node 0 (CompleteHandoff (pg_live 6000) 0) (sp_cluster sample_drained))"

definition sample_claiming :: sessions where
  "sample_claiming = exec_split (Snapshot_op (1, pg_live 7000) ''b/j/worker-0'' 1 [0] 64) (sample_drained\<lparr>sp_cluster := sample_moved\<rparr>)"

theorem complete_handoff_drained_witness:
  "owner_of_partition (cl_db sample_moved) 0 =
     Some \<lparr>owner_node = ''b'', po_generation = 2, po_state = PoActive, next_owner = None\<rparr> \<and>
   map_option (\<lambda>d. (Status d, Owner d, Generation d)) (map_of (deliveries (cl_db (sp_cluster (exec_split (Commit_op 0) sample_claiming)))) ''r2'')
     = Some (StatusInFlight, ''b/j/worker-0'', 2) \<and>
   marks_refused (0, pg_live 8000) ''r2'' ''b/j/worker-0'' 1 (sp_cluster (exec_split (Commit_op 0) sample_claiming))"
proof -
  let ?T = "exec_split (Commit_op 0) sample_claiming"
  have i: "tables_sound (sp_cluster sample_drained)"
    unfolding sample_drained_def sessions.simps
    by (rule tables_sound_inv, rule conjunct1 [OF ops_steps [OF sample_before_facts(1)]]) simp
  have "fst (on_node 0 (CompleteHandoff (pg_live 6000) 0) (sp_cluster sample_drained)) = None" by code_simp
  then have c: "on_node 0 (CompleteHandoff (pg_live 6000) 0) (sp_cluster sample_drained) = (None, sample_moved)"
    unfolding sample_moved_def by (simp only: prod_eq_iff fst_conv snd_conv simp_thms)
  have o': "owner_of_partition (cl_db (sp_cluster sample_drained)) 0 =
      Some \<lparr>owner_node = ''a'', po_generation = 1, po_state = PoDraining, next_owner = Some ''b''\<rparr>" by code_simp
  have op: "locked_rows sample_drained = {}" "locked_rows (sample_drained\<lparr>sp_cluster := sample_moved\<rparr>) = {}"
    by (simp_all add: locked_rows_def sample_drained_def)
  have r: "split_run (sample_drained\<lparr>sp_cluster := sample_moved\<rparr>) ?T"
    unfolding sample_claiming_def by (intro split_run.intros) (simp_all add: op)
  have row: "map_option PartitionNo (map_of (deliveries (cl_db (sp_cluster ?T))) ''r2'') = Some 0" by code_simp
  have "map_option (\<lambda>d. (Status d, Owner d, Generation d)) (map_of (deliveries (cl_db (sp_cluster ?T))) ''r2'')
      = Some (StatusInFlight, ''b/j/worker-0'', 2)" by code_simp
  with complete_handoff_drained [OF i c] o' r row op show ?thesis by (auto simp: max_int64_def)
qed

text \<open>
  The race the condition excludes: node 0 has chosen row \<open>r1\<close> but not committed when the partition
  is put to draining and handed over; its commit then leaves it holding a row of a partition that
  belongs to node 1, and its mark is accepted.
\<close>

definition race_start :: sessions where
  "race_start = \<lparr>sp_cluster = exec_ops [Ensure_op (0, pg_live 1000) [''a''],
     Store_op (Enqueue_call (0, pg_live 2000) [pg_row ''r1'' ''s'', pg_row ''r2'' ''s''])] cluster_empty, sp_open = []\<rparr>"

definition race_open :: sessions where
  "race_open = exec_split (Snapshot_op (0, pg_live 3000) ''a/i/worker-0'' 1 [0] 64) race_start"

definition race_draining :: sessions where
  "race_draining = exec_split (Atomic_op (Begin_op (1, pg_live 3100) 0 ''a'' ''b'')) race_open"

definition race_moved :: sessions where
  "race_moved = exec_split (Atomic_op (Complete_op (1, pg_live 3200) 0)) race_draining"

lemma race_allowed: "split_run race_start (exec_split (Commit_op 0) race_moved)"
proof -
  have l: "locked_rows race_open = {''r1''}" "locked_rows race_draining = {''r1''}" by code_simp+
  have k: "map_of (deliveries (cl_db (exec_op (Begin_op (1, pg_live 3100) 0 ''a'' ''b'') (sp_cluster race_open)))) ''r1'' =
      map_of (deliveries (cl_db (sp_cluster race_open))) ''r1''"
    "map_of (deliveries (cl_db (exec_op (Complete_op (1, pg_live 3200) 0) (sp_cluster race_draining)))) ''r1'' =
      map_of (deliveries (cl_db (sp_cluster race_draining))) ''r1''"
    by code_simp+
  have "split_run race_start race_open"
    unfolding race_open_def by (intro split_run.intros) (simp add: locked_rows_def race_start_def)
  moreover have "allowed (Atomic_op (Begin_op (1, pg_live 3100) 0 ''a'' ''b'')) race_open"
    using k(1) by (simp add: l)
  moreover have "allowed (Atomic_op (Complete_op (1, pg_live 3200) 0)) race_draining"
    using k(2) by (simp add: l)
  ultimately show ?thesis unfolding race_moved_def race_draining_def by (intro split_run.intros) simp_all
qed

theorem handoff_race:
  "split_run race_start (exec_split (Commit_op 0) race_moved) \<and>
   owner_of_partition (cl_db (sp_cluster race_moved)) 0 =
     Some \<lparr>owner_node = ''b'', po_generation = 2, po_state = PoActive, next_owner = None\<rparr> \<and>
   locked_rows race_moved = {''r1''} \<and>
   fst (op_MarkDelivered cluster_store (0, pg_live 4000) ''r1'' ''a/i/worker-0'' 1
     (sp_cluster (exec_split (Commit_op 0) race_moved))) = None"
  by (intro conjI; (rule race_allowed)?; code_simp?)

text \<open>A forced takeover fences under the same condition.\<close>

theorem takeover_fences_in_progress:
  assumes "tables_sound (sp_cluster S)" "on_node n (ForceTakeover e p dst g) (sp_cluster S) = (None, s1)"
    and "\<not> SkipInFlightReset (cl_proc (sp_cluster S) n)"
    and "owner_of_partition (cl_db (sp_cluster S)) p = Some po" "owner_node po \<noteq> dst" "0 \<le> po_generation po" "po_generation po \<le> max_int64"
    and "\<forall>k \<in> locked_rows S. \<forall>d. map_of (deliveries (cl_db s1)) k = Some d \<longrightarrow> PartitionNo d \<noteq> p"
    and "split_run (S\<lparr>sp_cluster := s1\<rparr>) T"
    and "\<forall>d. map_of (deliveries (cl_db (sp_cluster T))) k = Some d \<longrightarrow> PartitionNo d = p"
  shows "marks_refused e' k ow g (sp_cluster T)"
proof -
  have "tables_sound s1" using op_sound [OF assms(1), of "Force_op (n, e) p dst g"] assms(2) by (simp flip: on_node_simps(2))
  moreover have "fence p (sint g) (cl_db s1)" by (rule takeover_puts_fence(1) [OF assms(2-7)])
  moreover have "no_stamp p (sint g) (cl_db s1) (set (sp_open S))"
    using assms(8) unfolding no_stamp_def locked_rows_def by force
  ultimately have "split_fence p (sint g) T" using split_fence_run [OF assms(9)] by (simp add: split_fence_def)
  then show ?thesis using split_fence_refuses [OF _ refl assms(10)] by blast
qed

end
