(* ===== verification/BridgeHandoff.thy ===== *)
theory BridgeHandoff
  imports BridgeProps
begin

text \<open>
  The handoff messages of a fleet node: what asking a node to begin or to complete a handoff does to the
  owner table, and what the asker is told.
\<close>

section \<open>When a step of a handoff succeeds\<close>

definition begins :: "string \<Rightarrow> string \<Rightarrow> owner_row option \<Rightarrow> bool" where
  "begins src dst r \<longleftrightarrow> src \<noteq> [] \<and> dst \<noteq> [] \<and> \<not> has_slash src \<and> \<not> has_slash dst \<and> src \<noteq> dst \<and>
     (case r of None \<Rightarrow> False | Some po \<Rightarrow> owner_node po = src \<and> po_state po = PoActive \<and> next_owner po = None)"

definition completes :: "int \<Rightarrow> pgdb \<Rightarrow> bool" where
  "completes p t \<longleftrightarrow> (case owner_of_partition t p of None \<Rightarrow> False
      | Some po \<Rightarrow> po_state po = PoDraining \<and> next_owner po \<noteq> None \<and> po_generation po \<noteq> max_int64) \<and> (\<forall>(k, d) \<in> set (deliveries t). PartitionNo d = p \<longrightarrow> Status d \<noteq> StatusInFlight)"

text \<open>The owner row the two steps leave.\<close>

definition begun :: "string \<Rightarrow> owner_row \<Rightarrow> owner_row" where
  "begun dst po = po\<lparr>po_state := PoDraining, next_owner := Some dst\<rparr>"

definition completed :: "owner_row \<Rightarrow> owner_row" where
  "completed po = po\<lparr>owner_node := the (next_owner po), po_state := PoActive, next_owner := None, po_generation := po_generation po + 1\<rparr>"

lemma refreshed:
  assumes "pe_fault e SRefresh = None"
  obtains s1 where "refreshDistributedOwnership e s = (None, s1)" "db s1 = db s"
    "owner_of_partition (db s) p \<noteq> None \<longrightarrow> distributedOwnership (proc s1)"
proof -
  obtain r s1 where r: "refreshDistributedOwnership e s = (r, s1)" by fastforce
  moreover have "r = None" "owner_of_partition (db s) p \<noteq> None \<longrightarrow> distributedOwnership (proc s1)"
    using r assms by (auto simp: refreshDistributedOwnership_def SetDistributedOwnership_def owner_of_partition_def split: if_splits)
  ultimately show thesis using that refresh_simps(1) [OF r] by blast
qed

lemma Begin_exact:
  assumes "pe_ctx e = None" "\<And>st. pe_fault e st = None"
  shows "fst (BeginHandoff e p src dst s) = None \<longleftrightarrow> begins src dst (owner_of_partition (db s) p)"
    "db (snd (BeginHandoff e p src dst s)) = (if begins src dst (owner_of_partition (db s) p)
      then (db s)\<lparr>partition_owners := AList.update p (begun dst (the (owner_of_partition (db s) p))) (partition_owners (db s))\<rparr>
      else db s)"
proof -
  obtain s1 where s1: "refreshDistributedOwnership e s = (None, s1)" "db s1 = db s"
    "owner_of_partition (db s) p \<noteq> None \<longrightarrow> distributedOwnership (proc s1)"
    by (rule refreshed [OF assms(2), of s p])
  show "fst (BeginHandoff e p src dst s) = None \<longleftrightarrow> begins src dst (owner_of_partition (db s) p)"
    using s1(3) by (auto simp: BeginHandoff_def with_ownership_def assms s1(1,2) begins_def split: option.split)
  show "db (snd (BeginHandoff e p src dst s)) = (if begins src dst (owner_of_partition (db s) p)
      then (db s)\<lparr>partition_owners := AList.update p (begun dst (the (owner_of_partition (db s) p))) (partition_owners (db s))\<rparr>
      else db s)"
    using s1(3) by (auto simp: BeginHandoff_def with_ownership_def assms s1(1,2) begins_def begun_def set_owner_def split: option.split)
qed

lemma none_in_flight:
  "cnt_where (in_flight_in p) T = 0 \<longleftrightarrow> (\<forall>(k, d) \<in> set T. PartitionNo d = p \<longrightarrow> Status d \<noteq> StatusInFlight)"
  by (auto simp: cnt_where_def sel_where_def filter_empty_conv in_flight_in_def)

lemma Complete_exact:
  assumes "pe_ctx e = None" "\<And>st. pe_fault e st = None"
  shows "fst (CompleteHandoff e p s) = None \<longleftrightarrow> completes p (db s)"
    "db (snd (CompleteHandoff e p s)) = (if completes p (db s)
      then (db s)\<lparr>partition_owners := AList.update p (completed (the (owner_of_partition (db s) p))) (partition_owners (db s))\<rparr>
      else db s)"
proof -
  obtain s1 where s1: "refreshDistributedOwnership e s = (None, s1)" "db s1 = db s"
    "owner_of_partition (db s) p \<noteq> None \<longrightarrow> distributedOwnership (proc s1)"
    by (rule refreshed [OF assms(2), of s p])
  show "fst (CompleteHandoff e p s) = None \<longleftrightarrow> completes p (db s)"
    using s1(3) by (auto simp: CompleteHandoff_def with_ownership_def assms s1(1,2) completes_def none_in_flight split: option.split)
  show "db (snd (CompleteHandoff e p s)) = (if completes p (db s)
      then (db s)\<lparr>partition_owners := AList.update p (completed (the (owner_of_partition (db s) p))) (partition_owners (db s))\<rparr>
      else db s)"
    using s1(3) by (auto simp: CompleteHandoff_def with_ownership_def assms s1(1,2) completes_def completed_def none_in_flight set_owner_def
        split: option.split)
qed

section \<open>The messages\<close>

lemma replied:
  "br_tables (reply_handoff lib src (bridge_call w i f b)) =
     put_node (br_proc b) (snd (f (at_node (br_proc b) (exec_ops (be_other w i) (br_tables b))))) (exec_ops (be_other w i) (br_tables b))"
  "br_sent (reply_handoff lib src (bridge_call w i f b)) = br_sent b @
     [(src, case fst (f (at_node (br_proc b) (exec_ops (be_other w i) (br_tables b)))) of
        None \<Rightarrow> EAtom ''handoff_ok''
      | Some err \<Rightarrow> ETuple [EAtom ''handoff_err'', EBinary (text_of lib (BHandoff err))])]"
  by (auto simp: bridge_call_def reply_handoff_def on_node_def Let_def others_def send_def split: option.split prod.split)

lemma handoff_requests:
  assumes "one_based lib" "asInt v = Some p" "asPid z = Some asker"
  shows "asString x = Some src \<Longrightarrow> asString y = Some dst \<Longrightarrow>
      HandleInfo lib w (ETuple (EAtom ''begin_handoff'' # v # x # y # z # rest)) b =
      reply_handoff lib asker (bridge_call w 0 (BeginHandoff (be_pg w 0) p src dst) b)"
    "HandleInfo lib w (ETuple (EAtom ''complete_handoff'' # v # z # rest)) b =
      reply_handoff lib asker (bridge_call w 0 (CompleteHandoff (be_pg w 0) p) b)"
proof -
  have el: "element lib t (Suc i) = t ! i" if "i < length t" for t i
    using assms(1) that unfolding one_based_def by blast
  have e: "element lib t (Suc 0) = t ! 0" "element lib t 2 = t ! 1" "element lib t 3 = t ! 2"
    if "3 \<le> length t" for t
  proof -
    have "t \<noteq> []" using that by auto
    then show "element lib t (Suc 0) = t ! 0" "element lib t 2 = t ! 1" "element lib t 3 = t ! 2"
      using el [of 0 t] el [of 1 t] el [of 2 t] that by (simp_all add: eval_nat_numeral)
  qed
  have e': "element lib t 4 = t ! 3" "element lib t 5 = t ! 4" if "5 \<le> length t" for t
    using el [of 3 t] el [of 4 t] that by (simp_all add: eval_nat_numeral)
  show "HandleInfo lib w (ETuple (EAtom ''begin_handoff'' # v # x # y # z # rest)) b =
      reply_handoff lib asker (bridge_call w 0 (BeginHandoff (be_pg w 0) p src dst) b)"
    if "asString x = Some src" "asString y = Some dst"
    using assms(2,3) that by (simp add: HandleInfo_def e handleBeginHandoff_def e')
  show "HandleInfo lib w (ETuple (EAtom ''complete_handoff'' # v # z # rest)) b =
      reply_handoff lib asker (bridge_call w 0 (CompleteHandoff (be_pg w 0) p) b)"
    using assms(2,3) by (simp add: HandleInfo_def e handleCompleteHandoff_def)
qed

text \<open>
  Claim C25. A node does what a handoff message asks, and says so. Asked to begin handing partition \<open>p\<close> from one node to
  another, it does so exactly when the names are usable and different and, in the tables as the message
  finds them, the partition belongs to the first node, is active and has no next owner: the partition
  then drains towards the second node, nothing else in the tables changes, and the asker is sent
  \<open>handoff_ok\<close>. Asked to complete the handoff of \<open>p\<close>, it does so exactly when the partition drains towards
  a node and none of its rows is in flight: the partition then belongs to that node, active, at the next
  generation, and the asker is sent \<open>handoff_ok\<close>. Otherwise the tables stay as they are and the asker is
  sent \<open>handoff_err\<close> with a reason. (No fault of the database or of the context; a generation at the limit
  of BIGINT cannot complete.)
\<close>

theorem bridge_hands_over:
  assumes "one_based lib" "pe_ctx (be_pg w 0) = None" "\<And>st. pe_fault (be_pg w 0) st = None"
    and "asInt v = Some p" "asString x = Some src" "asString y = Some dst" "asPid z = Some asker"
    and "T = cl_db (exec_ops (be_other w 0) (br_tables b))"
    and "b1 = HandleInfo lib w (ETuple (EAtom ''begin_handoff'' # v # x # y # z # rest)) b"
    and "b2 = HandleInfo lib w (ETuple (EAtom ''complete_handoff'' # v # z # rest)) b"
  shows "(if begins src dst (owner_of_partition T p)
      then cl_db (br_tables b1) = T\<lparr>partition_owners := partition_owners (cl_db (br_tables b1))\<rparr> \<and>
        owner_of_partition (cl_db (br_tables b1)) = (owner_of_partition T)(p \<mapsto> begun dst (the (owner_of_partition T p))) \<and>
        br_sent b1 = br_sent b @ [(asker, EAtom ''handoff_ok'')]
      else cl_db (br_tables b1) = T \<and> (\<exists>m. br_sent b1 = br_sent b @ [(asker, ETuple [EAtom ''handoff_err'', EBinary m])])) \<and>
    (if completes p T
      then cl_db (br_tables b2) = T\<lparr>partition_owners := partition_owners (cl_db (br_tables b2))\<rparr> \<and>
        owner_of_partition (cl_db (br_tables b2)) = (owner_of_partition T)(p \<mapsto> completed (the (owner_of_partition T p))) \<and>
        br_sent b2 = br_sent b @ [(asker, EAtom ''handoff_ok'')]
      else cl_db (br_tables b2) = T \<and> (\<exists>m. br_sent b2 = br_sent b @ [(asker, ETuple [EAtom ''handoff_err'', EBinary m])]))"
proof
  let ?s = "at_node (br_proc b) (exec_ops (be_other w 0) (br_tables b))"
  have T: "db ?s = T" by (simp add: assms(8))
  note B = Begin_exact [OF assms(2,3), of p src dst ?s, unfolded T] and C = Complete_exact [OF assms(2,3), of p ?s, unfolded T]
  note m = handoff_requests [OF assms(1,4,7)]
  show "if begins src dst (owner_of_partition T p)
      then cl_db (br_tables b1) = T\<lparr>partition_owners := partition_owners (cl_db (br_tables b1))\<rparr> \<and>
        owner_of_partition (cl_db (br_tables b1)) = (owner_of_partition T)(p \<mapsto> begun dst (the (owner_of_partition T p))) \<and>
        br_sent b1 = br_sent b @ [(asker, EAtom ''handoff_ok'')]
      else cl_db (br_tables b1) = T \<and> (\<exists>m. br_sent b1 = br_sent b @ [(asker, ETuple [EAtom ''handoff_err'', EBinary m])])"
    unfolding assms(9) m(1) [OF assms(5,6)] using B
    by (auto simp: replied owner_of_partition_def update_conv' fun_eq_iff split: option.split)
  show "if completes p T
      then cl_db (br_tables b2) = T\<lparr>partition_owners := partition_owners (cl_db (br_tables b2))\<rparr> \<and>
        owner_of_partition (cl_db (br_tables b2)) = (owner_of_partition T)(p \<mapsto> completed (the (owner_of_partition T p))) \<and>
        br_sent b2 = br_sent b @ [(asker, EAtom ''handoff_ok'')]
      else cl_db (br_tables b2) = T \<and> (\<exists>m. br_sent b2 = br_sent b @ [(asker, ETuple [EAtom ''handoff_err'', EBinary m])])"
    unfolding assms(10) m(2) using C
    by (auto simp: replied owner_of_partition_def update_conv' fun_eq_iff split: option.split)
qed


text \<open>
  Node \<open>a\<close> of the sample cluster is asked to begin handing partition 1 to \<open>b\<close>, then to complete it; a second
  request to complete is refused.
\<close>

definition ask_begin :: "nat erl" where
  "ask_begin = ETuple [EAtom ''begin_handoff'', EInt 1, EBinary ''a'', EBinary ''b'', EPid 9]"

definition ask_complete :: "nat erl" where
  "ask_complete = ETuple [EAtom ''complete_handoff'', EInt 1, EPid 9]"

definition bridge_begun :: "nat bridge" where
  "bridge_begun = HandleInfo sample_lib sample_surroundings ask_begin sample_bridge"

theorem bridge_hands_over_witness:
  "map_option (\<lambda>po. (owner_node po, po_state po, next_owner po)) (owner_of_partition (cl_db (br_tables bridge_begun)) 1) =
     Some (''a'', PoDraining, Some ''b'') \<and>
   br_sent bridge_begun = [(9, EAtom ''handoff_ok'')] \<and>
   map_option (\<lambda>po. (owner_node po, po_state po, po_generation po))
     (owner_of_partition (cl_db (br_tables (HandleInfo sample_lib sample_surroundings ask_complete bridge_begun))) 1) =
     Some (''b'', PoActive, 2) \<and>
   (\<exists>m. br_sent (HandleInfo sample_lib sample_surroundings ask_complete sample_bridge) = [(9, ETuple [EAtom ''handoff_err'', EBinary m])])"
proof -
  let ?b = "sample_bridge" and ?w = sample_surroundings
  have q: "pe_ctx (be_pg ?w 0) = None" "\<And>st. pe_fault (be_pg ?w 0) st = None"
    using sample_pg_quiet by (simp_all add: sample_surroundings_def)
  have o: "exec_ops (be_other ?w 0) s = s" for s by (simp add: sample_surroundings_def)
  have v: "asInt (EInt 1 :: nat erl) = Some 1" "asString (EBinary ''a'' :: nat erl) = Some ''a''"
    "asString (EBinary ''b'' :: nat erl) = Some ''b''" "asPid (EPid (9 :: nat)) = Some 9"
    by (simp_all add: asInt_def asString_def asPid_def)
  note h = bridge_hands_over [OF sample_one_based q v refl refl refl, of _ "[]", unfolded o, folded ask_begin_def ask_complete_def]
  have s: "owner_of_partition (cl_db (br_tables ?b)) 1 = Some (new_owner ''a'')" "br_sent ?b = []"
    "\<not> completes 1 (cl_db (br_tables ?b))" "begins ''a'' ''b'' (Some (new_owner ''a''))"
    by code_simp+
  have b: "owner_of_partition (cl_db (br_tables bridge_begun)) 1 = Some (begun ''b'' (new_owner ''a''))"
      "br_sent bridge_begun = [(9, EAtom ''handoff_ok'')]"
    using h [of ?b] s by (simp_all add: bridge_begun_def)
  have "completes 1 (cl_db (br_tables bridge_begun))" by code_simp
  then have "owner_of_partition (cl_db (br_tables (HandleInfo sample_lib ?w ask_complete bridge_begun))) 1 =
      Some (completed (begun ''b'' (new_owner ''a'')))"
    using h [of bridge_begun] b by simp
  then show ?thesis using h [of ?b] s b by (simp add: begun_def completed_def new_owner_def)
qed

end
