(* ===== verification/Spec2Isabelle.thy ===== *)
theory Spec2Isabelle
  imports Hash Backoff Ownership Assign AbstractStore Memory MemoryInv MemoryClaim MemoryRefine
    MemoryProps MemoryRetention MemoryAdmit Signature Transport Dispatcher Workers MemoryFenced
    DispatchProps DeliverProps ClusterProps BenchProps BridgeProps PoolDrained StoresSame PostgresAdmit
    Columns Spikes SplitClaim BridgeHandoff
begin

text \<open>
  A verification library for \<^verbatim>\<open>fold\<close>, an embeddable webhook dispatcher in Go.

  \<^bold>\<open>The program.\<close> A \<^verbatim>\<open>Dispatcher\<close> (\<^verbatim>\<open>fold.go\<close>, \<^verbatim>\<open>worker.go\<close>, \<^verbatim>\<open>types.go\<close>) takes events, turns each into one delivery
  row for each subscriber, and hands the rows to a \<^verbatim>\<open>Store\<close> (\<^verbatim>\<open>store/store.go\<close>); a pool of workers claims rows from
  the store, posts them through a \<^verbatim>\<open>Transport\<close> (\<^verbatim>\<open>transport.go\<close>, \<^verbatim>\<open>deliver.go\<close>), and marks the outcome. The promise
  is order without blocking: the deliveries of one subscriber are attempted in the order they were enqueued,
  a failing one is retried in place, and no subscriber waits for another. A subscriber whose row has used up
  its attempts is suspended; its later rows are retained within bounds until it is resumed. There are two
  stores, in memory (\<^verbatim>\<open>store/memory\<close>) and on Postgres (\<^verbatim>\<open>store/postgres\<close>); on Postgres several processes may share the
  tables, each owning some of the partitions, and partitions move between them gracefully or by force
  (\<^verbatim>\<open>store/postgres/ownership.go\<close>). \<^verbatim>\<open>manifold/go\<close> is such a process, driven by messages of an Erlang cluster.
  \<^verbatim>\<open>bench/fifo\<close> and \<^verbatim>\<open>bench/naive\<close> are the two simpler dispatchers that fold is measured against.

  \<^bold>\<open>Theories and what they model.\<close>
  \<^item> \<open>Prelude\<close>: Go's scalars, \<^verbatim>\<open>fmt\<close>, \<^verbatim>\<open>strconv\<close> and \<^verbatim>\<open>strings\<close>, as far as they are used. Instants are nanoseconds in
    an unbounded integer; durations and counters that Go keeps in 64 bits wrap where the code can reach the
    limit (\<open>wrap64\<close>); hashes and generations are 64-bit words.
  \<^item> \<open>Hash\<close> (\<^verbatim>\<open>internal/hash\<close>), \<open>Backoff\<close> (\<^verbatim>\<open>internal/backoff\<close>), \<open>Ownership\<close> (\<^verbatim>\<open>partition.go\<close>), \<open>Assign\<close> (\<^verbatim>\<open>assign.go\<close>): pure
    functions.
  \<^item> \<open>StoreTypes\<close> (\<^verbatim>\<open>store/store.go\<close>): rows, errors, the interface as a record of functions \<open>store_ops\<close>, a call as
    data, the environment of a call (context, clock, the order in which the runtime visits a map).
  \<^item> \<open>AbstractStore\<close>: the specification. A row is a subscriber, a sequence number and a status; \<open>astep\<close> is the
    step relation, \<open>ainv\<close> its invariant. The locale \<open>ordering_store\<close> is the contract of a store whose calls
    are runs of abstract steps, \<open>fenced_store\<close> extends it by claims that end only in known ways.
  \<^item> \<open>Memory\<close> (\<^verbatim>\<open>store/memory/memory.go\<close>): the store as a record, one definition for each method and each of its loops.
    \<open>MemoryInv\<close>, \<open>MemoryClaim\<close>, \<open>MemoryRefine\<close>, \<open>MemoryFenced\<close> prove it an instance of both contracts; \<open>MemoryProps\<close>,
    \<open>MemoryRetention\<close>, \<open>MemoryAdmit\<close> hold its properties.
  \<^item> \<open>Tables\<close>, \<open>Postgres\<close> (\<^verbatim>\<open>store/postgres/postgres.go\<close>, \<^verbatim>\<open>schema.sql\<close>): four tables, a statement as a function on
    tables, one definition for each method. \<open>PostgresRefine\<close> proves one process an ordering store;
    \<open>Cluster\<close> puts several processes on one database, \<open>Handoff\<close> (\<^verbatim>\<open>ownership.go\<close>) adds the moves of partitions, and
    \<open>PostgresFenced\<close>, \<open>HandoffProps\<close>, \<open>Takeover\<close>, \<open>PostgresProps\<close>, \<open>ClusterProps\<close> prove what holds of them. \<open>Columns\<close>
    is the passage between the columns of a table row and a delivery; \<open>PostgresAdmit\<close> holds what \<^verbatim>\<open>Enqueue\<close> admits.
    \<open>SplitClaim\<close> takes a claim apart into the choice of its rows and its commit, with other sessions in between:
    there the graceful handoff is judged. The dispatcher of one node among the others is \<open>node_step\<close> in \<open>ClusterProps\<close>.
  \<^item> \<open>StoresRows\<close>, \<open>StoresAgree\<close>, \<open>StoresClaim\<close>, \<open>StoresSame\<close>: the two stores side by side; \<open>stores_agree\<close> is kept by
    every call on which they are meant to answer alike.
  \<^item> \<open>Signature\<close>, \<open>Transport\<close> (\<^verbatim>\<open>deliver.go\<close>, \<^verbatim>\<open>transport.go\<close>): signing and verifying, requests, classification of answers.
    HMAC and the HTTP client are parameters.
  \<^item> \<open>Dispatcher\<close> (\<^verbatim>\<open>fold.go\<close>, \<^verbatim>\<open>worker.go\<close>, \<^verbatim>\<open>types.go\<close>): one definition for each method, over any \<open>store_ops\<close>. \<open>Workers\<close>
    runs them: \<open>sys_step\<close> interleaves the goroutines of the pool, the host and other users of the store. \<open>Runs\<close>
    builds concrete runs; \<open>DispatchProps\<close> and \<open>DeliverProps\<close> hold the properties over the memory store, \<open>PoolProps\<close>
    and \<open>PoolDrained\<close> what the pool achieves on its own (\<open>pool_step\<close>, the worker's rules of \<open>sys_step\<close>).
  \<^item> \<open>Bench\<close>, \<open>BenchDispatch\<close>, \<open>BenchRefine\<close>, \<open>BenchProps\<close>: the two baselines; the fifo queue is one more ordering store.
  \<^item> \<open>Bridge\<close> (\<^verbatim>\<open>manifold/go/main.go\<close>): starting a node, and its message handlers over the cluster; \<open>BridgeCalls\<close>,
    \<open>BridgeRows\<close>, \<open>BridgeProps\<close> and \<open>BridgeHandoff\<close> prove what they do. \<open>Spikes\<close>: the actors of the two trial programs and the static check
    of \<^verbatim>\<open>scripts/checkserialize\<close>.

  \<^bold>\<open>What is proved.\<close>
  \<^item> Order: no history of the memory store, of a cluster on Postgres (takeovers included), or of the fifo queue
    hands out an earlier row of a subscriber after a later one; no interleaving of a dispatcher attempts
    them so, or two of one subscriber at a time (on a cluster, as long as no recovery or takeover by another node takes
    a row that it holds). All of these are instances of one proof in \<open>AbstractStore\<close>. The naive
    queue, and the memory store with its head-of-line gate off, are shown to break it.
  \<^item> Fencing: a mark counts for the holder of the claim only, and what it then does is stated; after recovery or a
    takeover the old holder's marks are refused until the row is handed to it anew; a graceful handoff completes on
    a drained partition only, and fences the old owner unless a claim of the partition was half way (\<open>handoff_race\<close> shows
    that such a claim escapes it); a distributed claim takes rows of active partitions of its node only.
  \<^item> Function: which rows a claim returns, what retention keeps and \<^verbatim>\<open>Resume\<close> reports, what a dispatch stores, what an
    attempt does to its row, what a resize and \<^verbatim>\<open>Close\<close> leave, what owner assignment, a takeover retry and a message
    of the bridge do.
  \<^item> Equivalence: over any sequence of plain calls the memory store and an undistributed Postgres store answer alike
    and hold the same rows; \<open>plain_call\<close> names what is left out, which is where the two do differ. \<^verbatim>\<open>Enqueue\<close> on Postgres
    is all or nothing, on the memory store it is not (\<open>memory_enqueue_not_atomic\<close>).
  \<^item> Progress: a claim returns a row if one is claimable; a resumed subscriber can be claimed from at once; after any
    resizes some goroutine of the pool serves each row that waits; the pool posts at most as often as its rows
    have attempts left, and when it finds nothing more to claim nothing is left pending; the fifo worker stops after
    boundedly many deliveries and drains its queue.
  \<^item> Data: hashing, backoff and ownership are in range and exact; signatures, owner tokens and the columns of a table
    row round-trip; the owner table stays within the checks of the schema.

  \<^bold>\<open>Bounds and fuel.\<close> Only \<open>fifo_worker\<close> takes fuel, the number of turns; \<open>fifo_worker_terminates\<close> shows that one more
  than \<open>fifo_work\<close> (the attempts the pending rows may still cost) is enough. All other loops are structural. \<open>sys_work\<close> is
  the same count for a pool over the memory store: no schedule of its goroutines posts more often.

  \<^bold>\<open>Assumptions.\<close> \<open>fair_env\<close>: the runtime visits each key of a map once. \<open>fair_pg\<close>: the server returns the rows of
  \<^verbatim>\<open>RETURNING\<close> in some order, and every subscriber with new retained rows is swept. \<open>mem_inv\<close>, \<open>q_inv\<close> and \<open>cluster_inv\<close>
  hold of fresh stores and are preserved by every call; they include that the switches which the tests use to
  turn a gate off are not set. \<open>alike_env\<close>: two stores are compared at one clock of whole microseconds, with no fault
  of the database. \<open>one_based\<close>: the Erlang library numbers the elements of a tuple from 1.

  \<^bold>\<open>Not modelled.\<close> A call of a store is one atomic step: this is what the mutex of the memory store does, but
  two Postgres calls at READ COMMITTED may interleave inside (\<^verbatim>\<open>SKIP LOCKED\<close> appears as rows a call does not see, and a
  failure of any statement as a value of the environment). Only \<open>SplitClaim\<close> lets them, for \<^verbatim>\<open>Claim\<close>, whose two steps it
  interleaves with whole calls; the properties of the cluster stated elsewhere are about whole calls. Sequence numbers, attempts and counters are unbounded
  integers, since they would have to pass the 64-bit limit to wrap. Notification channels, timers and tickers only say when a worker
  looks again, so a step may always happen. Opening and migrating a database and the advisory locks of the
  tests, JSON encoding, HMAC, the HTTP exchange and the Erlang distribution are libraries or pure I/O; they are
  parameters, or left out. The \<^verbatim>\<open>main\<close> functions of the spikes start an Erlang node and wait. The example, the Elixir side
  of the fleet and the shell scripts have no logic of the program's own.
\<close>

end
